(* ===== verification/Prelude.thy ===== *)
theory Prelude
  imports Main "HOL-Library.Word"
begin

text \<open>
  Shared vocabulary of the development: the machine types of the C++ sources, the
  exceptions of the C++ standard library as values, the result type every throwing
  member function returns, counted \<open>for\<close> loops, and the generic lemmas on lists,
  words and loops the component theories use.
\<close>

unbundle bit_operations_syntax

section \<open>Types\<close>

text \<open>
  \<open>uint64_t\<close> is a 64-bit word and \<open>unsigned char\<close> an 8-bit word, so that shifts,
  masks and additions wrap as they do in the code. C++ \<open>int\<close> values (the base-2
  logarithms of sizes) are \<open>int\<close>, and a shift by 64 or more is undefined; container sizes are \<open>nat\<close>.
\<close>

type_synonym u64 = "64 word"
type_synonym byte = "8 word"
type_synonym bytes = "byte list"

text \<open>
  The exceptions the sources throw, by class, with their message. The last two
  constructors are not C++ exceptions: a failed \<open>assert\<close> aborts the program, and
  an access outside a container or through a dangling reference is undefined. They
  are values of the model so that their absence is a theorem.
\<close>

datatype cpp_exn =
    Out_of_range string
  | Invalid_argument string
  | Logic_error string
  | Runtime_error string
  | Bad_optional_access
  | Assertion_failed string
  | Undefined_behaviour string

type_synonym 'a res = "cpp_exn + 'a"

definition bindR :: "'a res \<Rightarrow> ('a \<Rightarrow> 'b res) \<Rightarrow> 'b res" where
  "bindR m f = (case m of Inl x \<Rightarrow> Inl x | Inr a \<Rightarrow> f a)"

lemma bindR_simps [simp]:
  "bindR (Inl x) f = Inl x"
  "bindR (Inr a) f = f a"
  by (simp_all add: bindR_def)

lemma bindR_assoc: "bindR (bindR m f) g = bindR m (\<lambda>a. bindR (f a) g)"
  by (simp add: bindR_def split: sum.split)

lemma bindR_eq_Inr:
  "bindR m f = Inr b \<longleftrightarrow> (\<exists>a. m = Inr a \<and> f a = Inr b)"
  by (simp add: bindR_def split: sum.split)

lemma bindR_eq_Inl:
  "bindR m f = Inl x \<longleftrightarrow> m = Inl x \<or> (\<exists>a. m = Inr a \<and> f a = Inl x)"
  by (auto simp add: bindR_def split: sum.split)

section \<open>Automation\<close>

named_theorems result_splits \<open>case analysis of successful and failed results\<close>
named_theorems size_simps \<open>lengths of encoded data\<close>

declare bindR_eq_Inr [result_splits] bindR_eq_Inl [result_splits]

section \<open>Counted loops\<close>

text \<open>
  \<^verbatim>\<open>for (int i = a; i < n; ++i) body\<close> with a body that may throw: the state is the
  tuple of variables the body assigns.
\<close>

function for_range :: "int \<Rightarrow> int \<Rightarrow> (int \<Rightarrow> 's \<Rightarrow> 's res) \<Rightarrow> 's \<Rightarrow> 's res" where
  "for_range i n body s =
     (if i < n then bindR (body i s) (\<lambda>s'. for_range (i + 1) n body s') else Inr s)"
  by pat_completeness auto
termination
  by (relation "measure (\<lambda>(i, n, body, s). nat (n - i))") auto

declare for_range.simps [simp del]

lemma for_range_stop [simp]: "n \<le> i \<Longrightarrow> for_range i n body s = Inr s"
  by (simp add: for_range.simps)

lemma for_range_step:
  "i < n \<Longrightarrow> for_range i n body s = bindR (body i s) (\<lambda>s'. for_range (i + 1) n body s')"
  by (subst for_range.simps) simp

text \<open>Total correctness of a counted loop: an invariant indexed by the loop variable.\<close>

lemma for_range_rule:
  assumes "a \<le> n" and "P a s"
    and "\<And>i s. a \<le> i \<Longrightarrow> i < n \<Longrightarrow> P i s \<Longrightarrow> \<exists>s'. body i s = Inr s' \<and> P (i + 1) s'"
  shows "\<exists>s'. for_range a n body s = Inr s' \<and> P n s'"
  using assms
proof (induction a n body s rule: for_range.induct)
  case (1 i n body s)
  show ?case
  proof (cases "i < n")
    case True
    with "1.prems" obtain s' where s': "body i s = Inr s'" "P (i + 1) s'"
      by blast
    have "\<exists>t. for_range (i + 1) n body s' = Inr t \<and> P n t"
      using True "1.prems" s'(2) by (intro "1.IH") auto
    with True s'(1) show ?thesis by (simp add: for_range_step)
  next
    case False
    with "1.prems" show ?thesis by simp
  qed
qed

lemma for_range_split:
  assumes "a \<le> m" and "m \<le> n"
  shows "for_range a n body s = bindR (for_range a m body s) (for_range m n body)"
  using assms
proof (induction a m body s rule: for_range.induct)
  case (1 i m body s)
  show ?case
  proof (cases "i < m")
    case True
    with "1.prems" have "i < n" by simp
    show ?thesis
    proof (cases "body i s")
      case (Inl x)
      with True \<open>i < n\<close> show ?thesis by (simp add: for_range_step)
    next
      case (Inr s')
      with True "1.IH" [of s'] "1.prems"
      have "for_range (i + 1) n body s' = bindR (for_range (i + 1) m body s') (for_range m n body)"
        by simp
      with True \<open>i < n\<close> Inr show ?thesis by (simp add: for_range_step)
    qed
  next
    case False
    with "1.prems" show ?thesis by simp
  qed
qed

lemma for_range_cong:
  assumes "\<And>i s. a \<le> i \<Longrightarrow> i < n \<Longrightarrow> body i s = body' i s"
  shows "for_range a n body s = for_range a n body' s"
  using assms
proof (induction a n body s rule: for_range.induct)
  case (1 i n body s)
  show ?case
  proof (cases "i < n")
    case True
    have eq: "body' i s = body i s" using "1.prems" True by simp
    have IH: "for_range (i + 1) n body s' = for_range (i + 1) n body' s'"
      if "body i s = Inr s'" for s'
      using "1.IH" [OF True, of s'] "1.prems" by simp
    show ?thesis
      using True eq IH by (cases "body i s") (simp_all add: for_range_step)
  next
    case False
    then show ?thesis by simp
  qed
qed

lemma for_range_Inr_body:
  assumes "for_range a n body s = Inr t" "a \<le> i" "i < n"
  shows "\<exists>u v. body i u = Inr v"
  using assms
proof (induction a n body s rule: for_range.induct)
  case (1 a n body s)
  then have "a < n" by simp
  then obtain s' where s': "body a s = Inr s'" "for_range (a + 1) n body s' = Inr t"
    using "1.prems"(1) by (auto simp: for_range_step bindR_eq_Inr)
  show ?case
  proof (cases "i = a")
    case True
    with s'(1) show ?thesis by blast
  next
    case False
    then show ?thesis using "1.IH" [OF \<open>a < n\<close> s'(2)] "1.prems" by simp
  qed
qed

text \<open>A loop over a container whose body may throw.\<close>

primrec foldR :: "('x \<Rightarrow> 's \<Rightarrow> 's res) \<Rightarrow> 'x list \<Rightarrow> 's \<Rightarrow> 's res" where
  "foldR f [] s = Inr s"
| "foldR f (x # xs) s = bindR (f x s) (foldR f xs)"

lemma foldR_append: "foldR f (xs @ ys) s = bindR (foldR f xs s) (foldR f ys)"
  by (induction xs arbitrary: s) (simp_all add: bindR_def split: sum.split)

section \<open>Lists\<close>

text \<open>\<^verbatim>\<open>std::vector::resize\<close>: keep a prefix, or extend with value-initialised elements.\<close>

definition resize :: "nat \<Rightarrow> 'a \<Rightarrow> 'a list \<Rightarrow> 'a list" where
  "resize n d xs = take n xs @ replicate (n - length xs) d"

lemma length_resize [simp]: "length (resize n d xs) = n"
  by (simp add: resize_def)

lemma nth_resize: "i < n \<Longrightarrow> i < length xs \<Longrightarrow> resize n d xs ! i = xs ! i"
  by (simp add: resize_def nth_append)

lemma append_eq_same_length:
  "length a = length c \<Longrightarrow> a @ b = c @ d \<longleftrightarrow> a = c \<and> b = d"
  by auto

text \<open>A loop that assigns the entries of an index range.\<close>

lemma length_fold_update [simp]: "length (fold (\<lambda>i ys. ys[i := g i]) is xs) = length xs"
  by (induction "is" arbitrary: xs) simp_all

lemma nth_fold_update:
  assumes "i < length xs"
  shows "fold (\<lambda>i ys. ys[i := g i]) [a..<b] xs ! i = (if a \<le> i \<and> i < b then g i else xs ! i)"
  using assms
proof (induction b)
  case 0
  then show ?case by simp
next
  case (Suc b)
  then show ?case by (cases "a \<le> b") (auto simp: nth_list_update less_Suc_eq)
qed

section \<open>Words\<close>

text \<open>A masked bit is the bit: the test the Merkle tree code writes on addresses.\<close>

lemma and_one_shifted_eq_0:
  fixes w :: u64
  shows "w AND push_bit n 1 \<noteq> 0 \<longleftrightarrow> bit w n"
  by (simp add: bit_iff_and_push_bit_not_eq_0)

lemma unat_drop_bit: "unat (drop_bit n w) = unat w div 2 ^ n" for w :: u64
proof -
  have "unat (drop_bit n w) = drop_bit n (unat w)"
    by (rule bit_eqI) (auto simp: bit_simps dest: bit_imp_le_length)
  then show ?thesis by (simp add: drop_bit_eq_div)
qed

lemma bit_iff_odd_unat: "bit w n \<longleftrightarrow> odd (unat w div 2 ^ n)" for w :: u64
proof -
  have "bit w n \<longleftrightarrow> bit (unat w) n"
    by (auto simp: bit_simps dest: bit_imp_le_length)
  then show ?thesis by (simp add: bit_iff_odd)
qed

lemma unat_shifted_one: "n < 64 \<Longrightarrow> unat (push_bit n 1 :: u64) = 2 ^ n"
  by (simp only: unsigned_push_bit_eq) (simp add: take_bit_nat_eq_self)

lemma drop_bit_flip:
  "n < 64 \<Longrightarrow> drop_bit n (w XOR push_bit n 1) = drop_bit n w XOR 1" for w :: u64
  by (rule bit_word_eqI) (auto simp: bit_simps)

lemma unat_flip_lowest:
  "unat (w XOR 1) = (if odd (unat w) then unat w - 1 else unat w + 1)" for w :: u64
proof -
  have "unat (w XOR 1) = unat w XOR Suc 0"
    by (simp add: unsigned_xor_eq)
  then show ?thesis
    by (simp add: xor_Suc_0_eq)
qed

end
