(* ===== verification/Hasher.thy ===== *)
theory Hasher
  imports Prelude
begin

text \<open>
  The hasher interface (\<^verbatim>\<open>src/src/i-hasher.h\<close>) and its Keccak-256 implementation
  (\<^verbatim>\<open>src/src/cryptopp-keccak-256-hasher.h\<close>). The digest itself belongs to the
  Crypto++ library: it is the parameter \<open>K\<close> of every definition that hashes, a
  function from the absorbed bytes to the digest. The only fact about it that is ever
  assumed is its length (\<open>keccak_256\<close>); no injectivity is assumed anywhere, the
  theorems about binding exhibit the colliding pair instead.
\<close>

type_synonym hash_type = bytes
type_synonym digest = "bytes \<Rightarrow> hash_type"

text \<open>\<open>CryptoPP::Keccak_256::DIGESTSIZE\<close>; \<open>hash_type\<close> is an array of that size.\<close>

definition hash_size :: nat where
  "hash_size = 32"

definition keccak_256 :: "digest \<Rightarrow> bool" where
  "keccak_256 K \<longleftrightarrow> (\<forall>data. length (K data) = hash_size)"

definition zero_hash :: hash_type where
  "zero_hash = replicate hash_size 0"

lemma length_zero_hash [size_simps, simp]: "length zero_hash = 32"
  by (simp add: zero_hash_def hash_size_def)

text \<open>
  The hasher object: what has been absorbed since the last restart. \<open>Restart\<close>
  empties it, \<open>Update\<close> appends, \<open>Final\<close> yields the digest and restarts.
\<close>

record keccak_256_hasher =
  kc :: bytes

definition do_begin :: "keccak_256_hasher \<Rightarrow> keccak_256_hasher" where
  "do_begin h = h\<lparr>kc := []\<rparr>"

definition do_add_data :: "keccak_256_hasher \<Rightarrow> bytes \<Rightarrow> keccak_256_hasher" where
  "do_add_data h data = h\<lparr>kc := kc h @ data\<rparr>"

definition do_end :: "digest \<Rightarrow> keccak_256_hasher \<Rightarrow> hash_type \<times> keccak_256_hasher" where
  "do_end K h = (K (kc h), h\<lparr>kc := []\<rparr>)"

text \<open>Both overloads of \<open>get_concat_hash\<close>: the hash of two concatenated hashes.\<close>

definition get_concat_hash ::
  "digest \<Rightarrow> keccak_256_hasher \<Rightarrow> hash_type \<Rightarrow> hash_type \<Rightarrow> hash_type \<times> keccak_256_hasher" where
  "get_concat_hash K h left right =
     (let h1 = do_begin h;
          h2 = do_add_data h1 left;
          h3 = do_add_data h2 right
      in do_end K h3)"

lemma get_concat_hash_any_state: "fst (get_concat_hash K h l r) = K (l @ r)"
  by (simp add: get_concat_hash_def do_begin_def do_add_data_def do_end_def)

text \<open>
  The result does not depend on what the hasher object held before, so the tree code,
  which reuses one local hasher for many nodes, is modelled with a fresh one per node.
\<close>

definition concat_hash :: "digest \<Rightarrow> hash_type \<Rightarrow> hash_type \<Rightarrow> hash_type" where
  "concat_hash K l r = fst (get_concat_hash K \<lparr>kc = []\<rparr> l r)"

lemma concat_hash_eq: "concat_hash K l r = K (l @ r)"
  by (simp add: concat_hash_def get_concat_hash_any_state)

lemma length_concat_hash [size_simps]: "keccak_256 K \<Longrightarrow> length (concat_hash K l r) = hash_size"
  by (simp add: concat_hash_eq keccak_256_def)

text \<open>The hash of one block of data: \<open>begin\<close>, \<open>add_data\<close>, \<open>end\<close>.\<close>

definition data_hash :: "digest \<Rightarrow> bytes \<Rightarrow> hash_type" where
  "data_hash K data = fst (do_end K (do_add_data (do_begin \<lparr>kc = []\<rparr>) data))"

lemma data_hash_eq: "data_hash K data = K data"
  by (simp add: data_hash_def do_begin_def do_add_data_def do_end_def)

text \<open>
  Two different pairs of hashes with the same concatenated hash are a collision of
  the digest; hashes have a fixed size, so nothing is lost in the concatenation.
\<close>

definition collision :: "digest \<Rightarrow> bytes \<Rightarrow> bytes \<Rightarrow> bool" where
  "collision K x y \<longleftrightarrow> x \<noteq> y \<and> K x = K y"

lemma concat_hash_eqD:
  assumes "concat_hash K l r = concat_hash K l' r'" and "length l = length l'"
  shows "l = l' \<and> r = r' \<or> collision K (l @ r) (l' @ r')"
  using assms by (auto simp: concat_hash_eq collision_def)

text \<open>
  A digest to 32 bytes has collisions; a statement that needs there to be none says among which
  strings, those the code hashes.
\<close>

definition collides :: "digest \<Rightarrow> bytes set \<Rightarrow> bytes set \<Rightarrow> bool" where
  "collides K X Y \<longleftrightarrow> (\<exists>x \<in> X. \<exists>y \<in> Y. collision K x y)"

lemma collidesI: "collision K x y \<Longrightarrow> x \<in> X \<Longrightarrow> y \<in> Y \<Longrightarrow> collides K X Y"
  by (auto simp: collides_def)

lemma collides_mono: "collides K X Y \<Longrightarrow> X \<subseteq> X' \<Longrightarrow> Y \<subseteq> Y' \<Longrightarrow> collides K X' Y'"
  by (auto simp: collides_def)

text \<open>
  A small digest with the right size, cheap to evaluate, for concrete instances: it mixes
  the last bytes of the two halves of a concatenation.
\<close>

definition sample_digest :: digest where
  "sample_digest data =
     replicate 31 0 @ [if length data = 64 then 3 * data ! 31 + data ! 63 + 1 else 7]"

lemma keccak_256_sample_digest [simp]: "keccak_256 sample_digest"
  by (simp add: keccak_256_def sample_digest_def hash_size_def)

end
