(* ===== verification/Merkle_Spec.thy ===== *)
theory Merkle_Spec
  imports Hasher
begin

text \<open>
  The abstract Merkle tree the optimised classes implement: a function from leaf
  positions to leaf hashes, hashed pairwise level by level. Level 0 holds the leaves;
  node \<open>i\<close> of level \<open>l\<close> covers the leaves from \<open>i * 2 ^ l\<close> up to
  \<open>(i + 1) * 2 ^ l\<close>. The interface \<open>hash_levels\<close> states the one law every
  level-by-level table of hashes satisfies and derives from it that walking from a
  node to the root along its siblings reproduces the root.
\<close>

section \<open>Reference trees\<close>

primrec tree_node :: "digest \<Rightarrow> (nat \<Rightarrow> hash_type) \<Rightarrow> nat \<Rightarrow> nat \<Rightarrow> hash_type" where
  "tree_node K f 0 i = f i"
| "tree_node K f (Suc l) i =
     concat_hash K (tree_node K f l (2 * i)) (tree_node K f l (2 * i + 1))"

text \<open>The tree all of whose leaves are the same hash \<open>p\<close>.\<close>

primrec pristine_node :: "digest \<Rightarrow> hash_type \<Rightarrow> nat \<Rightarrow> hash_type" where
  "pristine_node K p 0 = p"
| "pristine_node K p (Suc l) = concat_hash K (pristine_node K p l) (pristine_node K p l)"

text \<open>A list of leaves, flushed left, followed by pristine leaves.\<close>

definition padded :: "hash_type list \<Rightarrow> hash_type \<Rightarrow> nat \<Rightarrow> hash_type" where
  "padded leaves p i = (if i < length leaves then leaves ! i else p)"

lemma tree_node_cong:
  assumes "\<And>j. i * 2 ^ l \<le> j \<Longrightarrow> j < (i + 1) * 2 ^ l \<Longrightarrow> f j = g j"
  shows "tree_node K f l i = tree_node K g l i"
  using assms
proof (induction l arbitrary: i)
  case 0
  then show ?case by simp
next
  case (Suc l)
  have "tree_node K f l (2 * i) = tree_node K g l (2 * i)"
    by (rule Suc.IH, rule Suc.prems) (auto simp: algebra_simps)
  moreover have "tree_node K f l (2 * i + 1) = tree_node K g l (2 * i + 1)"
    by (rule Suc.IH, rule Suc.prems) (auto simp: algebra_simps)
  ultimately show ?case by simp
qed

lemma tree_node_const: "tree_node K (\<lambda>_. p) l i = pristine_node K p l"
  by (induction l arbitrary: i) simp_all

lemma tree_node_pristine:
  assumes "\<And>j. i * 2 ^ l \<le> j \<Longrightarrow> j < (i + 1) * 2 ^ l \<Longrightarrow> f j = p"
  shows "tree_node K f l i = pristine_node K p l"
  using tree_node_cong [of i l f "\<lambda>_. p" K] assms by (simp add: tree_node_const)

lemma pristine_node_add:
  "pristine_node K (pristine_node K p m) l = pristine_node K p (m + l)"
  by (induction l) simp_all

lemma length_tree_node [size_simps]:
  assumes "keccak_256 K" and "\<And>j. length (f j) = hash_size"
  shows "length (tree_node K f l i) = hash_size"
  using assms by (cases l) (simp_all add: length_concat_hash)

section \<open>Walking towards the root\<close>

text \<open>
  One step of the walk: combine the running hash with its sibling. \<open>right\<close> says that
  the running hash is the right child.
\<close>

definition path_step :: "digest \<Rightarrow> bool \<Rightarrow> hash_type \<Rightarrow> hash_type \<Rightarrow> hash_type" where
  "path_step K right sibling hash =
     (if right then concat_hash K sibling hash else concat_hash K hash sibling)"

definition sibling_index :: "nat \<Rightarrow> nat" where
  "sibling_index i = (if odd i then i - 1 else i + 1)"

lemma length_path_step [size_simps]:
  "keccak_256 K \<Longrightarrow> length (path_step K b s h) = hash_size"
  by (simp add: path_step_def length_concat_hash)

text \<open>The string the step hashes.\<close>

definition path_input :: "bool \<Rightarrow> hash_type \<Rightarrow> hash_type \<Rightarrow> bytes" where
  "path_input right sibling hash = (if right then sibling @ hash else hash @ sibling)"

lemma path_step_eqD:
  assumes "path_step K b s h = path_step K b s' h'"
    and "length s = hash_size" "length s' = hash_size" "length h = hash_size" "length h' = hash_size"
  shows "s = s' \<and> h = h' \<or> collision K (path_input b s h) (path_input b s' h')"
  using assms concat_hash_eqD [of K s h s' h'] concat_hash_eqD [of K h s h' s']
  by (auto simp: path_step_def path_input_def split: if_splits)

text \<open>
  The whole walk, from level \<open>l\<close> through \<open>n\<close> levels, given for each level
  whether the running node is a right child and the hash of its sibling.
\<close>

primrec climb ::
  "digest \<Rightarrow> (nat \<Rightarrow> bool) \<Rightarrow> (nat \<Rightarrow> hash_type) \<Rightarrow> nat \<Rightarrow> nat \<Rightarrow> hash_type \<Rightarrow> hash_type" where
  "climb K right sib l 0 h = h"
| "climb K right sib l (Suc n) h = climb K right sib (Suc l) n (path_step K (right l) (sib l) h)"

lemma climb_add:
  "climb K right sib l (m + n) h = climb K right sib (l + m) n (climb K right sib l m h)"
  by (induction m arbitrary: l h) simp_all

lemma climb_Suc_last:
  "climb K right sib l (Suc n) h =
     path_step K (right (l + n)) (sib (l + n)) (climb K right sib l n h)"
  using climb_add [of K right sib l n 1 h] by simp

lemma climb_cong:
  assumes "\<And>k. l \<le> k \<Longrightarrow> k < l + n \<Longrightarrow> right k = right' k \<and> sib k = sib' k"
  shows "climb K right sib l n h = climb K right' sib' l n h"
  using assms by (induction n arbitrary: l h) simp_all

text \<open>The strings the walk hashes.\<close>

primrec climb_inputs ::
  "digest \<Rightarrow> (nat \<Rightarrow> bool) \<Rightarrow> (nat \<Rightarrow> hash_type) \<Rightarrow> nat \<Rightarrow> nat \<Rightarrow> hash_type \<Rightarrow> bytes set" where
  "climb_inputs K right sib l 0 h = {}"
| "climb_inputs K right sib l (Suc n) h = insert (path_input (right l) (sib l) h)
     (climb_inputs K right sib (Suc l) n (path_step K (right l) (sib l) h))"

text \<open>
  The walk is binding: two walks through the same positions that end in the same hash
  started from the same hash and met the same siblings, or hashed two strings that collide.
\<close>

lemma climb_binding:
  assumes "keccak_256 K"
    and "climb K right sib l n h = climb K right sib' l n h'"
    and "length h = hash_size" "length h' = hash_size"
    and "\<And>k. l \<le> k \<Longrightarrow> k < l + n \<Longrightarrow> length (sib k) = hash_size \<and> length (sib' k) = hash_size"
  shows "h = h' \<and> (\<forall>k. l \<le> k \<and> k < l + n \<longrightarrow> sib k = sib' k) \<or>
    collides K (climb_inputs K right sib l n h) (climb_inputs K right sib' l n h')"
  using assms(2-5)
proof (induction n arbitrary: l h h')
  case 0
  then show ?case by auto
next
  case (Suc n)
  let ?g = "path_step K (right l) (sib l) h" and ?g' = "path_step K (right l) (sib' l) h'"
  let ?X = "climb_inputs K right sib l (Suc n) h" and ?Y = "climb_inputs K right sib' l (Suc n) h'"
  have IH: "?g = ?g' \<and> (\<forall>k. Suc l \<le> k \<and> k < Suc l + n \<longrightarrow> sib k = sib' k) \<or>
      collides K (climb_inputs K right sib (Suc l) n ?g) (climb_inputs K right sib' (Suc l) n ?g')"
    using Suc.prems(1,4) length_path_step [OF assms(1)] by (intro Suc.IH) simp_all
  have up: "collides K (climb_inputs K right sib (Suc l) n ?g) (climb_inputs K right sib' (Suc l) n ?g') \<Longrightarrow> collides K ?X ?Y"
    by (erule collides_mono) auto
  have here: "sib l = sib' l \<and> h = h' \<or> collides K ?X ?Y" if "?g = ?g'"
    using path_step_eqD [OF that] Suc.prems(2,3,4) by (auto intro: collidesI)
  have "k = l \<or> Suc l \<le> k" if "l \<le> k" for k using that by auto
  with IH here up show ?case by (metis add_Suc add_Suc_right)
qed

text \<open>The strings hashed for a node of the reference tree; a node binds all leaves below it.\<close>

primrec tree_inputs :: "digest \<Rightarrow> (nat \<Rightarrow> hash_type) \<Rightarrow> nat \<Rightarrow> nat \<Rightarrow> bytes set" where
  "tree_inputs K f 0 i = {}"
| "tree_inputs K f (Suc l) i = insert (tree_node K f l (2 * i) @ tree_node K f l (2 * i + 1))
     (tree_inputs K f l (2 * i) \<union> tree_inputs K f l (2 * i + 1))"

lemma tree_node_binding:
  assumes "keccak_256 K" "\<And>j. length (f j) = hash_size" "\<And>j. length (g j) = hash_size" "tree_node K f l i = tree_node K g l i"
  shows "(\<forall>j. i * 2 ^ l \<le> j \<and> j < (i + 1) * 2 ^ l \<longrightarrow> f j = g j) \<or> collides K (tree_inputs K f l i) (tree_inputs K g l i)"
  using assms(4)
proof (induction l arbitrary: i)
  case 0
  then show ?case by (auto simp: le_less_Suc_eq)
next
  case (Suc l)
  let ?c = "collides K (tree_inputs K f (Suc l) i) (tree_inputs K g (Suc l) i)"
  have mono: "collides K (tree_inputs K f l j) (tree_inputs K g l j) \<Longrightarrow> ?c" if "j \<in> {2 * i, 2 * i + 1}" for j
    by (erule collides_mono) (use that in auto)
  have "length (tree_node K f l (2 * i)) = length (tree_node K g l (2 * i))"
    using assms(1-3) by (simp add: length_tree_node)
  moreover have "concat_hash K (tree_node K f l (2 * i)) (tree_node K f l (2 * i + 1)) =
      concat_hash K (tree_node K g l (2 * i)) (tree_node K g l (2 * i + 1))" using Suc.prems by simp
  ultimately consider "tree_node K f l (2 * i) = tree_node K g l (2 * i)" "tree_node K f l (2 * i + 1) = tree_node K g l (2 * i + 1)"
    | ?c using concat_hash_eqD collidesI [of K] by fastforce
  then show ?case
  proof cases
    case 1
    have "j < (2 * i + 1) * 2 ^ l \<or> (2 * i + 1) * 2 ^ l \<le> j" for j :: nat by linarith
    moreover have "i * 2 ^ Suc l = 2 * i * 2 ^ l" "(i + 1) * 2 ^ Suc l = (2 * i + 1 + 1) * 2 ^ l" by (simp_all add: algebra_simps)
    ultimately show ?thesis using Suc.IH [OF 1(1)] Suc.IH [OF 1(2)] mono by (metis insertCI)
  qed blast
qed

locale hash_levels =
  fixes K :: digest
    and base :: nat
    and nd :: "nat \<Rightarrow> nat \<Rightarrow> hash_type"
  assumes level_step:
    "base \<le> l \<Longrightarrow> nd (Suc l) i = concat_hash K (nd l (2 * i)) (nd l (2 * i + 1))"
begin

lemma step_up:
  assumes "base \<le> l"
  shows "nd (Suc l) (i div 2) = path_step K (odd i) (nd l (sibling_index i)) (nd l i)"
proof (cases "even i")
  case True
  then obtain j where "i = 2 * j" by blast
  then show ?thesis using assms by (simp add: level_step path_step_def sibling_index_def)
next
  case False
  then obtain j where "i = 2 * j + 1" using oddE by blast
  then show ?thesis using assms by (simp add: level_step path_step_def sibling_index_def)
qed

text \<open>
  Walking up from the node of level \<open>l\<close> above the address \<open>a\<close>, with the siblings
  taken from the table, gives the nodes of the table.
\<close>

lemma climb_levels:
  assumes "base \<le> l"
  shows "climb K (\<lambda>k. odd (a div 2 ^ k)) (\<lambda>k. nd k (sibling_index (a div 2 ^ k))) l n
           (nd l (a div 2 ^ l)) = nd (l + n) (a div 2 ^ (l + n))"
proof (induction n)
  case 0
  then show ?case by simp
next
  case (Suc n)
  have "a div 2 ^ Suc (l + n) = a div 2 ^ (l + n) div 2"
    by (simp only: power_Suc2 div_mult2_eq)
  moreover have "base \<le> l + n" using assms by simp
  ultimately show ?case
    using Suc.IH step_up [of "l + n" "a div 2 ^ (l + n)"] by (simp add: climb_Suc_last del: climb.simps)
qed

end

text \<open>Every reference tree is such a table, from any level its leaves are placed at.\<close>

interpretation tree: hash_levels K base "\<lambda>l. tree_node K f (l - base)" for K base f
  by unfold_locales (simp add: Suc_diff_le)

section \<open>Accumulators\<close>

text \<open>The root of the tree of depth \<open>depth\<close> over the given leaves, padded with \<open>p\<close>.\<close>

definition spec_root :: "digest \<Rightarrow> hash_type \<Rightarrow> nat \<Rightarrow> hash_type list \<Rightarrow> hash_type" where
  "spec_root K p depth leaves = tree_node K (padded leaves p) depth 0"

text \<open>
  The contract of a class that accumulates leaves: leaves are appended while there is
  room, a full tree refuses, and the root hash is that of the reference tree. Both
  tree classes of the repository provide it.
\<close>

locale merkle_accumulator =
  fixes push :: "hash_type \<Rightarrow> 't \<Rightarrow> 't res"
    and root :: "'t \<Rightarrow> hash_type res"
    and inv :: "hash_type list \<Rightarrow> 't \<Rightarrow> bool"
    and K :: digest
    and p :: hash_type
    and depth :: nat
  assumes push_room:
      "inv leaves t \<Longrightarrow> length leaves < 2 ^ depth \<Longrightarrow> \<exists>t'. push h t = Inr t' \<and> inv (leaves @ [h]) t'"
    and push_no_room: "inv leaves t \<Longrightarrow> length leaves = 2 ^ depth \<Longrightarrow> \<exists>x. push h t = Inl x"
    and root_spec: "inv leaves t \<Longrightarrow> root t = Inr (spec_root K p depth leaves)"
    and capacity: "inv leaves t \<Longrightarrow> length leaves \<le> 2 ^ depth"
begin

lemma push_all:
  assumes "inv leaves t" "length leaves + length hs \<le> 2 ^ depth"
  shows "\<exists>t'. foldR push hs t = Inr t' \<and> inv (leaves @ hs) t'"
  using assms
proof (induction hs arbitrary: leaves t)
  case Nil
  then show ?case by simp
next
  case (Cons h hs)
  then obtain t1 where t1: "push h t = Inr t1" "inv (leaves @ [h]) t1"
    using push_room [of leaves t h] by auto
  with Cons.IH [OF t1(2)] Cons.prems show ?case by simp
qed

lemma push_all_overflow:
  assumes "inv leaves t" "2 ^ depth < length leaves + length hs"
  shows "\<exists>x. foldR push hs t = Inl x"
proof -
  define n where "n = 2 ^ depth - length leaves"
  have cap: "length leaves \<le> 2 ^ depth" using capacity [OF assms(1)] .
  have n: "n < length hs" using assms(2) cap unfolding n_def by linarith
  obtain t1 where t1: "foldR push (take n hs) t = Inr t1" "inv (leaves @ take n hs) t1"
    using push_all [OF assms(1), of "take n hs"] cap n by (auto simp: n_def)
  have "length (leaves @ take n hs) = 2 ^ depth" using cap n by (simp add: n_def)
  then obtain x where "push (hs ! n) t1 = Inl x" using push_no_room [OF t1(2)] by blast
  moreover have "hs = take n hs @ hs ! n # drop (Suc n) hs" using n by (simp add: id_take_nth_drop)
  ultimately show ?thesis using t1(1) foldR_append [of push "take n hs" "hs ! n # drop (Suc n) hs" t] by simp
qed

lemma root_after_push_all:
  assumes "inv [] t" "length hs \<le> 2 ^ depth" "foldR push hs t = Inr t'"
  shows "root t' = Inr (spec_root K p depth hs)"
  using push_all [OF assms(1), of hs] assms(2,3) root_spec by auto

end

end
