(* ===== verification/Pristine_Tree.thy ===== *)
theory Pristine_Tree
  imports Merkle_Spec
begin

text \<open>
  \<^verbatim>\<open>src/src/pristine-merkle-tree.cpp\<close>: the hashes of all-zero subtrees, one per level
  between the word and the root.
\<close>

record pristine_merkle_tree =
  pri_log2_root_size :: int
  pri_log2_word_size :: int
  pri_hashes :: "hash_type list"

text \<open>
  The loop that fills \<open>m_hashes\<close>: entry 0 is given, entry \<open>i\<close> is the concatenated
  hash of entry \<open>i - 1\<close> with itself.
\<close>

primrec fill_pristine :: "digest \<Rightarrow> nat \<Rightarrow> hash_type \<Rightarrow> hash_type list" where
  "fill_pristine K 0 h = []"
| "fill_pristine K (Suc n) h = h # fill_pristine K n (concat_hash K h h)"

text \<open>
  The constructor. The word of zeros has \<open>1 << log2_word_size\<close> bytes; that shift is
  an \<open>int\<close> shift, undefined from 31 on.
\<close>

definition new_pristine_merkle_tree :: "digest \<Rightarrow> int \<Rightarrow> int \<Rightarrow> pristine_merkle_tree res" where
  "new_pristine_merkle_tree K log2_root_size log2_word_size =
     (if log2_root_size < 0 then Inl (Out_of_range ''log2_root_size is negative'')
      else if log2_word_size < 0 then Inl (Out_of_range ''log2_word_size is negative'')
      else if log2_word_size > log2_root_size
        then Inl (Out_of_range ''log2_word_size is greater than log2_root_size'')
      else if log2_word_size \<ge> 31 then Inl (Undefined_behaviour ''int shift'')
      else
        (let word = replicate (2 ^ nat log2_word_size) 0;
             hashes = fill_pristine K (nat (log2_root_size - log2_word_size + 1)) (data_hash K word)
         in Inr \<lparr>pri_log2_root_size = log2_root_size, pri_log2_word_size = log2_word_size,
                 pri_hashes = hashes\<rparr>))"

definition pri_get_hash :: "pristine_merkle_tree \<Rightarrow> int \<Rightarrow> hash_type res" where
  "pri_get_hash t log2_size =
     (if log2_size < pri_log2_word_size t \<or> log2_size > pri_log2_root_size t
      then Inl (Out_of_range ''log2_size is out of range'')
      else Inr (pri_hashes t ! nat (log2_size - pri_log2_word_size t)))"

section \<open>Correctness\<close>

lemma length_fill_pristine [simp]: "length (fill_pristine K n h) = n"
  by (induction n arbitrary: h) simp_all

lemma nth_fill_pristine: "i < n \<Longrightarrow> fill_pristine K n h ! i = pristine_node K h i"
proof (induction n arbitrary: h i)
  case 0
  then show ?case by simp
next
  case (Suc n)
  then show ?case
  proof (cases i)
    case 0
    then show ?thesis by simp
  next
    case (Suc j)
    with Suc.prems Suc.IH [of j "concat_hash K h h"]
    have "fill_pristine K (Suc n) h ! i = pristine_node K (pristine_node K h 1) j" by simp
    then show ?thesis using Suc by (simp only: pristine_node_add) simp
  qed
qed

text \<open>The hash of the word of zeros: the leaf all pristine hashes are built from.\<close>

definition zero_word_hash :: "digest \<Rightarrow> int \<Rightarrow> hash_type" where
  "zero_word_hash K log2_word_size = K (replicate (2 ^ nat log2_word_size) 0)"

definition pristine_ok :: "digest \<Rightarrow> pristine_merkle_tree \<Rightarrow> bool" where
  "pristine_ok K t \<longleftrightarrow>
     0 \<le> pri_log2_word_size t \<and> pri_log2_word_size t \<le> pri_log2_root_size t \<and>
     (\<forall>l. pri_log2_word_size t \<le> l \<and> l \<le> pri_log2_root_size t \<longrightarrow>
        pri_get_hash t l =
          Inr (pristine_node K (zero_word_hash K (pri_log2_word_size t))
                 (nat (l - pri_log2_word_size t))))"

lemma new_pristine_merkle_tree_Inr:
  assumes "0 \<le> w" "w \<le> r" "w < 31"
  shows "\<exists>t. new_pristine_merkle_tree K r w = Inr t \<and> pristine_ok K t \<and>
     pri_log2_root_size t = r \<and> pri_log2_word_size t = w"
  using assms
  by (auto simp: new_pristine_merkle_tree_def pristine_ok_def pri_get_hash_def nth_fill_pristine
      data_hash_eq zero_word_hash_def nat_diff_distrib')

lemma new_pristine_merkle_tree_ok:
  "new_pristine_merkle_tree K r w = Inr t \<Longrightarrow>
     pristine_ok K t \<and> pri_log2_root_size t = r \<and> pri_log2_word_size t = w \<and>
     0 \<le> w \<and> w \<le> r \<and> w < 31"
  using new_pristine_merkle_tree_Inr [of w r K]
  by (auto simp: new_pristine_merkle_tree_def split: if_splits)

lemma length_pristine_node [size_simps]:
  "keccak_256 K \<Longrightarrow> length p = hash_size \<Longrightarrow> length (pristine_node K p l) = hash_size"
  by (cases l) (simp_all add: length_concat_hash)

text \<open>
  Consecutive levels are linked by the concatenated hash, which is what makes a
  pristine subtree interchangeable with an explicit one.
\<close>

lemma pristine_ok_step:
  assumes "pristine_ok K t" "pri_log2_word_size t \<le> l" "l < pri_log2_root_size t"
    and "pri_get_hash t l = Inr h"
  shows "pri_get_hash t (l + 1) = Inr (concat_hash K h h)"
proof -
  have "nat (l + 1 - pri_log2_word_size t) = Suc (nat (l - pri_log2_word_size t))"
    using assms(2) by simp
  then show ?thesis using assms by (simp add: pristine_ok_def)
qed

end
