(* ===== verification/Merkle_Proof.thy ===== *)
theory Merkle_Proof
  imports Merkle_Spec
begin

text \<open>
  \<^verbatim>\<open>src/src/merkle-tree-proof.h\<close>: the proof that a node of a Merkle tree has a certain
  hash. Member functions that may throw return a \<open>res\<close>.
\<close>

record merkle_tree_proof =
  mtp_target_address :: u64
  mtp_log2_target_size :: int
  mtp_target_hash :: hash_type
  mtp_log2_root_size :: int
  mtp_root_hash :: hash_type
  mtp_sibling_hashes :: "hash_type list"

definition new_merkle_tree_proof :: "int \<Rightarrow> int \<Rightarrow> merkle_tree_proof res" where
  "new_merkle_tree_proof log2_root_size log2_target_size =
     (if log2_root_size \<le> 0 then Inl (Out_of_range ''log2_root_size is not positive'')
      else if log2_target_size < 0 then Inl (Out_of_range ''log2_target_size is negative'')
      else if log2_target_size > log2_root_size
        then Inl (Out_of_range ''log2_target_size is greater than log2_root_size'')
      else Inr \<lparr>mtp_target_address = 0, mtp_log2_target_size = log2_target_size,
                mtp_target_hash = zero_hash, mtp_log2_root_size = log2_root_size,
                mtp_root_hash = zero_hash,
                mtp_sibling_hashes =
                  replicate (nat (max 0 (log2_root_size - log2_target_size))) zero_hash\<rparr>)"

definition set_target_address :: "u64 \<Rightarrow> merkle_tree_proof \<Rightarrow> merkle_tree_proof" where
  "set_target_address a p = p\<lparr>mtp_target_address := a\<rparr>"

definition set_target_hash :: "hash_type \<Rightarrow> merkle_tree_proof \<Rightarrow> merkle_tree_proof" where
  "set_target_hash h p = p\<lparr>mtp_target_hash := h\<rparr>"

definition set_root_hash :: "hash_type \<Rightarrow> merkle_tree_proof \<Rightarrow> merkle_tree_proof" where
  "set_root_hash h p = p\<lparr>mtp_root_hash := h\<rparr>"

text \<open>Siblings are stored from the root down; the index is checked on every access.\<close>

definition log2_size_to_index :: "merkle_tree_proof \<Rightarrow> int \<Rightarrow> nat res" where
  "log2_size_to_index p log2_size =
     (let index = mtp_log2_root_size p - 1 - log2_size
      in if index < 0 \<or> index \<ge> int (length (mtp_sibling_hashes p))
         then Inl (Out_of_range ''log2_size is out of range'')
         else Inr (nat index))"

definition get_sibling_hash :: "merkle_tree_proof \<Rightarrow> int \<Rightarrow> hash_type res" where
  "get_sibling_hash p log2_size =
     bindR (log2_size_to_index p log2_size) (\<lambda>i. Inr (mtp_sibling_hashes p ! i))"

definition set_sibling_hash :: "hash_type \<Rightarrow> int \<Rightarrow> merkle_tree_proof \<Rightarrow> merkle_tree_proof res" where
  "set_sibling_hash hash log2_size p =
     bindR (log2_size_to_index p log2_size)
       (\<lambda>i. Inr (p\<lparr>mtp_sibling_hashes := (mtp_sibling_hashes p)[i := hash]\<rparr>))"

text \<open>\<open>operator==\<close>, field by field.\<close>

definition proof_equal :: "merkle_tree_proof \<Rightarrow> merkle_tree_proof \<Rightarrow> bool" where
  "proof_equal p q =
     (if mtp_log2_target_size p \<noteq> mtp_log2_target_size q then False
      else if mtp_log2_root_size p \<noteq> mtp_log2_root_size q then False
      else if mtp_target_address p \<noteq> mtp_target_address q then False
      else if mtp_root_hash p \<noteq> mtp_root_hash q then False
      else if mtp_target_hash p \<noteq> mtp_target_hash q then False
      else if mtp_sibling_hashes p \<noteq> mtp_sibling_hashes q then False
      else True)"

text \<open>
  A shift of a 64-bit integer is undefined unless it is by 0 to 63 positions. The sizes of a proof
  are not bounded: one that a server sends may have a root of any size.
\<close>

abbreviation undefined_shift :: cpp_exn where
  "undefined_shift \<equiv> Undefined_behaviour ''shift exponent too large''"

definition shift_defined :: "int \<Rightarrow> bool" where
  "shift_defined n \<longleftrightarrow> 0 \<le> n \<and> n < 64"

text \<open>\<open>(address & (1 << log2_size)) != 0\<close>: is the node at that level a right child?\<close>

definition address_bit :: "u64 \<Rightarrow> int \<Rightarrow> bool res" where
  "address_bit a log2_size =
     (if \<not> shift_defined log2_size then Inl undefined_shift
      else Inr (a AND push_bit (nat log2_size) 1 \<noteq> 0))"

text \<open>The body of the loops of \<open>bubble_up\<close> and \<open>slice\<close>.\<close>

definition bubble_step :: "digest \<Rightarrow> merkle_tree_proof \<Rightarrow> int \<Rightarrow> hash_type \<Rightarrow> hash_type res" where
  "bubble_step K p log2_size hash =
     bindR (address_bit (mtp_target_address p) log2_size) (\<lambda>bit.
     bindR (get_sibling_hash p log2_size) (\<lambda>sibling.
     Inr (path_step K bit sibling hash)))"

definition proof_bubble_up :: "digest \<Rightarrow> merkle_tree_proof \<Rightarrow> hash_type \<Rightarrow> hash_type res" where
  "proof_bubble_up K p new_target_hash =
     for_range (mtp_log2_target_size p) (mtp_log2_root_size p) (bubble_step K p) new_target_hash"

definition proof_verify :: "digest \<Rightarrow> merkle_tree_proof \<Rightarrow> bool res" where
  "proof_verify K p =
     bindR (proof_bubble_up K p (mtp_target_hash p)) (\<lambda>h. Inr (h = mtp_root_hash p))"

text \<open>
  \<open>slice\<close>: the second loop both extends the hash and copies the sibling; the final
  check throws when the sliced proof does not verify.
\<close>

definition slice_copy_step ::
  "digest \<Rightarrow> merkle_tree_proof \<Rightarrow> int \<Rightarrow> hash_type \<times> merkle_tree_proof \<Rightarrow>
     (hash_type \<times> merkle_tree_proof) res" where
  "slice_copy_step K p log2_size st =
     (case st of (hash, sliced) \<Rightarrow>
        bindR (address_bit (mtp_target_address p) log2_size) (\<lambda>bit.
        bindR (get_sibling_hash p log2_size) (\<lambda>sibling.
        bindR (set_sibling_hash sibling log2_size sliced) (\<lambda>sliced'.
        Inr (path_step K bit sibling hash, sliced')))))"

definition slice :: "digest \<Rightarrow> merkle_tree_proof \<Rightarrow> int \<Rightarrow> int \<Rightarrow> merkle_tree_proof res" where
  "slice K p new_log2_root_size new_log2_target_size =
     (if new_log2_root_size \<le> 0 then Inl (Out_of_range ''log2_root_size is not positive'')
      else if new_log2_target_size < 0 then Inl (Out_of_range ''log2_target_size is negative'')
      else if new_log2_target_size > new_log2_root_size
        then Inl (Out_of_range ''log2_target_size is greater than log2_root_size'')
      else if new_log2_root_size > mtp_log2_root_size p
        then Inl (Out_of_range ''log2_root_size is too large'')
      else if new_log2_target_size < mtp_log2_target_size p
        then Inl (Out_of_range ''log2_target_size is too small'')
      else
        bindR (new_merkle_tree_proof new_log2_root_size new_log2_target_size) (\<lambda>sliced0.
        bindR (for_range (mtp_log2_target_size p) new_log2_target_size (bubble_step K p)
                 (mtp_target_hash p)) (\<lambda>hash0.
        bindR (for_range new_log2_target_size new_log2_root_size (slice_copy_step K p)
                 (hash0, set_target_hash hash0 sliced0)) (\<lambda>(hash1, sliced1).
        if \<not> shift_defined new_log2_target_size then Inl undefined_shift
        else
        let sliced2 = set_target_address
                        (push_bit (nat new_log2_target_size)
                           (drop_bit (nat new_log2_target_size) (mtp_target_address p)))
                        (set_root_hash hash1 sliced1)
        in bindR (proof_verify K sliced2) (\<lambda>ok.
           if \<not> ok then Inl (Logic_error ''produced invalid sliced proof'')
           else Inr sliced2)))))"

section \<open>Well-formed proofs\<close>

definition proof_wf :: "merkle_tree_proof \<Rightarrow> bool" where
  "proof_wf p \<longleftrightarrow> 0 < mtp_log2_root_size p \<and> 0 \<le> mtp_log2_target_size p \<and>
     mtp_log2_target_size p \<le> mtp_log2_root_size p \<and>
     length (mtp_sibling_hashes p) = nat (mtp_log2_root_size p - mtp_log2_target_size p)"

lemma new_merkle_tree_proof_wf: "new_merkle_tree_proof r t = Inr p \<Longrightarrow> proof_wf p"
  by (auto simp: new_merkle_tree_proof_def proof_wf_def split: if_splits)

lemma new_merkle_tree_proof_Inr:
  "(\<exists>p. new_merkle_tree_proof r t = Inr p) \<longleftrightarrow> 0 < r \<and> 0 \<le> t \<and> t \<le> r"
  by (auto simp: new_merkle_tree_proof_def)

lemma proof_equal_iff [simp]: "proof_equal p q \<longleftrightarrow> p = q"
  by (cases p; cases q) (auto simp: proof_equal_def)

text \<open>The siblings and directions of a proof, indexed by level.\<close>

definition proof_sibling :: "merkle_tree_proof \<Rightarrow> nat \<Rightarrow> hash_type" where
  "proof_sibling p l = mtp_sibling_hashes p ! nat (mtp_log2_root_size p - 1 - int l)"

definition proof_right :: "merkle_tree_proof \<Rightarrow> nat \<Rightarrow> bool" where
  "proof_right p l \<longleftrightarrow> bit (mtp_target_address p) l"

lemma proof_right_iff: "proof_right p l \<longleftrightarrow> odd (unat (mtp_target_address p) div 2 ^ l)"
  unfolding proof_right_def by (simp only: bit_iff_odd_unat)

lemma address_bit_right:
  "0 \<le> l \<Longrightarrow> address_bit (mtp_target_address p) l = (if 64 \<le> l then Inl undefined_shift else Inr (proof_right p (nat l)))"
  by (simp del: push_bit_of_1 add: address_bit_def shift_defined_def proof_right_def and_one_shifted_eq_0)

lemma log2_size_to_index_Inr:
  assumes "proof_wf p" "mtp_log2_target_size p \<le> l" "l < mtp_log2_root_size p"
  shows "log2_size_to_index p l = Inr (nat (mtp_log2_root_size p - 1 - l))"
  using assms by (auto simp: log2_size_to_index_def proof_wf_def Let_def)

lemma get_sibling_hash_Inr:
  assumes "proof_wf p" "mtp_log2_target_size p \<le> l" "l < mtp_log2_root_size p"
  shows "get_sibling_hash p l = Inr (proof_sibling p (nat l))"
proof -
  have "int (nat l) = l" using assms by (simp add: proof_wf_def)
  then show ?thesis
    using log2_size_to_index_Inr [OF assms] by (simp add: get_sibling_hash_def proof_sibling_def)
qed

lemma get_sibling_hash_Inl:
  assumes "proof_wf p" "l < mtp_log2_target_size p \<or> mtp_log2_root_size p \<le> l"
  shows "get_sibling_hash p l = Inl (Out_of_range ''log2_size is out of range'')"
  using assms by (auto simp: get_sibling_hash_def log2_size_to_index_def proof_wf_def Let_def)

lemma set_sibling_hash_Inr:
  assumes "proof_wf p" "mtp_log2_target_size p \<le> l" "l < mtp_log2_root_size p"
  shows "set_sibling_hash h l p =
    Inr (p\<lparr>mtp_sibling_hashes := (mtp_sibling_hashes p)[nat (mtp_log2_root_size p - 1 - l) := h]\<rparr>)"
  using log2_size_to_index_Inr [OF assms] by (simp add: set_sibling_hash_def)

lemma proof_wf_update_sibling [simp]:
  "proof_wf (p\<lparr>mtp_sibling_hashes := (mtp_sibling_hashes p)[i := h]\<rparr>) = proof_wf p"
  by (simp add: proof_wf_def)

section \<open>Bubbling up\<close>

lemma for_range_bubble_step:
  assumes "proof_wf p" "mtp_log2_target_size p \<le> i" "i \<le> j" "j \<le> mtp_log2_root_size p" "j \<le> 64"
  shows "for_range i j (bubble_step K p) h =
     Inr (climb K (proof_right p) (proof_sibling p) (nat i) (nat (j - i)) h)"
proof -
  have "0 \<le> i" using assms by (simp add: proof_wf_def)
  have "\<exists>h'. for_range i j (bubble_step K p) h = Inr h' \<and>
      h' = climb K (proof_right p) (proof_sibling p) (nat i) (nat (j - i)) h"
  proof (rule for_range_rule [OF assms(3)])
    show "h = climb K (proof_right p) (proof_sibling p) (nat i) (nat (i - i)) h" by simp
  next
    fix k h'
    assume k: "i \<le> k" "k < j"
      and h': "h' = climb K (proof_right p) (proof_sibling p) (nat i) (nat (k - i)) h"
    have "get_sibling_hash p k = Inr (proof_sibling p (nat k))"
      using assms k by (intro get_sibling_hash_Inr) simp_all
    moreover have "nat (k + 1 - i) = Suc (nat (k - i))" and "nat i + nat (k - i) = nat k"
      and "int (nat k) = k"
      using k \<open>0 \<le> i\<close> by simp_all
    ultimately show "\<exists>s'. bubble_step K p k h' = Inr s' \<and>
        s' = climb K (proof_right p) (proof_sibling p) (nat i) (nat (k + 1 - i)) h"
      using k assms(5) \<open>0 \<le> i\<close> by (simp add: bubble_step_def h' climb_Suc_last address_bit_right del: climb.simps)
  qed
  then show ?thesis by simp
qed

text \<open>Beyond 64 levels the shift is undefined.\<close>

lemma for_range_bubble_undefined:
  assumes "proof_wf p" "mtp_log2_target_size p \<le> i" "i < j" "j \<le> mtp_log2_root_size p" "64 < j"
  shows "for_range i j (bubble_step K p) h = Inl undefined_shift"
proof -
  let ?m = "max i 64"
  have m: "i \<le> ?m" "?m \<le> j" "?m < j" "0 \<le> ?m" using assms by (auto simp: proof_wf_def)
  have start: "\<exists>h'. for_range i ?m (bubble_step K p) h = Inr h'"
  proof (cases "i \<le> 64")
    case True
    then show ?thesis using for_range_bubble_step [of p i 64 K h] assms by (simp add: max_def)
  next
    case False
    then show ?thesis by (simp add: max_def)
  qed
  have "for_range ?m j (bubble_step K p) h' = Inl undefined_shift" for h'
    using m(3,4) by (simp add: for_range_step bubble_step_def address_bit_right)
  then show ?thesis using for_range_split [OF m(1,2), of "bubble_step K p" h] start by auto
qed

lemma proof_bubble_up_eq:
  assumes "proof_wf p" "mtp_log2_root_size p \<le> 64"
  shows "proof_bubble_up K p h = Inr (climb K (proof_right p) (proof_sibling p)
     (nat (mtp_log2_target_size p)) (nat (mtp_log2_root_size p - mtp_log2_target_size p)) h)"
  using assms for_range_bubble_step [of p "mtp_log2_target_size p" "mtp_log2_root_size p" K h]
  by (simp add: proof_bubble_up_def proof_wf_def)

text \<open>
  A well-formed proof of at most 64 levels never makes \<open>verify\<close> throw; it verifies when its walk
  meets its root.
\<close>

lemma proof_verify_eq:
  assumes "proof_wf p" "mtp_log2_root_size p \<le> 64"
  shows "proof_verify K p = Inr (climb K (proof_right p) (proof_sibling p)
     (nat (mtp_log2_target_size p)) (nat (mtp_log2_root_size p - mtp_log2_target_size p))
     (mtp_target_hash p) = mtp_root_hash p)"
  by (simp add: proof_verify_def proof_bubble_up_eq [OF assms])

text \<open>Whatever the size: a verification that returns has compared the walk with the root.\<close>

lemma proof_verify_Inr:
  assumes "proof_wf p" "proof_verify K p = Inr b"
  shows "b \<longleftrightarrow> climb K (proof_right p) (proof_sibling p)
     (nat (mtp_log2_target_size p)) (nat (mtp_log2_root_size p - mtp_log2_target_size p))
     (mtp_target_hash p) = mtp_root_hash p"
proof (cases "mtp_log2_root_size p \<le> 64")
  case True
  then show ?thesis using proof_verify_eq [OF assms(1), of K] assms(2) by simp
next
  case False
  have "\<not> mtp_log2_target_size p < mtp_log2_root_size p"
    using for_range_bubble_undefined [OF assms(1) order_refl, of "mtp_log2_root_size p"] False assms(2)
    by (auto simp: proof_verify_def proof_bubble_up_def)
  then show ?thesis using assms by (auto simp: proof_verify_def proof_bubble_up_def proof_wf_def)
qed

section \<open>Binding\<close>

definition proof_hashes_ok :: "merkle_tree_proof \<Rightarrow> bool" where
  "proof_hashes_ok p \<longleftrightarrow> length (mtp_target_hash p) = hash_size \<and>
     (\<forall>h \<in> set (mtp_sibling_hashes p). length h = hash_size)"

lemma length_proof_sibling:
  assumes "proof_wf p" "proof_hashes_ok p"
    and "nat (mtp_log2_target_size p) \<le> l" "l < nat (mtp_log2_root_size p)"
  shows "length (proof_sibling p l) = hash_size"
proof -
  have "nat (mtp_log2_root_size p - 1 - int l) < length (mtp_sibling_hashes p)"
    using assms unfolding proof_wf_def by linarith
  then show ?thesis using assms(2) by (simp add: proof_sibling_def proof_hashes_ok_def)
qed

lemma siblings_eqI:
  assumes "proof_wf p" "proof_wf q"
    and "mtp_log2_root_size p = mtp_log2_root_size q"
    and "mtp_log2_target_size p = mtp_log2_target_size q"
    and eq: "\<And>k. nat (mtp_log2_target_size p) \<le> k \<Longrightarrow> k < nat (mtp_log2_root_size p) \<Longrightarrow>
               proof_sibling p k = proof_sibling q k"
  shows "mtp_sibling_hashes p = mtp_sibling_hashes q"
proof (rule nth_equalityI)
  show "length (mtp_sibling_hashes p) = length (mtp_sibling_hashes q)"
    using assms(1-4) by (simp add: proof_wf_def)
next
  fix i assume i: "i < length (mtp_sibling_hashes p)"
  let ?k = "nat (mtp_log2_root_size p - 1 - int i)"
  have "proof_sibling p ?k = proof_sibling q ?k"
    using i assms(1) by (intro eq) (auto simp: proof_wf_def)
  moreover have "nat (mtp_log2_root_size p - 1 - int ?k) = i"
    using i assms(1) by (auto simp: proof_wf_def)
  ultimately show "mtp_sibling_hashes p ! i = mtp_sibling_hashes q ! i"
    using assms(3) by (simp add: proof_sibling_def)
qed

text \<open>The strings hashed when a proof is verified.\<close>

definition verify_inputs :: "digest \<Rightarrow> merkle_tree_proof \<Rightarrow> bytes set" where
  "verify_inputs K p = climb_inputs K (proof_right p) (proof_sibling p) (nat (mtp_log2_target_size p))
     (nat (mtp_log2_root_size p - mtp_log2_target_size p)) (mtp_target_hash p)"

text \<open>
  Claim C22. Merkle proofs are binding: two well-formed proofs of the same node (same
  address and sizes) that both verify against the same root hash are the same proof,
  target hash and siblings included, unless verifying them hashes two strings that collide.
\<close>

theorem proof_binding:
  assumes "keccak_256 K"
    and "proof_wf p" "proof_wf q" "proof_hashes_ok p" "proof_hashes_ok q"
    and "mtp_target_address p = mtp_target_address q"
    and "mtp_log2_target_size p = mtp_log2_target_size q"
    and "mtp_log2_root_size p = mtp_log2_root_size q"
    and "mtp_root_hash p = mtp_root_hash q"
    and "proof_verify K p = Inr True" "proof_verify K q = Inr True"
  shows "p = q \<or> collides K (verify_inputs K p) (verify_inputs K q)"
proof -
  let ?l = "nat (mtp_log2_target_size p)"
  let ?n = "nat (mtp_log2_root_size p - mtp_log2_target_size p)"
  have top: "?l + ?n = nat (mtp_log2_root_size p)" using assms(2) unfolding proof_wf_def by linarith
  have right: "proof_right p = proof_right q" using assms(6) by (simp add: proof_right_def fun_eq_iff)
  then have "climb K (proof_right p) (proof_sibling p) ?l ?n (mtp_target_hash p) =
        climb K (proof_right p) (proof_sibling q) ?l ?n (mtp_target_hash q)"
    using assms proof_verify_Inr [of p K True] proof_verify_Inr [of q K True] by simp
  then have "mtp_target_hash p = mtp_target_hash q \<and>
      (\<forall>k. ?l \<le> k \<and> k < ?l + ?n \<longrightarrow> proof_sibling p k = proof_sibling q k) \<or>
      collides K (climb_inputs K (proof_right p) (proof_sibling p) ?l ?n (mtp_target_hash p))
        (climb_inputs K (proof_right p) (proof_sibling q) ?l ?n (mtp_target_hash q))"
  proof (intro climb_binding)
    fix k assume "?l \<le> k" "k < ?l + ?n"
    then have "?l \<le> k" "k < nat (mtp_log2_root_size p)" by (simp_all only: top)
    then show "length (proof_sibling p k) = hash_size \<and> length (proof_sibling q k) = hash_size"
      using assms length_proof_sibling [of p k] length_proof_sibling [of q k] by simp
  qed (use assms in \<open>simp_all add: proof_hashes_ok_def\<close>)
  then show ?thesis
    using assms siblings_eqI [of p q] top right by (auto simp: verify_inputs_def intro: merkle_tree_proof.equality)
qed

section \<open>Slicing\<close>

text \<open>What \<open>slice\<close> returns, as one record.\<close>

definition sliced_proof :: "digest \<Rightarrow> merkle_tree_proof \<Rightarrow> int \<Rightarrow> int \<Rightarrow> merkle_tree_proof" where
  "sliced_proof K p r' t' =
     (let walk = (\<lambda>n. climb K (proof_right p) (proof_sibling p) (nat (mtp_log2_target_size p)) n
                        (mtp_target_hash p))
      in \<lparr>mtp_target_address = push_bit (nat t') (drop_bit (nat t') (mtp_target_address p)),
          mtp_log2_target_size = t',
          mtp_target_hash = walk (nat (t' - mtp_log2_target_size p)),
          mtp_log2_root_size = r',
          mtp_root_hash = walk (nat (r' - mtp_log2_target_size p)),
          mtp_sibling_hashes =
            take (nat (r' - t')) (drop (nat (mtp_log2_root_size p - r')) (mtp_sibling_hashes p))\<rparr>)"

lemma sliced_proof_wf:
  assumes "proof_wf p" "0 < r'" "mtp_log2_target_size p \<le> t'" "t' \<le> r'" "r' \<le> mtp_log2_root_size p"
  shows "proof_wf (sliced_proof K p r' t')"
  using assms by (auto simp: proof_wf_def sliced_proof_def Let_def)

lemma sliced_proof_sibling:
  assumes "proof_wf p" "mtp_log2_target_size p \<le> t'" "t' \<le> r'" "r' \<le> mtp_log2_root_size p"
    and "nat t' \<le> k" "k < nat r'"
  shows "proof_sibling (sliced_proof K p r' t') k = proof_sibling p k"
proof -
  have "nat (r' - 1 - int k) < nat (r' - t')" using assms unfolding proof_wf_def by linarith
  moreover have "nat (mtp_log2_root_size p - r') + nat (r' - 1 - int k) =
      nat (mtp_log2_root_size p - 1 - int k)"
    using assms unfolding proof_wf_def by linarith
  ultimately show ?thesis
    using assms by (simp add: proof_sibling_def sliced_proof_def Let_def proof_wf_def)
qed

lemma sliced_proof_right:
  assumes "nat t' \<le> k"
  shows "proof_right (sliced_proof K p r' t') k = proof_right p k"
proof -
  have "bit (push_bit (nat t') (drop_bit (nat t') w)) k = bit w k" for w :: u64
    using assms by (auto simp: bit_simps dest: bit_imp_le_length)
  then show ?thesis by (simp only: proof_right_def sliced_proof_def Let_def merkle_tree_proof.select_convs)
qed

lemma sliced_proof_verify:
  assumes "proof_wf p" "0 < r'" "mtp_log2_target_size p \<le> t'" "t' \<le> r'" "r' \<le> mtp_log2_root_size p"
    and "r' \<le> 64"
  shows "proof_verify K (sliced_proof K p r' t') = Inr True"
proof -
  let ?t = "nat (mtp_log2_target_size p)"
  let ?s = "sliced_proof K p r' t'"
  have nn: "0 \<le> mtp_log2_target_size p" using assms(1) by (simp add: proof_wf_def)
  have same: "climb K (proof_right ?s) (proof_sibling ?s) (nat t') (nat (r' - t')) (mtp_target_hash ?s)
      = climb K (proof_right p) (proof_sibling p) (nat t') (nat (r' - t')) (mtp_target_hash ?s)"
    using assms nn by (intro climb_cong) (simp add: sliced_proof_sibling sliced_proof_right)
  have "nat t' = ?t + nat (t' - mtp_log2_target_size p)"
    and "nat (r' - mtp_log2_target_size p) = nat (t' - mtp_log2_target_size p) + nat (r' - t')"
    using assms nn by linarith+
  then have "climb K (proof_right p) (proof_sibling p) (nat t') (nat (r' - t')) (mtp_target_hash ?s)
      = mtp_root_hash ?s"
    by (simp add: climb_add sliced_proof_def Let_def)
  moreover have "mtp_log2_target_size ?s = t'" "mtp_log2_root_size ?s = r'"
    by (simp_all add: sliced_proof_def Let_def)
  ultimately show ?thesis
    using proof_verify_eq [OF sliced_proof_wf [OF assms(1-5)], of K K] same assms(6) by simp
qed

text \<open>
  A loop that computes the sibling of every level and stores it fills all siblings:
  the shape of every function that builds a proof.
\<close>

lemma fill_siblings:
  assumes "proof_wf p0" "mtp_log2_root_size p0 = r" "mtp_log2_target_size p0 = t"
    and g: "\<And>l. t \<le> l \<Longrightarrow> l < r \<Longrightarrow> g l = Inr (s (nat l))"
  obtains p where "for_range t r (\<lambda>l p. bindR (g l) (\<lambda>h. set_sibling_hash h l p)) p0 = Inr p"
    and "proof_wf p" and "mtp_target_address p = mtp_target_address p0"
    and "mtp_log2_target_size p = t" and "mtp_log2_root_size p = r"
    and "mtp_target_hash p = mtp_target_hash p0" and "mtp_root_hash p = mtp_root_hash p0"
    and "\<And>k. nat t \<le> k \<Longrightarrow> k < nat r \<Longrightarrow> proof_sibling p k = s k"
proof -
  let ?body = "\<lambda>l p. bindR (g l) (\<lambda>h. set_sibling_hash h l p)"
  let ?inv = "\<lambda>i p. \<exists>xs. p = p0\<lparr>mtp_sibling_hashes := xs\<rparr> \<and> length xs = nat (r - t) \<and>
        (\<forall>l. t \<le> l \<and> l < i \<longrightarrow> xs ! nat (r - 1 - l) = s (nat l))"
  have tr: "t \<le> r" "0 \<le> t" using assms(1-3) by (auto simp: proof_wf_def)
  have "\<exists>p. for_range t r ?body p0 = Inr p \<and> ?inv r p"
  proof (rule for_range_rule [OF tr(1), where P = ?inv])
    show "?inv t p0"
      using assms(1-3) by (auto simp: proof_wf_def intro!: exI [of _ "mtp_sibling_hashes p0"])
  next
    fix i p assume i: "t \<le> i" "i < r" and "?inv i p"
    then obtain xs where xs: "p = p0\<lparr>mtp_sibling_hashes := xs\<rparr>" "length xs = nat (r - t)"
        "\<And>l. t \<le> l \<Longrightarrow> l < i \<Longrightarrow> xs ! nat (r - 1 - l) = s (nat l)"
      by auto
    let ?ix = "nat (r - 1 - i)"
    have wf: "proof_wf p" using assms(1-3) xs(1,2) by (simp add: proof_wf_def)
    have set: "set_sibling_hash (s (nat i)) i p = Inr (p0\<lparr>mtp_sibling_hashes := xs[?ix := s (nat i)]\<rparr>)"
      using set_sibling_hash_Inr [OF wf, of i "s (nat i)"] i assms(2,3) xs(1) by simp
    have upd: "xs[?ix := s (nat i)] ! nat (r - 1 - l) = s (nat l)" if "t \<le> l" "l < i + 1" for l
      using that i xs(2,3) by (cases "l = i") (simp_all add: nth_list_update)
    show "\<exists>p'. ?body i p = Inr p' \<and> ?inv (i + 1) p'"
      using xs(2) upd by (auto simp: g [OF i] set)
  qed
  then obtain xs where xs: "for_range t r ?body p0 = Inr (p0\<lparr>mtp_sibling_hashes := xs\<rparr>)"
      "length xs = nat (r - t)" "\<And>l. t \<le> l \<Longrightarrow> l < r \<Longrightarrow> xs ! nat (r - 1 - l) = s (nat l)"
    by auto
  have sib: "proof_sibling (p0\<lparr>mtp_sibling_hashes := xs\<rparr>) k = s k" if "nat t \<le> k" "k < nat r" for k
    using that tr xs(3) [of "int k"] assms(2) by (simp add: proof_sibling_def)
  show thesis
    by (rule that [OF xs(1)]) (use xs(2) assms(1-3) sib in \<open>simp_all add: proof_wf_def\<close>)
qed

text \<open>The copying loop fills every sibling of the sliced proof.\<close>

lemma slice_copy_loop:
  assumes "proof_wf p" "proof_wf s0"
    and "mtp_log2_root_size s0 = r'" "mtp_log2_target_size s0 = t'"
    and "mtp_log2_target_size p \<le> t'" "t' \<le> r'" "r' \<le> mtp_log2_root_size p" "r' \<le> 64"
  shows "for_range t' r' (slice_copy_step K p) (h, s0) =
     Inr (climb K (proof_right p) (proof_sibling p) (nat t') (nat (r' - t')) h,
          s0\<lparr>mtp_sibling_hashes :=
            take (nat (r' - t')) (drop (nat (mtp_log2_root_size p - r')) (mtp_sibling_hashes p))\<rparr>)"
proof -
  let ?inv = "\<lambda>i (g, s). g = climb K (proof_right p) (proof_sibling p) (nat t') (nat (i - t')) h \<and>
     (\<exists>xs. s = s0\<lparr>mtp_sibling_hashes := xs\<rparr> \<and> length xs = nat (r' - t') \<and>
        (\<forall>l. t' \<le> l \<and> l < i \<longrightarrow> xs ! nat (r' - 1 - l) = proof_sibling p (nat l)))"
  have nn: "0 \<le> t'" using assms(1,5) by (simp add: proof_wf_def)
  have "\<exists>st. for_range t' r' (slice_copy_step K p) (h, s0) = Inr st \<and> ?inv r' st"
  proof (rule for_range_rule [OF assms(6), where P = ?inv])
    show "?inv t' (h, s0)"
      using assms(2-4) by (auto simp: proof_wf_def intro!: exI [of _ "mtp_sibling_hashes s0"])
  next
    fix i st assume i: "t' \<le> i" "i < r'" and st: "?inv i st"
    obtain g xs where g: "g = climb K (proof_right p) (proof_sibling p) (nat t') (nat (i - t')) h"
      and xs: "st = (g, s0\<lparr>mtp_sibling_hashes := xs\<rparr>)" "length xs = nat (r' - t')"
        "\<And>l. t' \<le> l \<Longrightarrow> l < i \<Longrightarrow> xs ! nat (r' - 1 - l) = proof_sibling p (nat l)"
      using st by (cases st) auto
    let ?s = "s0\<lparr>mtp_sibling_hashes := xs\<rparr>" and ?ix = "nat (r' - 1 - i)"
    let ?sib = "proof_sibling p (nat i)"
    have wf: "proof_wf ?s" using assms(2-4) xs(2) by (simp add: proof_wf_def)
    have get: "get_sibling_hash p i = Inr ?sib"
      using assms i by (intro get_sibling_hash_Inr) simp_all
    have set: "set_sibling_hash ?sib i ?s = Inr (s0\<lparr>mtp_sibling_hashes := xs[?ix := ?sib]\<rparr>)"
      using set_sibling_hash_Inr [OF wf, of i ?sib] i assms(3,4) by simp
    have "nat (i + 1 - t') = Suc (nat (i - t'))" "nat t' + nat (i - t') = nat i" "int (nat i) = i"
      using i nn by simp_all
    then have walk: "path_step K (proof_right p (nat i)) ?sib g =
        climb K (proof_right p) (proof_sibling p) (nat t') (nat (i + 1 - t')) h"
      by (simp add: g climb_Suc_last del: climb.simps)
    have right: "address_bit (mtp_target_address p) i = Inr (proof_right p (nat i))"
      using i nn assms(8) by (simp add: address_bit_right)
    have upd: "xs[?ix := ?sib] ! nat (r' - 1 - l) = proof_sibling p (nat l)"
      if "t' \<le> l" "l < i + 1" for l
      using that i xs(2,3) by (cases "l = i") (simp_all add: nth_list_update)
    show "\<exists>st'. slice_copy_step K p i st = Inr st' \<and> ?inv (i + 1) st'"
      using xs(1,2) upd by (auto simp: slice_copy_step_def right get set walk)
  qed
  then obtain xs where xs: "for_range t' r' (slice_copy_step K p) (h, s0) =
      Inr (climb K (proof_right p) (proof_sibling p) (nat t') (nat (r' - t')) h,
           s0\<lparr>mtp_sibling_hashes := xs\<rparr>)"
      "length xs = nat (r' - t')"
      "\<And>l. t' \<le> l \<Longrightarrow> l < r' \<Longrightarrow> xs ! nat (r' - 1 - l) = proof_sibling p (nat l)"
    by auto
  have "xs = take (nat (r' - t')) (drop (nat (mtp_log2_root_size p - r')) (mtp_sibling_hashes p))"
  proof (rule nth_equalityI)
    show "length xs = length (take (nat (r' - t')) (drop (nat (mtp_log2_root_size p - r')) (mtp_sibling_hashes p)))"
      using assms xs(2) by (auto simp: proof_wf_def)
  next
    fix k assume k: "k < length xs"
    let ?l = "r' - 1 - int k"
    have l: "t' \<le> ?l" "?l < r'" "nat (r' - 1 - ?l) = k" using k xs(2) by auto
    have "nat (mtp_log2_root_size p - 1 - int (nat ?l)) = nat (mtp_log2_root_size p - r') + k"
      using l nn assms(7) by linarith
    then show "xs ! k = take (nat (r' - t')) (drop (nat (mtp_log2_root_size p - r')) (mtp_sibling_hashes p)) ! k"
      using xs(2) xs(3) [OF l(1,2)] l(3) k assms by (auto simp: proof_sibling_def proof_wf_def)
  qed
  with xs(1) show ?thesis by simp
qed

lemma slice_eq:
  assumes "proof_wf p" "0 < r'" "mtp_log2_target_size p \<le> t'" "t' \<le> r'" "r' \<le> mtp_log2_root_size p"
    and "r' \<le> 64" "t' < 64"
  shows "slice K p r' t' = Inr (sliced_proof K p r' t')"
proof -
  have nn: "0 \<le> mtp_log2_target_size p" using assms(1) by (simp add: proof_wf_def)
  obtain s0 where s0: "new_merkle_tree_proof r' t' = Inr s0"
    using assms nn new_merkle_tree_proof_Inr [of r' t'] by auto
  let ?h0 = "climb K (proof_right p) (proof_sibling p) (nat (mtp_log2_target_size p))
     (nat (t' - mtp_log2_target_size p)) (mtp_target_hash p)"
  have loop1: "for_range (mtp_log2_target_size p) t' (bubble_step K p) (mtp_target_hash p) = Inr ?h0"
    using assms by (intro for_range_bubble_step) simp_all
  have fields: "mtp_log2_root_size s0 = r'" "mtp_log2_target_size s0 = t'" "proof_wf s0"
    using s0 new_merkle_tree_proof_wf [OF s0] by (auto simp: new_merkle_tree_proof_def split: if_splits)
  have loop2: "for_range t' r' (slice_copy_step K p) (?h0, set_target_hash ?h0 s0) =
     Inr (climb K (proof_right p) (proof_sibling p) (nat t') (nat (r' - t')) ?h0,
          (set_target_hash ?h0 s0)\<lparr>mtp_sibling_hashes :=
            take (nat (r' - t')) (drop (nat (mtp_log2_root_size p - r')) (mtp_sibling_hashes p))\<rparr>)"
    using assms fields by (intro slice_copy_loop) (simp_all add: set_target_hash_def proof_wf_def)
  have "nat t' = nat (mtp_log2_target_size p) + nat (t' - mtp_log2_target_size p)"
    "nat (r' - mtp_log2_target_size p) = nat (t' - mtp_log2_target_size p) + nat (r' - t')"
    using assms nn by linarith+
  then have walk: "climb K (proof_right p) (proof_sibling p) (nat t') (nat (r' - t')) ?h0 =
      climb K (proof_right p) (proof_sibling p) (nat (mtp_log2_target_size p))
        (nat (r' - mtp_log2_target_size p)) (mtp_target_hash p)"
    by (simp add: climb_add)
  have result: "set_target_address (push_bit (nat t') (drop_bit (nat t') (mtp_target_address p)))
      (set_root_hash (climb K (proof_right p) (proof_sibling p) (nat t') (nat (r' - t')) ?h0)
        ((set_target_hash ?h0 s0)\<lparr>mtp_sibling_hashes :=
            take (nat (r' - t')) (drop (nat (mtp_log2_root_size p - r')) (mtp_sibling_hashes p))\<rparr>))
     = sliced_proof K p r' t'"
    using fields walk
    by (cases s0) (simp add: sliced_proof_def Let_def set_target_address_def set_root_hash_def set_target_hash_def)
  show ?thesis
    using assms nn sliced_proof_wf [OF assms(1-5)] sliced_proof_verify [OF assms(1-6)]
    unfolding slice_def by (simp add: s0 loop1 loop2 result Let_def shift_defined_def)
qed

text \<open>A slice that reaches beyond 64 levels runs into an undefined shift.\<close>

lemma for_range_fails:
  assumes "a \<le> m" "m < n" "for_range a m body s = Inr s'" "\<And>s. body m s = Inl x"
  shows "for_range a n body s = Inl x"
  using assms for_range_split [of a m n body s] by (simp add: for_range_step)

lemma slice_copy_runs:
  assumes "proof_wf p" "mtp_log2_target_size p \<le> t'" "t' \<le> j" "j \<le> r'" "r' \<le> mtp_log2_root_size p" "j \<le> 64"
    and "proof_wf s0" "mtp_log2_root_size s0 = r'" "mtp_log2_target_size s0 = t'"
  shows "\<exists>st. for_range t' j (slice_copy_step K p) (h, s0) = Inr st"
proof -
  let ?inv = "\<lambda>i (h :: hash_type, s). proof_wf s \<and> mtp_log2_root_size s = r' \<and> mtp_log2_target_size s = t'"
  have "\<exists>st. for_range t' j (slice_copy_step K p) (h, s0) = Inr st \<and> ?inv j st"
  proof (rule for_range_rule [OF assms(3), where P = ?inv])
    fix i st assume i: "t' \<le> i" "i < j" and st: "?inv i st"
    have "get_sibling_hash p i = Inr (proof_sibling p (nat i))" "0 \<le> i"
      using assms i by (auto simp: proof_wf_def intro!: get_sibling_hash_Inr)
    moreover have "log2_size_to_index (snd st) i = Inr (nat (r' - 1 - i))"
      using log2_size_to_index_Inr [of "snd st" i] st i assms(4) by (auto simp: split_def)
    ultimately show "\<exists>st'. slice_copy_step K p i st = Inr st' \<and> ?inv (i + 1) st'"
      using st i assms(6)
      by (auto simp: slice_copy_step_def address_bit_right set_sibling_hash_def split_def)
  qed (use assms(7-9) in simp)
  then show ?thesis by blast
qed

lemma slice_undefined:
  assumes "proof_wf p" "0 < r'" "mtp_log2_target_size p \<le> t'" "t' \<le> r'" "r' \<le> mtp_log2_root_size p"
    and "64 < r' \<or> 64 \<le> t'"
  shows "slice K p r' t' = Inl undefined_shift"
proof -
  let ?t = "mtp_log2_target_size p"
  let ?loop1 = "for_range ?t t' (bubble_step K p) (mtp_target_hash p)"
  have nn: "0 \<le> ?t" using assms(1) by (simp add: proof_wf_def)
  obtain s0 where s0: "new_merkle_tree_proof r' t' = Inr s0"
    using assms nn new_merkle_tree_proof_Inr [of r' t'] by auto
  have fields: "mtp_log2_root_size s0 = r'" "mtp_log2_target_size s0 = t'" "proof_wf s0"
    using s0 new_merkle_tree_proof_wf [OF s0] by (auto simp: new_merkle_tree_proof_def split: if_splits)
  have step: "slice_copy_step K p l st = Inl undefined_shift" if "64 \<le> l" for l st
    using that by (cases st) (simp add: slice_copy_step_def address_bit_def shift_defined_def)
  have loop2: "for_range t' r' (slice_copy_step K p) (h, set_target_hash h s0) = Inl undefined_shift"
    if big: "t' < r'" "64 < r'" for h
  proof -
    have "\<exists>st. for_range t' (max t' 64) (slice_copy_step K p) (h, set_target_hash h s0) = Inr st"
      using slice_copy_runs [of p t' 64 r' "set_target_hash h s0" K h] assms fields big
      by (cases "t' \<le> 64") (simp_all add: max_def set_target_hash_def proof_wf_def)
    then show ?thesis using for_range_fails [of t' "max t' 64" r'] step big by (meson max.cobounded1 max.cobounded2 max_less_iff_conj)
  qed
  show ?thesis
  proof (cases ?loop1)
    case (Inl x)
    have "64 < t'" using for_range_bubble_step [OF assms(1) order_refl assms(3)] assms(4,5) Inl by fastforce
    moreover have "?t < t'" using Inl assms(3) by (cases "?t < t'") simp_all
    moreover note assms(4,5)
    ultimately have "?loop1 = Inl undefined_shift" using for_range_bubble_undefined [OF assms(1) order_refl] by simp
    then show ?thesis using assms nn unfolding slice_def by (simp add: s0)
  next
    case (Inr h)
    show ?thesis
    proof (cases "t' < r' \<and> 64 < r'")
      case True
      then show ?thesis using assms nn Inr loop2 unfolding slice_def by (simp add: s0)
    next
      case False
      then have "t' = r'" "64 \<le> t'" using assms(4,6) by auto
      then show ?thesis using assms nn Inr s0 unfolding slice_def by (simp add: shift_defined_def)
    qed
  qed
qed

text \<open>
  Claim C23. What \<open>slice\<close> does with a well-formed proof, for all sizes. It throws exactly when the
  new sizes are out of range for the proof. Otherwise, if the new root has more than 64 levels or
  the new target has 64, it shifts a 64-bit address by 64 or more, which is undefined. In every
  other case it returns (the final \<open>logic_error\<close> is unreachable) the sub-proof whose target is the
  ancestor at the new target size, whose root is the ancestor at the new root size and whose
  siblings are the matching segment; that sub-proof is well formed and verifies.
\<close>

theorem slice_correct:
  assumes "proof_wf p"
  shows "if \<not> (0 < r' \<and> 0 \<le> t' \<and> t' \<le> r' \<and> r' \<le> mtp_log2_root_size p \<and> mtp_log2_target_size p \<le> t')
     then \<exists>m. slice K p r' t' = Inl (Out_of_range m)
     else if 64 < r' \<or> 64 \<le> t' then slice K p r' t' = Inl undefined_shift
     else slice K p r' t' = Inr (sliced_proof K p r' t') \<and>
       proof_wf (sliced_proof K p r' t') \<and> proof_verify K (sliced_proof K p r' t') = Inr True"
proof -
  have "\<exists>m. slice K p r' t' = Inl (Out_of_range m)"
    if "\<not> (0 < r' \<and> 0 \<le> t' \<and> t' \<le> r' \<and> r' \<le> mtp_log2_root_size p \<and> mtp_log2_target_size p \<le> t')"
    using that by (auto simp: slice_def)
  then show ?thesis
    using assms slice_undefined [OF assms] slice_eq [OF assms] sliced_proof_wf [OF assms] sliced_proof_verify [OF assms]
    by simp
qed

text \<open>
  Slices compose along the path: cutting a proof at an intermediate size
  \<open>m\<close> gives a lower and an upper proof that meet in the same hash, the lower one
  keeps the target hash and the upper one ends in the root the original walk computes,
  so a verified proof splits into two proofs of the same root.
\<close>

theorem slice_composes:
  assumes "proof_wf p" "0 < m" "mtp_log2_target_size p \<le> m" "m \<le> mtp_log2_root_size p"
    and "mtp_log2_root_size p \<le> 64" "m < 64"
  shows "\<exists>lower upper.
     slice K p m (mtp_log2_target_size p) = Inr lower \<and>
     slice K p (mtp_log2_root_size p) m = Inr upper \<and>
     mtp_target_hash lower = mtp_target_hash p \<and>
     mtp_root_hash lower = mtp_target_hash upper \<and>
     proof_bubble_up K p (mtp_target_hash p) = Inr (mtp_root_hash upper)"
proof -
  have "0 < mtp_log2_root_size p" using assms(1) by (simp add: proof_wf_def)
  then have "slice K p m (mtp_log2_target_size p) = Inr (sliced_proof K p m (mtp_log2_target_size p))"
    "slice K p (mtp_log2_root_size p) m = Inr (sliced_proof K p (mtp_log2_root_size p) m)"
    using assms slice_eq by simp_all
  then show ?thesis
    by (simp add: proof_bubble_up_eq [OF assms(1,5)] sliced_proof_def Let_def)
qed

section \<open>Instances\<close>

text \<open>A concrete verified proof, used by the witnesses.\<close>

definition sample_proof_of :: "byte \<Rightarrow> byte \<Rightarrow> merkle_tree_proof" where
  "sample_proof_of target sibling =
     (let h = \<lambda>b. replicate 31 0 @ [b]
      in \<lparr>mtp_target_address = 1, mtp_log2_target_size = 0, mtp_target_hash = h target,
          mtp_log2_root_size = 2,
          mtp_root_hash = concat_hash sample_digest
             (concat_hash sample_digest (h sibling) (h target)) zero_hash,
          mtp_sibling_hashes = [zero_hash, h sibling]\<rparr>)"

abbreviation sample_proof :: merkle_tree_proof where
  "sample_proof \<equiv> sample_proof_of 5 9"

abbreviation other_proof :: merkle_tree_proof where
  "other_proof \<equiv> sample_proof_of 8 8"

lemma sample_proof_ok:
  "proof_wf sample_proof" "proof_hashes_ok sample_proof"
  "mtp_log2_target_size sample_proof = 0" "mtp_log2_root_size sample_proof = 2"
  "proof_verify sample_digest sample_proof = Inr True"
  by code_simp+

lemma other_proof_ok:
  "proof_wf other_proof" "proof_hashes_ok other_proof"
  "mtp_target_address sample_proof = mtp_target_address other_proof"
  "mtp_log2_target_size sample_proof = mtp_log2_target_size other_proof"
  "mtp_log2_root_size sample_proof = mtp_log2_root_size other_proof"
  "mtp_root_hash sample_proof = mtp_root_hash other_proof"
  "proof_verify sample_digest other_proof = Inr True" "sample_proof \<noteq> other_proof"
  by code_simp+

theorem proof_binding_witness:
  "collides sample_digest (verify_inputs sample_digest sample_proof) (verify_inputs sample_digest other_proof)"
  using proof_binding [OF keccak_256_sample_digest sample_proof_ok(1) other_proof_ok(1)
      sample_proof_ok(2) other_proof_ok(2-6) sample_proof_ok(5) other_proof_ok(7)] other_proof_ok(8)
  by simp

theorem slice_correct_witness:
  "slice sample_digest sample_proof 2 1 = Inr (sliced_proof sample_digest sample_proof 2 1) \<and>
   proof_verify sample_digest (sliced_proof sample_digest sample_proof 2 1) = Inr True"
  using slice_correct [of sample_proof 2 1 sample_digest] by (simp add: sample_proof_ok)

theorem slice_composes_witness:
  "\<exists>lower upper. slice sample_digest sample_proof 1 0 = Inr lower \<and>
     slice sample_digest sample_proof 2 1 = Inr upper \<and> mtp_root_hash lower = mtp_target_hash upper"
  using slice_composes [of sample_proof 1 sample_digest] by (auto simp: sample_proof_ok)

end
