(* ===== verification/Complete_Tree.thy ===== *)
theory Complete_Tree
  imports Pristine_Tree Merkle_Proof
begin

text \<open>
  \<^verbatim>\<open>src/src/complete-merkle-tree.cpp\<close>: a Merkle tree whose non-pristine leaves are
  flushed left, which stores only the non-pristine nodes of every level. The server
  keeps one such tree of vouchers and one of notices per epoch. The invariant
  \<open>complete_inv\<close> says that the stored levels are the nodes of the reference tree of
  the leaves pushed so far; every operation is shown to keep it and to return the
  reference tree's hashes.
\<close>

record complete_merkle_tree =
  cmt_log2_root_size :: int
  cmt_log2_leaf_size :: int
  cmt_pristine :: pristine_merkle_tree
  cmt_tree :: "hash_type list list"

definition check_log2_sizes :: "int \<Rightarrow> int \<Rightarrow> int \<Rightarrow> unit res" where
  "check_log2_sizes log2_root_size log2_leaf_size log2_word_size =
     (if log2_root_size < 0 then Inl (Out_of_range ''log2_root_size is negative'')
      else if log2_leaf_size < 0 then Inl (Out_of_range ''log2_leaf_size is negative'')
      else if log2_word_size < 0 then Inl (Out_of_range ''log2_word_size is negative'')
      else if log2_leaf_size > log2_root_size
        then Inl (Out_of_range ''log2_leaf_size is greater than log2_root_size'')
      else if log2_word_size > log2_leaf_size
        then Inl (Out_of_range ''log2_word_size is greater than log2_word_size'')
      else if log2_root_size \<ge> 64 then Inl (Out_of_range ''tree is too large for address type'')
      else Inr ())"

text \<open>The constructor of a pristine tree; members are initialised before the sizes are checked.\<close>

definition new_complete_merkle_tree :: "digest \<Rightarrow> int \<Rightarrow> int \<Rightarrow> int \<Rightarrow> complete_merkle_tree res" where
  "new_complete_merkle_tree K log2_root_size log2_leaf_size log2_word_size =
     bindR (new_pristine_merkle_tree K log2_root_size log2_word_size) (\<lambda>pristine.
     bindR (check_log2_sizes log2_root_size log2_leaf_size log2_word_size) (\<lambda>_.
     Inr \<lparr>cmt_log2_root_size = log2_root_size, cmt_log2_leaf_size = log2_leaf_size,
          cmt_pristine = pristine,
          cmt_tree = replicate (nat (max 0 (log2_root_size - log2_leaf_size + 1))) []\<rparr>))"

text \<open>
  \<open>get_level\<close> returns a reference; the mutable overload is a read together with
  \<open>set_level\<close>, the assignment through that reference.
\<close>

definition get_level :: "complete_merkle_tree \<Rightarrow> int \<Rightarrow> hash_type list res" where
  "get_level t log2_size =
     (if log2_size < cmt_log2_leaf_size t \<or> log2_size > cmt_log2_root_size t
      then Inl (Out_of_range ''log2_size is out of bounds'')
      else Inr (cmt_tree t ! nat (cmt_log2_root_size t - log2_size)))"

definition set_level :: "int \<Rightarrow> hash_type list \<Rightarrow> complete_merkle_tree \<Rightarrow> complete_merkle_tree" where
  "set_level log2_size level t =
     t\<lparr>cmt_tree := (cmt_tree t)[nat (cmt_log2_root_size t - log2_size) := level]\<rparr>"

definition get_node_hash :: "complete_merkle_tree \<Rightarrow> u64 \<Rightarrow> int \<Rightarrow> hash_type res" where
  "get_node_hash t address log2_size =
     bindR (get_level t log2_size) (\<lambda>level.
       let a = drop_bit (nat log2_size) address
       in if a \<ge> push_bit (nat (cmt_log2_root_size t - log2_size)) 1
          then Inl (Out_of_range ''log2_size is out of bounds'')
          else if unat a < length level then Inr (level ! unat a)
          else pri_get_hash (cmt_pristine t) log2_size)"

definition cmt_get_root_hash :: "complete_merkle_tree \<Rightarrow> hash_type res" where
  "cmt_get_root_hash t = get_node_hash t 0 (cmt_log2_root_size t)"

definition cmt_size :: "complete_merkle_tree \<Rightarrow> nat res" where
  "cmt_size t = bindR (get_level t (cmt_log2_leaf_size t)) (\<lambda>level. Inr (length level))"

text \<open>
  One iteration of the outer loop of \<open>bubble_up\<close>: the last entry of the next level is
  redone, entries with two non-pristine children follow, and a last odd entry is paired
  with the pristine hash of the level below.
\<close>

definition bubble_level :: "digest \<Rightarrow> int \<Rightarrow> complete_merkle_tree \<Rightarrow> complete_merkle_tree res" where
  "bubble_level K log2_next_size t =
     (let log2_prev_size = log2_next_size - 1 in
      bindR (get_level t log2_prev_size) (\<lambda>prev.
      bindR (get_level t log2_next_size) (\<lambda>next.
        let first_entry = (if next \<noteq> [] then length next - 1 else length next);
            next1 = resize ((length prev + 1) div 2) zero_hash next
        in if \<not> first_entry \<le> length next1
           then Inl (Assertion_failed ''first_entry <= next.size()'')
           else
             let last_safe_entry = length prev div 2;
                 next2 = fold (\<lambda>i xs. xs[i := concat_hash K (prev ! (2 * i)) (prev ! (2 * i + 1))])
                           [first_entry..<last_safe_entry] next1
             in if length prev > 2 * last_safe_entry
                then bindR (pri_get_hash (cmt_pristine t) log2_prev_size) (\<lambda>p.
                  Inr (set_level log2_next_size
                         (next2[last_safe_entry := concat_hash K (last prev) p]) t))
                else Inr (set_level log2_next_size next2 t))))"

definition cmt_bubble_up :: "digest \<Rightarrow> complete_merkle_tree \<Rightarrow> complete_merkle_tree res" where
  "cmt_bubble_up K t =
     for_range (cmt_log2_leaf_size t + 1) (cmt_log2_root_size t + 1) (bubble_level K) t"

definition cmt_push_back :: "digest \<Rightarrow> hash_type \<Rightarrow> complete_merkle_tree \<Rightarrow> complete_merkle_tree res" where
  "cmt_push_back K hash t =
     bindR (get_level t (cmt_log2_leaf_size t)) (\<lambda>leaves.
       if length leaves \<ge> 2 ^ nat (cmt_log2_root_size t - cmt_log2_leaf_size t)
       then Inl (Out_of_range ''tree is full'')
       else cmt_bubble_up K (set_level (cmt_log2_leaf_size t) (leaves @ [hash]) t))"

text \<open>The constructor from a vector of leaves.\<close>

definition new_complete_merkle_tree_from_leaves ::
  "digest \<Rightarrow> int \<Rightarrow> int \<Rightarrow> int \<Rightarrow> hash_type list \<Rightarrow> complete_merkle_tree res" where
  "new_complete_merkle_tree_from_leaves K log2_root_size log2_leaf_size log2_word_size leaves =
     bindR (new_complete_merkle_tree K log2_root_size log2_leaf_size log2_word_size) (\<lambda>t.
     bindR (get_level t (cmt_log2_leaf_size t)) (\<lambda>_.
     cmt_bubble_up K (set_level (cmt_log2_leaf_size t) leaves t)))"

definition cmt_get_proof :: "complete_merkle_tree \<Rightarrow> u64 \<Rightarrow> int \<Rightarrow> merkle_tree_proof res" where
  "cmt_get_proof t address log2_size =
     (if log2_size < cmt_log2_leaf_size t \<or> log2_size > cmt_log2_root_size t
      then Inl (Out_of_range ''log2_size is out of bounds'')
      else if address \<noteq> push_bit (nat log2_size) (drop_bit (nat log2_size) address)
      then Inl (Out_of_range ''address is misaligned'')
      else
        bindR (new_merkle_tree_proof (cmt_log2_root_size t) log2_size) (\<lambda>p0.
        bindR (cmt_get_root_hash t) (\<lambda>root.
        bindR (get_node_hash t address log2_size) (\<lambda>target.
        for_range log2_size (cmt_log2_root_size t)
          (\<lambda>l p. bindR (get_node_hash t (address XOR push_bit (nat l) 1) l)
                   (\<lambda>h. set_sibling_hash h l p))
          (set_target_hash target (set_target_address address (set_root_hash root p0)))))))"

section \<open>The levels of the reference tree\<close>

text \<open>How many nodes of a level cover at least one of \<open>n\<close> leaves.\<close>

primrec level_size :: "nat \<Rightarrow> nat \<Rightarrow> nat" where
  "level_size n 0 = n"
| "level_size n (Suc k) = (level_size n k + 1) div 2"

lemma less_level_size: "i < level_size n k \<longleftrightarrow> i * 2 ^ k < n"
proof (induction k arbitrary: i)
  case 0
  then show ?case by simp
next
  case (Suc k)
  have "i < (level_size n k + 1) div 2 \<longleftrightarrow> 2 * i < level_size n k" by auto
  then show ?case using Suc.IH [of "2 * i"] by (simp add: algebra_simps)
qed

lemma level_size_0 [simp]: "level_size 0 k = 0"
  by (induction k) simp_all

lemma level_size_mono: "n \<le> m \<Longrightarrow> level_size n k \<le> level_size m k"
  by (induction k) (auto intro: div_le_mono)

definition level_nodes :: "digest \<Rightarrow> hash_type \<Rightarrow> hash_type list \<Rightarrow> nat \<Rightarrow> hash_type list" where
  "level_nodes K p leaves k = map (tree_node K (padded leaves p) k) [0..<level_size (length leaves) k]"

text \<open>A level computed before leaves were appended: all but its last entry are still right.\<close>

definition stale_level :: "digest \<Rightarrow> hash_type \<Rightarrow> hash_type list \<Rightarrow> nat \<Rightarrow> hash_type list \<Rightarrow> bool" where
  "stale_level K p leaves k xs \<longleftrightarrow>
     length xs \<le> level_size (length leaves) k \<and>
     (\<forall>i. i + 1 < length xs \<longrightarrow> xs ! i = tree_node K (padded leaves p) k i)"

lemma stale_level_Nil [simp]: "stale_level K p leaves k []"
  by (simp add: stale_level_def)

lemma stale_level_snoc: "stale_level K p (leaves @ [h]) k (level_nodes K p leaves k)"
proof -
  have "tree_node K (padded leaves p) k i = tree_node K (padded (leaves @ [h]) p) k i"
    if "i + 1 < level_size (length leaves) k" for i
  proof (rule tree_node_cong)
    fix j assume "j < (i + 1) * 2 ^ k"
    with that have "j < length leaves" using less_level_size [of "i + 1"] by simp
    then show "padded leaves p j = padded (leaves @ [h]) p j" by (simp add: padded_def nth_append)
  qed
  then show ?thesis
    using level_size_mono [of "length leaves" "length leaves + 1" k]
    by (simp add: stale_level_def level_nodes_def)
qed

lemma tree_node_beyond:
  assumes "level_size (length leaves) k \<le> i"
  shows "tree_node K (padded leaves p) k i = pristine_node K p k"
proof (rule tree_node_pristine)
  fix j assume "i * 2 ^ k \<le> j"
  moreover have "length leaves \<le> i * 2 ^ k" using assms less_level_size [of i] by (simp add: not_less [symmetric])
  ultimately show "padded leaves p j = p" by (simp add: padded_def)
qed

section \<open>One level of \<open>bubble_up\<close>\<close>

text \<open>The entries \<open>bubble_level\<close> computes from a correct level below and a stale level.\<close>

lemma bubble_entries:
  assumes prev: "prev = level_nodes K p leaves k"
    and stale: "stale_level K p leaves (Suc k) old"
    and fe: "fe = (if old \<noteq> [] then length old - 1 else length old)"
    and next2: "next2 = fold (\<lambda>i xs. xs[i := concat_hash K (prev ! (2 * i)) (prev ! (2 * i + 1))])
                  [fe..<length prev div 2] (resize ((length prev + 1) div 2) zero_hash old)"
  shows "(if length prev > 2 * (length prev div 2)
          then next2[length prev div 2 := concat_hash K (last prev) (pristine_node K p k)]
          else next2) = level_nodes K p leaves (Suc k)"
    (is "?res = _")
proof (rule nth_equalityI)
  have lp: "length prev = level_size (length leaves) k" by (simp add: prev level_nodes_def)
  have nth_prev: "prev ! j = tree_node K (padded leaves p) k j" if "j < length prev" for j
    using that lp by (simp add: prev level_nodes_def)
  have ln: "length next2 = (length prev + 1) div 2" unfolding next2 by simp
  then show len: "length ?res = length (level_nodes K p leaves (Suc k))"
    by (simp add: level_nodes_def lp)
  fix i assume i: "i < length ?res"
  then have i': "i < (length prev + 1) div 2" using len by (simp add: level_nodes_def lp)
  then have rhs: "level_nodes K p leaves (Suc k) ! i = tree_node K (padded leaves p) (Suc k) i"
    by (simp add: level_nodes_def lp)
  show "?res ! i = level_nodes K p leaves (Suc k) ! i"
  proof (cases "i = length prev div 2")
    case True
    then have odd: "length prev = 2 * i + 1" using i' by simp
    then have "prev \<noteq> []" by auto
    then have "last prev = tree_node K (padded leaves p) k (2 * i)"
      using odd nth_prev [of "2 * i"] by (simp add: last_conv_nth)
    moreover have "tree_node K (padded leaves p) k (2 * i + 1) = pristine_node K p k"
      using odd lp by (intro tree_node_beyond) simp
    moreover have "length next2 = i + 1" using ln odd by simp
    ultimately show ?thesis using odd by (simp add: rhs)
  next
    case False
    then have low: "i < length prev div 2" using i' by simp
    then have same: "?res ! i = next2 ! i" by simp
    have nx: "next2 ! i = (if fe \<le> i then concat_hash K (prev ! (2 * i)) (prev ! (2 * i + 1))
        else resize ((length prev + 1) div 2) zero_hash old ! i)"
      using low i' unfolding next2 by (subst nth_fold_update) simp_all
    show ?thesis
    proof (cases "fe \<le> i")
      case True
      then show ?thesis using low by (simp add: same nx rhs nth_prev)
    next
      case False
      then have "i + 1 < length old" using fe by (auto split: if_splits)
      then show ?thesis
        using stale False i' by (simp add: same nx rhs nth_resize stale_level_def del: tree_node.simps)
    qed
  qed
qed

section \<open>The invariant\<close>

definition cmt_pristine_leaf :: "digest \<Rightarrow> complete_merkle_tree \<Rightarrow> hash_type" where
  "cmt_pristine_leaf K t =
     pristine_node K (zero_word_hash K (pri_log2_word_size (cmt_pristine t)))
       (nat (cmt_log2_leaf_size t - pri_log2_word_size (cmt_pristine t)))"

definition cmt_shape :: "digest \<Rightarrow> complete_merkle_tree \<Rightarrow> bool" where
  "cmt_shape K t \<longleftrightarrow>
     pristine_ok K (cmt_pristine t) \<and> pri_log2_root_size (cmt_pristine t) = cmt_log2_root_size t \<and>
     pri_log2_word_size (cmt_pristine t) \<le> cmt_log2_leaf_size t \<and>
     cmt_log2_leaf_size t \<le> cmt_log2_root_size t \<and> cmt_log2_root_size t < 64 \<and>
     length (cmt_tree t) = nat (cmt_log2_root_size t - cmt_log2_leaf_size t + 1)"

definition complete_inv :: "digest \<Rightarrow> hash_type list \<Rightarrow> complete_merkle_tree \<Rightarrow> bool" where
  "complete_inv K leaves t \<longleftrightarrow>
     cmt_shape K t \<and>
     length leaves \<le> 2 ^ nat (cmt_log2_root_size t - cmt_log2_leaf_size t) \<and>
     (\<forall>l. cmt_log2_leaf_size t \<le> l \<and> l \<le> cmt_log2_root_size t \<longrightarrow>
        get_level t l =
          Inr (level_nodes K (cmt_pristine_leaf K t) leaves (nat (l - cmt_log2_leaf_size t))))"

lemma cmt_shape_leaf_nonneg: "cmt_shape K t \<Longrightarrow> 0 \<le> cmt_log2_leaf_size t"
  by (auto simp: cmt_shape_def pristine_ok_def)

lemma set_level_select [simp]:
  "cmt_log2_root_size (set_level l xs t) = cmt_log2_root_size t"
  "cmt_log2_leaf_size (set_level l xs t) = cmt_log2_leaf_size t"
  "cmt_pristine (set_level l xs t) = cmt_pristine t"
  "cmt_pristine_leaf K (set_level l xs t) = cmt_pristine_leaf K t"
  "cmt_shape K (set_level l xs t) = cmt_shape K t"
  by (simp_all add: set_level_def cmt_pristine_leaf_def cmt_shape_def)

lemma get_set_level:
  assumes "cmt_shape K t" "cmt_log2_leaf_size t \<le> l" "l \<le> cmt_log2_root_size t"
  shows "get_level (set_level l xs t) l' = (if l' = l then Inr xs else get_level t l')"
  using assms by (auto simp: get_level_def set_level_def cmt_shape_def nth_list_update)

lemma pristine_level:
  assumes "cmt_shape K t" "cmt_log2_leaf_size t \<le> l" "l \<le> cmt_log2_root_size t"
  shows "pri_get_hash (cmt_pristine t) l =
     Inr (pristine_node K (cmt_pristine_leaf K t) (nat (l - cmt_log2_leaf_size t)))"
proof -
  let ?w = "pri_log2_word_size (cmt_pristine t)"
  have "nat (cmt_log2_leaf_size t - ?w) + nat (l - cmt_log2_leaf_size t) = nat (l - ?w)"
    using assms unfolding cmt_shape_def by linarith
  then show ?thesis
    using assms by (simp add: cmt_shape_def pristine_ok_def cmt_pristine_leaf_def pristine_node_add)
qed

lemma bubble_level_correct:
  assumes shape: "cmt_shape K t"
    and l: "cmt_log2_leaf_size t < l" "l \<le> cmt_log2_root_size t"
    and prev: "get_level t (l - 1) =
          Inr (level_nodes K (cmt_pristine_leaf K t) leaves (nat (l - 1 - cmt_log2_leaf_size t)))"
    and old: "get_level t l = Inr old"
      "stale_level K (cmt_pristine_leaf K t) leaves (nat (l - cmt_log2_leaf_size t)) old"
  shows "bubble_level K l t =
     Inr (set_level l (level_nodes K (cmt_pristine_leaf K t) leaves (nat (l - cmt_log2_leaf_size t))) t)"
proof -
  let ?k = "nat (l - 1 - cmt_log2_leaf_size t)" and ?p = "cmt_pristine_leaf K t"
  let ?prev = "level_nodes K ?p leaves ?k"
  have k: "nat (l - cmt_log2_leaf_size t) = Suc ?k" using l by simp
  have pri: "pri_get_hash (cmt_pristine t) (l - 1) = Inr (pristine_node K ?p ?k)"
    using shape l by (intro pristine_level) simp_all
  have "length old \<le> (length ?prev + 1) div 2"
    using old(2) k by (simp add: stale_level_def level_nodes_def)
  then have guard: "(if old \<noteq> [] then length old - 1 else length old) \<le> (length ?prev + 1) div 2" by auto
  note entries = bubble_entries [OF refl old(2) [unfolded k] refl refl]
  show ?thesis
    using guard entries unfolding bubble_level_def k
    by (simp add: Let_def prev old(1) pri split: if_splits)
qed

section \<open>Building and growing the tree\<close>

lemma bubble_up_correct:
  assumes shape: "cmt_shape K t"
    and base: "get_level t (cmt_log2_leaf_size t) = Inr leaves"
    and stale: "\<And>l. cmt_log2_leaf_size t < l \<Longrightarrow> l \<le> cmt_log2_root_size t \<Longrightarrow>
        \<exists>old. get_level t l = Inr old \<and>
          stale_level K (cmt_pristine_leaf K t) leaves (nat (l - cmt_log2_leaf_size t)) old"
    and cap: "length leaves \<le> 2 ^ nat (cmt_log2_root_size t - cmt_log2_leaf_size t)"
  shows "\<exists>t'. cmt_bubble_up K t = Inr t' \<and> complete_inv K leaves t' \<and>
     cmt_log2_root_size t' = cmt_log2_root_size t \<and> cmt_log2_leaf_size t' = cmt_log2_leaf_size t \<and>
     cmt_pristine t' = cmt_pristine t"
proof -
  let ?leaf = "cmt_log2_leaf_size t" and ?root = "cmt_log2_root_size t"
  let ?p = "cmt_pristine_leaf K t"
  let ?inv = "\<lambda>i t'. cmt_shape K t' \<and> cmt_log2_leaf_size t' = ?leaf \<and> cmt_log2_root_size t' = ?root \<and>
     cmt_pristine t' = cmt_pristine t \<and> cmt_pristine_leaf K t' = ?p \<and>
     (\<forall>l. ?leaf \<le> l \<and> l < i \<and> l \<le> ?root \<longrightarrow> get_level t' l = Inr (level_nodes K ?p leaves (nat (l - ?leaf)))) \<and>
     (\<forall>l. i \<le> l \<and> l \<le> ?root \<longrightarrow> get_level t' l = get_level t l)"
  have lr: "?leaf + 1 \<le> ?root + 1" using shape by (simp add: cmt_shape_def)
  have "\<exists>t'. for_range (?leaf + 1) (?root + 1) (bubble_level K) t = Inr t' \<and> ?inv (?root + 1) t'"
  proof (rule for_range_rule [OF lr, where P = ?inv])
    have "l = ?leaf" if "?leaf \<le> l" "l < ?leaf + 1" for l using that by simp
    then show "?inv (?leaf + 1) t"
      using shape base by (auto simp: level_nodes_def padded_def intro!: nth_equalityI)
  next
    fix i t' assume i: "?leaf + 1 \<le> i" "i < ?root + 1" and inv: "?inv i t'"
    obtain old where old: "get_level t i = Inr old" "stale_level K ?p leaves (nat (i - ?leaf)) old"
      using stale [of i] i by auto
    have "get_level t' (i - 1) = Inr (level_nodes K ?p leaves (nat (i - 1 - ?leaf)))"
      using inv i by simp
    moreover have "get_level t' i = Inr old" using inv i old(1) by simp
    ultimately have step: "bubble_level K i t' =
        Inr (set_level i (level_nodes K ?p leaves (nat (i - ?leaf))) t')"
      using bubble_level_correct [of K t' i leaves old] inv i old(2) by simp
    show "\<exists>s'. bubble_level K i t' = Inr s' \<and> ?inv (i + 1) s'"
      using inv i by (auto simp: step get_set_level)
  qed
  then show ?thesis using cap by (auto simp: cmt_bubble_up_def complete_inv_def)
qed

lemma push_back_room:
  assumes inv: "complete_inv K leaves t"
    and room: "length leaves < 2 ^ nat (cmt_log2_root_size t - cmt_log2_leaf_size t)"
  shows "\<exists>t'. cmt_push_back K h t = Inr t' \<and> complete_inv K (leaves @ [h]) t' \<and>
     cmt_log2_root_size t' = cmt_log2_root_size t \<and> cmt_log2_leaf_size t' = cmt_log2_leaf_size t \<and>
     cmt_pristine t' = cmt_pristine t"
proof -
  let ?leaf = "cmt_log2_leaf_size t" and ?root = "cmt_log2_root_size t"
  let ?t1 = "set_level ?leaf (leaves @ [h]) t"
  have shape: "cmt_shape K t" using inv by (simp add: complete_inv_def)
  then have lr: "?leaf \<le> ?root" by (simp add: cmt_shape_def)
  have base: "get_level t ?leaf = Inr leaves"
    using inv lr by (auto simp: complete_inv_def level_nodes_def padded_def intro!: nth_equalityI)
  have "\<exists>t'. cmt_bubble_up K ?t1 = Inr t' \<and> complete_inv K (leaves @ [h]) t' \<and>
     cmt_log2_root_size t' = cmt_log2_root_size ?t1 \<and> cmt_log2_leaf_size t' = cmt_log2_leaf_size ?t1 \<and>
     cmt_pristine t' = cmt_pristine ?t1"
  proof (rule bubble_up_correct)
    show "cmt_shape K ?t1" using shape by simp
    show "get_level ?t1 (cmt_log2_leaf_size ?t1) = Inr (leaves @ [h])"
      using shape lr by (simp add: get_set_level)
    show "length (leaves @ [h]) \<le> 2 ^ nat (cmt_log2_root_size ?t1 - cmt_log2_leaf_size ?t1)"
      using room by simp
  next
    fix l assume l: "cmt_log2_leaf_size ?t1 < l" "l \<le> cmt_log2_root_size ?t1"
    then have "get_level ?t1 l = Inr (level_nodes K (cmt_pristine_leaf K t) leaves (nat (l - ?leaf)))"
      using inv shape lr by (simp add: get_set_level complete_inv_def)
    then show "\<exists>old. get_level ?t1 l = Inr old \<and>
        stale_level K (cmt_pristine_leaf K ?t1) (leaves @ [h]) (nat (l - cmt_log2_leaf_size ?t1)) old"
      by (simp add: stale_level_snoc)
  qed
  then show ?thesis using room by (simp add: cmt_push_back_def base)
qed

lemma push_back_full:
  assumes inv: "complete_inv K leaves t"
    and full: "length leaves = 2 ^ nat (cmt_log2_root_size t - cmt_log2_leaf_size t)"
  shows "cmt_push_back K h t = Inl (Out_of_range ''tree is full'')"
proof -
  have "get_level t (cmt_log2_leaf_size t) = Inr leaves"
    using inv by (auto simp: complete_inv_def cmt_shape_def level_nodes_def padded_def intro!: nth_equalityI)
  then show ?thesis using full by (simp add: cmt_push_back_def)
qed

lemma new_complete_merkle_tree_inv:
  "new_complete_merkle_tree K r lf w = Inr t \<Longrightarrow> complete_inv K [] t \<and>
     cmt_log2_root_size t = r \<and> cmt_log2_leaf_size t = lf \<and> pri_log2_word_size (cmt_pristine t) = w"
  by (auto simp: new_complete_merkle_tree_def check_log2_sizes_def complete_inv_def cmt_shape_def
      get_level_def level_nodes_def bindR_eq_Inr dest: new_pristine_merkle_tree_ok split: if_splits)


lemma complete_inv_leaves:
  "complete_inv K leaves t \<Longrightarrow> get_level t (cmt_log2_leaf_size t) = Inr leaves"
  by (auto simp: complete_inv_def cmt_shape_def level_nodes_def padded_def intro!: nth_equalityI)

lemma cmt_size_correct: "complete_inv K leaves t \<Longrightarrow> cmt_size t = Inr (length leaves)"
  by (simp add: cmt_size_def complete_inv_leaves)

lemma new_from_leaves_inv:
  assumes "new_complete_merkle_tree K r lf w = Inr t0" and "length leaves \<le> 2 ^ nat (r - lf)"
  shows "\<exists>t. new_complete_merkle_tree_from_leaves K r lf w leaves = Inr t \<and> complete_inv K leaves t \<and>
     cmt_log2_root_size t = r \<and> cmt_log2_leaf_size t = lf \<and> pri_log2_word_size (cmt_pristine t) = w"
proof -
  let ?t1 = "set_level lf leaves t0"
  have inv: "complete_inv K [] t0" and sizes: "cmt_log2_root_size t0 = r" "cmt_log2_leaf_size t0 = lf"
      "pri_log2_word_size (cmt_pristine t0) = w"
    using new_complete_merkle_tree_inv [OF assms(1)] by simp_all
  then have shape: "cmt_shape K t0" by (simp add: complete_inv_def)
  then have lr: "lf \<le> r" using sizes by (simp add: cmt_shape_def)
  have "\<exists>t. cmt_bubble_up K ?t1 = Inr t \<and> complete_inv K leaves t \<and>
     cmt_log2_root_size t = cmt_log2_root_size ?t1 \<and> cmt_log2_leaf_size t = cmt_log2_leaf_size ?t1 \<and>
     cmt_pristine t = cmt_pristine ?t1"
  proof (rule bubble_up_correct)
    fix l assume "cmt_log2_leaf_size ?t1 < l" "l \<le> cmt_log2_root_size ?t1"
    then have "get_level ?t1 l = Inr []"
      using inv shape lr sizes by (simp add: get_set_level complete_inv_def level_nodes_def)
    then show "\<exists>old. get_level ?t1 l = Inr old \<and>
        stale_level K (cmt_pristine_leaf K ?t1) leaves (nat (l - cmt_log2_leaf_size ?t1)) old"
      by simp
  qed (use shape lr sizes assms(2) in \<open>simp_all add: get_set_level\<close>)
  then show ?thesis
    using assms(1) complete_inv_leaves [OF inv] sizes
    by (auto simp: new_complete_merkle_tree_from_leaves_def)
qed

section \<open>Node hashes, root hash and proofs\<close>

lemma node_range_iff:
  fixes a :: u64
  assumes "0 \<le> l" "l \<le> r" "r < 64"
  shows "push_bit (nat (r - l)) 1 \<le> drop_bit (nat l) a \<longleftrightarrow> 2 ^ nat (r - l) \<le> unat a div 2 ^ nat l"
proof -
  have "unat (push_bit (nat (r - l)) 1 :: u64) = 2 ^ nat (r - l)"
    using assms by (intro unat_shifted_one) simp
  then show ?thesis by (simp only: word_le_nat_alt unat_drop_bit)
qed

lemma get_node_hash_eq:
  assumes inv: "complete_inv K leaves t"
    and l: "cmt_log2_leaf_size t \<le> l" "l \<le> cmt_log2_root_size t"
  shows "get_node_hash t a l =
    (if unat a div 2 ^ nat l < 2 ^ nat (cmt_log2_root_size t - l)
     then Inr (tree_node K (padded leaves (cmt_pristine_leaf K t))
                 (nat (l - cmt_log2_leaf_size t)) (unat a div 2 ^ nat l))
     else Inl (Out_of_range ''log2_size is out of bounds''))"
proof -
  let ?k = "nat (l - cmt_log2_leaf_size t)" and ?p = "cmt_pristine_leaf K t"
  let ?i = "unat a div 2 ^ nat l"
  have shape: "cmt_shape K t" using inv by (simp add: complete_inv_def)
  have range: "push_bit (nat (cmt_log2_root_size t - l)) 1 \<le> drop_bit (nat l) a \<longleftrightarrow>
      2 ^ nat (cmt_log2_root_size t - l) \<le> ?i"
    using shape l cmt_shape_leaf_nonneg [OF shape] by (intro node_range_iff) (auto simp: cmt_shape_def)
  have level: "get_level t l = Inr (level_nodes K ?p leaves ?k)"
    using inv l by (simp add: complete_inv_def)
  show ?thesis
  proof (cases "?i < level_size (length leaves) ?k")
    case True
    then have "level_nodes K ?p leaves ?k ! ?i = tree_node K (padded leaves ?p) ?k ?i"
      by (simp add: level_nodes_def)
    with True show ?thesis
      unfolding get_node_hash_def level bindR_simps Let_def range unat_drop_bit
      by (simp add: level_nodes_def)
  next
    case False
    then have "tree_node K (padded leaves ?p) ?k ?i = pristine_node K ?p ?k"
      by (intro tree_node_beyond) simp
    with False show ?thesis
      unfolding get_node_hash_def level bindR_simps Let_def range unat_drop_bit pristine_level [OF shape l]
      by (simp add: level_nodes_def)
  qed
qed

lemma cmt_get_root_hash_correct:
  assumes "complete_inv K leaves t"
  shows "cmt_get_root_hash t =
     Inr (spec_root K (cmt_pristine_leaf K t) (nat (cmt_log2_root_size t - cmt_log2_leaf_size t)) leaves)"
  using get_node_hash_eq [OF assms, of "cmt_log2_root_size t" 0] assms
  by (simp add: cmt_get_root_hash_def spec_root_def complete_inv_def cmt_shape_def)

lemma sibling_address:
  fixes a :: u64
  assumes "k < 64"
  shows "unat (a XOR push_bit k 1) div 2 ^ k = sibling_index (unat a div 2 ^ k)"
  using assms
  by (simp only: unat_drop_bit [symmetric] drop_bit_flip unat_flip_lowest sibling_index_def)

lemma sibling_index_less: "i < 2 * n \<Longrightarrow> sibling_index i < 2 * n"
  by (auto simp: sibling_index_def elim!: evenE)

lemma sibling_in_range:
  assumes "unat a div 2 ^ l < 2 ^ (r - l)" "l \<le> k" "k < r"
  shows "sibling_index (unat a div 2 ^ k) < 2 ^ (r - k)"
proof -
  have "unat a < 2 ^ (r - l) * 2 ^ l" using assms(1) by (simp add: div_less_iff_less_mult)
  also have "(2::nat) ^ (r - l) * 2 ^ l = 2 ^ (r - k) * 2 ^ k"
    using assms(2,3) by (simp add: power_add [symmetric])
  finally have "unat a div 2 ^ k < 2 ^ (r - k)" by (simp add: div_less_iff_less_mult)
  moreover have "r - k = Suc (r - k - 1)" using assms(3) by simp
  ultimately show ?thesis using sibling_index_less by (metis power_Suc)
qed

lemma aligned_root_zero:
  assumes "unat a div 2 ^ l < 2 ^ (r - l)" "l \<le> r"
  shows "unat a div 2 ^ r = 0"
proof -
  have "unat a < 2 ^ (r - l) * 2 ^ l" using assms(1) by (simp add: div_less_iff_less_mult)
  then show ?thesis using assms(2) by (simp add: power_add [symmetric])
qed

lemma get_proof_ok:
  assumes inv: "complete_inv K leaves t"
    and l: "cmt_log2_leaf_size t \<le> l" "l \<le> cmt_log2_root_size t" "0 < cmt_log2_root_size t"
    and aligned: "a = push_bit (nat l) (drop_bit (nat l) a)"
    and range: "unat a div 2 ^ nat l < 2 ^ nat (cmt_log2_root_size t - l)"
  shows "\<exists>p. cmt_get_proof t a l = Inr p \<and> proof_wf p \<and>
     mtp_target_address p = a \<and> mtp_log2_target_size p = l \<and>
     mtp_log2_root_size p = cmt_log2_root_size t \<and>
     mtp_target_hash p = tree_node K (padded leaves (cmt_pristine_leaf K t))
        (nat (l - cmt_log2_leaf_size t)) (unat a div 2 ^ nat l) \<and>
     mtp_root_hash p = spec_root K (cmt_pristine_leaf K t)
        (nat (cmt_log2_root_size t - cmt_log2_leaf_size t)) leaves \<and>
     proof_verify K p = Inr True \<and>
     (\<forall>k. nat l \<le> k \<and> k < nat (cmt_log2_root_size t) \<longrightarrow> proof_sibling p k =
        tree_node K (padded leaves (cmt_pristine_leaf K t)) (k - nat (cmt_log2_leaf_size t)) (sibling_index (unat a div 2 ^ k)))"
proof -
  let ?leaf = "nat (cmt_log2_leaf_size t)" and ?r = "nat (cmt_log2_root_size t)" and ?l = "nat l"
  let ?f = "padded leaves (cmt_pristine_leaf K t)"
  let ?nd = "\<lambda>k. tree_node K ?f (k - ?leaf)"
  have shape: "cmt_shape K t" using inv by (simp add: complete_inv_def)
  have nn: "0 \<le> cmt_log2_leaf_size t" using cmt_shape_leaf_nonneg [OF shape] .
  have lim: "cmt_log2_root_size t < 64" using shape by (simp add: cmt_shape_def)
  have rng: "unat a div 2 ^ ?l < 2 ^ (?r - ?l)" using range nn l by (simp add: nat_diff_distrib)
  have root: "cmt_get_root_hash t = Inr (?nd ?r 0)"
    using cmt_get_root_hash_correct [OF inv] nn l by (simp add: spec_root_def nat_diff_distrib)
  have target: "get_node_hash t a l = Inr (?nd ?l (unat a div 2 ^ ?l))"
    using get_node_hash_eq [OF inv l(1,2), of a] range nn l by (simp add: nat_diff_distrib)
  have sib: "get_node_hash t (a XOR push_bit (nat k) 1) k = Inr (?nd (nat k) (sibling_index (unat a div 2 ^ nat k)))"
    if "l \<le> k" "k < cmt_log2_root_size t" for k
  proof -
    have "nat k < 64" using that lim by simp
    moreover have "sibling_index (unat a div 2 ^ nat k) < 2 ^ nat (cmt_log2_root_size t - k)"
      using sibling_in_range [OF rng, of "nat k"] that nn l by (simp add: nat_diff_distrib)
    ultimately show ?thesis
      using get_node_hash_eq [OF inv, of k "a XOR push_bit (nat k) 1"] that nn l
      by (simp add: sibling_address nat_diff_distrib del: push_bit_of_1)
  qed
  obtain p0 where p0: "new_merkle_tree_proof (cmt_log2_root_size t) l = Inr p0"
    using new_merkle_tree_proof_Inr [of "cmt_log2_root_size t" l] nn l by auto
  define p1 where "p1 = set_target_hash (?nd ?l (unat a div 2 ^ ?l)) (set_target_address a (set_root_hash (?nd ?r 0) p0))"
  have p1: "proof_wf p1" "mtp_log2_root_size p1 = cmt_log2_root_size t" "mtp_log2_target_size p1 = l"
    "mtp_target_address p1 = a" "mtp_target_hash p1 = ?nd ?l (unat a div 2 ^ ?l)" "mtp_root_hash p1 = ?nd ?r 0"
    using p0 new_merkle_tree_proof_wf [OF p0]
    by (auto simp: p1_def new_merkle_tree_proof_def set_target_hash_def set_target_address_def
        set_root_hash_def proof_wf_def split: if_splits)
  obtain p where loop: "for_range l (cmt_log2_root_size t)
      (\<lambda>l p. bindR (get_node_hash t (a XOR push_bit (nat l) 1) l) (\<lambda>h. set_sibling_hash h l p)) p1 = Inr p"
    and fields: "proof_wf p" "mtp_target_address p = mtp_target_address p1" "mtp_log2_target_size p = l"
      "mtp_log2_root_size p = cmt_log2_root_size t"
      "mtp_target_hash p = mtp_target_hash p1" "mtp_root_hash p = mtp_root_hash p1"
    and sibs: "\<And>k. ?l \<le> k \<Longrightarrow> k < ?r \<Longrightarrow> proof_sibling p k = ?nd k (sibling_index (unat a div 2 ^ k))"
    by (rule fill_siblings [OF p1(1-3),
        where g = "\<lambda>k. get_node_hash t (a XOR push_bit (nat k) 1) k"
          and s = "\<lambda>k. ?nd k (sibling_index (unat a div 2 ^ k))", OF sib]) (assumption, assumption, rule that)
  have n: "nat (cmt_log2_root_size t - l) = ?r - ?l" "?l + (?r - ?l) = ?r" "?leaf \<le> ?l"
    using nn l by simp_all
  have "climb K (proof_right p) (proof_sibling p) ?l (?r - ?l) (?nd ?l (unat a div 2 ^ ?l)) =
      climb K (\<lambda>k. odd (unat a div 2 ^ k)) (\<lambda>k. ?nd k (sibling_index (unat a div 2 ^ k))) ?l (?r - ?l)
        (?nd ?l (unat a div 2 ^ ?l))"
    using sibs n(2) fields(2) p1(4) by (intro climb_cong) (simp add: proof_right_iff)
  also have "\<dots> = ?nd ?r (unat a div 2 ^ ?r)"
    using tree.climb_levels [OF n(3), where K = K and f = ?f and a = "unat a" and n = "?r - ?l"] n(2) by simp
  also have "unat a div 2 ^ ?r = 0" using aligned_root_zero [OF rng] n by simp
  finally have "proof_verify K p = Inr True"
    using proof_verify_eq [OF fields(1), of K] fields p1 n(1) lim by simp
  moreover have "cmt_get_proof t a l = Inr p"
    using l aligned loop by (simp add: cmt_get_proof_def p0 root target p1_def)
  ultimately show ?thesis
    using fields p1 nn l sibs by (intro exI [of _ p]) (simp add: spec_root_def nat_diff_distrib)
qed

section \<open>The contract\<close>

text \<open>The pristine leaf of a configuration, and the invariant of trees of that configuration.\<close>

definition pristine_leaf :: "digest \<Rightarrow> int \<Rightarrow> int \<Rightarrow> hash_type" where
  "pristine_leaf K log2_leaf_size log2_word_size =
     pristine_node K (zero_word_hash K log2_word_size) (nat (log2_leaf_size - log2_word_size))"

definition complete_config ::
  "digest \<Rightarrow> int \<Rightarrow> int \<Rightarrow> int \<Rightarrow> hash_type list \<Rightarrow> complete_merkle_tree \<Rightarrow> bool" where
  "complete_config K r lf w leaves t \<longleftrightarrow>
     complete_inv K leaves t \<and> cmt_log2_root_size t = r \<and> cmt_log2_leaf_size t = lf \<and>
     pri_log2_word_size (cmt_pristine t) = w"

lemma complete_config_leaf: "complete_config K r lf w leaves t \<Longrightarrow> cmt_pristine_leaf K t = pristine_leaf K lf w"
  by (auto simp: complete_config_def cmt_pristine_leaf_def pristine_leaf_def)

lemma new_complete_config:
  "new_complete_merkle_tree K r lf w = Inr t \<Longrightarrow> complete_config K r lf w [] t"
  using new_complete_merkle_tree_inv by (simp add: complete_config_def)

interpretation complete: merkle_accumulator "cmt_push_back K" cmt_get_root_hash
    "complete_config K r lf w" K "pristine_leaf K lf w" "nat (r - lf)" for K r lf w
proof unfold_locales
  fix leaves t h
  assume cfg: "complete_config K r lf w leaves t"
  then have inv: "complete_inv K leaves t" by (simp add: complete_config_def)
  show "cmt_get_root_hash t = Inr (spec_root K (pristine_leaf K lf w) (nat (r - lf)) leaves)"
    using cmt_get_root_hash_correct [OF inv] complete_config_leaf [OF cfg] cfg
    by (simp add: complete_config_def)
  show "length leaves \<le> 2 ^ nat (r - lf)"
    using cfg by (auto simp: complete_config_def complete_inv_def)
  show "\<exists>t'. cmt_push_back K h t = Inr t' \<and> complete_config K r lf w (leaves @ [h]) t'"
    if "length leaves < 2 ^ nat (r - lf)"
    using push_back_room [OF inv, of h] that cfg by (fastforce simp: complete_config_def)
  show "\<exists>x. cmt_push_back K h t = Inl x" if "length leaves = 2 ^ nat (r - lf)"
    using push_back_full [OF inv] that cfg by (auto simp: complete_config_def)
qed

text \<open>A fresh tree after a sequence of pushes that all succeeded.\<close>

lemma pushed_config:
  assumes "new_complete_merkle_tree K r lf w = Inr t" "foldR (cmt_push_back K) hs t = Inr t'"
  shows "complete_config K r lf w hs t' \<and> length hs \<le> 2 ^ nat (r - lf)"
proof -
  have cfg: "complete_config K r lf w [] t" using new_complete_config [OF assms(1)] .
  have "length hs \<le> 2 ^ nat (r - lf)"
  proof (rule ccontr)
    assume "\<not> length hs \<le> 2 ^ nat (r - lf)"
    with complete.push_all_overflow [OF cfg, of hs] assms(2) show False by simp
  qed
  with complete.push_all [OF cfg, of hs] assms(2) show ?thesis by simp
qed

lemma get_node_hash_config:
  assumes "complete_config K r lf w leaves t" "lf \<le> l" "l \<le> r"
  shows "get_node_hash t a l =
    (if unat a div 2 ^ nat l < 2 ^ nat (r - l)
     then Inr (tree_node K (padded leaves (pristine_leaf K lf w)) (nat (l - lf)) (unat a div 2 ^ nat l))
     else Inl (Out_of_range ''log2_size is out of bounds''))"
  using assms get_node_hash_eq [of K leaves t l a] complete_config_leaf [OF assms(1)]
  by (simp add: complete_config_def)

section \<open>Properties\<close>

text \<open>
  Claim C24. A complete Merkle tree accepts exactly as many leaves as it has room for:
  pushing a sequence of hashes onto a fresh tree succeeds when the sequence fits and
  then the tree has that many leaves and the root hash of the reference tree padded with
  pristine leaves; a longer sequence makes some \<open>push_back\<close> throw.
\<close>

theorem complete_tree_pushes:
  assumes "new_complete_merkle_tree K r lf w = Inr t"
  shows "if length hs \<le> 2 ^ nat (r - lf)
    then \<exists>t'. foldR (cmt_push_back K) hs t = Inr t' \<and> cmt_size t' = Inr (length hs) \<and>
           cmt_get_root_hash t' = Inr (spec_root K (pristine_leaf K lf w) (nat (r - lf)) hs)
    else \<exists>x. foldR (cmt_push_back K) hs t = Inl x"
proof -
  have cfg: "complete_config K r lf w [] t" using new_complete_config [OF assms] .
  show ?thesis
  proof (cases "length hs \<le> 2 ^ nat (r - lf)")
    case True
    then obtain t' where t': "foldR (cmt_push_back K) hs t = Inr t'" "complete_config K r lf w hs t'"
      using complete.push_all [OF cfg, of hs] by auto
    then have "cmt_size t' = Inr (length hs)"
      by (auto simp: complete_config_def intro: cmt_size_correct)
    with t' True complete.root_spec [OF t'(2)] show ?thesis by simp
  next
    case False
    with complete.push_all_overflow [OF cfg, of hs] show ?thesis by simp
  qed
qed

text \<open>
  Claim C25. Every node the tree covers can be read back: after any successful sequence
  of pushes, \<open>get_node_hash\<close> at any level and address inside the tree returns the
  reference tree's hash of that node, stored or pristine, and throws outside the tree.
\<close>

theorem complete_tree_nodes:
  assumes "new_complete_merkle_tree K r lf w = Inr t" "foldR (cmt_push_back K) hs t = Inr t'"
    and "lf \<le> l" "l \<le> r"
  shows "get_node_hash t' a l =
    (if unat a div 2 ^ nat l < 2 ^ nat (r - l)
     then Inr (tree_node K (padded hs (pristine_leaf K lf w)) (nat (l - lf)) (unat a div 2 ^ nat l))
     else Inl (Out_of_range ''log2_size is out of bounds''))"
  using pushed_config [OF assms(1,2)] assms(3,4) by (intro get_node_hash_config) simp_all

text \<open>
  Claim C26. Every proof the tree hands out is valid: after any successful sequence of
  pushes, \<open>get_proof\<close> for an aligned node inside the tree returns a well-formed proof
  of the reference tree's hash of that node against the tree's current root hash, and
  that proof verifies.
\<close>

theorem complete_tree_proofs:
  assumes "new_complete_merkle_tree K r lf w = Inr t" "foldR (cmt_push_back K) hs t = Inr t'"
    and "lf \<le> l" "l \<le> r" "0 < r"
    and "a = push_bit (nat l) (drop_bit (nat l) a)" "unat a div 2 ^ nat l < 2 ^ nat (r - l)"
  shows "\<exists>p. cmt_get_proof t' a l = Inr p \<and> proof_wf p \<and> proof_verify K p = Inr True \<and>
     mtp_target_address p = a \<and> mtp_log2_target_size p = l \<and> mtp_log2_root_size p = r \<and>
     mtp_target_hash p =
       tree_node K (padded hs (pristine_leaf K lf w)) (nat (l - lf)) (unat a div 2 ^ nat l) \<and>
     cmt_get_root_hash t' = Inr (mtp_root_hash p)"
proof -
  have cfg: "complete_config K r lf w hs t'" using pushed_config [OF assms(1,2)] by simp
  then have inv: "complete_inv K hs t'" and sizes: "cmt_log2_root_size t' = r" "cmt_log2_leaf_size t' = lf"
    by (simp_all add: complete_config_def)
  show ?thesis
    using get_proof_ok [OF inv, of l a] assms(3-7) sizes complete_config_leaf [OF cfg]
      cmt_get_root_hash_correct [OF inv] by auto
qed

text \<open>
  Claim C27. Building the tree from a vector of leaves and pushing the leaves one at a
  time give trees with the same hash at every node.
\<close>

theorem from_leaves_same_as_pushes:
  assumes "new_complete_merkle_tree K r lf w = Inr t" "foldR (cmt_push_back K) hs t = Inr t'"
  shows "\<exists>s. new_complete_merkle_tree_from_leaves K r lf w hs = Inr s \<and>
     (\<forall>a l. get_node_hash s a l = get_node_hash t' a l)"
proof -
  have cfg: "complete_config K r lf w hs t'" and cap: "length hs \<le> 2 ^ nat (r - lf)"
    using pushed_config [OF assms] by simp_all
  obtain s where s: "new_complete_merkle_tree_from_leaves K r lf w hs = Inr s" "complete_config K r lf w hs s"
    using new_from_leaves_inv [OF assms(1) cap] by (auto simp: complete_config_def)
  have "get_node_hash s a l = get_node_hash t' a l" for a l
  proof (cases "lf \<le> l \<and> l \<le> r")
    case True
    then show ?thesis using get_node_hash_config [OF s(2)] get_node_hash_config [OF cfg] by simp
  next
    case False
    then show ?thesis using s(2) cfg by (auto simp: get_node_hash_def get_level_def complete_config_def)
  qed
  with s(1) show ?thesis by blast
qed

section \<open>Instances\<close>

text \<open>A concrete tree of four leaves with three of them pushed.\<close>

definition sample_complete_tree :: complete_merkle_tree where
  "sample_complete_tree = projr (new_complete_merkle_tree sample_digest 2 0 0)"

definition sample_leaves :: "hash_type list" where
  "sample_leaves = [replicate hash_size 1, replicate hash_size 2, replicate hash_size 3]"

definition sample_complete_tree3 :: complete_merkle_tree where
  "sample_complete_tree3 = projr (foldR (cmt_push_back sample_digest) sample_leaves sample_complete_tree)"

lemma sample_complete_tree: "new_complete_merkle_tree sample_digest 2 0 0 = Inr sample_complete_tree"
  by code_simp

lemma sample_complete_tree3: "foldR (cmt_push_back sample_digest) sample_leaves sample_complete_tree = Inr sample_complete_tree3"
  by code_simp

lemma length_sample_leaves: "length sample_leaves = 3"
  by (simp add: sample_leaves_def)

theorem complete_tree_nodes_witness:
  "get_node_hash sample_complete_tree3 2 1 =
     Inr (tree_node sample_digest (padded sample_leaves (pristine_leaf sample_digest 0 0)) 1 1)"
  using complete_tree_nodes [OF sample_complete_tree sample_complete_tree3, of 1 2] by simp

theorem complete_tree_pushes_witness:
  "cmt_get_root_hash sample_complete_tree3 = Inr (spec_root sample_digest (pristine_leaf sample_digest 0 0) 2 sample_leaves)"
  using complete_tree_pushes [OF sample_complete_tree, of sample_leaves] sample_complete_tree3
  by (simp add: sample_leaves_def)

theorem complete_tree_proofs_witness:
  "\<exists>p. cmt_get_proof sample_complete_tree3 2 1 = Inr p \<and> proof_verify sample_digest p = Inr True"
  using complete_tree_proofs [OF sample_complete_tree sample_complete_tree3, of 1 2] by auto

theorem from_leaves_same_as_pushes_witness:
  "\<exists>s. new_complete_merkle_tree_from_leaves sample_digest 2 0 0 sample_leaves = Inr s \<and>
     (\<forall>a l. get_node_hash s a l = get_node_hash sample_complete_tree3 a l)"
  by (rule from_leaves_same_as_pushes [OF sample_complete_tree sample_complete_tree3])

end
