(* ===== verification/Back_Tree.thy ===== *)
theory Back_Tree
  imports Complete_Tree
begin

text \<open>
  \<^verbatim>\<open>src/src/back-merkle-tree.cpp\<close>: the incremental Merkle tree that stores one hash
  per set bit of the leaf count. It is shown to satisfy the same accumulator contract
  as the complete tree, so both give the same root for the same leaves, and its proof
  for the next leaf is shown to verify.
\<close>

unbundle bit_operations_syntax

record back_merkle_tree =
  bmt_log2_root_size :: int
  bmt_log2_leaf_size :: int
  bmt_leaf_count :: u64
  bmt_max_leaves :: u64
  bmt_context :: "hash_type list"
  bmt_pristine_hashes :: pristine_merkle_tree

text \<open>
  The constructor. The member initialiser of \<open>m_max_leaves\<close> shifts by
  \<open>log2_root_size - log2_leaf_size\<close> before any check, which is undefined when that
  difference is negative or at least 64.
\<close>

definition new_back_merkle_tree :: "digest \<Rightarrow> int \<Rightarrow> int \<Rightarrow> int \<Rightarrow> back_merkle_tree res" where
  "new_back_merkle_tree K log2_root_size log2_leaf_size log2_word_size =
     (let d = log2_root_size - log2_leaf_size in
      if d < 0 \<or> d \<ge> 64 then Inl (Undefined_behaviour ''shift amount'')
      else
        bindR (new_pristine_merkle_tree K log2_root_size log2_word_size) (\<lambda>pristine.
        if log2_root_size < 0 then Inl (Out_of_range ''log2_root_size is negative'')
        else if log2_leaf_size < 0 then Inl (Out_of_range ''log2_leaf_size is negative'')
        else if log2_word_size < 0 then Inl (Out_of_range ''log2_word_size is negative'')
        else if log2_leaf_size > log2_root_size
          then Inl (Out_of_range ''log2_leaf_size is greater than log2_root_size'')
        else if log2_word_size > log2_leaf_size
          then Inl (Out_of_range ''log2_word_size is greater than log2_word_size'')
        else if log2_root_size \<ge> 64 then Inl (Out_of_range ''tree is too large for address type'')
        else Inr \<lparr>bmt_log2_root_size = log2_root_size, bmt_log2_leaf_size = log2_leaf_size,
                  bmt_leaf_count = 0, bmt_max_leaves = push_bit (nat d) 1,
                  bmt_context = replicate (nat (max 1 (d + 1))) zero_hash,
                  bmt_pristine_hashes = pristine\<rparr>))"

definition bmt_depth :: "back_merkle_tree \<Rightarrow> nat" where
  "bmt_depth t = nat (bmt_log2_root_size t - bmt_log2_leaf_size t)"

text \<open>\<open>m_leaf_count & (address_type{1} << i)\<close>\<close>

definition count_bit :: "u64 \<Rightarrow> nat \<Rightarrow> bool" where
  "count_bit count i \<longleftrightarrow> count AND push_bit i 1 \<noteq> 0"

text \<open>The loop of \<open>push_back\<close>, from level \<open>i\<close> up to \<open>depth\<close>, with its break.\<close>

function push_loop :: "digest \<Rightarrow> u64 \<Rightarrow> nat \<Rightarrow> nat \<Rightarrow> hash_type \<Rightarrow> hash_type list \<Rightarrow> hash_type list" where
  "push_loop K count depth i right context =
     (if i \<le> depth then
        (if count_bit count i
         then push_loop K count depth (Suc i) (concat_hash K (context ! i) right) context
         else context[i := right])
      else context)"
  by pat_completeness auto
termination
  by (relation "measure (\<lambda>(K, count, depth, i, right, context). Suc depth - i)") auto

declare push_loop.simps [simp del]

definition bmt_push_back :: "digest \<Rightarrow> hash_type \<Rightarrow> back_merkle_tree \<Rightarrow> back_merkle_tree res" where
  "bmt_push_back K leaf_hash t =
     (if bmt_leaf_count t \<ge> bmt_max_leaves t then Inl (Out_of_range ''too many leaves'')
      else Inr (t\<lparr>bmt_context := push_loop K (bmt_leaf_count t) (bmt_depth t) 0 leaf_hash (bmt_context t),
                  bmt_leaf_count := bmt_leaf_count t + 1\<rparr>))"

text \<open>The body of the loops of \<open>get_root_hash\<close> and \<open>get_next_leaf_proof\<close>: the sibling at level \<open>i\<close>.\<close>

definition next_sibling :: "back_merkle_tree \<Rightarrow> int \<Rightarrow> hash_type res" where
  "next_sibling t i =
     (if count_bit (bmt_leaf_count t) (nat i) then Inr (bmt_context t ! nat i)
      else pri_get_hash (bmt_pristine_hashes t) (bmt_log2_leaf_size t + i))"

definition bmt_get_root_hash :: "digest \<Rightarrow> back_merkle_tree \<Rightarrow> hash_type res" where
  "bmt_get_root_hash K t =
     (if \<not> bmt_leaf_count t \<le> bmt_max_leaves t
      then Inl (Assertion_failed ''m_leaf_count <= m_max_leaves'')
      else if bmt_leaf_count t < bmt_max_leaves t then
        bindR (pri_get_hash (bmt_pristine_hashes t) (bmt_log2_leaf_size t)) (\<lambda>root0.
        for_range 0 (int (bmt_depth t))
          (\<lambda>i root. bindR (next_sibling t i) (\<lambda>s.
             Inr (path_step K (count_bit (bmt_leaf_count t) (nat i)) s root))) root0)
      else Inr (bmt_context t ! bmt_depth t))"

definition bmt_get_next_leaf_proof :: "digest \<Rightarrow> back_merkle_tree \<Rightarrow> merkle_tree_proof res" where
  "bmt_get_next_leaf_proof K t =
     (if bmt_leaf_count t \<ge> bmt_max_leaves t then Inl (Out_of_range ''tree is full'')
      else
        bindR (new_merkle_tree_proof (bmt_log2_root_size t) (bmt_log2_leaf_size t)) (\<lambda>p0.
        bindR (pri_get_hash (bmt_pristine_hashes t) (bmt_log2_leaf_size t)) (\<lambda>pristine.
        bindR (for_range 0 (int (bmt_depth t))
          (\<lambda>i (p, hash).
             bindR (next_sibling t i) (\<lambda>s.
             bindR (set_sibling_hash s (bmt_log2_leaf_size t + i) p) (\<lambda>p'.
             Inr (p', path_step K (count_bit (bmt_leaf_count t) (nat i)) s hash))))
          (set_target_hash pristine
             (set_target_address (push_bit (nat (bmt_log2_leaf_size t)) (bmt_leaf_count t)) p0), pristine))
        (\<lambda>(p, hash).
          let q = set_root_hash hash p
          in bindR (proof_verify K q) (\<lambda>ok.
             if \<not> ok then Inl (Runtime_error ''produced invalid proof'') else Inr q)))))"

section \<open>Invariant\<close>

text \<open>
  With \<open>n\<close> leaves, the entry for a set bit \<open>i\<close> of \<open>n\<close> is the node of level \<open>i\<close> just
  left of the node that contains position \<open>n\<close>: the largest complete subtrees, from
  right to left.
\<close>

definition context_ok :: "digest \<Rightarrow> hash_type \<Rightarrow> hash_type list \<Rightarrow> nat \<Rightarrow> hash_type list \<Rightarrow> bool" where
  "context_ok K p leaves depth context \<longleftrightarrow>
     length context = Suc depth \<and>
     (\<forall>i \<le> depth. odd (length leaves div 2 ^ i) \<longrightarrow>
        context ! i = tree_node K (padded leaves p) i (length leaves div 2 ^ i - 1))"

definition back_config ::
  "digest \<Rightarrow> int \<Rightarrow> int \<Rightarrow> int \<Rightarrow> hash_type list \<Rightarrow> back_merkle_tree \<Rightarrow> bool" where
  "back_config K r lf w leaves t \<longleftrightarrow>
     bmt_log2_root_size t = r \<and> bmt_log2_leaf_size t = lf \<and>
     0 \<le> w \<and> w \<le> lf \<and> lf \<le> r \<and> r < 64 \<and>
     pristine_ok K (bmt_pristine_hashes t) \<and> pri_log2_root_size (bmt_pristine_hashes t) = r \<and>
     pri_log2_word_size (bmt_pristine_hashes t) = w \<and>
     length leaves \<le> 2 ^ nat (r - lf) \<and>
     unat (bmt_leaf_count t) = length leaves \<and> unat (bmt_max_leaves t) = 2 ^ nat (r - lf) \<and>
     context_ok K (pristine_leaf K lf w) leaves (nat (r - lf)) (bmt_context t)"

lemma count_bit_iff: "count_bit c i \<longleftrightarrow> odd (unat c div 2 ^ i)"
  by (simp only: count_bit_def and_one_shifted_eq_0 bit_iff_odd_unat)

lemma new_back_config:
  "new_back_merkle_tree K r lf w = Inr t \<Longrightarrow> back_config K r lf w [] t"
  by (auto simp: new_back_merkle_tree_def back_config_def context_ok_def Let_def bindR_eq_Inr
      unat_shifted_one simp del: push_bit_of_1 dest: new_pristine_merkle_tree_ok split: if_splits)

section \<open>\<open>push_back\<close>\<close>

text \<open>Nodes left of position \<open>length leaves\<close> do not change when leaves are appended.\<close>

lemma tree_node_append:
  assumes "Suc k * 2 ^ l \<le> length leaves"
  shows "tree_node K (padded (leaves @ hs) p) l k = tree_node K (padded leaves p) l k"
proof (rule tree_node_cong)
  fix j assume "j < (k + 1) * 2 ^ l"
  then have "j < length leaves" using assms by simp
  then show "padded (leaves @ hs) p j = padded leaves p j" by (simp add: padded_def nth_append)
qed

lemma context_entry:
  assumes "context_ok K p leaves depth ctx" "i \<le> depth" "odd (length leaves div 2 ^ i)"
  shows "ctx ! i = tree_node K (padded (leaves @ hs) p) i (length leaves div 2 ^ i - 1)"
proof -
  have "Suc (length leaves div 2 ^ i - 1) * 2 ^ i = length leaves div 2 ^ i * 2 ^ i"
    using assms(3) by (simp add: odd_pos)
  also have "\<dots> \<le> length leaves" by simp
  finally show ?thesis using assms by (simp add: context_ok_def tree_node_append)
qed

text \<open>The carry chain of a counter: below the first clear bit every bit is set.\<close>

lemma carry_step:
  assumes "2 ^ i dvd Suc n"
  shows "Suc n div 2 ^ i = Suc (n div 2 ^ i)"
    and "odd (n div 2 ^ i) \<Longrightarrow> 2 ^ Suc i dvd Suc n"
    and "j < i \<Longrightarrow> even (Suc n div 2 ^ j)"
proof -
  obtain q where q: "Suc n = 2 ^ i * q" using assms by blast
  then obtain q' where q': "q = Suc q'" by (cases q) simp_all
  have n: "n = 2 ^ i * q' + (2 ^ i - 1)" using q q' by (simp add: algebra_simps)
  have "n div 2 ^ i = q'"
    unfolding n by (subst div_mult_self4) simp_all
  with q q' show div: "Suc n div 2 ^ i = Suc (n div 2 ^ i)" by simp
  show "2 ^ Suc i dvd Suc n" if "odd (n div 2 ^ i)"
  proof -
    have "even q" using that \<open>n div 2 ^ i = q'\<close> q' by simp
    then show ?thesis using q by (auto simp: mult.assoc)
  qed
  show "even (Suc n div 2 ^ j)" if "j < i"
  proof -
    have "Suc n = 2 ^ j * (2 * (2 ^ (i - Suc j) * q))"
      using q that by (simp add: power_add [symmetric] mult.assoc [symmetric] power_Suc [symmetric] del: power_Suc)
    then show ?thesis by (metis dvd_triv_left nonzero_mult_div_cancel_left power_not_zero zero_neq_numeral)
  qed
qed

lemma carry_above:
  assumes "2 ^ i dvd Suc n" "even (n div 2 ^ i)" "i < j"
  shows "Suc n div 2 ^ j = n div 2 ^ j"
proof -
  have j: "(2::nat) ^ j = 2 ^ i * (2 * 2 ^ (j - Suc i))"
    using assms(3) by (simp add: power_add [symmetric] power_Suc [symmetric] del: power_Suc)
  have "Suc (n div 2 ^ i) div 2 = n div 2 ^ i div 2" using assms(2) by (elim evenE) simp
  then have "Suc n div 2 ^ i div 2 = n div 2 ^ i div 2" using carry_step(1) [OF assms(1)] by simp
  then show ?thesis by (simp only: j div_mult2_eq)
qed

text \<open>The carry stops at the first clear bit, whose entry is the new complete subtree.\<close>

lemma context_ok_carry:
  assumes ok: "context_ok K p leaves depth ctx" and i: "i \<le> depth"
    and dvd: "2 ^ i dvd Suc (length leaves)" and even: "even (length leaves div 2 ^ i)"
  shows "context_ok K p (leaves @ [h]) depth
    (ctx[i := tree_node K (padded (leaves @ [h]) p) i (length leaves div 2 ^ i)])"
proof -
  let ?n = "length leaves" and ?f = "padded (leaves @ [h]) p"
  have len: "length ctx = Suc depth" using ok by (simp add: context_ok_def)
  have "ctx[i := tree_node K ?f i (?n div 2 ^ i)] ! j = tree_node K ?f j (Suc ?n div 2 ^ j - 1)"
    if j: "j \<le> depth" "odd (Suc ?n div 2 ^ j)" for j
  proof -
    have "\<not> j < i" using carry_step(3) [OF dvd] j(2) by blast
    then consider "j = i" | "i < j" by linarith
    then show ?thesis
    proof cases
      case 1
      then show ?thesis using len i carry_step(1) [OF dvd] by simp
    next
      case 2
      then have "Suc ?n div 2 ^ j = ?n div 2 ^ j" using carry_above [OF dvd even] by simp
      with j context_entry [OF ok j(1), of "[h]"] 2 show ?thesis by simp
    qed
  qed
  with len show ?thesis by (simp add: context_ok_def)
qed

lemma push_loop_correct:
  assumes "context_ok K p leaves depth ctx" "unat c = length leaves" "length leaves < 2 ^ depth"
    and "i \<le> depth" "2 ^ i dvd Suc (length leaves)"
    and "right = tree_node K (padded (leaves @ [h]) p) i (length leaves div 2 ^ i)"
  shows "context_ok K p (leaves @ [h]) depth (push_loop K c depth i right ctx)"
  using assms
proof (induction K c depth i right ctx rule: push_loop.induct)
  case (1 K c depth i right ctx)
  let ?n = "length leaves" and ?f = "padded (leaves @ [h]) p"
  show ?case
  proof (cases "count_bit c i")
    case True
    then have odd: "odd (?n div 2 ^ i)" using "1.prems"(2) by (simp add: count_bit_iff)
    then have "i \<noteq> depth" using "1.prems"(3) by auto
    then have i: "Suc i \<le> depth" using "1.prems"(4) by simp
    have "concat_hash K (ctx ! i) right = path_step K True (tree_node K ?f i (sibling_index (?n div 2 ^ i))) right"
      using context_entry [OF "1.prems"(1,4) odd, of "[h]"] odd by (simp add: path_step_def sibling_index_def)
    also have "\<dots> = tree_node K ?f (Suc i) (?n div 2 ^ Suc i)"
      using tree.step_up [of 0 i K ?f "?n div 2 ^ i"] odd "1.prems"(6)
      by (simp add: div_mult2_eq mult.commute [of 2])
    finally have "context_ok K p (leaves @ [h]) depth
        (push_loop K c depth (Suc i) (concat_hash K (ctx ! i) right) ctx)"
      using "1.prems" True i carry_step(2) [OF "1.prems"(5) odd] by (intro "1.IH") simp_all
    then show ?thesis using True "1.prems"(4) by (subst push_loop.simps) simp
  next
    case False
    then have "even (?n div 2 ^ i)" using "1.prems"(2) by (simp add: count_bit_iff)
    with False "1.prems" show ?thesis
      by (subst push_loop.simps) (simp add: context_ok_carry)
  qed
qed

lemma back_push_room:
  assumes cfg: "back_config K r lf w leaves t" and room: "length leaves < 2 ^ nat (r - lf)"
  shows "\<exists>t'. bmt_push_back K h t = Inr t' \<and> back_config K r lf w (leaves @ [h]) t'"
proof -
  have lt: "bmt_leaf_count t < bmt_max_leaves t"
    using cfg room by (simp add: back_config_def word_less_nat_alt)
  have "bmt_depth t = nat (r - lf)" using cfg by (simp add: back_config_def bmt_depth_def)
  then have ctx: "context_ok K (pristine_leaf K lf w) (leaves @ [h]) (nat (r - lf))
      (push_loop K (bmt_leaf_count t) (bmt_depth t) 0 h (bmt_context t))"
    using cfg room by (simp add: back_config_def push_loop_correct padded_def)
  have "unat (bmt_leaf_count t + 1) = Suc (unat (bmt_leaf_count t))"
    using lt unsigned_less [where ?'a = nat, of "bmt_max_leaves t"] by (simp add: word_less_nat_alt unat_word_ariths)
  with ctx cfg room lt show ?thesis
    by (auto simp: bmt_push_back_def back_config_def not_le)
qed

section \<open>\<open>get_root_hash\<close> and \<open>get_next_leaf_proof\<close>\<close>

text \<open>The sibling of the path from the first free position, at every level below the root.\<close>

lemma next_sibling_correct:
  assumes cfg: "back_config K r lf w leaves t" and i: "i < nat (r - lf)"
  shows "next_sibling t (int i) =
    Inr (tree_node K (padded leaves (pristine_leaf K lf w)) i (sibling_index (length leaves div 2 ^ i)))"
proof (cases "odd (length leaves div 2 ^ i)")
  case True
  moreover have "context_ok K (pristine_leaf K lf w) leaves (nat (r - lf)) (bmt_context t)"
    using cfg by (simp add: back_config_def)
  ultimately show ?thesis
    using context_entry [of K "pristine_leaf K lf w" leaves "nat (r - lf)" "bmt_context t" i "[]"] cfg i
    by (simp add: next_sibling_def count_bit_iff back_config_def sibling_index_def)
next
  case False
  have "length leaves \<le> Suc (length leaves div 2 ^ i) * 2 ^ i"
    using dividend_less_div_times [of "2 ^ i" "length leaves"] by simp
  then have node: "tree_node K (padded leaves (pristine_leaf K lf w)) i (Suc (length leaves div 2 ^ i)) =
      pristine_node K (pristine_leaf K lf w) i"
    by (intro tree_node_pristine) (simp add: padded_def)
  have "nat (lf + int i - w) = nat (lf - w) + i" using cfg by (auto simp: back_config_def)
  then show ?thesis
    using False cfg i node
    by (auto simp: next_sibling_def count_bit_iff back_config_def sibling_index_def pristine_ok_def
        pristine_leaf_def pristine_node_add)
qed

lemma pristine_target:
  assumes "back_config K r lf w leaves t"
  shows "pri_get_hash (bmt_pristine_hashes t) lf = Inr (pristine_leaf K lf w)"
  using assms by (auto simp: back_config_def pristine_ok_def pristine_leaf_def)

text \<open>The walk both loops make, from the first free leaf up to level \<open>i\<close>.\<close>

lemma path_from_free_leaf:
  "path_step K (odd (n div 2 ^ i)) (tree_node K f i (sibling_index (n div 2 ^ i)))
     (tree_node K f i (n div 2 ^ i)) = tree_node K f (Suc i) (n div 2 ^ Suc i)"
  using tree.step_up [of 0 i K f "n div 2 ^ i"]
  by (simp add: div_mult2_eq mult.commute [of 2])

lemma back_root_loop:
  assumes cfg: "back_config K r lf w leaves t"
  shows "for_range 0 (int (nat (r - lf)))
      (\<lambda>i root. bindR (next_sibling t i) (\<lambda>s.
         Inr (path_step K (count_bit (bmt_leaf_count t) (nat i)) s root)))
      (tree_node K (padded leaves (pristine_leaf K lf w)) 0 (length leaves)) =
    Inr (tree_node K (padded leaves (pristine_leaf K lf w)) (nat (r - lf)) (length leaves div 2 ^ nat (r - lf)))"
    (is "for_range 0 ?d ?body ?s = Inr (?nd (nat (r - lf)))")
proof -
  have count: "unat (bmt_leaf_count t) = length leaves" using cfg by (simp add: back_config_def)
  have "\<exists>x. for_range 0 ?d ?body ?s = Inr x \<and> x = ?nd (nat ?d)"
  proof (rule for_range_rule [where P = "\<lambda>i x. x = ?nd (nat i)"])
    fix i x assume i: "0 \<le> i" "i < ?d" "x = ?nd (nat i)"
    then have "next_sibling t i = Inr (tree_node K (padded leaves (pristine_leaf K lf w)) (nat i)
        (sibling_index (length leaves div 2 ^ nat i)))"
      using next_sibling_correct [OF cfg, of "nat i"] by (simp split: if_splits)
    moreover have "nat (i + 1) = Suc (nat i)" using i(1) by simp
    ultimately show "\<exists>s'. ?body i x = Inr s' \<and> s' = ?nd (nat (i + 1))"
      using i(3) by (simp add: count_bit_iff count path_from_free_leaf del: tree_node.simps power_Suc)
  qed simp_all
  then show ?thesis by simp
qed

lemma free_leaf_is_pristine [simp]: "padded leaves p (length leaves) = p"
  by (simp add: padded_def)

lemma back_root_correct:
  assumes cfg: "back_config K r lf w leaves t"
  shows "bmt_get_root_hash K t = Inr (spec_root K (pristine_leaf K lf w) (nat (r - lf)) leaves)"
proof -
  have depth: "bmt_depth t = nat (r - lf)" and leaf: "bmt_log2_leaf_size t = lf"
    using cfg by (simp_all add: back_config_def bmt_depth_def)
  have le: "bmt_leaf_count t \<le> bmt_max_leaves t"
    and lt: "bmt_leaf_count t < bmt_max_leaves t \<longleftrightarrow> length leaves < 2 ^ nat (r - lf)"
    using cfg by (simp_all add: back_config_def word_le_nat_alt word_less_nat_alt)
  show ?thesis
  proof (cases "length leaves < 2 ^ nat (r - lf)")
    case True
    then show ?thesis
      using le lt back_root_loop [OF cfg] pristine_target [OF cfg]
      by (simp add: bmt_get_root_hash_def depth leaf spec_root_def)
  next
    case False
    then have full: "length leaves = 2 ^ nat (r - lf)" using cfg by (simp add: back_config_def)
    have "context_ok K (pristine_leaf K lf w) leaves (nat (r - lf)) (bmt_context t)"
      using cfg by (simp add: back_config_def)
    then show ?thesis
      using False le lt full by (simp add: bmt_get_root_hash_def depth context_ok_def spec_root_def)
  qed
qed

interpretation bmt: merkle_accumulator "bmt_push_back K" "bmt_get_root_hash K"
    "back_config K r lf w" K "pristine_leaf K lf w" "nat (r - lf)" for K r lf w
proof unfold_locales
  fix leaves t h
  assume cfg: "back_config K r lf w leaves t"
  show "bmt_get_root_hash K t = Inr (spec_root K (pristine_leaf K lf w) (nat (r - lf)) leaves)"
    by (rule back_root_correct [OF cfg])
  show "length leaves \<le> 2 ^ nat (r - lf)" using cfg by (simp add: back_config_def)
  show "\<exists>t'. bmt_push_back K h t = Inr t' \<and> back_config K r lf w (leaves @ [h]) t'"
    if "length leaves < 2 ^ nat (r - lf)"
    by (rule back_push_room [OF cfg that])
  show "\<exists>x. bmt_push_back K h t = Inl x" if "length leaves = 2 ^ nat (r - lf)"
    using cfg that by (simp add: bmt_push_back_def back_config_def word_le_nat_alt)
qed

lemma mirrored_index_less: "j < i \<Longrightarrow> i < d \<Longrightarrow> d - 1 - i < d - 1 - j" for d :: nat
  by linarith

text \<open>The loop of \<open>get_next_leaf_proof\<close> fills every sibling and walks to the root.\<close>

lemma back_proof_loop:
  assumes cfg: "back_config K r lf w leaves t"
    and p0: "proof_wf p0" "mtp_log2_root_size p0 = r" "mtp_log2_target_size p0 = lf"
  defines "f \<equiv> padded leaves (pristine_leaf K lf w)"
  shows "\<exists>xs. for_range 0 (int (nat (r - lf)))
      (\<lambda>i (p, hash).
         bindR (next_sibling t i) (\<lambda>s.
         bindR (set_sibling_hash s (lf + i) p) (\<lambda>p'.
         Inr (p', path_step K (count_bit (bmt_leaf_count t) (nat i)) s hash))))
      (p0, tree_node K f 0 (length leaves)) =
    Inr (p0\<lparr>mtp_sibling_hashes := xs\<rparr>,
         tree_node K f (nat (r - lf)) (length leaves div 2 ^ nat (r - lf))) \<and>
    length xs = nat (r - lf) \<and>
    (\<forall>j < nat (r - lf). xs ! (nat (r - lf) - 1 - j) = tree_node K f j (sibling_index (length leaves div 2 ^ j)))"
    (is "\<exists>xs. for_range 0 ?d ?body _ = _ \<and> _ \<and> (\<forall>j < _. _ = ?sib j)")
proof -
  let ?nd = "\<lambda>i. tree_node K f i (length leaves div 2 ^ i)"
  let ?inv = "\<lambda>i st. \<exists>xs. st = (p0\<lparr>mtp_sibling_hashes := xs\<rparr>, ?nd (nat i)) \<and> length xs = nat (r - lf) \<and>
     (\<forall>j < nat i. xs ! (nat (r - lf) - 1 - j) = ?sib j)"
  have count: "unat (bmt_leaf_count t) = length leaves" and nn: "0 \<le> lf" "lf \<le> r"
    using cfg by (simp_all add: back_config_def)
  have "\<exists>st. for_range 0 ?d ?body (p0, tree_node K f 0 (length leaves)) = Inr st \<and> ?inv ?d st"
  proof (rule for_range_rule [where P = ?inv])
    show "?inv 0 (p0, tree_node K f 0 (length leaves))"
      using p0 by (auto simp: proof_wf_def intro!: exI [of _ "mtp_sibling_hashes p0"])
  next
    fix i st assume i: "0 \<le> i" "i < ?d" and "?inv i st"
    then obtain xs where xs: "st = (p0\<lparr>mtp_sibling_hashes := xs\<rparr>, ?nd (nat i))" "length xs = nat (r - lf)"
      "\<And>j. j < nat i \<Longrightarrow> xs ! (nat (r - lf) - 1 - j) = ?sib j" by auto
    have ilt: "nat i < nat (r - lf)" using i by linarith
    then have sib: "next_sibling t i = Inr (?sib (nat i))"
      using next_sibling_correct [OF cfg ilt] i(1) by (simp add: f_def)
    let ?ix = "nat (r - lf) - 1 - nat i"
    have "nat (r - 1 - (lf + i)) = ?ix" using i nn by linarith
    moreover have "proof_wf (p0\<lparr>mtp_sibling_hashes := xs\<rparr>)" using p0 xs(2) by (simp add: proof_wf_def)
    ultimately have set: "set_sibling_hash (?sib (nat i)) (lf + i) (p0\<lparr>mtp_sibling_hashes := xs\<rparr>) =
        Inr (p0\<lparr>mtp_sibling_hashes := xs[?ix := ?sib (nat i)]\<rparr>)"
      using set_sibling_hash_Inr [of "p0\<lparr>mtp_sibling_hashes := xs\<rparr>" "lf + i" "?sib (nat i)"] p0 i ilt by simp
    have step: "nat (i + 1) = Suc (nat i)" using i(1) by simp
    have upd: "xs[?ix := ?sib (nat i)] ! (nat (r - lf) - 1 - j) = ?sib j" if "j < nat (i + 1)" for j
    proof (cases "j = nat i")
      case True
      then show ?thesis using xs(2) ilt by simp
    next
      case False
      then have j: "j < nat i" using that step by simp
      then have "?ix < nat (r - lf) - 1 - j" using ilt by (rule mirrored_index_less)
      then have "xs[?ix := ?sib (nat i)] ! (nat (r - lf) - 1 - j) = xs ! (nat (r - lf) - 1 - j)"
        by (intro nth_list_update_neq) (rule less_imp_neq)
      then show ?thesis using xs(3) [OF j] by (rule trans)
    qed
    have walk: "path_step K (count_bit (bmt_leaf_count t) (nat i)) (?sib (nat i)) (?nd (nat i)) = ?nd (nat (i + 1))"
      by (simp add: count_bit_iff count path_from_free_leaf step del: tree_node.simps power_Suc)
    let ?st = "(p0\<lparr>mtp_sibling_hashes := xs[?ix := ?sib (nat i)]\<rparr>, ?nd (nat (i + 1)))"
    have "?body i st = Inr ?st"
      by (simp only: xs(1) prod.case sib bindR_simps set walk)
    moreover have "?inv (i + 1) ?st"
      using xs(2) upd by (intro exI [of _ "xs[?ix := ?sib (nat i)]"] conjI allI impI refl) simp_all
    ultimately have "?body i st = Inr ?st \<and> ?inv (i + 1) ?st" by (rule conjI)
    then show "\<exists>st'. ?body i st = Inr st' \<and> ?inv (i + 1) st'" by (rule exI [where x = ?st])
  qed simp
  then show ?thesis by auto
qed

text \<open>
  A proof whose siblings are the reference tree's along the path from the first free
  leaf verifies: the walk from a pristine leaf there is the walk of the tree.
\<close>

lemma next_leaf_proof_verifies:
  assumes "proof_wf q" "mtp_log2_root_size q = r" "mtp_log2_target_size q = lf" "r < 64"
    and "unat (mtp_target_address q) = length leaves * 2 ^ nat lf" "length leaves < 2 ^ nat (r - lf)"
    and "mtp_target_hash q = p" "mtp_root_hash q = spec_root K p (nat (r - lf)) leaves"
    and sibs: "\<And>j. j < nat (r - lf) \<Longrightarrow> mtp_sibling_hashes q ! (nat (r - lf) - 1 - j) =
                 tree_node K (padded leaves p) j (sibling_index (length leaves div 2 ^ j))"
  shows "proof_verify K q = Inr True"
proof -
  let ?f = "padded leaves p" and ?l = "nat lf" and ?d = "nat (r - lf)"
  let ?a = "length leaves * 2 ^ ?l" and ?nd = "\<lambda>k. tree_node K (padded leaves p) (k - nat lf)"
  have nn: "0 \<le> lf" "lf \<le> r" using assms(1-3) by (auto simp: proof_wf_def)
  have div: "?a div 2 ^ k = length leaves div 2 ^ (k - ?l)" if "?l \<le> k" for k
  proof -
    have "(2::nat) ^ k = 2 ^ ?l * 2 ^ (k - ?l)" using that by (simp add: power_add [symmetric])
    then show ?thesis by (simp only: div_mult2_eq) simp
  qed
  have sib: "proof_sibling q k = ?nd k (sibling_index (?a div 2 ^ k))" if k: "?l \<le> k" "k < ?l + ?d" for k
  proof -
    have "nat (r - 1 - int k) = ?d - 1 - (k - ?l)" "k - ?l < ?d" using k nn by linarith+
    then show ?thesis using sibs [of "k - ?l"] div [OF k(1)] assms(2) by (simp add: proof_sibling_def)
  qed
  have "climb K (proof_right q) (proof_sibling q) ?l ?d p =
      climb K (\<lambda>k. odd (?a div 2 ^ k)) (\<lambda>k. ?nd k (sibling_index (?a div 2 ^ k))) ?l ?d (?nd ?l (?a div 2 ^ ?l))"
    using sib assms(5) by (subst climb_cong) (auto simp: proof_right_iff)
  also have "\<dots> = ?nd (?l + ?d) (?a div 2 ^ (?l + ?d))"
    by (rule tree.climb_levels) simp
  also have "\<dots> = spec_root K p ?d leaves"
    using div [of "?l + ?d"] assms(6) by (simp add: spec_root_def)
  finally show ?thesis
    using assms by (simp add: proof_verify_eq)
qed

lemma back_next_leaf_proof:
  assumes cfg: "back_config K r lf w leaves t"
    and room: "length leaves < 2 ^ nat (r - lf)" and "0 < r"
  shows "\<exists>p. bmt_get_next_leaf_proof K t = Inr p \<and> proof_wf p \<and> proof_verify K p = Inr True \<and>
     mtp_log2_root_size p = r \<and> mtp_log2_target_size p = lf \<and>
     unat (mtp_target_address p) = length leaves * 2 ^ nat lf \<and>
     mtp_target_hash p = pristine_leaf K lf w \<and> bmt_get_root_hash K t = Inr (mtp_root_hash p)"
proof -
  let ?f = "padded leaves (pristine_leaf K lf w)" and ?d = "nat (r - lf)" and ?n = "length leaves"
  let ?addr = "push_bit (nat lf) (bmt_leaf_count t)"
  have sizes: "bmt_log2_root_size t = r" "bmt_log2_leaf_size t = lf" "0 \<le> lf" "lf \<le> r" "r < 64"
    and count: "unat (bmt_leaf_count t) = ?n" and depth: "bmt_depth t = ?d"
    using cfg by (simp_all add: back_config_def bmt_depth_def)
  have lt: "bmt_leaf_count t < bmt_max_leaves t"
    using cfg room by (simp add: back_config_def word_less_nat_alt)
  have "?n * 2 ^ nat lf < 2 ^ (?d + nat lf)" using room by (simp add: power_add)
  also have "\<dots> \<le> (2::nat) ^ 64" using sizes by (intro power_increasing) simp_all
  finally have addr: "unat ?addr = ?n * 2 ^ nat lf"
    by (simp only: unsigned_push_bit_eq) (simp add: count push_bit_eq_mult take_bit_nat_eq_self)
  obtain q0 where q0: "new_merkle_tree_proof r lf = Inr q0"
    using new_merkle_tree_proof_Inr [of r lf] sizes \<open>0 < r\<close> by auto
  define p0 where "p0 = set_target_hash (pristine_leaf K lf w) (set_target_address ?addr q0)"
  have p0: "proof_wf p0" "mtp_log2_root_size p0 = r" "mtp_log2_target_size p0 = lf"
    "mtp_target_address p0 = ?addr" "mtp_target_hash p0 = pristine_leaf K lf w"
    using q0 new_merkle_tree_proof_wf [OF q0]
    by (auto simp: p0_def new_merkle_tree_proof_def set_target_hash_def set_target_address_def
        proof_wf_def split: if_splits)
  obtain xs where loop: "for_range 0 (int ?d)
      (\<lambda>i (p, hash). bindR (next_sibling t i) (\<lambda>s. bindR (set_sibling_hash s (lf + i) p) (\<lambda>p'.
         Inr (p', path_step K (count_bit (bmt_leaf_count t) (nat i)) s hash))))
      (p0, pristine_leaf K lf w) =
      Inr (p0\<lparr>mtp_sibling_hashes := xs\<rparr>, spec_root K (pristine_leaf K lf w) ?d leaves)"
    and xs: "length xs = ?d" "\<And>j. j < ?d \<Longrightarrow> xs ! (?d - 1 - j) = tree_node K ?f j (sibling_index (?n div 2 ^ j))"
    using back_proof_loop [OF cfg p0(1-3)] room by (auto simp: spec_root_def)
  define q where "q = set_root_hash (spec_root K (pristine_leaf K lf w) ?d leaves) (p0\<lparr>mtp_sibling_hashes := xs\<rparr>)"
  have q: "proof_wf q" "mtp_log2_root_size q = r" "mtp_log2_target_size q = lf"
    "mtp_target_address q = ?addr" "mtp_target_hash q = pristine_leaf K lf w"
    "mtp_root_hash q = spec_root K (pristine_leaf K lf w) ?d leaves" "mtp_sibling_hashes q = xs"
    using p0 xs(1) by (simp_all add: q_def set_root_hash_def proof_wf_def)
  have "proof_verify K q = Inr True"
    by (rule next_leaf_proof_verifies [OF q(1-3) sizes(5)]) (use q xs addr sizes room in simp_all)
  then have "bmt_get_next_leaf_proof K t = Inr q"
    using lt q0 loop pristine_target [OF cfg]
    by (simp add: bmt_get_next_leaf_proof_def sizes depth not_le p0_def q_def)
  with q addr \<open>proof_verify K q = Inr True\<close> show ?thesis
    using back_root_correct [OF cfg] by (intro exI [of _ q]) simp
qed

section \<open>Properties\<close>

lemma pushed_back_config:
  assumes "new_back_merkle_tree K r lf w = Inr t" "length hs \<le> 2 ^ nat (r - lf)"
  shows "\<exists>t'. foldR (bmt_push_back K) hs t = Inr t' \<and> back_config K r lf w hs t'"
  using bmt.push_all [OF new_back_config [OF assms(1)], of hs] assms(2) by simp

text \<open>
  Claim C28. The incremental tree and the complete tree are interchangeable: from fresh
  trees of the same configuration, a sequence of leaves is accepted by one exactly when it
  is accepted by the other, and then both report the same root hash.
\<close>

theorem back_tree_same_root:
  assumes "new_back_merkle_tree K r lf w = Inr b" "new_complete_merkle_tree K r lf w = Inr c"
  shows "(\<exists>b' c' h. foldR (bmt_push_back K) hs b = Inr b' \<and> foldR (cmt_push_back K) hs c = Inr c' \<and>
            bmt_get_root_hash K b' = Inr h \<and> cmt_get_root_hash c' = Inr h) \<or>
         (\<exists>x y. foldR (bmt_push_back K) hs b = Inl x \<and> foldR (cmt_push_back K) hs c = Inl y)"
proof -
  have b: "back_config K r lf w [] b" and c: "complete_config K r lf w [] c"
    using new_back_config [OF assms(1)] new_complete_config [OF assms(2)] .
  show ?thesis
  proof (cases "length hs \<le> 2 ^ nat (r - lf)")
    case True
    then show ?thesis
      using bmt.push_all [OF b, of hs] complete.push_all [OF c, of hs] bmt.root_spec complete.root_spec
      by (auto simp del: One_nat_def)
  next
    case False
    then show ?thesis
      using bmt.push_all_overflow [OF b, of hs] complete.push_all_overflow [OF c, of hs] by simp
  qed
qed

text \<open>
  While the incremental tree has room, \<open>get_next_leaf_proof\<close> never reaches its
  "produced invalid proof" error: it returns a well-formed proof, for the address of the
  first free leaf, that this leaf is pristine under the current root hash, and it verifies.
  When the tree is full it throws.
\<close>

theorem back_tree_next_leaf_proof:
  assumes "new_back_merkle_tree K r lf w = Inr t" "foldR (bmt_push_back K) hs t = Inr t'" "0 < r"
  shows "if length hs < 2 ^ nat (r - lf)
    then \<exists>p. bmt_get_next_leaf_proof K t' = Inr p \<and> proof_wf p \<and> proof_verify K p = Inr True \<and>
      mtp_log2_root_size p = r \<and> mtp_log2_target_size p = lf \<and>
      unat (mtp_target_address p) = length hs * 2 ^ nat lf \<and>
      mtp_target_hash p = pristine_leaf K lf w \<and> bmt_get_root_hash K t' = Inr (mtp_root_hash p)
    else bmt_get_next_leaf_proof K t' = Inl (Out_of_range ''tree is full'')"
proof -
  have cap: "length hs \<le> 2 ^ nat (r - lf)"
    using bmt.push_all_overflow [OF new_back_config [OF assms(1)], of hs] assms(2)
    by (cases "length hs \<le> 2 ^ nat (r - lf)") auto
  then have cfg: "back_config K r lf w hs t'"
    using pushed_back_config [OF assms(1) cap] assms(2) by simp
  show ?thesis
  proof (cases "length hs < 2 ^ nat (r - lf)")
    case True
    with back_next_leaf_proof [OF cfg True assms(3)] show ?thesis by simp
  next
    case False
    with cfg cap show ?thesis
      by (simp add: bmt_get_next_leaf_proof_def back_config_def word_le_nat_alt)
  qed
qed

section \<open>Instances\<close>

definition sample_back_tree :: back_merkle_tree where
  "sample_back_tree = projr (new_back_merkle_tree sample_digest 2 0 0)"

definition sample_back_tree3 :: back_merkle_tree where
  "sample_back_tree3 = projr (foldR (bmt_push_back sample_digest) sample_leaves sample_back_tree)"

lemma sample_back_tree: "new_back_merkle_tree sample_digest 2 0 0 = Inr sample_back_tree"
  by code_simp

lemma sample_back_tree3:
  "foldR (bmt_push_back sample_digest) sample_leaves sample_back_tree = Inr sample_back_tree3"
  by code_simp

theorem back_tree_same_root_witness:
  "\<exists>c' h. foldR (cmt_push_back sample_digest) sample_leaves sample_complete_tree = Inr c' \<and>
     bmt_get_root_hash sample_digest sample_back_tree3 = Inr h \<and> cmt_get_root_hash c' = Inr h"
  using back_tree_same_root [OF sample_back_tree sample_complete_tree, of sample_leaves] sample_back_tree3
  by auto

theorem back_tree_next_leaf_proof_witness:
  "\<exists>p. bmt_get_next_leaf_proof sample_digest sample_back_tree3 = Inr p \<and>
     proof_verify sample_digest p = Inr True \<and> unat (mtp_target_address p) = 3"
  using back_tree_next_leaf_proof [OF sample_back_tree sample_back_tree3]
  by (auto simp: length_sample_leaves)

end
