(* ===== verification/Protobuf_Util.thy ===== *)
theory Protobuf_Util
  imports Merkle_Proof
begin

text \<open>
  \<^verbatim>\<open>src/src/protobuf-util.cpp\<close>: conversion of hashes and Merkle proofs to and from the
  protobuf messages exchanged with the machine server. A \<open>Hash\<close> message is its data field.
  The two size fields of a \<open>MerkleTreeProof\<close> message are \<open>uint64\<close>; reading them casts to
  \<open>int\<close>, writing them widens from \<open>int\<close>.
\<close>

type_synonym proto_hash = bytes

record proto_merkle_tree_proof =
  ptp_target_address :: u64
  ptp_log2_target_size :: u64
  ptp_target_hash :: proto_hash
  ptp_log2_root_size :: u64
  ptp_root_hash :: proto_hash
  ptp_sibling_hashes :: "proto_hash list"

definition set_proto_hash :: "hash_type \<Rightarrow> proto_hash" where
  "set_proto_hash h = h"

definition get_proto_hash :: "proto_hash \<Rightarrow> hash_type res" where
  "get_proto_hash data =
     (if length data \<noteq> hash_size then Inl (Invalid_argument ''invalid hash size'') else Inr data)"

text \<open>\<^verbatim>\<open>static_cast<int>(uint64_t)\<close>\<close>

definition int_of_u64 :: "u64 \<Rightarrow> int" where
  "int_of_u64 w = sint (ucast w :: 32 word)"

definition get_proto_merkle_tree_proof :: "proto_merkle_tree_proof \<Rightarrow> merkle_tree_proof res" where
  "get_proto_merkle_tree_proof proto =
     (let log2_target_size = int_of_u64 (ptp_log2_target_size proto);
          log2_root_size = int_of_u64 (ptp_log2_root_size proto)
      in bindR (new_merkle_tree_proof log2_root_size log2_target_size) (\<lambda>p.
         bindR (get_proto_hash (ptp_target_hash proto)) (\<lambda>target.
         bindR (get_proto_hash (ptp_root_hash proto)) (\<lambda>root.
         let p = set_root_hash root (set_target_hash target (set_target_address (ptp_target_address proto) p));
             sibs = ptp_sibling_hashes proto
         in if log2_root_size - int (length sibs) \<noteq> log2_target_size
            then Inl (Invalid_argument ''wrong number of sibling hashes'')
            else for_range 0 (int (length sibs))
                   (\<lambda>i p. bindR (get_proto_hash (sibs ! nat i)) (\<lambda>h.
                            set_sibling_hash h (log2_root_size - 1 - i) p)) p))))"

text \<open>The loop that appends the siblings counts down from the root.\<close>

definition set_proto_merkle_tree_proof :: "merkle_tree_proof \<Rightarrow> proto_merkle_tree_proof res" where
  "set_proto_merkle_tree_proof p =
     bindR (foldR (\<lambda>log2_size sibs. bindR (get_sibling_hash p log2_size) (\<lambda>h.
                     Inr (sibs @ [set_proto_hash h])))
              (rev [mtp_log2_target_size p .. mtp_log2_root_size p - 1]) [])
       (\<lambda>sibs. Inr \<lparr>ptp_target_address = mtp_target_address p,
                    ptp_log2_target_size = of_int (mtp_log2_target_size p),
                    ptp_target_hash = set_proto_hash (mtp_target_hash p),
                    ptp_log2_root_size = of_int (mtp_log2_root_size p),
                    ptp_root_hash = set_proto_hash (mtp_root_hash p),
                    ptp_sibling_hashes = sibs\<rparr>)"

section \<open>Correctness\<close>

lemma int_of_u64_of_int:
  assumes "0 \<le> i" "i < 2 ^ 31"
  shows "int_of_u64 (of_int i) = i"
proof -
  have "(ucast (of_int i :: u64) :: 32 word) = of_int i"
    using assms by (simp add: unsigned_of_int take_bit_int_eq_self)
  then show ?thesis
    using assms by (simp add: int_of_u64_def signed_of_int signed_take_bit_int_eq_self)
qed

text \<open>Both loops walk the sibling list from its front.\<close>

lemma append_siblings_loop:
  assumes "proof_wf p" "k \<le> length (mtp_sibling_hashes p)"
  shows "foldR (\<lambda>log2_size sibs. bindR (get_sibling_hash p log2_size) (\<lambda>h. Inr (sibs @ [set_proto_hash h])))
           (rev [mtp_log2_root_size p - int k .. mtp_log2_root_size p - 1]) [] =
         Inr (take k (mtp_sibling_hashes p))"
  using assms(2)
proof (induction k)
  case 0
  then show ?case by simp
next
  case (Suc k)
  let ?r = "mtp_log2_root_size p"
  have l: "mtp_log2_target_size p \<le> ?r - int (Suc k)" "?r - int (Suc k) < ?r"
    using assms(1) Suc.prems unfolding proof_wf_def by linarith+
  have nn: "0 \<le> ?r - int (Suc k)" using l(1) assms(1) by (simp add: proof_wf_def)
  have "get_sibling_hash p (?r - int (Suc k)) = Inr (mtp_sibling_hashes p ! k)"
    using get_sibling_hash_Inr [OF assms(1) l] nn by (simp add: proof_sibling_def)
  moreover have "[?r - int (Suc k) .. ?r - 1] = (?r - int (Suc k)) # [?r - int k .. ?r - 1]"
    by (subst upto_rec1) simp_all
  ultimately show ?case
    using Suc by (simp add: foldR_append take_Suc_conv_app_nth set_proto_hash_def)
qed

lemma fill_from_list:
  assumes "proof_wf p" "length sibs = length (mtp_sibling_hashes p)"
    and "\<forall>h \<in> set sibs. length h = hash_size" and that: "r = mtp_log2_root_size p"
  shows "for_range 0 (int (length sibs))
     (\<lambda>i p. bindR (get_proto_hash (sibs ! nat i)) (\<lambda>h. set_sibling_hash h (r - 1 - i) p)) p =
     Inr (p\<lparr>mtp_sibling_hashes := sibs\<rparr>)"
proof -
  let ?P = "\<lambda>i q. q = p\<lparr>mtp_sibling_hashes := take (nat i) sibs @ drop (nat i) (mtp_sibling_hashes p)\<rparr>"
  let ?body = "\<lambda>i p. bindR (get_proto_hash (sibs ! nat i)) (\<lambda>h. set_sibling_hash h (r - 1 - i) p)"
  have "\<exists>q. for_range 0 (int (length sibs)) ?body p = Inr q \<and> ?P (int (length sibs)) q"
  proof (rule for_range_rule [where P = ?P])
    show "?P 0 p" by simp
  next
    fix i q assume i: "0 \<le> i" "i < int (length sibs)" and q: "?P i q"
    have wf: "proof_wf q" using assms(1,2) q by (simp add: proof_wf_def)
    have sz: "mtp_log2_root_size q = r" "mtp_log2_target_size q = mtp_log2_target_size p"
      using q that by simp_all
    have l: "mtp_log2_target_size q \<le> r - 1 - i" "r - 1 - i < mtp_log2_root_size q"
      using assms(1,2) i sz that unfolding proof_wf_def by linarith+
    have ix: "nat (r - 1 - (r - 1 - i)) = nat i" by simp
    have "set_sibling_hash (sibs ! nat i) (r - 1 - i) q =
        Inr (q\<lparr>mtp_sibling_hashes := (mtp_sibling_hashes q)[nat i := sibs ! nat i]\<rparr>)"
      using set_sibling_hash_Inr [OF wf l, of "sibs ! nat i"] sz ix by simp
    moreover have "(take (nat i) sibs @ drop (nat i) (mtp_sibling_hashes p))[nat i := sibs ! nat i] =
        take (nat (i + 1)) sibs @ drop (nat (i + 1)) (mtp_sibling_hashes p)"
      using i assms(2)
      by (simp add: list_update_append take_Suc_conv_app_nth nat_add_distrib Cons_nth_drop_Suc [symmetric])
    moreover have "get_proto_hash (sibs ! nat i) = Inr (sibs ! nat i)"
      using i assms(3) by (simp add: get_proto_hash_def)
    ultimately show "\<exists>q'. ?body i q = Inr q' \<and> ?P (i + 1) q'" using q by simp
  qed simp
  then show ?thesis using assms(2) by simp
qed

lemma set_proto_Inr:
  assumes "proof_wf p"
  shows "set_proto_merkle_tree_proof p =
     Inr \<lparr>ptp_target_address = mtp_target_address p,
          ptp_log2_target_size = of_int (mtp_log2_target_size p),
          ptp_target_hash = mtp_target_hash p,
          ptp_log2_root_size = of_int (mtp_log2_root_size p),
          ptp_root_hash = mtp_root_hash p, ptp_sibling_hashes = mtp_sibling_hashes p\<rparr>"
proof -
  have "mtp_log2_root_size p - int (length (mtp_sibling_hashes p)) = mtp_log2_target_size p"
    using assms by (simp add: proof_wf_def)
  then show ?thesis
    using append_siblings_loop [OF assms order_refl]
    by (simp add: set_proto_merkle_tree_proof_def set_proto_hash_def)
qed

section \<open>Properties\<close>

text \<open>
  Claim C33. Merkle proofs survive the trip over the wire: a well-formed proof with 32-byte
  hashes and a root size below \<open>2 ^ 31\<close> is written without an exception, and reading the
  message back gives the same proof.
\<close>

theorem proto_proof_roundtrip:
  assumes "proof_wf p" "proof_hashes_ok p" "length (mtp_root_hash p) = hash_size"
    and "mtp_log2_root_size p < 2 ^ 31"
  shows "\<exists>m. set_proto_merkle_tree_proof p = Inr m \<and> get_proto_merkle_tree_proof m = Inr p"
proof -
  have sizes: "0 < mtp_log2_root_size p" "0 \<le> mtp_log2_target_size p"
      "mtp_log2_target_size p \<le> mtp_log2_root_size p"
    and len: "mtp_log2_root_size p - int (length (mtp_sibling_hashes p)) = mtp_log2_target_size p"
    using assms(1) by (auto simp: proof_wf_def)
  have ints: "int_of_u64 (of_int (mtp_log2_root_size p)) = mtp_log2_root_size p"
      "int_of_u64 (of_int (mtp_log2_target_size p)) = mtp_log2_target_size p"
    using sizes assms(4) by (simp_all add: int_of_u64_of_int)
  obtain q where q: "new_merkle_tree_proof (mtp_log2_root_size p) (mtp_log2_target_size p) = Inr q"
    using new_merkle_tree_proof_Inr sizes by blast
  let ?q = "set_root_hash (mtp_root_hash p) (set_target_hash (mtp_target_hash p)
              (set_target_address (mtp_target_address p) q))"
  have fields: "proof_wf ?q" "mtp_log2_root_size ?q = mtp_log2_root_size p"
      "length (mtp_sibling_hashes p) = length (mtp_sibling_hashes ?q)"
      "?q\<lparr>mtp_sibling_hashes := mtp_sibling_hashes p\<rparr> = p"
    using q assms(1)
    by (auto simp: new_merkle_tree_proof_def proof_wf_def set_root_hash_def set_target_hash_def
        set_target_address_def split: if_splits)
  have fill: "for_range 0 (int (length (mtp_sibling_hashes p)))
      (\<lambda>i s. bindR (get_proto_hash (mtp_sibling_hashes p ! nat i)) (\<lambda>h.
         set_sibling_hash h (mtp_log2_root_size p - 1 - i) s)) ?q = Inr p"
    using fill_from_list [OF fields(1,3), of "mtp_log2_root_size p"] fields(2,4) assms(2)
    by (simp add: proof_hashes_ok_def)
  show ?thesis
    using assms(2,3) q ints len fill
    by (simp add: set_proto_Inr [OF assms(1)] get_proto_merkle_tree_proof_def get_proto_hash_def
        proof_hashes_ok_def Let_def)
qed

theorem proto_proof_roundtrip_witness:
  "\<exists>m. set_proto_merkle_tree_proof sample_proof = Inr m \<and> get_proto_merkle_tree_proof m = Inr sample_proof"
  by (rule proto_proof_roundtrip) (code_simp+)

lemma for_range_exn:
  assumes "for_range i n body s = Inl x" "\<And>j t. i \<le> j \<Longrightarrow> j < n \<Longrightarrow> body j t = Inl x \<Longrightarrow> A x"
  shows "A x"
  using assms
proof (induction i n body s rule: for_range.induct)
  case (1 i n body s)
  have "i < n" using "1.prems"(1) by (cases "i < n") simp_all
  then consider "body i s = Inl x" | s' where "body i s = Inr s'" "for_range (i + 1) n body s' = Inl x"
    using "1.prems"(1) by (auto simp: for_range_step bindR_eq_Inl)
  then show ?case
  proof cases
    case 1
    then show ?thesis using "1.prems"(2) [of i s] \<open>i < n\<close> by simp
  next
    case (2 s')
    show ?thesis by (rule "1.IH" [OF \<open>i < n\<close> 2(2)]) (rule "1.prems"(2), simp_all)
  qed
qed

text \<open>Decoding a proof throws only exceptions of the standard library.\<close>

lemma get_proto_merkle_tree_proof_exn:
  "get_proto_merkle_tree_proof m = Inl x \<Longrightarrow> (\<exists>msg. x = Invalid_argument msg \<or> x = Out_of_range msg)"
  by (auto simp: get_proto_merkle_tree_proof_def get_proto_hash_def new_merkle_tree_proof_def set_sibling_hash_def
      log2_size_to_index_def Let_def bindR_eq_Inl split: if_splits elim!: for_range_exn)

lemma accepted_proof_wf:
  assumes "get_proto_merkle_tree_proof m = Inr p"
  shows "proof_wf p \<and> proof_hashes_ok p \<and> length (mtp_root_hash p) = hash_size \<and>
     mtp_sibling_hashes p = ptp_sibling_hashes m \<and> mtp_target_hash p = ptp_target_hash m \<and>
     mtp_root_hash p = ptp_root_hash m"
proof -
  let ?r = "int_of_u64 (ptp_log2_root_size m)" and ?t = "int_of_u64 (ptp_log2_target_size m)"
  let ?sibs = "ptp_sibling_hashes m"
  let ?body = "\<lambda>i p. bindR (get_proto_hash (?sibs ! nat i)) (\<lambda>h. set_sibling_hash h (?r - 1 - i) p)"
  obtain q where q: "new_merkle_tree_proof ?r ?t = Inr q"
    and lens: "length (ptp_target_hash m) = hash_size" "length (ptp_root_hash m) = hash_size"
    and count: "?r - int (length ?sibs) = ?t"
    and loop: "for_range 0 (int (length ?sibs)) ?body
      (set_root_hash (ptp_root_hash m) (set_target_hash (ptp_target_hash m)
         (set_target_address (ptp_target_address m) q))) = Inr p"
    using assms
    by (auto simp: get_proto_merkle_tree_proof_def get_proto_hash_def Let_def bindR_eq_Inr split: if_splits)
  have sibs: "\<forall>h \<in> set ?sibs. length h = hash_size"
  proof
    fix h assume "h \<in> set ?sibs"
    then obtain i where "i < length ?sibs" "h = ?sibs ! i" by (metis in_set_conv_nth)
    moreover obtain s t where "?body (int i) s = Inr t"
      using for_range_Inr_body [OF loop, of "int i"] \<open>i < length ?sibs\<close> by auto
    ultimately show "length h = hash_size"
      by (auto simp: get_proto_hash_def bindR_eq_Inr split: if_splits)
  qed
  let ?q = "set_root_hash (ptp_root_hash m) (set_target_hash (ptp_target_hash m)
              (set_target_address (ptp_target_address m) q))"
  have fields: "proof_wf ?q" "length ?sibs = length (mtp_sibling_hashes ?q)" "?r = mtp_log2_root_size ?q"
    using q count
    by (auto simp: new_merkle_tree_proof_def proof_wf_def set_root_hash_def set_target_hash_def
        set_target_address_def split: if_splits)
  have "p = ?q\<lparr>mtp_sibling_hashes := ?sibs\<rparr>"
    using fill_from_list [OF fields(1,2) sibs fields(3)] loop by simp
  then show ?thesis
    using fields lens sibs
    by (simp add: proof_wf_def proof_hashes_ok_def set_root_hash_def set_target_hash_def)
qed

text \<open>
  Claim C34. Whatever the machine server sends, a proof accepted by
  \<open>get_proto_merkle_tree_proof\<close> is well formed, has 32-byte hashes and carries exactly the
  siblings of the message; every other message is rejected with an exception.
\<close>

theorem proto_proof_accepted_wf:
  assumes "get_proto_merkle_tree_proof m = Inr p"
  shows "proof_wf p \<and> proof_hashes_ok p \<and> length (mtp_root_hash p) = hash_size \<and>
     mtp_sibling_hashes p = ptp_sibling_hashes m \<and> mtp_target_hash p = ptp_target_hash m \<and>
     mtp_root_hash p = ptp_root_hash m"
  by (rule accepted_proof_wf [OF assms])

theorem proto_proof_accepted_wf_witness:
  "get_proto_merkle_tree_proof (projr (set_proto_merkle_tree_proof sample_proof)) = Inr sample_proof \<and>
   proof_wf sample_proof"
proof -
  have "get_proto_merkle_tree_proof (projr (set_proto_merkle_tree_proof sample_proof)) = Inr sample_proof"
    by code_simp
  with proto_proof_accepted_wf [OF this] show ?thesis by blast
qed

end
