(* ===== verification/Status.thy ===== *)
theory Status
  imports Prelude
begin

text \<open>
  gRPC status values and the exceptions that cross the functions of the server manager.
\<close>

datatype status_code =
    OK | CANCELLED | UNKNOWN | INVALID_ARGUMENT | DEADLINE_EXCEEDED | NOT_FOUND | ALREADY_EXISTS
  | PERMISSION_DENIED | RESOURCE_EXHAUSTED | FAILED_PRECONDITION | ABORTED | OUT_OF_RANGE
  | UNIMPLEMENTED | INTERNAL | UNAVAILABLE | DATA_LOSS | UNAUTHENTICATED

record grpc_status =
  error_code :: status_code
  error_message :: string

abbreviation grpc_error :: "status_code \<Rightarrow> string \<Rightarrow> grpc_status" where
  "grpc_error code message \<equiv> \<lparr>error_code = code, error_message = message\<rparr>"

definition status_ok :: grpc_status where
  "status_ok = grpc_error OK []"

definition is_ok :: "grpc_status \<Rightarrow> bool" where
  "is_ok s \<longleftrightarrow> error_code s = OK"

text \<open>
  A reference to a session object. References into an \<^verbatim>\<open>std::unordered_map\<close> stay valid
  until the element is erased; a new element under the same key is another object. The
  second component numbers the objects, so that a dangling reference can be told apart.
\<close>

type_synonym id_type = string

record session_ref =
  ref_id :: id_type
  ref_object :: nat

text \<open>
  The exceptions: the two classes of the server manager, everything else derived from
  \<^verbatim>\<open>std::exception\<close>, and two outcomes that no \<^verbatim>\<open>catch\<close> clause sees: \<open>exit(1)\<close>, and a
  loop of the model running out of its bound.
\<close>

datatype handler_exn =
    Finish_error_yield_none grpc_status
  | Taint_session session_ref grpc_status
  | Std_exception cpp_exn
  | Exit_process
  | Out_of_fuel

type_synonym 'a hres = "handler_exn + 'a"

text \<open>\<open>what()\<close> of the exceptions a \<^verbatim>\<open>catch (std::exception &)\<close> clause receives.\<close>

fun what_std :: "cpp_exn \<Rightarrow> string" where
  "what_std (Out_of_range m) = m"
| "what_std (Invalid_argument m) = m"
| "what_std (Logic_error m) = m"
| "what_std (Runtime_error m) = m"
| "what_std Bad_optional_access = ''bad optional access''"
| "what_std (Assertion_failed m) = m"
| "what_std (Undefined_behaviour m) = m"

fun what :: "handler_exn \<Rightarrow> string" where
  "what (Std_exception x) = what_std x"
| "what _ = ''std::exception''"

text \<open>A failed assertion, undefined behaviour and process exit are not C++ exceptions.\<close>

fun is_exception :: "handler_exn \<Rightarrow> bool" where
  "is_exception (Std_exception (Assertion_failed _)) = False"
| "is_exception (Std_exception (Undefined_behaviour _)) = False"
| "is_exception Exit_process = False"
| "is_exception Out_of_fuel = False"
| "is_exception _ = True"

definition lift_res :: "'a res \<Rightarrow> 'a hres" where
  "lift_res m = (case m of Inl x \<Rightarrow> Inl (Std_exception x) | Inr a \<Rightarrow> Inr a)"

lemma lift_res_simps [simp]: "lift_res (Inl x) = Inl (Std_exception x)" "lift_res (Inr a) = Inr a"
  by (simp_all add: lift_res_def)

section \<open>\<^verbatim>\<open>std::to_string\<close>\<close>

definition digit_char :: "nat \<Rightarrow> char" where
  "digit_char d = char_of (48 + d)"

fun nat_to_string :: "nat \<Rightarrow> string" where
  "nat_to_string n = (if n < 10 then [digit_char n] else nat_to_string (n div 10) @ [digit_char (n mod 10)])"

declare nat_to_string.simps [simp del]

abbreviation u64_to_string :: "u64 \<Rightarrow> string" where
  "u64_to_string w \<equiv> nat_to_string (unat w)"

end
