(* ===== verification/Evm_Abi.thy ===== *)
theory Evm_Abi
  imports Status
begin

text \<open>
  The EVM ABI encodings of \<^verbatim>\<open>src/src/server-manager.cpp\<close>: input metadata, the header of a
  dynamic byte string, the context of an output proof, and the decoders that read back what
  the machine leaves in its transmission buffer. The encoders are the source's sequences of
  stores into a zeroed array; the theorems give the resulting layout and the round trips.
\<close>

unbundle bit_operations_syntax

section \<open>Constants\<close>

definition EVM_ADDRESS_LENGTH :: nat where "EVM_ADDRESS_LENGTH = 20"
definition LOG2_ROOT_SIZE :: int where "LOG2_ROOT_SIZE = 37"
definition LOG2_KECCAK_SIZE :: int where "LOG2_KECCAK_SIZE = 5"
definition KECCAK_SIZE :: nat where "KECCAK_SIZE = 2 ^ nat LOG2_KECCAK_SIZE"
definition EVM_ABI_UINT64_LENGTH :: nat where "EVM_ABI_UINT64_LENGTH = 32"
definition EVM_ABI_ADDRESS_LENGTH :: nat where "EVM_ABI_ADDRESS_LENGTH = 32"
definition EVM_ABI_OFFSET_LENGTH :: nat where "EVM_ABI_OFFSET_LENGTH = 32"
definition EVM_ABI_LENGTH_LENGTH :: nat where "EVM_ABI_LENGTH_LENGTH = 32"

definition VOUCHER_HEADER_LENGTH :: nat where
  "VOUCHER_HEADER_LENGTH = EVM_ABI_ADDRESS_LENGTH + EVM_ABI_OFFSET_LENGTH + EVM_ABI_LENGTH_LENGTH"

definition EVM_ABI_INPUT_METADATA_LENGTH :: nat where
  "EVM_ABI_INPUT_METADATA_LENGTH = EVM_ABI_ADDRESS_LENGTH + 4 * EVM_ABI_UINT64_LENGTH"

definition EVM_ABI_STRING_HEADER_LENGTH :: nat where
  "EVM_ABI_STRING_HEADER_LENGTH = EVM_ABI_OFFSET_LENGTH + EVM_ABI_LENGTH_LENGTH"

lemmas evm_abi_constants =
  EVM_ADDRESS_LENGTH_def EVM_ABI_UINT64_LENGTH_def EVM_ABI_ADDRESS_LENGTH_def
  EVM_ABI_OFFSET_LENGTH_def EVM_ABI_LENGTH_LENGTH_def VOUCHER_HEADER_LENGTH_def
  EVM_ABI_INPUT_METADATA_LENGTH_def EVM_ABI_STRING_HEADER_LENGTH_def

section \<open>Big-endian integers\<close>

text \<open>\<^verbatim>\<open>boost::endian::endian_store<uint64_t, 8, order::big>\<close> and \<open>endian_load\<close>.\<close>

definition sizeof_uint64 :: nat where "sizeof_uint64 = 8"

definition endian_store :: "u64 \<Rightarrow> bytes" where
  "endian_store w = map (\<lambda>i. ucast (drop_bit (8 * (7 - i)) w)) [0..<8]"

definition endian_load :: "bytes \<Rightarrow> u64" where
  "endian_load bs = foldl (\<lambda>a b. push_bit 8 a OR ucast b) 0 bs"

lemma length_endian_store [simp]: "length (endian_store w) = 8"
  by (simp add: endian_store_def)

lemma push_low_byte: "push_bit 8 (drop_bit (m + 8) w) OR ucast (ucast (drop_bit m w) :: byte) = drop_bit m w"
  for w :: u64
proof (rule bit_word_eqI)
  fix n assume "n < LENGTH(64)"
  show "bit (push_bit 8 (drop_bit (m + 8) w) OR ucast (ucast (drop_bit m w) :: byte)) n = bit (drop_bit m w) n"
    by (cases "n < 8") (auto simp: bit_simps add.commute dest: bit_imp_le_length)
qed

lemma endian_load_prefix:
  assumes "k \<le> 8"
  shows "endian_load (map (\<lambda>i. ucast (drop_bit (8 * (7 - i)) w)) [0..<k]) = drop_bit (64 - 8 * k) w"
  using assms
proof (induction k)
  case 0
  have "drop_bit 64 w = 0" by (rule bit_word_eqI) (auto simp: bit_simps dest: bit_imp_le_length)
  then show ?case by (simp add: endian_load_def)
next
  case (Suc k)
  have m: "64 - 8 * k = 8 * (7 - k) + 8" "64 - 8 * Suc k = 8 * (7 - k)" using Suc.prems by simp_all
  have "endian_load (map (\<lambda>i. ucast (drop_bit (8 * (7 - i)) w)) [0..<Suc k]) =
      push_bit 8 (drop_bit (8 * (7 - k) + 8) w) OR ucast (ucast (drop_bit (8 * (7 - k)) w) :: byte)"
    using Suc.IH Suc.prems m(1) by (simp add: endian_load_def)
  then show ?case by (simp only: push_low_byte m(2))
qed

lemma endian_load_store [simp]: "endian_load (endian_store w) = w"
  using endian_load_prefix [of 8 w] by (simp add: endian_store_def)

lemma endian_store_inject [simp]: "endian_store v = endian_store w \<longleftrightarrow> v = w"
  by (metis endian_load_store)

text \<open>A store of bytes into an array at an offset.\<close>

definition store_at :: "nat \<Rightarrow> bytes \<Rightarrow> bytes \<Rightarrow> bytes" where
  "store_at off data arr = take off arr @ data @ drop (off + length data) arr"

lemma length_store_at [simp]:
  "off + length data \<le> length arr \<Longrightarrow> length (store_at off data arr) = length arr"
  by (simp add: store_at_def)

section \<open>Encoders\<close>

record input_metadata_type =
  msg_sender :: bytes
  block_number :: u64
  timestamp :: u64
  epoch_index_field :: u64
  input_index_field :: u64

definition evm_abi_encoded_input_metadata :: "input_metadata_type \<Rightarrow> bytes" where
  "evm_abi_encoded_input_metadata parsed =
     (let encoded = replicate EVM_ABI_INPUT_METADATA_LENGTH 0;
          encoded = store_at (EVM_ABI_ADDRESS_LENGTH - EVM_ADDRESS_LENGTH) (msg_sender parsed) encoded;
          encoded = store_at (EVM_ABI_ADDRESS_LENGTH + EVM_ABI_UINT64_LENGTH - sizeof_uint64)
                      (endian_store (block_number parsed)) encoded;
          encoded = store_at (EVM_ABI_ADDRESS_LENGTH + 2 * EVM_ABI_UINT64_LENGTH - sizeof_uint64)
                      (endian_store (timestamp parsed)) encoded;
          encoded = store_at (EVM_ABI_ADDRESS_LENGTH + 3 * EVM_ABI_UINT64_LENGTH - sizeof_uint64)
                      (endian_store (epoch_index_field parsed)) encoded;
          encoded = store_at (EVM_ABI_ADDRESS_LENGTH + 4 * EVM_ABI_UINT64_LENGTH - sizeof_uint64)
                      (endian_store (input_index_field parsed)) encoded
      in encoded)"

definition get_abi_encoded_context :: "u64 \<Rightarrow> bytes" where
  "get_abi_encoded_context epoch_index =
     store_at (EVM_ABI_UINT64_LENGTH - sizeof_uint64) (endian_store epoch_index)
       (replicate EVM_ABI_UINT64_LENGTH 0)"

text \<open>The data that \<open>write_evm_abi_string\<close> sends: a header and the payload.\<close>

definition evm_abi_string_header :: "u64 \<Rightarrow> bytes" where
  "evm_abi_string_header len =
     (let header = replicate EVM_ABI_STRING_HEADER_LENGTH 0;
          header = store_at (EVM_ABI_OFFSET_LENGTH - sizeof_uint64)
                     (endian_store (of_nat EVM_ABI_OFFSET_LENGTH)) header;
          header = store_at (EVM_ABI_OFFSET_LENGTH + EVM_ABI_LENGTH_LENGTH - sizeof_uint64)
                     (endian_store len) header
      in header)"

definition evm_abi_string :: "bytes \<Rightarrow> bytes" where
  "evm_abi_string payload = evm_abi_string_header (of_nat (length payload)) @ payload"

section \<open>Decoders\<close>

primrec is_null :: "bytes \<Rightarrow> bool" where
  "is_null [] = True"
| "is_null (b # bs) = (if b \<noteq> 0 then False else is_null bs)"

function count_entries_from :: "nat \<Rightarrow> u64 \<Rightarrow> bytes \<Rightarrow> u64" where
  "count_entries_from entry_length count data =
     (if entry_length \<le> length data then
        (if is_null (take entry_length data) then count
         else count_entries_from entry_length (count + 1) (drop entry_length data))
      else count)"
  by pat_completeness auto
termination
proof (relation "measure (\<lambda>(n, count, data). length data)")
  fix n :: nat and count :: u64 and data :: bytes
  assume "n \<le> length data" "\<not> is_null (take n data)"
  then have "0 < n" by (cases n) simp_all
  with \<open>n \<le> length data\<close>
  show "((n, count + 1, drop n data), (n, count, data)) \<in> measure (\<lambda>(n, count, data). length data)"
    by simp
qed simp

declare count_entries_from.simps [simp del]

definition count_null_terminated_entries :: "bytes \<Rightarrow> nat \<Rightarrow> u64" where
  "count_null_terminated_entries data entry_length = count_entries_from entry_length 0 data"

definition get_hash :: "session_ref \<Rightarrow> bytes \<Rightarrow> bytes hres" where
  "get_hash session data =
     (if length data \<noteq> 32 then Inl (Taint_session session (grpc_error OUT_OF_RANGE ''invalid hash length''))
      else Inr data)"

definition get_evm_address :: "session_ref \<Rightarrow> bytes \<Rightarrow> bytes hres" where
  "get_evm_address session data =
     (if length data \<noteq> EVM_ADDRESS_LENGTH
      then Inl (Taint_session session (grpc_error OUT_OF_RANGE ''invalid address length''))
      else Inr data)"

definition get_payload_length :: "session_ref \<Rightarrow> bytes \<Rightarrow> u64 hres" where
  "get_payload_length session data =
     (if \<not> is_null (take (length data - sizeof_uint64) data)
      then Inl (Taint_session session (grpc_error OUT_OF_RANGE ''payload length too large''))
      else Inr (endian_load (drop (length data - sizeof_uint64) data)))"

section \<open>Layout\<close>

lemma is_null_iff: "is_null bs \<longleftrightarrow> (\<forall>b \<in> set bs. b = 0)"
  by (induction bs) auto

lemma is_null_replicate [simp]: "is_null (replicate n 0)"
  by (induction n) simp_all

text \<open>A 64-bit integer as a 256-bit big-endian word.\<close>

definition abi_word :: "u64 \<Rightarrow> bytes" where
  "abi_word w = replicate 24 0 @ endian_store w"

lemma length_abi_word [simp]: "length (abi_word w) = 32"
  by (simp add: abi_word_def)

lemma abi_word_inject [simp]: "abi_word v = abi_word w \<longleftrightarrow> v = w"
  by (simp add: abi_word_def)

lemma get_abi_encoded_context_eq: "get_abi_encoded_context w = abi_word w"
  by (simp add: get_abi_encoded_context_def store_at_def abi_word_def evm_abi_constants sizeof_uint64_def)

lemma store_at_replicate:
  assumes "off + length data \<le> n"
  shows "store_at off data (replicate n 0) = replicate off 0 @ data @ replicate (n - off - length data) 0"
  using assms by (simp add: store_at_def min_def)

lemma store_at_append:
  assumes "length xs \<le> off"
  shows "store_at off data (xs @ ys) = xs @ store_at (off - length xs) data ys"
  using assms by (simp add: store_at_def)

lemma encoded_input_metadata_eq:
  assumes "length (msg_sender m) = EVM_ADDRESS_LENGTH"
  shows "evm_abi_encoded_input_metadata m =
    replicate 12 0 @ msg_sender m @ abi_word (block_number m) @ abi_word (timestamp m) @
    abi_word (epoch_index_field m) @ abi_word (input_index_field m)"
  using assms
  by (simp add: evm_abi_encoded_input_metadata_def Let_def evm_abi_constants sizeof_uint64_def
      store_at_replicate store_at_append abi_word_def)

lemma evm_abi_string_header_eq: "evm_abi_string_header len = abi_word 32 @ abi_word len"
  by (simp add: evm_abi_string_header_def Let_def evm_abi_constants sizeof_uint64_def
      store_at_replicate store_at_append abi_word_def)

lemma get_payload_length_abi_word: "get_payload_length s (abi_word w) = Inr w"
  by (simp add: get_payload_length_def abi_word_def sizeof_uint64_def)

section \<open>Counting entries\<close>

text \<open>
  Before the first null entry every entry counts; the result is the number of leading
  non-null entries. The counter cannot wrap, because the data has fewer than \<open>2 ^ 64\<close> bytes.
\<close>

lemma count_entries_from_split:
  assumes "0 < n" "list_all (\<lambda>e. length e = n \<and> \<not> is_null e) es"
    and "length rest < n \<or> is_null (take n rest)"
  shows "count_entries_from n c (concat es @ rest) = c + of_nat (length es)"
  using assms(2)
proof (induction es arbitrary: c)
  case Nil
  show ?case using assms(1,3) by (subst count_entries_from.simps) auto
next
  case (Cons e es)
  then show ?case by (subst count_entries_from.simps) (simp add: add.assoc [symmetric])
qed

section \<open>Properties\<close>

text \<open>
  The input metadata is encoded as five 256-bit words, address first, and the
  encoding loses nothing: it has the length of the metadata memory range, and two metadata
  records with 20-byte senders have the same encoding only when they are equal.
\<close>

theorem input_metadata_encoding:
  assumes "length (msg_sender m) = EVM_ADDRESS_LENGTH" "length (msg_sender n) = EVM_ADDRESS_LENGTH"
  shows "length (evm_abi_encoded_input_metadata m) = EVM_ABI_INPUT_METADATA_LENGTH \<and>
    evm_abi_encoded_input_metadata m =
      replicate 12 0 @ msg_sender m @ abi_word (block_number m) @ abi_word (timestamp m) @
      abi_word (epoch_index_field m) @ abi_word (input_index_field m) \<and>
    (evm_abi_encoded_input_metadata m = evm_abi_encoded_input_metadata n \<longleftrightarrow> m = n)"
  using assms
  by (auto simp: encoded_input_metadata_eq evm_abi_constants append_eq_same_length
      intro: input_metadata_type.equality)

theorem input_metadata_encoding_witness:
  "length (evm_abi_encoded_input_metadata
     \<lparr>msg_sender = replicate 20 7, block_number = 1, timestamp = 2, epoch_index_field = 0,
      input_index_field = 3\<rparr>) = 160"
  using input_metadata_encoding [of
      "\<lparr>msg_sender = replicate 20 7, block_number = 1, timestamp = 2, epoch_index_field = 0,
        input_index_field = 3\<rparr>"
      "\<lparr>msg_sender = replicate 20 7, block_number = 1, timestamp = 2, epoch_index_field = 0,
        input_index_field = 3\<rparr>"]
  by (simp add: evm_abi_constants)

text \<open>
  Claim C32. The header that is written before an input or query payload is read back
  exactly by the code that reads the header of a notice, report or exception: the length
  word decodes to the payload length for every payload shorter than \<open>2 ^ 64\<close> bytes, and the
  payload follows the header. A length word with a non-zero high part taints the session.
\<close>

theorem abi_string_roundtrip:
  assumes "length payload < 2 ^ 64"
  shows "get_payload_length s
      (take EVM_ABI_LENGTH_LENGTH (drop EVM_ABI_OFFSET_LENGTH (evm_abi_string payload)))
        = Inr (of_nat (length payload)) \<and>
    unat (of_nat (length payload) :: u64) = length payload \<and>
    drop EVM_ABI_STRING_HEADER_LENGTH (evm_abi_string payload) = payload \<and>
    (\<forall>hi lo. length lo = 8 \<and> \<not> is_null hi \<longrightarrow>
       get_payload_length s (hi @ lo) =
         Inl (Taint_session s (grpc_error OUT_OF_RANGE ''payload length too large'')))"
  using assms
  by (auto simp: evm_abi_string_def evm_abi_string_header_eq evm_abi_constants
      get_payload_length_abi_word get_payload_length_def [of _ "_ @ _"] sizeof_uint64_def
      unat_of_nat)

theorem abi_string_roundtrip_witness:
  "drop 64 (evm_abi_string [1, 2, 3]) = [1, 2, 3] \<and>
   get_payload_length \<lparr>ref_id = ''s'', ref_object = 0\<rparr> (take 32 (drop 32 (evm_abi_string [1, 2, 3]))) = Inr 3"
  using abi_string_roundtrip [of "[1, 2, 3]" "\<lparr>ref_id = ''s'', ref_object = 0\<rparr>"]
  by (simp add: evm_abi_constants)

text \<open>
  \<open>count_null_terminated_entries\<close> counts the entries before the first null entry:
  for data made of non-null entries of the given positive length, followed by a null entry or
  by less than one entry, it returns the number of entries.
\<close>

theorem count_null_terminated_entries_correct:
  assumes "0 < n" "list_all (\<lambda>e. length e = n \<and> \<not> is_null e) es"
    and "length rest < n \<or> is_null (take n rest)"
  shows "count_null_terminated_entries (concat es @ rest) n = of_nat (length es)"
  using count_entries_from_split [OF assms] by (simp add: count_null_terminated_entries_def)

theorem count_null_terminated_entries_correct_witness:
  "count_null_terminated_entries [1, 0, 0, 2, 0, 0, 9] 2 = 2"
  using count_null_terminated_entries_correct [of 2 "[[1, 0], [0, 2]]" "[0, 0, 9]"] by simp

end
