(* ===== verification/Htif.thy ===== *)
theory Htif
  imports Evm_Abi
begin

text \<open>
  The HTIF register fields (\<^verbatim>\<open>src/src/htif-defines.h\<close> and the \<open>htif_*\<close> functions), the
  integer helpers \<open>is_power_of_two\<close> and \<open>ilog2\<close>, and the validation of the machine's memory
  ranges in \<^verbatim>\<open>src/src/server-manager.cpp\<close>.
\<close>

unbundle bit_operations_syntax

section \<open>Register fields\<close>

definition HTIF_DEV_SHIFT :: nat where "HTIF_DEV_SHIFT = 56"
definition HTIF_CMD_SHIFT :: nat where "HTIF_CMD_SHIFT = 48"
definition HTIF_DATA_SHIFT :: nat where "HTIF_DATA_SHIFT = 0"
definition HTIF_DEV_MASK :: u64 where "HTIF_DEV_MASK = 0xFF00000000000000"
definition HTIF_CMD_MASK :: u64 where "HTIF_CMD_MASK = 0x00FF000000000000"
definition HTIF_DATA_MASK :: u64 where "HTIF_DATA_MASK = 0x0000FFFFFFFFFFFF"
definition HTIF_DEVICE_YIELD :: u64 where "HTIF_DEVICE_YIELD = 2"
definition HTIF_YIELD_MANUAL :: u64 where "HTIF_YIELD_MANUAL = 1"
definition HTIF_YIELD_REASON_RX_ACCEPTED :: u64 where "HTIF_YIELD_REASON_RX_ACCEPTED = 1"
definition HTIF_YIELD_REASON_RX_REJECTED :: u64 where "HTIF_YIELD_REASON_RX_REJECTED = 2"
definition HTIF_YIELD_REASON_TX_VOUCHER :: u64 where "HTIF_YIELD_REASON_TX_VOUCHER = 3"
definition HTIF_YIELD_REASON_TX_NOTICE :: u64 where "HTIF_YIELD_REASON_TX_NOTICE = 4"
definition HTIF_YIELD_REASON_TX_REPORT :: u64 where "HTIF_YIELD_REASON_TX_REPORT = 5"
definition HTIF_YIELD_REASON_TX_EXCEPTION :: u64 where "HTIF_YIELD_REASON_TX_EXCEPTION = 6"
definition ROLLUP_ADVANCE_STATE :: u64 where "ROLLUP_ADVANCE_STATE = 0"
definition ROLLUP_INSPECT_STATE :: u64 where "ROLLUP_INSPECT_STATE = 1"

lemmas htif_reasons =
  HTIF_YIELD_REASON_RX_ACCEPTED_def HTIF_YIELD_REASON_RX_REJECTED_def
  HTIF_YIELD_REASON_TX_VOUCHER_def HTIF_YIELD_REASON_TX_NOTICE_def
  HTIF_YIELD_REASON_TX_REPORT_def HTIF_YIELD_REASON_TX_EXCEPTION_def

definition htif_replace_data_field :: "u64 \<Rightarrow> u64 \<Rightarrow> u64" where
  "htif_replace_data_field reg data =
     (reg AND NOT HTIF_DATA_MASK) OR (push_bit HTIF_DATA_SHIFT data AND HTIF_DATA_MASK)"

definition htif_dev_field :: "u64 \<Rightarrow> u64" where
  "htif_dev_field reg = drop_bit HTIF_DEV_SHIFT (reg AND HTIF_DEV_MASK)"

definition htif_cmd_field :: "u64 \<Rightarrow> u64" where
  "htif_cmd_field reg = drop_bit HTIF_CMD_SHIFT (reg AND HTIF_CMD_MASK)"

definition htif_data_field :: "u64 \<Rightarrow> u64" where
  "htif_data_field reg = drop_bit HTIF_DATA_SHIFT (reg AND HTIF_DATA_MASK)"

text \<open>\<^verbatim>\<open>value << 16 >> 48\<close>: the 16 bits above the low 32 of the data field.\<close>

definition yield_reason_of :: "u64 \<Rightarrow> u64" where
  "yield_reason_of value = drop_bit 48 (push_bit 16 value)"

lemma htif_masks:
  "HTIF_DEV_MASK = push_bit 56 (mask 8)" "HTIF_CMD_MASK = push_bit 48 (mask 8)" "HTIF_DATA_MASK = mask 48"
  by (simp_all add: HTIF_DEV_MASK_def HTIF_CMD_MASK_def HTIF_DATA_MASK_def mask_eq_exp_minus_1 push_bit_eq_mult)

lemmas htif_fields =
  htif_replace_data_field_def htif_dev_field_def htif_cmd_field_def htif_data_field_def
  HTIF_DEV_SHIFT_def HTIF_CMD_SHIFT_def HTIF_DATA_SHIFT_def htif_masks

section \<open>Integer helpers\<close>

definition is_power_of_two :: "u64 \<Rightarrow> bool" where
  "is_power_of_two value \<longleftrightarrow> value > 0 \<and> value AND (value - 1) = 0"

text \<open>\<^verbatim>\<open>__builtin_clzll\<close>: the number of clear bits above the highest set bit.\<close>

primrec leading_zeros :: "nat \<Rightarrow> u64 \<Rightarrow> nat" where
  "leading_zeros 0 v = 0"
| "leading_zeros (Suc n) v = (if bit v n then 0 else Suc (leading_zeros n v))"

definition ilog2 :: "u64 \<Rightarrow> u64" where
  "ilog2 v = 63 - of_nat (leading_zeros 64 v)"

section \<open>Machine configuration\<close>

record memory_range_config =
  cfg_start :: u64
  cfg_length :: u64
  cfg_image_filename :: string
  cfg_shared :: bool

record memory_range_description_type =
  desc_index :: u64
  desc_start :: u64
  desc_length :: u64
  desc_log2_size :: u64
  desc_config :: memory_range_config

definition empty_config :: memory_range_config where
  "empty_config = \<lparr>cfg_start = 0, cfg_length = 0, cfg_image_filename = [], cfg_shared = False\<rparr>"

definition empty_description :: memory_range_description_type where
  "empty_description = \<lparr>desc_index = 0, desc_start = 0, desc_length = 0, desc_log2_size = 0,
                       desc_config = empty_config\<rparr>"

text \<open>
  \<open>check_memory_range_config\<close> assigns the description it is given field by field and may
  throw in between; the value is the description at the end.
\<close>

definition check_memory_range_config ::
  "memory_range_description_type \<Rightarrow> string \<Rightarrow> memory_range_config \<Rightarrow> memory_range_description_type hres" where
  "check_memory_range_config desc name config =
     (let desc = desc\<lparr>desc_config := config\<rparr> in
      if cfg_shared (desc_config desc)
      then Inl (Finish_error_yield_none (grpc_error INVALID_ARGUMENT (name @ '' buffer cannot be shared'')))
      else
       let desc = desc\<lparr>desc_config := (desc_config desc)\<lparr>cfg_image_filename := []\<rparr>\<rparr>;
           desc = desc\<lparr>desc_length := cfg_length (desc_config desc)\<rparr> in
       if \<not> is_power_of_two (desc_length desc)
       then Inl (Finish_error_yield_none (grpc_error OUT_OF_RANGE
              (name @ '' memory range length not a power of two ('' @ u64_to_string (desc_length desc) @ '')'')))
       else
        let desc = desc\<lparr>desc_log2_size := ilog2 (desc_length desc)\<rparr>;
            desc = desc\<lparr>desc_start := cfg_start (desc_config desc)\<rparr>;
            aligned_start = push_bit (unat (desc_log2_size desc)) (drop_bit (unat (desc_log2_size desc)) (desc_start desc)) in
        if desc_start desc \<noteq> aligned_start
        then Inl (Finish_error_yield_none (grpc_error OUT_OF_RANGE
               (name @ '' memory range start not aligned to its power of two size'')))
        else Inr desc)"

record htif_config =
  yield_manual :: bool
  yield_automatic :: bool
  console_getchar :: bool

definition check_htif_config :: "htif_config \<Rightarrow> unit hres" where
  "check_htif_config htif =
     (if \<not> yield_manual htif
      then Inl (Finish_error_yield_none (grpc_error INVALID_ARGUMENT ''yield manual must be enabled''))
      else if \<not> yield_automatic htif
      then Inl (Finish_error_yield_none (grpc_error INVALID_ARGUMENT ''yield automatic must be enabled''))
      else if console_getchar htif
      then Inl (Finish_error_yield_none (grpc_error INVALID_ARGUMENT ''console getchar must be disabled''))
      else Inr ())"

section \<open>Correctness of the integer helpers\<close>

lemma leading_zeros_le: "leading_zeros n v \<le> n"
  by (induction n) simp_all

lemma leading_zeros_spec:
  assumes "leading_zeros n v < n"
  shows "bit v (n - 1 - leading_zeros n v)" and "\<And>i. n - 1 - leading_zeros n v < i \<Longrightarrow> i < n \<Longrightarrow> \<not> bit v i"
  using assms
proof (induction n)
  case 0
  { case 1 then show ?case by simp next case 2 then show ?case by simp }
next
  case (Suc n)
  { case 1 then show ?case using Suc.IH(1) by (auto split: if_splits) }
  { case (2 i)
    then show ?case
      using Suc.IH(2) [of i] by (cases "i = n") (auto split: if_splits) }
qed

lemma leading_zeros_all: "leading_zeros n v = n \<Longrightarrow> i < n \<Longrightarrow> \<not> bit v i"
  by (induction n) (auto simp: less_Suc_eq split: if_splits)

lemma leading_zeros_64:
  assumes "v \<noteq> (0::u64)"
  shows "leading_zeros 64 v < 64"
proof (rule ccontr)
  assume "\<not> leading_zeros 64 v < 64"
  then have "leading_zeros 64 v = 64" using leading_zeros_le [of 64 v] by simp
  then have "\<not> bit v i" if "i < 64" for i using that by (rule leading_zeros_all)
  then have "v = 0" by (intro bit_word_eqI) simp
  with assms show False ..
qed

text \<open>\<open>ilog2\<close> is the position of the highest set bit.\<close>

lemma unat_ilog2: "v \<noteq> 0 \<Longrightarrow> unat (ilog2 v) = 63 - leading_zeros 64 v"
  using leading_zeros_64 [of v]
  by (simp add: ilog2_def unat_sub word_le_nat_alt unat_of_nat)

lemma ilog2_bit:
  assumes "v \<noteq> 0"
  shows "unat (ilog2 v) < 64" and "bit v (unat (ilog2 v))" and "unat (ilog2 v) < i \<Longrightarrow> \<not> bit v i"
proof -
  have lz: "leading_zeros 64 v < 64" using leading_zeros_64 [OF assms] .
  show "unat (ilog2 v) < 64" by (simp add: unat_ilog2 [OF assms])
  show "bit v (unat (ilog2 v))" using leading_zeros_spec(1) [OF lz] by (simp add: unat_ilog2 [OF assms])
  show "\<not> bit v i" if "unat (ilog2 v) < i"
    using leading_zeros_spec(2) [OF lz, of i] that
    by (cases "i < 64") (auto simp: unat_ilog2 [OF assms] dest: bit_imp_le_length)
qed

lemma unat_less_exp:
  fixes v :: u64
  assumes "\<And>i. n \<le> i \<Longrightarrow> \<not> bit v i"
  shows "unat v < 2 ^ n"
proof -
  have "drop_bit n v = 0" by (rule bit_word_eqI) (simp add: bit_simps assms)
  then have "unat v div 2 ^ n = 0" using unat_drop_bit [of n v] by simp
  then show ?thesis by (simp add: div_eq_0_iff)
qed

lemma ilog2_bounds:
  assumes "v \<noteq> 0"
  shows "2 ^ unat (ilog2 v) \<le> unat v \<and> unat v < 2 ^ Suc (unat (ilog2 v))"
proof
  have "odd (unat v div 2 ^ unat (ilog2 v))" using ilog2_bit(2) [OF assms] by (rule bit_iff_odd_unat [THEN iffD1])
  then have "unat v div 2 ^ unat (ilog2 v) \<noteq> 0" by (metis dvd_0_right)
  then show "2 ^ unat (ilog2 v) \<le> unat v" by (simp add: div_eq_0_iff not_less)
  show "unat v < 2 ^ Suc (unat (ilog2 v))"
    using ilog2_bit(3) [OF assms] by (intro unat_less_exp) simp
qed

lemma is_power_of_two_exp:
  assumes "k < 64"
  shows "is_power_of_two (push_bit k 1)"
proof -
  have "push_bit k 1 - 1 = (mask k :: u64)" by (simp add: mask_eq_exp_minus_1 push_bit_eq_mult)
  moreover have "push_bit k 1 AND mask k = (0 :: u64)"
    by (rule bit_word_eqI) (auto simp: bit_simps simp del: push_bit_of_1)
  moreover have "push_bit k 1 > (0 :: u64)"
    using unat_shifted_one [OF assms] by (simp add: word_less_nat_alt del: push_bit_of_1)
  ultimately show ?thesis by (simp add: is_power_of_two_def del: push_bit_of_1)
qed

lemma is_power_of_twoD:
  assumes "is_power_of_two v"
  shows "v = push_bit (unat (ilog2 v)) 1"
proof (rule ccontr)
  let ?k = "unat (ilog2 v)"
  assume ne: "v \<noteq> push_bit ?k 1"
  have v: "v \<noteq> 0" using assms by (auto simp: is_power_of_two_def)
  have k: "?k < 64" using ilog2_bit(1) [OF v] .
  have "unat v \<noteq> 2 ^ ?k" using ne unat_shifted_one [OF k] by (metis word_unat_eq_iff)
  then have "2 ^ ?k \<le> unat v - 1" "unat v - 1 < 2 * 2 ^ ?k" using ilog2_bounds [OF v] by auto
  then have "(unat v - 1) div 2 ^ ?k = 1" by (intro div_nat_eqI) simp_all
  moreover have "unat (v - 1) = unat v - 1"
    using v by (simp add: unat_minus_one)
  ultimately have "bit (v - 1) ?k" by (simp only: bit_iff_odd_unat) simp
  with ilog2_bit(2) [OF v] have "bit (v AND (v - 1)) ?k" by (simp add: bit_simps)
  with assms show False by (simp add: is_power_of_two_def)
qed

section \<open>Valid memory ranges\<close>

definition valid_range :: "memory_range_config \<Rightarrow> bool" where
  "valid_range config \<longleftrightarrow> \<not> cfg_shared config \<and>
     (\<exists>k < 64. unat (cfg_length config) = 2 ^ k \<and> 2 ^ k dvd unat (cfg_start config))"

lemma aligned_iff: "a = push_bit k (drop_bit k a) \<longleftrightarrow> 2 ^ k dvd unat a" for a :: u64
proof -
  have "unat a div 2 ^ k * 2 ^ k < 2 ^ 64"
    using unsigned_less [where ?'a = nat, of a] div_times_less_eq_dividend [of "unat a" "2 ^ k"]
    by (simp del: div_times_less_eq_dividend)
  then have "unat (push_bit k (drop_bit k a)) = unat a div 2 ^ k * 2 ^ k"
    by (subst unsigned_push_bit_eq) (simp add: unat_drop_bit push_bit_eq_mult take_bit_nat_eq_self)
  then have "a = push_bit k (drop_bit k a) \<longleftrightarrow> unat a = unat a div 2 ^ k * 2 ^ k"
    by (metis word_unat_eq_iff)
  then show ?thesis by (metis dvd_div_mult_self dvd_triv_right)
qed

lemma power_of_two_length:
  "is_power_of_two v \<longleftrightarrow> v \<noteq> 0 \<and> unat v = 2 ^ unat (ilog2 v)"
proof
  assume v: "is_power_of_two v"
  then have "v \<noteq> 0" by (auto simp: is_power_of_two_def)
  with is_power_of_twoD [OF v] unat_shifted_one [of "unat (ilog2 v)"] ilog2_bit(1) [of v]
  show "v \<noteq> 0 \<and> unat v = 2 ^ unat (ilog2 v)" by metis
next
  assume v: "v \<noteq> 0 \<and> unat v = 2 ^ unat (ilog2 v)"
  then have k: "unat (ilog2 v) < 64" using ilog2_bit(1) by blast
  then have "v = push_bit (unat (ilog2 v)) 1" using v unat_shifted_one [OF k] by (metis word_unat_eq_iff)
  then show "is_power_of_two v" using is_power_of_two_exp [OF k] by metis
qed

lemma valid_range_iff:
  "valid_range config \<longleftrightarrow> \<not> cfg_shared config \<and> is_power_of_two (cfg_length config) \<and>
     2 ^ unat (ilog2 (cfg_length config)) dvd unat (cfg_start config)"
proof -
  let ?v = "cfg_length config"
  have "\<exists>k < 64. unat ?v = 2 ^ k \<and> 2 ^ k dvd unat (cfg_start config)"
    if "is_power_of_two ?v" "2 ^ unat (ilog2 ?v) dvd unat (cfg_start config)"
    using that ilog2_bit(1) [of ?v] power_of_two_length [of ?v] by auto
  moreover have "is_power_of_two ?v \<and> unat (ilog2 ?v) = k" if "k < 64" "unat ?v = 2 ^ k" for k
  proof -
    have "?v = push_bit k 1" using that unat_shifted_one [OF that(1)] by (metis word_unat_eq_iff)
    then have p: "is_power_of_two ?v" using is_power_of_two_exp [OF that(1)] by simp
    then have "(2::nat) ^ unat (ilog2 ?v) = 2 ^ k" using power_of_two_length that(2) by simp
    with p show ?thesis by simp
  qed
  ultimately show ?thesis by (auto simp: valid_range_def)
qed

section \<open>Properties\<close>

text \<open>
  \<open>is_power_of_two\<close> decides whether a 64-bit integer is a power of two, and then
  \<open>ilog2\<close> returns the exponent; for every non-zero integer \<open>ilog2\<close> returns the floor of its
  logarithm.
\<close>

theorem power_of_two_and_ilog2:
  "(is_power_of_two v \<longleftrightarrow> (\<exists>k < 64. v = push_bit k 1)) \<and>
   (is_power_of_two v \<longrightarrow> v = push_bit (unat (ilog2 v)) 1) \<and>
   (v \<noteq> 0 \<longrightarrow> 2 ^ unat (ilog2 v) \<le> unat v \<and> unat v < 2 ^ Suc (unat (ilog2 v)))"
proof (intro conjI impI)
  show "is_power_of_two v \<longleftrightarrow> (\<exists>k < 64. v = push_bit k 1)"
  proof
    assume v: "is_power_of_two v"
    then have "v \<noteq> 0" by (auto simp: is_power_of_two_def)
    with is_power_of_twoD [OF v] ilog2_bit(1) show "\<exists>k < 64. v = push_bit k 1" by blast
  next
    assume "\<exists>k < 64. v = push_bit k 1"
    then show "is_power_of_two v" using is_power_of_two_exp by blast
  qed
qed (use is_power_of_twoD ilog2_bounds in blast)+

theorem power_of_two_and_ilog2_witness:
  "is_power_of_two 4096 \<and> (4096 :: u64) = push_bit (unat (ilog2 4096)) 1"
proof -
  have "is_power_of_two 4096" by code_simp
  with power_of_two_and_ilog2 [of 4096] show ?thesis by blast
qed

text \<open>
  Replacing the data field of an HTIF register changes that field only: it becomes
  the low 48 bits of the new data, and device and command are kept. The yield reason read
  from the whole register, as the input loop does, is the one read from its data field, as
  the start-up check does: bits 32 to 47.
\<close>

theorem htif_field_laws:
  "htif_data_field (htif_replace_data_field reg data) = data AND mask 48 \<and>
   htif_dev_field (htif_replace_data_field reg data) = htif_dev_field reg \<and>
   htif_cmd_field (htif_replace_data_field reg data) = htif_cmd_field reg \<and>
   yield_reason_of (htif_data_field reg) = yield_reason_of reg \<and>
   yield_reason_of reg = drop_bit 32 reg AND mask 16"
proof (intro conjI)
  show "htif_data_field (htif_replace_data_field reg data) = data AND mask 48"
    by (rule bit_word_eqI) (auto simp: htif_fields bit_simps)
  show "htif_dev_field (htif_replace_data_field reg data) = htif_dev_field reg"
    by (rule bit_word_eqI) (auto simp: htif_fields bit_simps)
  show "htif_cmd_field (htif_replace_data_field reg data) = htif_cmd_field reg"
    by (rule bit_word_eqI) (auto simp: htif_fields bit_simps)
  show "yield_reason_of (htif_data_field reg) = yield_reason_of reg"
    by (rule bit_word_eqI) (auto simp: htif_fields yield_reason_of_def bit_simps)
  show "yield_reason_of reg = drop_bit 32 reg AND mask 16"
    by (rule bit_word_eqI) (auto simp: yield_reason_of_def bit_simps add.commute)
qed

text \<open>
  A memory range configuration is accepted exactly when it is not shared, its
  length is a power of two and its start is a multiple of the length; the description then
  records length, start and logarithm, and the image file name is cleared so that replacing
  the range clears it.
\<close>

theorem memory_range_accepted:
  "case check_memory_range_config desc name config of
     Inr d \<Rightarrow> valid_range config \<and>
       d = \<lparr>desc_index = desc_index desc, desc_start = cfg_start config, desc_length = cfg_length config,
            desc_log2_size = ilog2 (cfg_length config), desc_config = config\<lparr>cfg_image_filename := []\<rparr>\<rparr> \<and>
       unat (cfg_length config) = 2 ^ unat (ilog2 (cfg_length config))
   | Inl x \<Rightarrow> \<not> valid_range config"
  using power_of_two_length [of "cfg_length config"] aligned_iff [of "cfg_start config" "unat (ilog2 (cfg_length config))"]
  by (auto simp: check_memory_range_config_def Let_def valid_range_iff)

end
