(* ===== verification/Containers.thy ===== *)
theory Containers
  imports Prelude "HOL-Library.AList"
begin

text \<open>
  The two associative containers of the server manager: \<^verbatim>\<open>std::unordered_map\<close>
  (sessions, pending check-ins, service health) and \<^verbatim>\<open>std::map\<close> (the epochs of a
  session, iterated in key order). Both are association lists; the interface
  \<open>keyed_container\<close> states what their clients rely on, and the laws the handlers use are
  derived from it once.
\<close>

section \<open>The interface\<close>

locale keyed_container =
  fixes find_key :: "'m \<Rightarrow> 'k \<Rightarrow> 'v option"
    and assign :: "'k \<Rightarrow> 'v \<Rightarrow> 'm \<Rightarrow> 'm"
    and erase :: "'k \<Rightarrow> 'm \<Rightarrow> 'm"
    and keys :: "'m \<Rightarrow> 'k list"
    and valid :: "'m \<Rightarrow> bool"
  assumes find_assign: "valid m \<Longrightarrow> find_key (assign k v m) j = (if j = k then Some v else find_key m j)"
    and find_erase: "valid m \<Longrightarrow> find_key (erase k m) j = (if j = k then None else find_key m j)"
    and valid_assign: "valid m \<Longrightarrow> valid (assign k v m)"
    and valid_erase: "valid m \<Longrightarrow> valid (erase k m)"
    and set_keys: "valid m \<Longrightarrow> set (keys m) = {k. find_key m k \<noteq> None}"
    and distinct_keys: "valid m \<Longrightarrow> distinct (keys m)"
begin

lemma keys_assign: "valid m \<Longrightarrow> set (keys (assign k v m)) = insert k (set (keys m))"
  by (auto simp: set_keys valid_assign find_assign)

lemma keys_erase: "valid m \<Longrightarrow> set (keys (erase k m)) = set (keys m) - {k}"
  by (auto simp: set_keys valid_erase find_erase)

text \<open>Writing through a reference to an element leaves the other elements and the key set alone.\<close>

lemma write_through:
  assumes "valid m" "find_key m k = Some v"
  shows "set (keys (assign k v' m)) = set (keys m)"
    and "j \<noteq> k \<Longrightarrow> find_key (assign k v' m) j = find_key m j"
  using assms by (auto simp: keys_assign set_keys find_assign)

lemma assign_all:
  assumes "valid m" and "\<And>j v. find_key m j = Some v \<Longrightarrow> P j v" and "P k v"
  shows "find_key (assign k v m) j = Some u \<Longrightarrow> P j u"
  using assms by (auto simp: find_assign split: if_splits)

lemma erase_all:
  assumes "valid m" and "\<And>j v. find_key m j = Some v \<Longrightarrow> P j v"
  shows "find_key (erase k m) j = Some u \<Longrightarrow> P j u"
  using assms by (auto simp: find_erase split: if_splits)

end

section \<open>\<^verbatim>\<open>std::unordered_map\<close>\<close>

text \<open>
  The iteration order of the container is unspecified; the list order stands for one such
  order. Assignment keeps the position of an existing key.
\<close>

type_synonym ('k, 'v) unordered_map = "('k \<times> 'v) list"

definition um_find :: "('k, 'v) unordered_map \<Rightarrow> 'k \<Rightarrow> 'v option" where
  "um_find m k = map_of m k"

definition um_assign :: "'k \<Rightarrow> 'v \<Rightarrow> ('k, 'v) unordered_map \<Rightarrow> ('k, 'v) unordered_map" where
  "um_assign k v m = AList.update k v m"

definition um_erase :: "'k \<Rightarrow> ('k, 'v) unordered_map \<Rightarrow> ('k, 'v) unordered_map" where
  "um_erase k m = AList.delete k m"

definition um_keys :: "('k, 'v) unordered_map \<Rightarrow> 'k list" where
  "um_keys m = map fst m"

definition um_valid :: "('k, 'v) unordered_map \<Rightarrow> bool" where
  "um_valid m = distinct (map fst m)"

interpretation um: keyed_container um_find um_assign um_erase um_keys um_valid
proof unfold_locales
  fix m :: "('a, 'b) unordered_map" and k j :: 'a and v :: 'b
  show "um_find (um_assign k v m) j = (if j = k then Some v else um_find m j)"
    by (simp add: um_find_def um_assign_def update_conv')
  show "um_find (um_erase k m) j = (if j = k then None else um_find m j)"
    by (simp add: um_find_def um_erase_def delete_conv')
  show "um_valid m \<Longrightarrow> um_valid (um_assign k v m)"
    by (simp add: um_valid_def um_assign_def distinct_update)
  show "um_valid m \<Longrightarrow> um_valid (um_erase k m)"
    by (simp add: um_valid_def um_erase_def distinct_delete)
  show "set (um_keys m) = {k. um_find m k \<noteq> None}"
    by (simp add: um_keys_def um_find_def map_of_eq_None_iff)
  show "um_valid m \<Longrightarrow> distinct (um_keys m)"
    by (simp add: um_valid_def um_keys_def)
qed

lemma um_valid_Nil [simp]: "um_valid []"
  by (simp add: um_valid_def)

lemma um_find_Nil [simp]: "um_find [] k = None"
  by (simp add: um_find_def)

text \<open>For this container the lookup laws hold without the invariant.\<close>

lemma um_find_assign [simp]: "um_find (um_assign k v m) j = (if j = k then Some v else um_find m j)"
  by (simp add: um_find_def um_assign_def update_conv')

lemma um_find_erase [simp]: "um_find (um_erase k m) j = (if j = k then None else um_find m j)"
  by (simp add: um_find_def um_erase_def delete_conv')

lemma um_assign_assign [simp]: "um_assign k v (um_assign k u m) = um_assign k v m"
  by (induction m) (auto simp: um_assign_def)

lemma um_assign_triv: "um_find m k = Some v \<Longrightarrow> um_assign k v m = m"
  by (simp add: um_find_def um_assign_def update_triv)

section \<open>\<^verbatim>\<open>std::map\<close>\<close>

type_synonym ('k, 'v) std_map = "('k \<times> 'v) list"

definition sm_find :: "('k::linorder, 'v) std_map \<Rightarrow> 'k \<Rightarrow> 'v option" where
  "sm_find m k = map_of m k"

primrec sm_assign :: "'k::linorder \<Rightarrow> 'v \<Rightarrow> ('k, 'v) std_map \<Rightarrow> ('k, 'v) std_map" where
  "sm_assign k v [] = [(k, v)]"
| "sm_assign k v (p # ps) =
     (if k < fst p then (k, v) # p # ps
      else if k = fst p then (k, v) # ps
      else p # sm_assign k v ps)"

definition sm_erase :: "'k::linorder \<Rightarrow> ('k, 'v) std_map \<Rightarrow> ('k, 'v) std_map" where
  "sm_erase k m = filter (\<lambda>p. fst p \<noteq> k) m"

definition sm_keys :: "('k::linorder, 'v) std_map \<Rightarrow> 'k list" where
  "sm_keys m = map fst m"

definition sm_valid :: "('k::linorder, 'v) std_map \<Rightarrow> bool" where
  "sm_valid m = sorted_wrt (<) (map fst m)"

lemma sm_find_assign:
  "sm_valid m \<Longrightarrow> sm_find (sm_assign k v m) j = (if j = k then Some v else sm_find m j)"
  by (induction m) (auto simp: sm_find_def sm_valid_def)

lemma sm_assign_assign [simp]: "sm_assign k v (sm_assign k u m) = sm_assign k v m"
  by (induction m) auto

lemma sm_assign_triv: "sm_valid m \<Longrightarrow> sm_find m k = Some v \<Longrightarrow> sm_assign k v m = m"
  by (induction m) (auto simp: sm_find_def sm_valid_def dest!: map_of_SomeD split: if_splits)

lemma sm_find_erase [simp]: "sm_find (sm_erase k m) j = (if j = k then None else sm_find m j)"
  by (induction m) (auto simp: sm_find_def sm_erase_def)

lemma set_sm_assign: "fst ` set (sm_assign k v m) = insert k (fst ` set m)"
  by (induction m) auto

lemma sm_valid_assign: "sm_valid m \<Longrightarrow> sm_valid (sm_assign k v m)"
proof (induction m)
  case Nil
  then show ?case by (simp add: sm_valid_def)
next
  case (Cons p ps)
  then have ps: "sm_valid ps" "\<forall>x \<in> fst ` set ps. fst p < x" by (simp_all add: sm_valid_def)
  show ?case
  proof (cases "fst p < k")
    case True
    then have "sm_assign k v (p # ps) = p # sm_assign k v ps" by auto
    moreover have "\<forall>x \<in> fst ` set (sm_assign k v ps). fst p < x"
      using ps(2) True by (auto simp: set_sm_assign)
    ultimately show ?thesis using Cons.IH ps(1) by (simp add: sm_valid_def)
  next
    case False
    then show ?thesis using Cons.prems by (auto simp: sm_valid_def)
  qed
qed

interpretation sm: keyed_container "sm_find :: ('k::linorder, 'v) std_map \<Rightarrow> 'k \<Rightarrow> 'v option"
    sm_assign sm_erase sm_keys sm_valid
proof unfold_locales
  fix m :: "('k, 'v) std_map" and k j :: 'k and v :: 'v
  show "sm_valid m \<Longrightarrow> sm_find (sm_assign k v m) j = (if j = k then Some v else sm_find m j)"
    by (rule sm_find_assign)
  show "sm_find (sm_erase k m) j = (if j = k then None else sm_find m j)"
    by simp
  show "sm_valid m \<Longrightarrow> sm_valid (sm_assign k v m)"
    by (rule sm_valid_assign)
  show "sm_valid m \<Longrightarrow> sm_valid (sm_erase k m)"
    by (induction m) (auto simp: sm_valid_def sm_erase_def)
  show "set (sm_keys m) = {k. sm_find m k \<noteq> None}"
    by (simp add: sm_keys_def sm_find_def map_of_eq_None_iff)
  show "sm_valid m \<Longrightarrow> distinct (sm_keys m)"
    by (simp add: sm_valid_def sm_keys_def strict_sorted_iff)
qed

lemma sm_valid_Nil [simp]: "sm_valid []"
  by (simp add: sm_valid_def)

lemma sm_find_Nil [simp]: "sm_find [] k = None"
  by (simp add: sm_find_def)

end
