(* ===== verification/Coroutine.thy ===== *)
theory Coroutine
  imports Status
begin

text \<open>
  Handlers as coroutines. In the source every RPC handler is a \<^verbatim>\<open>boost::coroutines2\<close>
  coroutine: it runs without interruption until it yields, having arranged for the
  completion queue to return it, and continues when the queue does. Here a running
  coroutine is a tree: it ends in a state with a result or an exception, or it is suspended
  in a state at a yield point, with a continuation that takes what the resumption delivers
  and the state at that time, which other handlers may have changed meanwhile.
\<close>

section \<open>Processes and programs\<close>

datatype ('s, 'y, 'v, 'a) proc =
    Done 's "'a hres"
  | Suspend 's 'y "'v \<Rightarrow> 's \<Rightarrow> ('s, 'y, 'v, 'a) proc"

type_synonym ('s, 'y, 'v, 'a) prog = "'s \<Rightarrow> ('s, 'y, 'v, 'a) proc"

definition ret :: "'a \<Rightarrow> ('s, 'y, 'v, 'a) prog" where
  "ret a s = Done s (Inr a)"

definition throw :: "handler_exn \<Rightarrow> ('s, 'y, 'v, 'a) prog" where
  "throw x s = Done s (Inl x)"

definition liftH :: "'a hres \<Rightarrow> ('s, 'y, 'v, 'a) prog" where
  "liftH r s = Done s r"

definition gets :: "('s \<Rightarrow> 'a hres) \<Rightarrow> ('s, 'y, 'v, 'a) prog" where
  "gets f s = Done s (f s)"

definition update :: "('s \<Rightarrow> 's hres) \<Rightarrow> ('s, 'y, 'v, unit) prog" where
  "update f s = (case f s of Inl x \<Rightarrow> Done s (Inl x) | Inr s' \<Rightarrow> Done s' (Inr ()))"

definition suspend :: "'y \<Rightarrow> ('s, 'y, 'v, 'v) prog" where
  "suspend y s = Suspend s y (\<lambda>v s'. Done s' (Inr v))"

primrec bind_proc ::
  "('s, 'y, 'v, 'a) proc \<Rightarrow> ('a \<Rightarrow> ('s, 'y, 'v, 'b) prog) \<Rightarrow> ('s, 'y, 'v, 'b) proc" where
  "bind_proc (Done s r) f = (case r of Inl x \<Rightarrow> Done s (Inl x) | Inr a \<Rightarrow> f a s)"
| "bind_proc (Suspend s y k) f = Suspend s y (\<lambda>v s'. bind_proc (k v s') f)"

definition bindP ::
  "('s, 'y, 'v, 'a) prog \<Rightarrow> ('a \<Rightarrow> ('s, 'y, 'v, 'b) prog) \<Rightarrow> ('s, 'y, 'v, 'b) prog" where
  "bindP m f s = bind_proc (m s) f"

definition thenP ::
  "('s, 'y, 'v, unit) prog \<Rightarrow> ('s, 'y, 'v, 'b) prog \<Rightarrow> ('s, 'y, 'v, 'b) prog" where
  "thenP m n = bindP m (\<lambda>_. n)"

text \<open>
  \<^verbatim>\<open>try { m } catch (...)\<close>: the handler receives the exceptions it selects; process exit
  and undefined behaviour pass through every handler.
\<close>

primrec catch_proc ::
  "('s, 'y, 'v, 'a) proc \<Rightarrow> (handler_exn \<Rightarrow> ('s, 'y, 'v, 'a) prog) \<Rightarrow> ('s, 'y, 'v, 'a) proc" where
  "catch_proc (Done s r) h =
     (case r of Inl x \<Rightarrow> if is_exception x then h x s else Done s (Inl x) | Inr a \<Rightarrow> Done s (Inr a))"
| "catch_proc (Suspend s y k) h = Suspend s y (\<lambda>v s'. catch_proc (k v s') h)"

definition try_catch ::
  "('s, 'y, 'v, 'a) prog \<Rightarrow> (handler_exn \<Rightarrow> ('s, 'y, 'v, 'a) prog) \<Rightarrow> ('s, 'y, 'v, 'a) prog" where
  "try_catch m h s = catch_proc (m s) h"

text \<open>
  Scope exit: the destructor \<open>d\<close> runs when the scope is left, normally or by an exception.
  A destructor that itself fails (undefined behaviour) replaces the outcome.
\<close>

definition run_destructor :: "('s \<Rightarrow> 's hres) \<Rightarrow> 's \<Rightarrow> 'a hres \<Rightarrow> ('s, 'y, 'v, 'a) proc" where
  "run_destructor d s r =
     (case r of Inl x \<Rightarrow> if is_exception x
                        then (case d s of Inl z \<Rightarrow> Done s (Inl z) | Inr s' \<Rightarrow> Done s' r)
                        else Done s r
      | Inr a \<Rightarrow> (case d s of Inl z \<Rightarrow> Done s (Inl z) | Inr s' \<Rightarrow> Done s' r))"

primrec scope_proc :: "('s, 'y, 'v, 'a) proc \<Rightarrow> ('s \<Rightarrow> 's hres) \<Rightarrow> ('s, 'y, 'v, 'a) proc" where
  "scope_proc (Done s r) d = run_destructor d s r"
| "scope_proc (Suspend s y k) d = Suspend s y (\<lambda>v s'. scope_proc (k v s') d)"

definition on_scope_exit :: "('s \<Rightarrow> 's hres) \<Rightarrow> ('s, 'y, 'v, 'a) prog \<Rightarrow> ('s, 'y, 'v, 'a) prog" where
  "on_scope_exit d m s = scope_proc (m s) d"

text \<open>A loop over a container, with a body that may suspend.\<close>

primrec for_each :: "('x \<Rightarrow> 't \<Rightarrow> ('s, 'y, 'v, 't) prog) \<Rightarrow> 'x list \<Rightarrow> 't \<Rightarrow> ('s, 'y, 'v, 't) prog" where
  "for_each body [] t = ret t"
| "for_each body (x # xs) t = bindP (body x t) (for_each body xs)"

section \<open>Laws\<close>

lemma proc_induct [case_names Done Suspend]:
  assumes "\<And>s r. P (Done s r)" and "\<And>s y k. (\<And>v s'. P (k v s')) \<Longrightarrow> P (Suspend s y k)"
  shows "P p"
  by (induction p) (auto intro: assms rangeI)

lemma bind_proc_assoc: "bind_proc (bind_proc p f) g = bind_proc p (\<lambda>a s. bind_proc (f a s) g)"
  by (induction p rule: proc_induct) (simp_all split: sum.split)

lemma bindP_assoc: "bindP (bindP m f) g = bindP m (\<lambda>a. bindP (f a) g)"
  by (rule ext) (simp add: bindP_def bind_proc_assoc bindP_def [abs_def])

lemma bindP_ret [simp]: "bindP (ret a) f = f a"
  by (simp add: bindP_def ret_def fun_eq_iff)

lemma bindP_ret_right [simp]: "bindP m ret = m"
proof -
  have "bind_proc p ret = p" for p :: "('a, 'b, 'c, 'd) proc"
    by (induction p rule: proc_induct) (simp_all add: ret_def split: sum.split)
  then show ?thesis by (simp add: bindP_def fun_eq_iff)
qed

lemma bindP_throw [simp]: "bindP (throw x) f = throw x"
  by (simp add: bindP_def throw_def fun_eq_iff)

section \<open>Total correctness under interference\<close>

text \<open>
  \<open>wp G R Q p s0\<close>: running \<open>p\<close>, whose current uninterrupted segment started in \<open>s0\<close>, every
  segment that stops at a yield point has changed the state only as the guarantee \<open>G\<close> allows
  for that yield point, provided what the resumption delivers and the state changes between
  suspension and resumption are as the rely \<open>R\<close> says; when it ends, \<open>Q\<close> holds of the start of the
  last segment, the outcome and the state. Because processes are well-founded, it ends after
  finitely many resumptions.
\<close>

primrec wp ::
  "('s \<Rightarrow> 'y \<Rightarrow> 's \<Rightarrow> bool) \<Rightarrow> ('y \<Rightarrow> 's \<Rightarrow> 'v \<Rightarrow> 's \<Rightarrow> bool) \<Rightarrow> ('s \<Rightarrow> 'a hres \<Rightarrow> 's \<Rightarrow> bool) \<Rightarrow>
     ('s, 'y, 'v, 'a) proc \<Rightarrow> 's \<Rightarrow> bool" where
  "wp G R Q (Done s r) = (\<lambda>s0. Q s0 r s)"
| "wp G R Q (Suspend s y k) = (\<lambda>s0. G s0 y s \<and> (\<forall>v s'. R y s v s' \<longrightarrow> wp G R Q (k v s') s'))"

lemma wp_conseq:
  assumes "wp G R Q p s0" "\<And>s0 r s. Q s0 r s \<Longrightarrow> Q' s0 r s" "\<And>s0 y s. G s0 y s \<Longrightarrow> G' s0 y s"
    and "\<And>s0 y s v s'. G s0 y s \<Longrightarrow> R' y s v s' \<Longrightarrow> R y s v s'"
  shows "wp G' R' Q' p s0"
  using assms(1) by (induction p arbitrary: s0 rule: proc_induct) (auto simp: assms(2,3) dest: assms(4))

lemma wp_mono:
  assumes "wp G R Q p s0" "\<And>s0 r s. Q s0 r s \<Longrightarrow> Q' s0 r s"
  shows "wp G R Q' p s0"
  using assms(1) by (rule wp_conseq) (simp_all add: assms(2))

lemma wp_bind_proc:
  "wp G R Q (bind_proc p f) s0 =
     wp G R (\<lambda>s1 r s. case r of Inl x \<Rightarrow> Q s1 (Inl x) s | Inr a \<Rightarrow> wp G R Q (f a s) s1) p s0"
proof (induction p arbitrary: s0 rule: proc_induct)
  case (Done s r)
  then show ?case by (cases r) simp_all
qed simp

lemma wp_catch_proc:
  "wp G R Q (catch_proc p h) s0 =
     wp G R (\<lambda>s1 r s. case r of
         Inl x \<Rightarrow> if is_exception x then wp G R Q (h x s) s1 else Q s1 (Inl x) s
       | Inr a \<Rightarrow> Q s1 (Inr a) s) p s0"
proof (induction p arbitrary: s0 rule: proc_induct)
  case (Done s r)
  then show ?case by (cases r) simp_all
qed simp

lemma wp_scope_proc:
  "wp G R Q (scope_proc p d) s0 =
     wp G R (\<lambda>s1 r s. wp G R Q (run_destructor d s r :: ('s, 'y, 'v, 'a) proc) s1) p s0"
  for p :: "('s, 'y, 'v, 'a) proc"
  by (induction p arbitrary: s0 rule: proc_induct) simp_all

named_theorems wp_rules \<open>the weakest precondition of every program constructor\<close>

lemma wp_ret [wp_rules]: "wp G R Q (ret a s) s0 = Q s0 (Inr a) s"
  by (simp add: ret_def)

lemma wp_throw [wp_rules]: "wp G R Q (throw x s) s0 = Q s0 (Inl x) s"
  by (simp add: throw_def)

lemma wp_liftH [wp_rules]: "wp G R Q (liftH r s) s0 = Q s0 r s"
  by (simp add: liftH_def)

lemma wp_gets [wp_rules]: "wp G R Q (gets f s) s0 = Q s0 (f s) s"
  by (simp add: gets_def)

lemma wp_suspend [wp_rules]:
  "wp G R Q (suspend y s) s0 = (G s0 y s \<and> (\<forall>v s'. R y s v s' \<longrightarrow> Q s' (Inr v) s'))"
  by (simp add: suspend_def)

lemma wp_bindP [wp_rules]:
  "wp G R Q (bindP m f s) s0 =
     wp G R (\<lambda>s1 r s. case r of Inl x \<Rightarrow> Q s1 (Inl x) s | Inr a \<Rightarrow> wp G R Q (f a s) s1) (m s) s0"
  by (simp add: bindP_def wp_bind_proc)

lemma wp_try_catch [wp_rules]:
  "wp G R Q (try_catch m h s) s0 =
     wp G R (\<lambda>s1 r s. case r of
         Inl x \<Rightarrow> if is_exception x then wp G R Q (h x s) s1 else Q s1 (Inl x) s
       | Inr a \<Rightarrow> Q s1 (Inr a) s) (m s) s0"
  by (simp add: try_catch_def wp_catch_proc)

lemma wp_update [wp_rules]:
  "wp G R Q (update f s) s0 = (case f s of Inl x \<Rightarrow> Q s0 (Inl x) s | Inr s' \<Rightarrow> Q s0 (Inr ()) s')"
  by (simp add: update_def split: sum.split)

lemma wp_thenP [wp_rules]:
  "wp G R Q (thenP m n s) s0 =
     wp G R (\<lambda>s1 r s. case r of Inl x \<Rightarrow> Q s1 (Inl x) s | Inr a \<Rightarrow> wp G R Q (n s) s1) (m s) s0"
  by (simp add: thenP_def wp_rules)

lemma wp_run_destructor:
  "wp G R Q (run_destructor d s r) s1 =
     (if case r of Inl x \<Rightarrow> is_exception x | Inr _ \<Rightarrow> True
      then (case d s of Inl z \<Rightarrow> Q s1 (Inl z) s | Inr s' \<Rightarrow> Q s1 r s')
      else Q s1 r s)"
  by (simp add: run_destructor_def split: sum.split)

lemma wp_on_scope_exit [wp_rules]:
  "wp G R Q (on_scope_exit d m s) s0 =
     wp G R (\<lambda>s1 r s.
       if case r of Inl x \<Rightarrow> is_exception x | Inr _ \<Rightarrow> True
       then (case d s of Inl z \<Rightarrow> Q s1 (Inl z) s | Inr s' \<Rightarrow> Q s1 r s')
       else Q s1 r s) (m s) s0"
  by (simp add: on_scope_exit_def wp_scope_proc wp_run_destructor)

section \<open>Running a coroutine\<close>

text \<open>
  An environment answers every suspension with a resumption value and a new state. Running
  a process against an environment collects the yield points it stopped at.
\<close>

primrec run_proc :: "('y \<Rightarrow> 's \<Rightarrow> 'v \<times> 's) \<Rightarrow> ('s, 'y, 'v, 'a) proc \<Rightarrow> 'y list \<times> 's \<times> 'a hres" where
  "run_proc env (Done s r) = ([], s, r)"
| "run_proc env (Suspend s y k) =
     (let (v, s') = env y s; (ys, result) = run_proc env (k v s') in (y # ys, result))"

text \<open>What is proved with \<open>wp\<close> holds of every run whose environment respects the rely.\<close>

lemma wp_run_proc:
  assumes "wp G R Q p s0" "\<And>y s. R y s (fst (env y s)) (snd (env y s))"
  shows "\<exists>s1. case run_proc env p of (ys, s, r) \<Rightarrow> Q s1 r s"
  using assms(1)
proof (induction p arbitrary: s0 rule: proc_induct)
  case (Done s r)
  then show ?case by auto
next
  case (Suspend s y k)
  obtain v s' where e: "env y s = (v, s')" by (cases "env y s")
  have "wp G R Q (k v s') s'" using Suspend.prems assms(2) [of y s] e by simp
  then have "\<exists>s1. case run_proc env (k v s') of (ys, s, r) \<Rightarrow> Q s1 r s"
    by (rule Suspend.IH)
  with e show ?case by (auto split: prod.splits)
qed

end
