(* ===== verification/Session_State.thy ===== *)
theory Session_State
  imports Complete_Tree Protobuf_Util Htif Containers Coroutine
begin

text \<open>
  The state of the server manager: the structures of \<^verbatim>\<open>src/src/server-manager.cpp\<close> from
  \<open>memory_range_description_type\<close> to \<open>handler_context\<close>, the messages handlers exchange with
  clients and with the remote machine server, and access to sessions and epochs through the
  references the handlers keep across yields.
\<close>

section \<open>Inputs, outputs and epochs\<close>

text \<open>A coroutine pointer; the dispatcher numbers the coroutines.\<close>

type_synonym coroutine = nat

record input_type =
  in_payload :: bytes
  in_metadata :: input_metadata_type

record keccak_type =
  keccak :: hash_type
  keccak_in_hashes :: merkle_tree_proof

record voucher_type =
  v_destination :: bytes
  v_payload :: bytes
  v_hash :: "keccak_type option"

record notice_type =
  n_payload :: bytes
  n_hash :: "keccak_type option"

record report_type =
  r_payload :: bytes

datatype completion_status =
    accepted | rejected | exception | machine_halted | cycle_limit_exceeded | time_limit_exceeded
  | payload_length_limit_exceeded

record accepted_data_type =
  voucher_hashes_in_machine :: merkle_tree_proof
  vouchers :: "voucher_type list"
  notice_hashes_in_machine :: merkle_tree_proof
  notices :: "notice_type list"

text \<open>\<^verbatim>\<open>std::variant<accepted_data_type, exception_data_type>\<close>\<close>

datatype processed_data = Accepted_data accepted_data_type | Exception_data bytes

record processed_input_type =
  input_index :: u64
  epoch_input_index :: u64
  pi_machine_hash :: hash_type
  voucher_hashes_in_epoch :: merkle_tree_proof
  notice_hashes_in_epoch :: merkle_tree_proof
  pi_status :: completion_status
  processed :: processed_data
  pi_reports :: "report_type list"

record query_type =
  q_payload :: bytes
  q_status :: completion_status
  q_coroutine :: "coroutine option"
  q_processed_input_count :: u64
  q_exception_data :: "bytes option"
  q_reports :: "report_type list"

definition new_query :: "bytes \<Rightarrow> query_type" where
  "new_query payload = \<lparr>q_payload = payload, q_status = accepted, q_coroutine = None,
     q_processed_input_count = 0, q_exception_data = None, q_reports = []\<rparr>"

datatype epoch_state = epoch_active | epoch_finished

record epoch_type =
  epoch_index :: u64
  state :: epoch_state
  most_recent_machine_hash :: hash_type
  vouchers_tree :: complete_merkle_tree
  notices_tree :: complete_merkle_tree
  processed_inputs :: "processed_input_type list"
  pending_inputs :: "input_type list"
  pending_query :: "query_type option"

text \<open>\<^verbatim>\<open>epoch_type e;\<close>: the default member initialisers, which construct both trees.\<close>

definition default_epoch :: "digest \<Rightarrow> epoch_type res" where
  "default_epoch K =
     bindR (new_complete_merkle_tree K LOG2_ROOT_SIZE LOG2_KECCAK_SIZE LOG2_KECCAK_SIZE) (\<lambda>vt.
     bindR (new_complete_merkle_tree K LOG2_ROOT_SIZE LOG2_KECCAK_SIZE LOG2_KECCAK_SIZE) (\<lambda>nt.
     Inr \<lparr>epoch_index = 0, state = epoch_active, most_recent_machine_hash = zero_hash,
          vouchers_tree = vt, notices_tree = nt, processed_inputs = [], pending_inputs = [],
          pending_query = None\<rparr>))"

section \<open>Sessions\<close>

record deadline_config_type =
  dl_checkin :: u64
  dl_advance_state :: u64
  dl_advance_state_increment :: u64
  dl_inspect_state :: u64
  dl_inspect_state_increment :: u64
  dl_machine :: u64
  dl_store :: u64
  dl_fast :: u64

record memory_ranges_type =
  rx_buffer :: memory_range_description_type
  tx_buffer :: memory_range_description_type
  input_metadata :: memory_range_description_type
  voucher_hashes :: memory_range_description_type
  notice_hashes :: memory_range_description_type

definition empty_ranges :: memory_ranges_type where
  "empty_ranges = \<lparr>rx_buffer = empty_description, tx_buffer = empty_description,
     input_metadata = empty_description, voucher_hashes = empty_description,
     notice_hashes = empty_description\<rparr>"

record cycles_config_type =
  max_advance_state :: u64
  advance_state_increment :: u64
  max_inspect_state :: u64
  inspect_state_increment :: u64

text \<open>
  The stub is the address it is connected to, or null. The object number identifies the
  session object (see \<open>session_ref\<close>).
\<close>

record session_type =
  session_object :: nat
  session_id :: id_type
  session_lock :: bool
  session_lock_reason :: string
  processing_lock :: bool
  tainted :: bool
  taint_status :: grpc_status
  server_stub :: "string option"
  current_mcycle :: u64
  active_epoch_index :: u64
  processed_input_count :: u64
  max_input_payload_length :: u64
  memory_range :: memory_ranges_type
  epochs :: "(u64, epoch_type) std_map"
  server_deadline :: deadline_config_type
  server_cycles :: cycles_config_type
  session_server_address :: string

section \<open>The handler context\<close>

record checkin_context =
  cc_coroutine :: coroutine
  cc_status :: "bool option"

datatype serving_status = SERVING | NOT_SERVING | SERVICE_UNKNOWN

text \<open>
  \<open>completion_queue\<close> holds the coroutines scheduled by \<open>enqueue_completion_queue\<close> and not yet
  returned; \<open>next_object\<close> is the number of the next session object; \<open>terminated\<close> lists the
  sessions whose process group was terminated.
\<close>

record handler_context =
  remote_cartesi_machine_path :: string
  manager_address :: string
  machine_server_address :: string
  sessions :: "(id_type, session_type) unordered_map"
  sessions_waiting_checkin :: "(id_type, checkin_context) unordered_map"
  service_health :: "(string, serving_status) unordered_map"
  completion_queue :: "coroutine list"
  next_object :: nat
  terminated :: "id_type list"

section \<open>Messages\<close>

datatype csr = MCYCLE | HTIF_FROMHOST

record rollup_config =
  cfg_rx_buffer :: memory_range_config
  cfg_tx_buffer :: memory_range_config
  cfg_input_metadata :: memory_range_config
  cfg_voucher_hashes :: memory_range_config
  cfg_notice_hashes :: memory_range_config

text \<open>The parts of a \<open>MachineConfig\<close> message the manager looks at.\<close>

record machine_config =
  cfg_htif :: htif_config
  cfg_rollup :: "rollup_config option"

datatype machine_request =
    M_GetVersion
  | M_Machine string
  | M_GetInitialConfig
  | M_ReadCsr csr
  | M_WriteCsr csr u64
  | M_Run u64
  | M_GetRootHash
  | M_ReplaceMemoryRange memory_range_config
  | M_WriteMemory u64 bytes
  | M_ReadMemory u64 u64
  | M_GetProof u64 u64
  | M_Snapshot
  | M_Rollback
  | M_ResetIflagsY
  | M_Store string
  | M_Shutdown

record run_response =
  run_mcycle :: u64
  run_tohost :: u64
  iflags_h :: bool
  iflags_x :: bool
  iflags_y :: bool

text \<open>
  What a resumption delivers. For a call to the machine server: the status and the response,
  of which the caller reads the field of its own response message. For the other yield points:
  the \<open>ok\<close> flag of the queue, the time in nanoseconds, the outcome of spawning a process.
\<close>

record wake =
  wake_ok :: bool
  call_status :: grpc_status
  reply_version :: "32 word \<times> 32 word"
  reply_config :: machine_config
  reply_csr :: u64
  reply_run :: run_response
  reply_hash :: proto_hash
  reply_data :: bytes
  reply_proof :: proto_merkle_tree_proof
  clock_now :: int
  spawn_error :: "string option"
  stub_created :: bool

datatype output_enum = VOUCHER | NOTICE

record output_validity_proof =
  input_index_within_epoch :: u64
  output_index_within_input :: u64
  output_hashes_root_hash :: proto_hash
  vouchers_epoch_root_hash :: proto_hash
  notices_epoch_root_hash :: proto_hash
  machine_state_hash :: proto_hash
  output_hash_in_output_hashes_siblings :: "proto_hash list"
  output_hashes_in_epoch_siblings :: "proto_hash list"

record output_proof =
  op_input_index :: u64
  op_output_index :: u64
  op_output_enum :: output_enum
  op_context :: bytes
  op_validity :: output_validity_proof

record finish_epoch_response =
  fe_machine_hash :: proto_hash
  fe_vouchers_epoch_root_hash :: proto_hash
  fe_notices_epoch_root_hash :: proto_hash
  fe_proofs :: "output_proof list"

record proto_voucher =
  pv_destination :: bytes
  pv_payload :: bytes

record proto_accepted_data =
  pa_vouchers :: "proto_voucher list"
  pa_notices :: "bytes list"

record proto_processed_input =
  ppi_input_index :: u64
  ppi_reports :: "bytes list"
  ppi_status :: completion_status
  ppi_accepted_data :: "proto_accepted_data option"
  ppi_exception_data :: "bytes option"

record session_status_response =
  ss_session_id :: id_type
  ss_active_epoch_index :: u64
  ss_epoch_index :: "u64 list"
  ss_taint_status :: "grpc_status option"

record epoch_status_response =
  es_session_id :: id_type
  es_epoch_index :: u64
  es_state :: epoch_state
  es_processed_inputs :: "proto_processed_input list"
  es_pending_input_count :: u64
  es_taint_status :: "grpc_status option"

record inspect_state_response =
  is_session_id :: id_type
  is_active_epoch_index :: u64
  is_processed_input_count :: u64
  is_reports :: "bytes list"
  is_status :: completion_status
  is_exception_data :: "bytes option"

record version_response =
  ver_major :: nat
  ver_minor :: nat
  ver_patch :: nat
  ver_pre_release :: string
  ver_build :: string

datatype rpc_response =
    Void_response
  | Version_response version_response
  | Status_response "id_type list"
  | Session_status session_status_response
  | Epoch_status epoch_status_response
  | Finish_epoch finish_epoch_response
  | Start_session machine_config
  | Inspect_state inspect_state_response
  | Health_check serving_status

text \<open>
  The yield points. The first group suspends the handler until the completion queue returns
  it. The second group are calls outside the model that return before any other handler runs:
  reading the clock, spawning a process, creating a stub, the blocking \<open>Shutdown\<close> call,
  starting the deadline coroutine of a check-in, cancelling its alarm, and running another
  coroutine up to its next yield.
\<close>

datatype yield_point =
    Machine_call string machine_request u64
  | Finish rpc_response
  | Finish_with_error grpc_status
  | Wait_checkin id_type
  | Wait_alarm u64
  | Wait_resume
  | Clock_now
  | Spawn_process string
  | Create_stub string
  | Shutdown_sync string u64
  | Start_deadline id_type u64
  | Cancel_alarm id_type
  | Resume_coroutine coroutine

type_synonym 'a handler = "(handler_context, yield_point, wake, 'a) prog"

section \<open>References\<close>

definition dangling :: handler_exn where
  "dangling = Std_exception (Undefined_behaviour ''dangling reference'')"

definition deref :: "session_ref \<Rightarrow> handler_context \<Rightarrow> session_type hres" where
  "deref r hctx =
     (case um_find (sessions hctx) (ref_id r) of
        Some s \<Rightarrow> if session_object s = ref_object r then Inr s else Inl dangling
      | None \<Rightarrow> Inl dangling)"

definition assign_session :: "session_ref \<Rightarrow> session_type \<Rightarrow> handler_context \<Rightarrow> handler_context" where
  "assign_session r s hctx = hctx\<lparr>sessions := um_assign (ref_id r) s (sessions hctx)\<rparr>"

text \<open>A member update through a reference.\<close>

definition write_session ::
  "session_ref \<Rightarrow> (session_type \<Rightarrow> session_type) \<Rightarrow> handler_context \<Rightarrow> handler_context hres" where
  "write_session r f hctx =
     (case deref r hctx of Inl x \<Rightarrow> Inl x | Inr s \<Rightarrow> Inr (assign_session r (f s) hctx))"

text \<open>A reference to an epoch of a session: nodes of a \<^verbatim>\<open>std::map\<close> stay in place until erased.\<close>

definition deref_epoch :: "session_ref \<Rightarrow> u64 \<Rightarrow> handler_context \<Rightarrow> epoch_type hres" where
  "deref_epoch r i hctx =
     (case deref r hctx of
        Inl x \<Rightarrow> Inl x
      | Inr s \<Rightarrow> (case sm_find (epochs s) i of Some e \<Rightarrow> Inr e | None \<Rightarrow> Inl dangling))"

definition write_epoch ::
  "session_ref \<Rightarrow> u64 \<Rightarrow> (epoch_type \<Rightarrow> epoch_type) \<Rightarrow> handler_context \<Rightarrow> handler_context hres" where
  "write_epoch r i f hctx =
     (case deref_epoch r i hctx of
        Inl x \<Rightarrow> Inl x
      | Inr e \<Rightarrow> write_session r (\<lambda>s. s\<lparr>epochs := sm_assign i (f e) (epochs s)\<rparr>) hctx)"

text \<open>\<^verbatim>\<open>session.epochs[i]\<close>: inserts a default epoch when there is none.\<close>

definition epoch_at :: "digest \<Rightarrow> session_ref \<Rightarrow> u64 \<Rightarrow> unit handler" where
  "epoch_at K r i =
     update (\<lambda>hctx. case deref r hctx of
        Inl x \<Rightarrow> Inl x
      | Inr s \<Rightarrow> (case sm_find (epochs s) i of
           Some e \<Rightarrow> Inr hctx
         | None \<Rightarrow> (case default_epoch K of
              Inl x \<Rightarrow> Inl (Std_exception x)
            | Inr e \<Rightarrow> write_session r (\<lambda>s. s\<lparr>epochs := sm_assign i e (epochs s)\<rparr>) hctx)))"

definition get_session :: "session_ref \<Rightarrow> session_type handler" where
  "get_session r = gets (deref r)"

definition set_session :: "session_ref \<Rightarrow> (session_type \<Rightarrow> session_type) \<Rightarrow> unit handler" where
  "set_session r f = update (write_session r f)"

definition get_epoch :: "session_ref \<Rightarrow> u64 \<Rightarrow> epoch_type handler" where
  "get_epoch r i = gets (deref_epoch r i)"

definition set_epoch :: "session_ref \<Rightarrow> u64 \<Rightarrow> (epoch_type \<Rightarrow> epoch_type) \<Rightarrow> unit handler" where
  "set_epoch r i f = update (write_epoch r i f)"

section \<open>Facts about references\<close>

lemma default_epoch_Inr:
  "\<exists>vt nt. default_epoch K = Inr \<lparr>epoch_index = 0, state = epoch_active,
      most_recent_machine_hash = zero_hash, vouchers_tree = vt, notices_tree = nt,
      processed_inputs = [], pending_inputs = [], pending_query = None\<rparr> \<and>
    complete_config K LOG2_ROOT_SIZE LOG2_KECCAK_SIZE LOG2_KECCAK_SIZE [] vt \<and>
    complete_config K LOG2_ROOT_SIZE LOG2_KECCAK_SIZE LOG2_KECCAK_SIZE [] nt"
proof -
  obtain t where t: "new_complete_merkle_tree K LOG2_ROOT_SIZE LOG2_KECCAK_SIZE LOG2_KECCAK_SIZE = Inr t"
    using new_pristine_merkle_tree_Inr [of LOG2_KECCAK_SIZE LOG2_ROOT_SIZE K]
    by (auto simp: new_complete_merkle_tree_def check_log2_sizes_def LOG2_ROOT_SIZE_def LOG2_KECCAK_SIZE_def)
  then show ?thesis
    using new_complete_config [OF t] by (simp add: default_epoch_def)
qed

lemma deref_Inr_iff:
  "deref r hctx = Inr s \<longleftrightarrow> um_find (sessions hctx) (ref_id r) = Some s \<and> session_object s = ref_object r"
  by (auto simp: deref_def dangling_def split: option.splits)

lemma deref_assign_session [simp]:
  "session_object s = ref_object r \<Longrightarrow> deref r (assign_session r s hctx) = Inr s"
  by (simp add: deref_def assign_session_def)

lemma write_session_Inr:
  "deref r hctx = Inr s \<Longrightarrow> write_session r f hctx = Inr (assign_session r (f s) hctx)"
  by (simp add: write_session_def)

lemma sessions_assign_session [simp]:
  "um_find (sessions (assign_session r s hctx)) j = (if j = ref_id r then Some s else um_find (sessions hctx) j)"
  by (simp add: assign_session_def)

lemma assign_session_twice [simp]: "assign_session r s' (assign_session r s hctx) = assign_session r s' hctx"
  by (simp add: assign_session_def)

lemma assign_session_same: "deref r hctx = Inr s \<Longrightarrow> assign_session r s hctx = hctx"
  by (simp add: assign_session_def deref_Inr_iff um_assign_triv)

lemma deref_epoch_Inr_iff:
  "deref_epoch r i hctx = Inr e \<longleftrightarrow> (\<exists>s. deref r hctx = Inr s \<and> sm_find (epochs s) i = Some e)"
  by (auto simp: deref_epoch_def dangling_def split: sum.splits option.splits)

end
