(* ===== verification/Machine_Client.thy ===== *)
theory Machine_Client
  imports Session_State
begin

text \<open>
  The functions of \<^verbatim>\<open>src/src/server-manager.cpp\<close> that talk to the remote machine server.
  Each sends one request, yields until the reply arrives, checks the status and decodes the
  reply. The replies are arbitrary: nothing is assumed of the machine server.
\<close>

unbundle bit_operations_syntax

text \<open>The fields of \<open>async_context\<close> that carry data; the others are how the model suspends.\<close>

record async_context =
  actx_session :: session_ref
  actx_self :: coroutine

section \<open>Calls and their status\<close>

text \<open>A call through the session's stub with the given deadline in milliseconds.\<close>

definition machine_call ::
  "async_context \<Rightarrow> (session_type \<Rightarrow> u64) \<Rightarrow> (session_type \<Rightarrow> machine_request) \<Rightarrow> wake handler" where
  "machine_call actx deadline request =
     bindP (get_session (actx_session actx)) (\<lambda>s.
       case server_stub s of
         None \<Rightarrow> throw (Std_exception (Undefined_behaviour ''null stub''))
       | Some address \<Rightarrow> suspend (Machine_call address (request s) (deadline s)))"

abbreviation fast_deadline :: "session_type \<Rightarrow> u64" where
  "fast_deadline s \<equiv> dl_fast (server_deadline s)"

definition contact_error :: "grpc_status \<Rightarrow> string \<Rightarrow> grpc_status" where
  "contact_error status deadline =
     (if error_code status = DEADLINE_EXCEEDED
      then grpc_error (error_code status)
             (''error contacting remote machine server: '' @ deadline @ '' deadline exceeded'')
      else grpc_error (error_code status)
             (''error contacting remote machine server: '' @ error_message status))"

definition CHECK_STATUS_OR_FAIL :: "grpc_status \<Rightarrow> string \<Rightarrow> unit handler" where
  "CHECK_STATUS_OR_FAIL status deadline =
     (if \<not> is_ok status then throw (Finish_error_yield_none (contact_error status deadline)) else ret ())"

definition CHECK_STATUS_OR_TAINT :: "grpc_status \<Rightarrow> session_ref \<Rightarrow> string \<Rightarrow> unit handler" where
  "CHECK_STATUS_OR_TAINT status session deadline =
     (if \<not> is_ok status then throw (Taint_session session (contact_error status deadline)) else ret ())"

definition taint :: "async_context \<Rightarrow> status_code \<Rightarrow> string \<Rightarrow> 'a handler" where
  "taint actx code message = throw (Taint_session (actx_session actx) (grpc_error code message))"

definition finish_error :: "status_code \<Rightarrow> string \<Rightarrow> 'a handler" where
  "finish_error code message = throw (Finish_error_yield_none (grpc_error code message))"

section \<open>Session start and end\<close>

definition store :: "async_context \<Rightarrow> string \<Rightarrow> unit handler" where
  "store actx directory =
     bindP (machine_call actx (\<lambda>s. dl_store (server_deadline s)) (\<lambda>_. M_Store directory)) (\<lambda>w.
       CHECK_STATUS_OR_FAIL (call_status w) ''store'')"

definition shutdown_server :: "async_context \<Rightarrow> unit handler" where
  "shutdown_server actx =
     bindP (machine_call actx fast_deadline (\<lambda>_. M_Shutdown)) (\<lambda>w.
       CHECK_STATUS_OR_FAIL (call_status w) ''fast'')"

definition machine_version_major :: "32 word" where "machine_version_major = 0"
definition machine_version_minor :: "32 word" where "machine_version_minor = 7"

definition check_server_version :: "async_context \<Rightarrow> unit handler" where
  "check_server_version actx =
     bindP (machine_call actx fast_deadline (\<lambda>_. M_GetVersion)) (\<lambda>w.
     thenP (CHECK_STATUS_OR_FAIL (call_status w) ''fast'')
       (if fst (reply_version w) \<noteq> machine_version_major \<or> snd (reply_version w) \<noteq> machine_version_minor
        then finish_error FAILED_PRECONDITION ''server manager is incompatible with remote machine server''
        else ret ()))"

definition check_server_machine :: "async_context \<Rightarrow> string \<Rightarrow> unit handler" where
  "check_server_machine actx directory =
     bindP (machine_call actx (\<lambda>s. dl_machine (server_deadline s)) (\<lambda>_. M_Machine directory)) (\<lambda>w.
       CHECK_STATUS_OR_FAIL (call_status w) ''machine (instantiation)'')"

definition get_initial_config :: "async_context \<Rightarrow> machine_config handler" where
  "get_initial_config actx =
     bindP (machine_call actx fast_deadline (\<lambda>_. M_GetInitialConfig)) (\<lambda>w.
     thenP (CHECK_STATUS_OR_FAIL (call_status w) ''fast'')
       (ret (reply_config w)))"

definition check_server_stub :: "session_ref \<Rightarrow> unit handler" where
  "check_server_stub r =
     bindP (get_session r) (\<lambda>s.
     bindP (suspend (Create_stub (session_server_address s))) (\<lambda>w.
     thenP (set_session r (\<lambda>s. s\<lparr>server_stub := (if stub_created w then Some (session_server_address s) else None)\<rparr>))
     (bindP (get_session r) (\<lambda>s.
       if server_stub s = None
       then finish_error RESOURCE_EXHAUSTED ''unable to create machine stub for session''
       else ret ()))))"

section \<open>Registers\<close>

definition check_htif_yield_manual :: "async_context \<Rightarrow> string \<Rightarrow> u64 \<Rightarrow> unit handler" where
  "check_htif_yield_manual actx regname value =
     (let dev = htif_dev_field value in
      if dev \<noteq> HTIF_DEVICE_YIELD
      then taint actx INTERNAL (''invalid dev field in '' @ regname @ '' (expected '' @
             u64_to_string HTIF_DEVICE_YIELD @ '', got '' @ u64_to_string dev @ '')'')
      else
        let cmd = htif_cmd_field value in
        if cmd \<noteq> HTIF_YIELD_MANUAL
        then taint actx INTERNAL (''invalid cmd field in '' @ regname @ '' (expected '' @
               u64_to_string HTIF_YIELD_MANUAL @ '', got '' @ u64_to_string cmd @ '')'')
        else ret ())"

definition check_yield_reason_accepted :: "u64 \<Rightarrow> unit handler" where
  "check_yield_reason_accepted value =
     (let data = yield_reason_of (htif_data_field value) in
      if data \<noteq> HTIF_YIELD_REASON_RX_ACCEPTED
      then finish_error INVALID_ARGUMENT (''invalid data field in htif.tohost (expected '' @
             u64_to_string HTIF_YIELD_REASON_RX_ACCEPTED @ '', got '' @ u64_to_string data @ '')'')
      else ret ())"

definition get_current_mcycle :: "async_context \<Rightarrow> u64 handler" where
  "get_current_mcycle actx =
     bindP (machine_call actx fast_deadline (\<lambda>_. M_ReadCsr MCYCLE)) (\<lambda>w.
     thenP (CHECK_STATUS_OR_FAIL (call_status w) ''fast'')
       (ret (reply_csr w)))"

definition check_is_yielded :: "async_context \<Rightarrow> u64 handler" where
  "check_is_yielded actx =
     bindP (get_current_mcycle actx) (\<lambda>current_mcycle.
     bindP (machine_call actx fast_deadline (\<lambda>_. M_Run current_mcycle)) (\<lambda>w.
     thenP (CHECK_STATUS_OR_FAIL (call_status w) ''fast'')
     (let run_response = reply_run w in
      if \<not> iflags_y run_response then finish_error INVALID_ARGUMENT ''expected manual yield''
      else if current_mcycle \<noteq> run_mcycle run_response
      then finish_error INTERNAL ''mcycle shouldn't have changed''
      else
        thenP (check_htif_yield_manual actx ''htif.tohost'' (run_tohost run_response))
        (thenP (check_yield_reason_accepted (run_tohost run_response))
          (ret (run_mcycle run_response))))))"

definition get_root_hash :: "async_context \<Rightarrow> hash_type handler" where
  "get_root_hash actx =
     bindP (machine_call actx (\<lambda>s. dl_machine (server_deadline s)) (\<lambda>_. M_GetRootHash)) (\<lambda>w.
     thenP (CHECK_STATUS_OR_TAINT (call_status w) (actx_session actx) ''machine (root hash)'')
       (liftH (lift_res (get_proto_hash (reply_hash w)))))"

definition snapshot :: "async_context \<Rightarrow> unit handler" where
  "snapshot actx =
     bindP (machine_call actx fast_deadline (\<lambda>_. M_Snapshot)) (\<lambda>w.
       CHECK_STATUS_OR_TAINT (call_status w) (actx_session actx) ''fast'')"

definition rollback :: "async_context \<Rightarrow> unit handler" where
  "rollback actx =
     bindP (machine_call actx fast_deadline (\<lambda>_. M_Rollback)) (\<lambda>w.
       CHECK_STATUS_OR_TAINT (call_status w) (actx_session actx) ''fast'')"

definition reset_iflags_y :: "async_context \<Rightarrow> unit handler" where
  "reset_iflags_y actx =
     bindP (machine_call actx fast_deadline (\<lambda>_. M_ResetIflagsY)) (\<lambda>w.
       CHECK_STATUS_OR_TAINT (call_status w) (actx_session actx) ''fast'')"

definition get_htif_fromhost :: "async_context \<Rightarrow> u64 handler" where
  "get_htif_fromhost actx =
     bindP (machine_call actx fast_deadline (\<lambda>_. M_ReadCsr HTIF_FROMHOST)) (\<lambda>w.
     thenP (CHECK_STATUS_OR_TAINT (call_status w) (actx_session actx) ''fast'')
       (ret (reply_csr w)))"

definition set_htif_fromhost :: "async_context \<Rightarrow> u64 \<Rightarrow> unit handler" where
  "set_htif_fromhost actx value =
     bindP (machine_call actx fast_deadline (\<lambda>_. M_WriteCsr HTIF_FROMHOST value)) (\<lambda>w.
       CHECK_STATUS_OR_TAINT (call_status w) (actx_session actx) ''fast'')"

definition set_htif_yield_ack_data :: "async_context \<Rightarrow> u64 \<Rightarrow> unit handler" where
  "set_htif_yield_ack_data actx reqid =
     bindP (get_htif_fromhost actx) (\<lambda>old_value.
     thenP (check_htif_yield_manual actx ''htif.fromhost'' old_value)
       (set_htif_fromhost actx (htif_replace_data_field old_value reqid)))"

definition check_htif_yield_ack_data :: "async_context \<Rightarrow> u64 \<Rightarrow> unit handler" where
  "check_htif_yield_ack_data actx reqid =
     bindP (get_htif_fromhost actx) (\<lambda>value.
     thenP (check_htif_yield_manual actx ''htif.fromhost'' value)
     (let data = htif_data_field value in
      if data \<noteq> reqid
      then taint actx INTERNAL (''invalid data field in htif.fromhost (expected '' @
             u64_to_string reqid @ '', got '' @ u64_to_string data @ '')'')
      else ret ()))"

section \<open>Memory ranges\<close>

definition replace_memory_range :: "async_context \<Rightarrow> (memory_ranges_type \<Rightarrow> memory_range_description_type) \<Rightarrow> unit handler" where
  "replace_memory_range actx rng =
     bindP (machine_call actx fast_deadline (\<lambda>s. M_ReplaceMemoryRange (desc_config (rng (memory_range s))))) (\<lambda>w.
       CHECK_STATUS_OR_TAINT (call_status w) (actx_session actx) ''fast'')"

definition clear_memory_ranges :: "async_context \<Rightarrow> unit handler" where
  "clear_memory_ranges actx =
     for_each (\<lambda>rng _. replace_memory_range actx rng)
       [rx_buffer, input_metadata, voucher_hashes, notice_hashes] ()"

definition clear_rx_buffer :: "async_context \<Rightarrow> unit handler" where
  "clear_rx_buffer actx = replace_memory_range actx rx_buffer"

definition write_memory_range ::
  "async_context \<Rightarrow> bytes \<Rightarrow> (memory_ranges_type \<Rightarrow> memory_range_description_type) \<Rightarrow> unit handler" where
  "write_memory_range actx data rng =
     bindP (machine_call actx fast_deadline
              (\<lambda>s. M_WriteMemory (cfg_start (desc_config (rng (memory_range s)))) data)) (\<lambda>w.
       CHECK_STATUS_OR_TAINT (call_status w) (actx_session actx) ''fast'')"

definition write_evm_abi_string ::
  "async_context \<Rightarrow> bytes \<Rightarrow> (memory_ranges_type \<Rightarrow> memory_range_description_type) \<Rightarrow> unit handler" where
  "write_evm_abi_string actx payload rng =
     bindP (machine_call actx fast_deadline
              (\<lambda>s. M_WriteMemory (cfg_start (desc_config (rng (memory_range s)))) (evm_abi_string payload))) (\<lambda>w.
       CHECK_STATUS_OR_TAINT (call_status w) (actx_session actx) ''fast'')"

text \<open>A read of \<open>length\<close> bytes and the check of the number of bytes returned.\<close>

definition read_memory :: "async_context \<Rightarrow> (session_type \<Rightarrow> u64) \<Rightarrow> (session_type \<Rightarrow> u64) \<Rightarrow> bytes handler" where
  "read_memory actx address len =
     bindP (bindP (get_session (actx_session actx)) (\<lambda>s. ret (len s))) (\<lambda>n.
     bindP (machine_call actx fast_deadline (\<lambda>s. M_ReadMemory (address s) n)) (\<lambda>w.
     thenP (CHECK_STATUS_OR_TAINT (call_status w) (actx_session actx) ''fast'')
     (if length (reply_data w) \<noteq> unat n
      then taint actx INTERNAL ''read returned wrong number of bytes!''
      else ret (reply_data w))))"

definition read_memory_range ::
  "async_context \<Rightarrow> (memory_ranges_type \<Rightarrow> memory_range_description_type) \<Rightarrow> bytes handler" where
  "read_memory_range actx rng =
     read_memory actx (\<lambda>s. cfg_start (desc_config (rng (memory_range s))))
       (\<lambda>s. cfg_length (desc_config (rng (memory_range s))))"

abbreviation tx_start :: "session_type \<Rightarrow> u64" where
  "tx_start s \<equiv> cfg_start (desc_config (tx_buffer (memory_range s)))"

abbreviation tx_length :: "session_type \<Rightarrow> u64" where
  "tx_length s \<equiv> desc_length (tx_buffer (memory_range s))"

definition read_voucher_address_and_payload_data_length :: "async_context \<Rightarrow> (bytes \<times> u64) handler" where
  "read_voucher_address_and_payload_data_length actx =
     bindP (read_memory actx tx_start (\<lambda>_. of_nat VOUCHER_HEADER_LENGTH)) (\<lambda>data.
     bindP (liftH (get_payload_length (actx_session actx)
              (take EVM_ABI_LENGTH_LENGTH (drop (EVM_ABI_ADDRESS_LENGTH + EVM_ABI_OFFSET_LENGTH) data))))
       (\<lambda>payload_data_length.
     bindP (liftH (get_evm_address (actx_session actx)
              (take EVM_ADDRESS_LENGTH (drop (EVM_ABI_ADDRESS_LENGTH - EVM_ADDRESS_LENGTH) data))))
       (\<lambda>address. ret (address, payload_data_length))))"

text \<open>The bound is computed in 64-bit arithmetic: the subtraction wraps for a short buffer.\<close>

definition read_voucher_payload_data :: "async_context \<Rightarrow> u64 \<Rightarrow> bytes handler" where
  "read_voucher_payload_data actx payload_data_length =
     (let payload_data_offset = of_nat VOUCHER_HEADER_LENGTH in
      bindP (get_session (actx_session actx)) (\<lambda>s.
      if payload_data_length > tx_length s - payload_data_offset
      then taint actx OUT_OF_RANGE ''voucher payload length is out of bounds''
      else read_memory actx (\<lambda>s. tx_start s + payload_data_offset) (\<lambda>_. payload_data_length)))"

definition read_tx_payload_data_length :: "async_context \<Rightarrow> u64 handler" where
  "read_tx_payload_data_length actx =
     bindP (read_memory actx tx_start (\<lambda>_. of_nat EVM_ABI_STRING_HEADER_LENGTH)) (\<lambda>data.
       liftH (get_payload_length (actx_session actx)
         (take EVM_ABI_LENGTH_LENGTH (drop EVM_ABI_OFFSET_LENGTH data))))"

definition read_tx_payload_data :: "async_context \<Rightarrow> u64 \<Rightarrow> bytes handler" where
  "read_tx_payload_data actx payload_data_length =
     (let payload_data_offset = of_nat EVM_ABI_STRING_HEADER_LENGTH in
      bindP (get_session (actx_session actx)) (\<lambda>s.
      if payload_data_length > tx_length s - payload_data_offset
      then taint actx OUT_OF_RANGE ''notice payload length is out of bounds''
      else read_memory actx (\<lambda>s. tx_start s + payload_data_offset) (\<lambda>_. payload_data_length)))"

definition get_proof :: "async_context \<Rightarrow> (session_type \<Rightarrow> u64) \<Rightarrow> (session_type \<Rightarrow> u64) \<Rightarrow> merkle_tree_proof handler" where
  "get_proof actx address log2_size =
     bindP (machine_call actx (\<lambda>s. dl_machine (server_deadline s)) (\<lambda>s. M_GetProof (address s) (log2_size s))) (\<lambda>w.
     thenP (CHECK_STATUS_OR_TAINT (call_status w) (actx_session actx) ''machine (proof)'')
       (liftH (lift_res (get_proto_merkle_tree_proof (reply_proof w)))))"

definition read_voucher :: "async_context \<Rightarrow> voucher_type handler" where
  "read_voucher actx =
     bindP (read_voucher_address_and_payload_data_length actx) (\<lambda>(address, payload_data_length).
     bindP (read_voucher_payload_data actx payload_data_length) (\<lambda>payload_data.
       ret \<lparr>v_destination = address, v_payload = payload_data, v_hash = None\<rparr>))"

definition read_notice :: "async_context \<Rightarrow> notice_type handler" where
  "read_notice actx =
     bindP (read_tx_payload_data_length actx) (\<lambda>payload_data_length.
     bindP (read_tx_payload_data actx payload_data_length) (\<lambda>payload_data.
       ret \<lparr>n_payload = payload_data, n_hash = None\<rparr>))"

definition read_report :: "async_context \<Rightarrow> report_type handler" where
  "read_report actx =
     bindP (read_tx_payload_data_length actx) (\<lambda>payload_data_length.
     bindP (read_tx_payload_data actx payload_data_length) (\<lambda>payload_data.
       ret \<lparr>r_payload = payload_data\<rparr>))"

definition read_exception :: "async_context \<Rightarrow> bytes handler" where
  "read_exception actx =
     bindP (read_tx_payload_data_length actx) (\<lambda>payload_data_length.
       read_tx_payload_data actx payload_data_length)"

section \<open>Running the machine\<close>

text \<open>
  \<^verbatim>\<open>duration_cast<milliseconds>(now - start_time).count()\<close> truncates towards zero; the
  deadline is cast to the signed type of \<open>elapsed\<close>.
\<close>

definition elapsed_ms :: "int \<Rightarrow> int \<Rightarrow> int" where
  "elapsed_ms now start = sgn (now - start) * (\<bar>now - start\<bar> div 1000000)"

definition deadline_expired :: "int \<Rightarrow> int \<Rightarrow> u64 \<Rightarrow> bool" where
  "deadline_expired now start max_deadline \<longleftrightarrow> elapsed_ms now start > sint max_deadline"

text \<open>
  The loop of \<open>run_machine\<close>; its bound is the number of increments it may run. The start-up
  checks make \<open>mcycle_increment\<close> positive, so that with a machine that runs up to the limit
  it is given the loop needs at most one round per increment.
\<close>

primrec run_increments ::
  "nat \<Rightarrow> async_context \<Rightarrow> u64 \<Rightarrow> u64 \<Rightarrow> int \<Rightarrow> u64 \<Rightarrow> u64 \<Rightarrow> u64 \<Rightarrow> run_response option handler" where
  "run_increments 0 actx mcycle_increment max_mcycle start_time deadline_increment max_deadline limit =
     throw Out_of_fuel"
| "run_increments (Suc fuel) actx mcycle_increment max_mcycle start_time deadline_increment max_deadline limit =
     bindP (machine_call actx (\<lambda>_. deadline_increment) (\<lambda>_. M_Run limit)) (\<lambda>w.
     thenP (CHECK_STATUS_OR_TAINT (call_status w) (actx_session actx) ''advance/inspect state increment'')
     (let run_response = reply_run w in
      if iflags_y run_response \<or> iflags_x run_response \<or> iflags_h run_response \<or>
         run_mcycle run_response \<ge> max_mcycle
      then ret (Some run_response)
      else
        bindP (suspend Clock_now) (\<lambda>now.
        if deadline_expired (clock_now now) start_time max_deadline then ret None
        else run_increments fuel actx mcycle_increment max_mcycle start_time deadline_increment
               max_deadline (min (limit + mcycle_increment) max_mcycle))))"

definition run_machine ::
  "nat \<Rightarrow> async_context \<Rightarrow> u64 \<Rightarrow> u64 \<Rightarrow> u64 \<Rightarrow> int \<Rightarrow> u64 \<Rightarrow> u64 \<Rightarrow> run_response option handler" where
  "run_machine fuel actx curr_mcycle mcycle_increment max_mcycle start_time deadline_increment max_deadline =
     run_increments fuel actx mcycle_increment max_mcycle start_time deadline_increment max_deadline
       (min (curr_mcycle + mcycle_increment) max_mcycle)"

section \<open>Check-in\<close>

text \<open>
  \<open>trigger_and_wait_checkin\<close>. The deadline coroutine is started as part of the same segment:
  it registers its alarm and yields at once.
\<close>

definition trigger_and_wait_checkin :: "async_context \<Rightarrow> unit handler \<Rightarrow> unit handler" where
  "trigger_and_wait_checkin actx trigger_checkin =
     bindP (get_session (actx_session actx)) (\<lambda>session.
     bindP (gets (\<lambda>h. Inr (um_find (sessions_waiting_checkin h) (session_id session)))) (\<lambda>waiting.
     if waiting \<noteq> None then throw Exit_process
     else
       thenP trigger_checkin
       (bindP (get_session (actx_session actx)) (\<lambda>session.
        thenP (update (\<lambda>h. Inr (h\<lparr>sessions_waiting_checkin :=
                 um_assign (session_id session) \<lparr>cc_coroutine = actx_self actx, cc_status = None\<rparr>
                   (sessions_waiting_checkin h)\<rparr>)))
        (bindP (suspend (Start_deadline (session_id session) (dl_checkin (server_deadline session)))) (\<lambda>_.
        (bindP (suspend (Wait_checkin (session_id session))) (\<lambda>_.
        bindP (get_session (actx_session actx)) (\<lambda>session.
        bindP (gets (\<lambda>h. Inr (um_find (sessions_waiting_checkin h) (session_id session)))) (\<lambda>it.
        case it of
          None \<Rightarrow> throw Exit_process
        | Some cctx \<Rightarrow>
           (case cc_status cctx of
              None \<Rightarrow> throw Exit_process
            | Some ok \<Rightarrow>
                thenP (update (\<lambda>h. Inr (h\<lparr>sessions_waiting_checkin :=
                         um_erase (session_id session) (sessions_waiting_checkin h)\<rparr>)))
                (if \<not> ok
                 then taint actx INTERNAL (''Remote machine check-in has failed on session: '' @ session_id session)
                 else check_server_stub (actx_session actx)))))))))))))"

text \<open>The body of the deadline coroutine after its alarm is set, given the \<open>ok\<close> flag of the wake-up.\<close>

definition CheckinDeadline_handler :: "id_type \<Rightarrow> u64 \<Rightarrow> unit handler" where
  "CheckinDeadline_handler sid deadline =
     bindP (gets (\<lambda>h. Inr (um_find (sessions_waiting_checkin h) sid))) (\<lambda>it_before.
     if it_before = None then throw Exit_process
     else
       bindP (suspend (Wait_alarm deadline)) (\<lambda>w.
       if \<not> wake_ok w then ret ()
       else
         bindP (gets (\<lambda>h. Inr (um_find (sessions_waiting_checkin h) sid))) (\<lambda>it_after.
         case it_after of
           None \<Rightarrow> throw Exit_process
         | Some cctx \<Rightarrow>
             thenP (update (\<lambda>h. Inr (h\<lparr>sessions_waiting_checkin :=
                      um_assign sid (cctx\<lparr>cc_status := Some False\<rparr>) (sessions_waiting_checkin h)\<rparr>)))
             (bindP (suspend (Resume_coroutine (cc_coroutine cctx))) (\<lambda>_. ret ())))))"

end
