(* ===== verification/Epochs.thy ===== *)
theory Epochs
  imports Session_State
begin

text \<open>
  Epochs: finishing an epoch, starting the next one, and the protobuf messages built from
  the inputs an epoch has processed (\<open>finish_epoch\<close> to \<open>set_proto_finish_epoch_response\<close> and
  \<open>set_proto_evm_address\<close> to \<open>set_proto_processed_input\<close> of \<^verbatim>\<open>src/src/server-manager.cpp\<close>).
  The invariant \<open>epoch_ok\<close> ties the two Merkle trees of an epoch to its processed inputs.
\<close>

unbundle bit_operations_syntax

section \<open>Finishing and starting\<close>

text \<open>
  \<open>finish_epoch\<close> rewrites the proofs of the processed inputs in place; when \<open>get_proof\<close> throws,
  the inputs before are already rewritten. The value is the new list and the outcome.
\<close>

definition leaf_address :: "u64 \<Rightarrow> u64" where
  "leaf_address index = push_bit (nat LOG2_KECCAK_SIZE) index"

primrec finish_inputs ::
  "epoch_type \<Rightarrow> processed_input_type list \<Rightarrow> processed_input_type list \<times> unit res" where
  "finish_inputs e [] = ([], Inr ())"
| "finish_inputs e (i # rest) =
     (case cmt_get_proof (vouchers_tree e) (leaf_address (epoch_input_index i)) LOG2_KECCAK_SIZE of
        Inl x \<Rightarrow> (i # rest, Inl x)
      | Inr vp \<Rightarrow>
        (let i = i\<lparr>voucher_hashes_in_epoch := vp\<rparr> in
         case cmt_get_proof (notices_tree e) (leaf_address (epoch_input_index i)) LOG2_KECCAK_SIZE of
           Inl x \<Rightarrow> (i # rest, Inl x)
         | Inr np \<Rightarrow>
           (let i = i\<lparr>notice_hashes_in_epoch := np\<rparr>;
                (rest', r) = finish_inputs e rest
            in (i # rest', r))))"

definition finish_epoch :: "epoch_type \<Rightarrow> epoch_type \<times> unit res" where
  "finish_epoch e =
     (let e = e\<lparr>state := epoch_finished\<rparr>;
          (inputs, r) = finish_inputs e (processed_inputs e)
      in (e\<lparr>processed_inputs := inputs\<rparr>, r))"

definition start_new_epoch :: "digest \<Rightarrow> epoch_type \<Rightarrow> session_type \<Rightarrow> session_type res" where
  "start_new_epoch K prev_epoch session =
     (let session = session\<lparr>active_epoch_index := active_epoch_index session + 1\<rparr> in
      bindR (default_epoch K) (\<lambda>e.
      let e = e\<lparr>epoch_index := active_epoch_index session, state := epoch_active,
                most_recent_machine_hash := most_recent_machine_hash prev_epoch\<rparr>
      in Inr (session\<lparr>epochs := sm_assign (epoch_index e) e (epochs session)\<rparr>)))"

section \<open>Messages\<close>

text \<open>The siblings of a proof from the target up, as the two loops append them.\<close>

definition proto_siblings :: "merkle_tree_proof \<Rightarrow> proto_hash list res" where
  "proto_siblings p =
     foldR (\<lambda>log2_size sibs. bindR (get_sibling_hash p log2_size) (\<lambda>h. Inr (sibs @ [set_proto_hash h])))
       [mtp_log2_target_size p .. mtp_log2_root_size p - 1] []"

definition set_proto_output_validity_proof ::
  "epoch_type \<Rightarrow> u64 \<Rightarrow> merkle_tree_proof \<Rightarrow> u64 \<Rightarrow> merkle_tree_proof \<Rightarrow> output_validity_proof res" where
  "set_proto_output_validity_proof e in_index output_hashes_in_epoch output_index output_hash_in_hashes =
     bindR (cmt_get_root_hash (vouchers_tree e)) (\<lambda>vouchers_root.
     bindR (cmt_get_root_hash (notices_tree e)) (\<lambda>notices_root.
     bindR (proto_siblings output_hash_in_hashes) (\<lambda>hash_siblings.
     bindR (proto_siblings output_hashes_in_epoch) (\<lambda>epoch_siblings.
       Inr \<lparr>input_index_within_epoch = in_index, output_index_within_input = output_index,
            output_hashes_root_hash = set_proto_hash (mtp_root_hash output_hash_in_hashes),
            vouchers_epoch_root_hash = set_proto_hash vouchers_root,
            notices_epoch_root_hash = set_proto_hash notices_root,
            machine_state_hash = set_proto_hash (most_recent_machine_hash e),
            output_hash_in_output_hashes_siblings = hash_siblings,
            output_hashes_in_epoch_siblings = epoch_siblings\<rparr>))))"

text \<open>One message per output; \<open>hash.value()\<close> throws when the output has no hash.\<close>

definition output_proof_message ::
  "epoch_type \<Rightarrow> processed_input_type \<Rightarrow> output_enum \<Rightarrow> merkle_tree_proof \<Rightarrow> u64 \<Rightarrow> keccak_type option \<Rightarrow> output_proof res" where
  "output_proof_message e i kind hashes_in_epoch output_index hash =
     (case hash of
        None \<Rightarrow> Inl Bad_optional_access
      | Some k \<Rightarrow>
          bindR (set_proto_output_validity_proof e (epoch_input_index i) hashes_in_epoch output_index
                   (keccak_in_hashes k)) (\<lambda>validity.
          Inr \<lparr>op_input_index = input_index i, op_output_index = output_index, op_output_enum = kind,
               op_context = get_abi_encoded_context (epoch_index e), op_validity = validity\<rparr>))"

primrec output_messages ::
  "(u64 \<Rightarrow> keccak_type option \<Rightarrow> output_proof res) \<Rightarrow> u64 \<Rightarrow> keccak_type option list \<Rightarrow> output_proof list res" where
  "output_messages msg output_index [] = Inr []"
| "output_messages msg output_index (h # hs) =
     bindR (msg output_index h) (\<lambda>m.
     bindR (output_messages msg (output_index + 1) hs) (\<lambda>ms. Inr (m # ms)))"

definition input_messages :: "epoch_type \<Rightarrow> processed_input_type \<Rightarrow> output_proof list res" where
  "input_messages e i =
     (case processed i of
        Accepted_data data \<Rightarrow>
          bindR (output_messages (output_proof_message e i VOUCHER (voucher_hashes_in_epoch i)) 0
                   (map v_hash (vouchers data))) (\<lambda>vs.
          bindR (output_messages (output_proof_message e i NOTICE (notice_hashes_in_epoch i)) 0
                   (map n_hash (notices data))) (\<lambda>ns.
          Inr (vs @ ns)))
      | Exception_data _ \<Rightarrow> Inr [])"

definition set_proto_finish_epoch_response :: "epoch_type \<Rightarrow> finish_epoch_response res" where
  "set_proto_finish_epoch_response e =
     bindR (cmt_get_root_hash (vouchers_tree e)) (\<lambda>vouchers_root.
     bindR (cmt_get_root_hash (notices_tree e)) (\<lambda>notices_root.
     bindR (foldR (\<lambda>i ps. bindR (input_messages e i) (\<lambda>ms. Inr (ps @ ms))) (processed_inputs e) []) (\<lambda>proofs.
       Inr \<lparr>fe_machine_hash = set_proto_hash (most_recent_machine_hash e),
            fe_vouchers_epoch_root_hash = set_proto_hash vouchers_root,
            fe_notices_epoch_root_hash = set_proto_hash notices_root,
            fe_proofs = proofs\<rparr>)))"

definition set_proto_evm_address :: "bytes \<Rightarrow> bytes" where
  "set_proto_evm_address a = a"

definition get_proto_evm_address :: "bytes \<Rightarrow> bytes res" where
  "get_proto_evm_address data =
     (if length data \<noteq> EVM_ADDRESS_LENGTH then Inl (Invalid_argument ''invalid address size'') else Inr data)"

definition set_proto_voucher :: "voucher_type \<Rightarrow> proto_voucher" where
  "set_proto_voucher v = \<lparr>pv_destination = set_proto_evm_address (v_destination v), pv_payload = v_payload v\<rparr>"

definition set_proto_notice :: "notice_type \<Rightarrow> bytes" where
  "set_proto_notice n = n_payload n"

definition set_proto_report :: "report_type \<Rightarrow> bytes" where
  "set_proto_report r = r_payload r"

definition set_proto_accepted_data :: "processed_input_type \<Rightarrow> proto_processed_input \<Rightarrow> proto_processed_input" where
  "set_proto_accepted_data i m =
     (case processed i of
        Accepted_data data \<Rightarrow>
          m\<lparr>ppi_accepted_data := Some \<lparr>pa_vouchers = map set_proto_voucher (vouchers data),
                                     pa_notices = map set_proto_notice (notices data)\<rparr>\<rparr>
      | Exception_data _ \<Rightarrow> m)"

definition set_proto_exception_data :: "processed_input_type \<Rightarrow> proto_processed_input \<Rightarrow> proto_processed_input" where
  "set_proto_exception_data i m =
     (case processed i of
        Exception_data data \<Rightarrow> m\<lparr>ppi_exception_data := Some data\<rparr>
      | Accepted_data _ \<Rightarrow> m)"

definition set_proto_processed_input :: "processed_input_type \<Rightarrow> proto_processed_input" where
  "set_proto_processed_input i =
     (let m = \<lparr>ppi_input_index = input_index i, ppi_reports = map set_proto_report (pi_reports i),
               ppi_status = pi_status i, ppi_accepted_data = None, ppi_exception_data = None\<rparr> in
      case pi_status i of
        accepted \<Rightarrow> set_proto_accepted_data i m
      | rejected \<Rightarrow> m
      | exception \<Rightarrow> set_proto_exception_data i m
      | machine_halted \<Rightarrow> m
      | cycle_limit_exceeded \<Rightarrow> m
      | time_limit_exceeded \<Rightarrow> m
      | payload_length_limit_exceeded \<Rightarrow> m)"

section \<open>The epoch invariant\<close>

text \<open>
  The leaf an input contributes to an epoch tree: the hash of the machine's memory range when
  it was accepted, the zero hash when it was skipped.
\<close>

definition voucher_leaf :: "processed_input_type \<Rightarrow> hash_type" where
  "voucher_leaf i = (case processed i of
     Accepted_data d \<Rightarrow> mtp_target_hash (voucher_hashes_in_machine d) | Exception_data _ \<Rightarrow> zero_hash)"

definition notice_leaf :: "processed_input_type \<Rightarrow> hash_type" where
  "notice_leaf i = (case processed i of
     Accepted_data d \<Rightarrow> mtp_target_hash (notice_hashes_in_machine d) | Exception_data _ \<Rightarrow> zero_hash)"

definition epoch_tree :: "digest \<Rightarrow> hash_type list \<Rightarrow> complete_merkle_tree \<Rightarrow> bool" where
  "epoch_tree K leaves t = complete_config K LOG2_ROOT_SIZE LOG2_KECCAK_SIZE LOG2_KECCAK_SIZE leaves t"

definition epoch_ok :: "digest \<Rightarrow> epoch_type \<Rightarrow> bool" where
  "epoch_ok K e \<longleftrightarrow>
     epoch_tree K (map voucher_leaf (processed_inputs e)) (vouchers_tree e) \<and>
     epoch_tree K (map notice_leaf (processed_inputs e)) (notices_tree e) \<and>
     (\<forall>k < length (processed_inputs e). epoch_input_index (processed_inputs e ! k) = of_nat k)"

text \<open>
  A proof that the given leaf of an epoch tree is where it should be, against the current
  root of the tree.
\<close>

definition leaf_proof :: "digest \<Rightarrow> complete_merkle_tree \<Rightarrow> nat \<Rightarrow> hash_type \<Rightarrow> merkle_tree_proof \<Rightarrow> bool" where
  "leaf_proof K t k leaf p \<longleftrightarrow>
     proof_wf p \<and> proof_verify K p = Inr True \<and> mtp_target_hash p = leaf \<and>
     unat (mtp_target_address p) = k * KECCAK_SIZE \<and> mtp_log2_target_size p = LOG2_KECCAK_SIZE \<and>
     mtp_log2_root_size p = LOG2_ROOT_SIZE \<and> cmt_get_root_hash t = Inr (mtp_root_hash p)"

abbreviation epoch_capacity :: nat where
  "epoch_capacity \<equiv> 2 ^ 32"

lemma epoch_tree_capacity: "epoch_tree K leaves t \<Longrightarrow> length leaves \<le> epoch_capacity"
  using complete.capacity by (fastforce simp: epoch_tree_def LOG2_ROOT_SIZE_def LOG2_KECCAK_SIZE_def)

lemma epoch_tree_size: "epoch_tree K leaves t \<Longrightarrow> cmt_size t = Inr (length leaves)"
  by (auto simp: epoch_tree_def complete_config_def intro: cmt_size_correct)

lemma epoch_tree_root:
  "epoch_tree K leaves t \<Longrightarrow>
     cmt_get_root_hash t = Inr (spec_root K (pristine_leaf K LOG2_KECCAK_SIZE LOG2_KECCAK_SIZE) 32 leaves)"
  using complete.root_spec by (fastforce simp: epoch_tree_def LOG2_ROOT_SIZE_def LOG2_KECCAK_SIZE_def)

lemma epoch_tree_push:
  assumes "epoch_tree K leaves t" "length leaves < epoch_capacity"
  shows "\<exists>t'. cmt_push_back K h t = Inr t' \<and> epoch_tree K (leaves @ [h]) t'"
  using complete.push_room [OF assms(1) [unfolded epoch_tree_def], of h] assms(2)
  by (simp add: epoch_tree_def LOG2_ROOT_SIZE_def LOG2_KECCAK_SIZE_def)

lemma unat_leaf_address:
  assumes "k < epoch_capacity"
  shows "unat (leaf_address (of_nat k)) = k * KECCAK_SIZE"
proof -
  have "k < 2 ^ 64" "k * 32 < 2 ^ 64" using assms by simp_all
  then show ?thesis
    unfolding leaf_address_def LOG2_KECCAK_SIZE_def KECCAK_SIZE_def
    by (subst unsigned_push_bit_eq) (simp add: push_bit_eq_mult unat_of_nat take_bit_nat_eq_self)
qed

text \<open>Every leaf of an epoch tree has a proof, returned by \<open>get_proof\<close> without an exception.\<close>

lemma epoch_tree_leaf_proof:
  assumes tree: "epoch_tree K leaves t" and k: "k < length leaves"
  shows "\<exists>p. cmt_get_proof t (leaf_address (of_nat k)) LOG2_KECCAK_SIZE = Inr p \<and>
           leaf_proof K t k (leaves ! k) p"
proof -
  let ?a = "leaf_address (of_nat k)"
  have k32: "k < epoch_capacity" using k epoch_tree_capacity [OF tree] by simp
  have a: "unat ?a = k * 32" using unat_leaf_address [OF k32] by (simp add: KECCAK_SIZE_def LOG2_KECCAK_SIZE_def)
  have inv: "complete_inv K leaves t" and sizes: "cmt_log2_root_size t = 37" "cmt_log2_leaf_size t = 5"
    using tree by (simp_all add: epoch_tree_def complete_config_def LOG2_ROOT_SIZE_def LOG2_KECCAK_SIZE_def)
  have aligned: "?a = push_bit (nat 5) (drop_bit (nat 5) ?a)"
    using aligned_iff [of ?a 5] a by simp
  have rng: "unat ?a div 2 ^ nat 5 < 2 ^ nat (cmt_log2_root_size t - 5)"
    using a k32 sizes by simp
  obtain p where p: "cmt_get_proof t ?a 5 = Inr p" "proof_wf p" "mtp_target_address p = ?a"
      "mtp_log2_target_size p = 5" "mtp_log2_root_size p = 37" "proof_verify K p = Inr True"
      "mtp_target_hash p = tree_node K (padded leaves (cmt_pristine_leaf K t)) 0 k"
      "mtp_root_hash p = spec_root K (cmt_pristine_leaf K t) 32 leaves"
    using get_proof_ok [OF inv, of 5 ?a] aligned rng sizes a by auto
  then show ?thesis
    using k a cmt_get_root_hash_correct [OF inv] sizes
    by (auto simp: leaf_proof_def LOG2_KECCAK_SIZE_def LOG2_ROOT_SIZE_def KECCAK_SIZE_def padded_def)
qed

section \<open>Finishing an epoch\<close>

text \<open>What finishing does to one input: only its two proofs change.\<close>

definition refreshed :: "digest \<Rightarrow> epoch_type \<Rightarrow> nat \<Rightarrow> processed_input_type \<Rightarrow> processed_input_type \<Rightarrow> bool" where
  "refreshed K e k i j \<longleftrightarrow>
     j = i\<lparr>voucher_hashes_in_epoch := voucher_hashes_in_epoch j,
           notice_hashes_in_epoch := notice_hashes_in_epoch j\<rparr> \<and>
     leaf_proof K (vouchers_tree e) k (voucher_leaf i) (voucher_hashes_in_epoch j) \<and>
     leaf_proof K (notices_tree e) k (notice_leaf i) (notice_hashes_in_epoch j)"

lemma finish_inputs_correct:
  assumes "epoch_tree K vs (vouchers_tree e)" "epoch_tree K ns (notices_tree e)"
    and "length vs = length ns" "k + length is \<le> length vs"
    and "\<And>j. j < length is \<Longrightarrow> epoch_input_index (is ! j) = of_nat (k + j) \<and>
           voucher_leaf (is ! j) = vs ! (k + j) \<and> notice_leaf (is ! j) = ns ! (k + j)"
  shows "\<exists>is'. finish_inputs e is = (is', Inr ()) \<and> length is' = length is \<and>
           (\<forall>j < length is. refreshed K e (k + j) (is ! j) (is' ! j))"
  using assms(4,5)
proof (induction "is" arbitrary: k)
  case Nil
  then show ?case by simp
next
  case (Cons i rest)
  have i: "epoch_input_index i = of_nat k" "voucher_leaf i = vs ! k" "notice_leaf i = ns ! k"
    and k: "k < length vs" "k < length ns"
    using Cons.prems(1) Cons.prems(2) [of 0] assms(3) by simp_all
  obtain vp where vp: "cmt_get_proof (vouchers_tree e) (leaf_address (of_nat k)) LOG2_KECCAK_SIZE = Inr vp"
      "leaf_proof K (vouchers_tree e) k (vs ! k) vp"
    using epoch_tree_leaf_proof [OF assms(1) k(1)] by blast
  obtain np where np: "cmt_get_proof (notices_tree e) (leaf_address (of_nat k)) LOG2_KECCAK_SIZE = Inr np"
      "leaf_proof K (notices_tree e) k (ns ! k) np"
    using epoch_tree_leaf_proof [OF assms(2) k(2)] by blast
  obtain rest' where rest': "finish_inputs e rest = (rest', Inr ())" "length rest' = length rest"
      "\<forall>j < length rest. refreshed K e (Suc k + j) (rest ! j) (rest' ! j)"
    using Cons.IH [of "Suc k"] Cons.prems(1) Cons.prems(2) [of "Suc _"] by auto
  let ?i = "i\<lparr>voucher_hashes_in_epoch := vp, notice_hashes_in_epoch := np\<rparr>"
  have "refreshed K e k i ?i" using vp(2) np(2) i by (simp add: refreshed_def)
  moreover have "finish_inputs e (i # rest) = (?i # rest', Inr ())"
    using vp(1) np(1) rest'(1) i(1) by simp
  moreover have "\<forall>j < length (i # rest). refreshed K e (k + j) ((i # rest) ! j) ((?i # rest') ! j)"
    using \<open>refreshed K e k i ?i\<close> rest'(3) by (auto simp: less_Suc_eq_0_disj)
  ultimately show ?case using rest'(2) by (intro exI [of _ "?i # rest'"]) simp
qed

lemma refreshed_leaf: "refreshed K e k i j \<Longrightarrow> voucher_leaf j = voucher_leaf i \<and> notice_leaf j = notice_leaf i \<and>
    epoch_input_index j = epoch_input_index i \<and> processed j = processed i \<and> input_index j = input_index i"
  unfolding refreshed_def by (metis processed_input_type.select_convs processed_input_type.update_convs
      processed_input_type.surjective voucher_leaf_def notice_leaf_def)

lemma finish_epoch_ok:
  assumes "epoch_ok K e"
  shows "\<exists>is'. finish_epoch e = (e\<lparr>state := epoch_finished, processed_inputs := is'\<rparr>, Inr ()) \<and>
    length is' = length (processed_inputs e) \<and>
    (\<forall>k < length is'. refreshed K e k (processed_inputs e ! k) (is' ! k))"
proof -
  let ?e = "e\<lparr>state := epoch_finished\<rparr>" and ?is = "processed_inputs e"
  have "\<exists>is'. finish_inputs ?e ?is = (is', Inr ()) \<and> length is' = length ?is \<and>
      (\<forall>j < length ?is. refreshed K ?e (0 + j) (?is ! j) (is' ! j))"
    using assms
    by (intro finish_inputs_correct [of K "map voucher_leaf ?is" _ "map notice_leaf ?is"]) (simp_all add: epoch_ok_def)
  then show ?thesis by (auto simp: finish_epoch_def refreshed_def)
qed

section \<open>The proofs a client receives\<close>

text \<open>
  How a client checks an entry of the response: starting from a leaf at position \<open>index\<close>, hash
  with one sibling per level.
\<close>

definition walk_up :: "digest \<Rightarrow> nat \<Rightarrow> proto_hash list \<Rightarrow> hash_type \<Rightarrow> hash_type" where
  "walk_up K index sibs leaf = climb K (\<lambda>l. odd (index div 2 ^ l)) ((!) sibs) 0 (length sibs) leaf"

lemma climb_shift:
  "climb K right sib (m + l) n h = climb K (\<lambda>k. right (m + k)) (\<lambda>k. sib (m + k)) l n h"
proof (induction n arbitrary: l h)
  case 0
  then show ?case by simp
next
  case (Suc n)
  then show ?case using Suc.IH [of "Suc l"] by simp
qed

lemma proto_siblings_prefix:
  assumes "proof_wf p" "k \<le> length (mtp_sibling_hashes p)"
  shows "foldR (\<lambda>log2_size sibs. bindR (get_sibling_hash p log2_size) (\<lambda>h. Inr (sibs @ [set_proto_hash h])))
       [mtp_log2_target_size p .. mtp_log2_target_size p + int k - 1] [] =
     Inr (map (\<lambda>l. proof_sibling p (nat (mtp_log2_target_size p) + l)) [0..<k])"
  using assms(2)
proof (induction k)
  case 0
  then show ?case by simp
next
  case (Suc k)
  let ?t = "mtp_log2_target_size p"
  have nn: "0 \<le> ?t" and lt: "?t + int k < mtp_log2_root_size p"
    using assms(1) Suc.prems by (auto simp: proof_wf_def)
  have "[?t .. ?t + int (Suc k) - 1] = [?t .. ?t + int k - 1] @ [?t + int k]"
    using upto_rec2 [of ?t "?t + int k"] by (simp add: algebra_simps)
  moreover have "get_sibling_hash p (?t + int k) = Inr (proof_sibling p (nat ?t + k))"
    using get_sibling_hash_Inr [OF assms(1), of "?t + int k"] lt nn by (simp add: nat_add_distrib)
  ultimately show ?case
    using Suc by (simp add: foldR_append set_proto_hash_def)
qed

lemma proto_siblings_Inr:
  assumes "proof_wf p"
  shows "proto_siblings p =
    Inr (map (\<lambda>l. proof_sibling p (nat (mtp_log2_target_size p) + l)) [0..<length (mtp_sibling_hashes p)])"
proof -
  have "mtp_log2_target_size p + int (length (mtp_sibling_hashes p)) - 1 = mtp_log2_root_size p - 1"
    using assms by (simp add: proof_wf_def)
  then show ?thesis using proto_siblings_prefix [OF assms order_refl] by (simp add: proto_siblings_def)
qed

lemma proto_siblings_rev:
  assumes "proof_wf p"
  shows "proto_siblings p = Inr (rev (mtp_sibling_hashes p))"
proof -
  let ?n = "length (mtp_sibling_hashes p)" and ?t = "nat (mtp_log2_target_size p)"
  have "map (\<lambda>l. proof_sibling p (?t + l)) [0..<?n] = rev (mtp_sibling_hashes p)"
  proof (rule nth_equalityI)
    fix l assume l: "l < length (map (\<lambda>l. proof_sibling p (?t + l)) [0..<?n])"
    then have "nat (mtp_log2_root_size p - 1 - int (?t + l)) = ?n - Suc l" using assms by (simp add: proof_wf_def)
    then show "map (\<lambda>l. proof_sibling p (?t + l)) [0..<?n] ! l = rev (mtp_sibling_hashes p) ! l"
      using l by (simp add: proof_sibling_def rev_nth)
  qed simp
  then show ?thesis using proto_siblings_Inr [OF assms] by simp
qed

text \<open>The siblings a message carries lead from the target of a verified proof to its root.\<close>

lemma proof_walk:
  assumes wf: "proof_wf p" and t: "mtp_log2_target_size p = LOG2_KECCAK_SIZE" and ver: "proof_verify K p = Inr True"
  shows "walk_up K (unat (mtp_target_address p) div KECCAK_SIZE) (rev (mtp_sibling_hashes p)) (mtp_target_hash p) = mtp_root_hash p"
proof -
  let ?n = "length (mtp_sibling_hashes p)" and ?k = "unat (mtp_target_address p) div 32"
  have t5: "mtp_log2_target_size p = 5" using t by (simp add: LOG2_KECCAK_SIZE_def)
  have n: "?n = nat (mtp_log2_root_size p - 5)" using wf t5 by (simp add: proof_wf_def)
  have sibs: "rev (mtp_sibling_hashes p) = map (\<lambda>l. proof_sibling p (5 + l)) [0..<?n]"
    using proto_siblings_rev [OF wf] proto_siblings_Inr [OF wf] t5 by simp
  have right: "proof_right p (5 + l) = odd (?k div 2 ^ l)" for l
    by (simp only: proof_right_iff power_add div_mult2_eq) simp
  have "walk_up K ?k (rev (mtp_sibling_hashes p)) (mtp_target_hash p) =
      climb K (\<lambda>l. proof_right p (5 + l)) (\<lambda>l. proof_sibling p (5 + l)) 0 ?n (mtp_target_hash p)"
    unfolding walk_up_def right sibs by (simp del: upt_Suc) (rule climb_cong, simp)
  also have "\<dots> = climb K (proof_right p) (proof_sibling p) 5 ?n (mtp_target_hash p)"
    using climb_shift [of K "proof_right p" "proof_sibling p" 5 0 ?n] by simp
  also have "\<dots> = mtp_root_hash p"
    using proof_verify_Inr [OF wf ver] n t5 by simp
  finally show ?thesis by (simp add: KECCAK_SIZE_def LOG2_KECCAK_SIZE_def)
qed

lemma leaf_proof_walk:
  assumes "leaf_proof K t k leaf p"
  shows "\<exists>sibs. proto_siblings p = Inr sibs \<and> walk_up K k sibs leaf = mtp_root_hash p"
  using proto_siblings_rev [of p] proof_walk [of p K] assms
  by (auto simp: leaf_proof_def KECCAK_SIZE_def LOG2_KECCAK_SIZE_def)

text \<open>Every output of an accepted input has been given its hash, with a well-formed proof.\<close>

definition output_hashed :: "keccak_type option \<Rightarrow> bool" where
  "output_hashed out \<longleftrightarrow> (\<exists>k. out = Some k \<and> proof_wf (keccak_in_hashes k))"

definition outputs_hashed :: "epoch_type \<Rightarrow> bool" where
  "outputs_hashed e \<longleftrightarrow> (\<forall>i \<in> set (processed_inputs e). case processed i of
     Accepted_data d \<Rightarrow> list_all output_hashed (map v_hash (vouchers d)) \<and> list_all output_hashed (map n_hash (notices d))
   | Exception_data _ \<Rightarrow> True)"

text \<open>The proofs verify within the memory range of the hashes.\<close>

definition verified_output :: "digest \<Rightarrow> keccak_type option \<Rightarrow> bool" where
  "verified_output K out \<longleftrightarrow> (\<exists>k. out = Some k \<and> length (keccak k) = hash_size \<and>
     proof_wf (keccak_in_hashes k) \<and> proof_verify K (keccak_in_hashes k) = Inr True \<and>
     mtp_log2_target_size (keccak_in_hashes k) = LOG2_KECCAK_SIZE)"

definition output_hashes_ok :: "digest \<Rightarrow> keccak_type option list \<Rightarrow> bool" where
  "output_hashes_ok K hs \<longleftrightarrow> (\<forall>h \<in> set hs. verified_output K h)"

definition outputs_ok :: "digest \<Rightarrow> epoch_type \<Rightarrow> bool" where
  "outputs_ok K e \<longleftrightarrow> (\<forall>i \<in> set (processed_inputs e). case processed i of
     Accepted_data d \<Rightarrow> output_hashes_ok K (map v_hash (vouchers d)) \<and> output_hashes_ok K (map n_hash (notices d))
   | Exception_data _ \<Rightarrow> True)"

lemma outputs_ok_hashed: "outputs_ok K e \<Longrightarrow> outputs_hashed e"
  by (fastforce simp: outputs_ok_def outputs_hashed_def output_hashes_ok_def verified_output_def output_hashed_def list_all_iff
      split: processed_data.splits)

definition output_count :: "processed_input_type \<Rightarrow> nat" where
  "output_count i = (case processed i of
     Accepted_data d \<Rightarrow> length (vouchers d) + length (notices d) | Exception_data _ \<Rightarrow> 0)"

text \<open>
  The outputs of an epoch in the order of the response: the position of the input in the epoch, the
  kind of the output, its position among the outputs of that kind, and its hash.
\<close>

type_synonym output_entry = "nat \<times> output_enum \<times> nat \<times> keccak_type option"

definition input_outputs :: "nat \<Rightarrow> processed_input_type \<Rightarrow> output_entry list" where
  "input_outputs k i = (case processed i of
     Accepted_data d \<Rightarrow>
       map (\<lambda>j. (k, VOUCHER, j, v_hash (vouchers d ! j))) [0..<length (vouchers d)] @
       map (\<lambda>j. (k, NOTICE, j, n_hash (notices d ! j))) [0..<length (notices d)]
   | Exception_data _ \<Rightarrow> [])"

definition epoch_outputs :: "epoch_type \<Rightarrow> output_entry list" where
  "epoch_outputs e = concat (map (\<lambda>k. input_outputs k (processed_inputs e ! k)) [0..<length (processed_inputs e)])"

text \<open>
  A message of the response is right for an output when it names its input, its kind and its
  position, carries the roots of both epoch trees and the machine hash, and has two lists of
  siblings: one leads from the hash of the output to the root of the hashes of its input, which
  the message carries, the other from the leaf of the input in the tree of its kind to the root of
  that tree.
\<close>

definition message_ok :: "digest \<Rightarrow> epoch_type \<Rightarrow> output_entry \<Rightarrow> output_proof \<Rightarrow> bool" where
  "message_ok K e out m \<longleftrightarrow> (case out of (k, kind, j, hash) \<Rightarrow>
     let i = processed_inputs e ! k; v = op_validity m in
     op_input_index m = input_index i \<and> op_output_index m = of_nat j \<and> op_output_enum m = kind \<and>
     op_context m = abi_word (epoch_index e) \<and>
     input_index_within_epoch v = of_nat k \<and> output_index_within_input v = of_nat j \<and>
     machine_state_hash v = most_recent_machine_hash e \<and>
     cmt_get_root_hash (vouchers_tree e) = Inr (vouchers_epoch_root_hash v) \<and>
     cmt_get_root_hash (notices_tree e) = Inr (notices_epoch_root_hash v) \<and>
     (case kind of
        VOUCHER \<Rightarrow> walk_up K k (output_hashes_in_epoch_siblings v) (voucher_leaf i) = vouchers_epoch_root_hash v
      | NOTICE \<Rightarrow> walk_up K k (output_hashes_in_epoch_siblings v) (notice_leaf i) = notices_epoch_root_hash v) \<and>
     (case hash of
        None \<Rightarrow> False
      | Some h \<Rightarrow>
        let p = keccak_in_hashes h in
        output_hashes_root_hash v = mtp_root_hash p \<and>
        output_hash_in_output_hashes_siblings v = rev (mtp_sibling_hashes p) \<and>
        walk_up K (unat (mtp_target_address p) div KECCAK_SIZE) (output_hash_in_output_hashes_siblings v) (mtp_target_hash p) =
          output_hashes_root_hash v))"

text \<open>The same but for the walk at the level of the outputs, which takes proofs that verify.\<close>

definition message_fields :: "digest \<Rightarrow> epoch_type \<Rightarrow> output_entry \<Rightarrow> output_proof \<Rightarrow> bool" where
  "message_fields K e out m \<longleftrightarrow> (case out of (k, kind, j, hash) \<Rightarrow>
     let i = processed_inputs e ! k; v = op_validity m in
     op_input_index m = input_index i \<and> op_output_index m = of_nat j \<and> op_output_enum m = kind \<and>
     op_context m = abi_word (epoch_index e) \<and>
     input_index_within_epoch v = of_nat k \<and> output_index_within_input v = of_nat j \<and>
     machine_state_hash v = most_recent_machine_hash e \<and>
     cmt_get_root_hash (vouchers_tree e) = Inr (vouchers_epoch_root_hash v) \<and>
     cmt_get_root_hash (notices_tree e) = Inr (notices_epoch_root_hash v) \<and>
     (case kind of
        VOUCHER \<Rightarrow> walk_up K k (output_hashes_in_epoch_siblings v) (voucher_leaf i) = vouchers_epoch_root_hash v
      | NOTICE \<Rightarrow> walk_up K k (output_hashes_in_epoch_siblings v) (notice_leaf i) = notices_epoch_root_hash v) \<and>
     (case hash of
        None \<Rightarrow> False
      | Some h \<Rightarrow>
        let p = keccak_in_hashes h in
        output_hashes_root_hash v = mtp_root_hash p \<and>
        output_hash_in_output_hashes_siblings v = rev (mtp_sibling_hashes p)))"

lemma message_okI:
  assumes "message_fields K e out m" "verified_output K (snd (snd (snd out)))"
  shows "message_ok K e out m"
proof -
  obtain k kind j hash where out: "out = (k, kind, j, hash)" by (cases out)
  obtain kk where kk: "hash = Some kk" "proof_wf (keccak_in_hashes kk)" "proof_verify K (keccak_in_hashes kk) = Inr True"
      "mtp_log2_target_size (keccak_in_hashes kk) = LOG2_KECCAK_SIZE"
    using assms(2) out by (auto simp: verified_output_def)
  show ?thesis
    using assms(1) proof_walk [OF kk(2,4,3)] kk(1) by (simp add: out message_fields_def message_ok_def Let_def)
qed

lemma output_messages_Inr:
  assumes "\<And>j. j < length hs \<Longrightarrow> \<exists>m. msg (idx + of_nat j) (hs ! j) = Inr m \<and> P j m"
  shows "\<exists>ms. output_messages msg idx hs = Inr ms \<and> list_all2 P [0..<length hs] ms"
  using assms
proof (induction hs arbitrary: idx P)
  case Nil
  then show ?case by simp
next
  case (Cons h hs)
  obtain m where m: "msg idx h = Inr m" "P 0 m" using Cons.prems [of 0] by auto
  have "\<exists>m. msg (idx + 1 + of_nat j) (hs ! j) = Inr m \<and> P (Suc j) m" if "j < length hs" for j
    using Cons.prems [of "Suc j"] that by (simp add: algebra_simps)
  then obtain ms where ms: "output_messages msg (idx + 1) hs = Inr ms" "list_all2 (\<lambda>j. P (Suc j)) [0..<length hs] ms"
    using Cons.IH [of "idx + 1" "\<lambda>j. P (Suc j)"] by blast
  then have "list_all2 P (map Suc [0..<length hs]) ms" by (simp add: list.rel_map)
  with m ms(1) show ?case by (simp add: map_Suc_upt upt_conv_Cons del: upt_Suc)
qed

lemma output_proof_message_ok:
  assumes roots: "cmt_get_root_hash (vouchers_tree e) = Inr vr" "cmt_get_root_hash (notices_tree e) = Inr nr"
    and k: "k < length (processed_inputs e)" "i = processed_inputs e ! k" "epoch_input_index i = of_nat k"
    and h: "output_hashed h"
    and p: "leaf_proof K (case kind of VOUCHER \<Rightarrow> vouchers_tree e | NOTICE \<Rightarrow> notices_tree e) k
              (case kind of VOUCHER \<Rightarrow> voucher_leaf i | NOTICE \<Rightarrow> notice_leaf i) p"
  shows "\<exists>m. output_proof_message e i kind p (of_nat j) h = Inr m \<and> message_fields K e (k, kind, j, h) m"
proof -
  obtain sibs where sibs: "proto_siblings p = Inr sibs"
      "walk_up K k sibs (case kind of VOUCHER \<Rightarrow> voucher_leaf i | NOTICE \<Rightarrow> notice_leaf i) = mtp_root_hash p"
    using leaf_proof_walk [OF p] by blast
  obtain kk where kk: "h = Some kk" "proof_wf (keccak_in_hashes kk)" using h by (auto simp: output_hashed_def)
  note hs = proto_siblings_rev [OF kk(2)]
  have "mtp_root_hash p = (case kind of VOUCHER \<Rightarrow> vr | NOTICE \<Rightarrow> nr)"
    using p roots by (cases kind) (simp_all add: leaf_proof_def)
  then show ?thesis
    using sibs hs roots k kk(1)
    by (cases kind)
      (auto simp: output_proof_message_def set_proto_output_validity_proof_def set_proto_hash_def
        message_fields_def Let_def get_abi_encoded_context_eq)
qed

lemma kind_messages_ok:
  assumes roots: "cmt_get_root_hash (vouchers_tree e) = Inr vr" "cmt_get_root_hash (notices_tree e) = Inr nr"
    and k: "k < length (processed_inputs e)" "i = processed_inputs e ! k" "epoch_input_index i = of_nat k"
    and hs: "list_all output_hashed hs"
    and p: "leaf_proof K (case kind of VOUCHER \<Rightarrow> vouchers_tree e | NOTICE \<Rightarrow> notices_tree e) k
              (case kind of VOUCHER \<Rightarrow> voucher_leaf i | NOTICE \<Rightarrow> notice_leaf i) p"
  shows "\<exists>ms. output_messages (output_proof_message e i kind p) 0 hs = Inr ms \<and>
    list_all2 (message_fields K e) (map (\<lambda>j. (k, kind, j, hs ! j)) [0..<length hs]) ms"
proof -
  have "\<exists>m. output_proof_message e i kind p (0 + of_nat j) (hs ! j) = Inr m \<and> message_fields K e (k, kind, j, hs ! j) m"
    if "j < length hs" for j
    using output_proof_message_ok [OF roots k _ p, of "hs ! j" j] hs that by (simp add: list_all_length)
  from output_messages_Inr [of hs _ 0 "\<lambda>j. message_fields K e (k, kind, j, hs ! j)", OF this] show ?thesis
    by (auto simp: list.rel_map)
qed

lemma input_messages_ok:
  assumes roots: "cmt_get_root_hash (vouchers_tree e) = Inr vr" "cmt_get_root_hash (notices_tree e) = Inr nr"
    and k: "k < length (processed_inputs e)" "i = processed_inputs e ! k" "epoch_input_index i = of_nat k"
    and outs: "outputs_hashed e"
    and vp: "leaf_proof K (vouchers_tree e) k (voucher_leaf i) (voucher_hashes_in_epoch i)"
    and np: "leaf_proof K (notices_tree e) k (notice_leaf i) (notice_hashes_in_epoch i)"
  shows "\<exists>ms. input_messages e i = Inr ms \<and> list_all2 (message_fields K e) (input_outputs k i) ms"
proof (cases "processed i")
  case (Accepted_data d)
  have ok: "list_all output_hashed (map v_hash (vouchers d))" "list_all output_hashed (map n_hash (notices d))"
    using outs k(1,2) Accepted_data by (auto simp: outputs_hashed_def dest: bspec [OF _ nth_mem])
  have entries: "map (\<lambda>j. (k, kind, j, map f xs ! j)) [0..<length (map f xs)] = map (\<lambda>j. (k, kind, j, f (xs ! j))) [0..<length xs]"
    for kind :: output_enum and f :: "'x \<Rightarrow> keccak_type option" and xs
    by auto
  obtain vs where "output_messages (output_proof_message e i VOUCHER (voucher_hashes_in_epoch i)) 0 (map v_hash (vouchers d)) = Inr vs"
      "list_all2 (message_fields K e) (map (\<lambda>j. (k, VOUCHER, j, v_hash (vouchers d ! j))) [0..<length (vouchers d)]) vs"
    using kind_messages_ok [OF roots k ok(1), where kind = VOUCHER, unfolded entries] vp by auto
  moreover obtain ns where "output_messages (output_proof_message e i NOTICE (notice_hashes_in_epoch i)) 0 (map n_hash (notices d)) = Inr ns"
      "list_all2 (message_fields K e) (map (\<lambda>j. (k, NOTICE, j, n_hash (notices d ! j))) [0..<length (notices d)]) ns"
    using kind_messages_ok [OF roots k ok(2), where kind = NOTICE, unfolded entries] np by auto
  ultimately show ?thesis
    using Accepted_data by (simp add: input_messages_def input_outputs_def list_all2_appendI)
next
  case (Exception_data x)
  then show ?thesis by (simp add: input_messages_def input_outputs_def)
qed

lemma all_messages_ok:
  assumes "\<And>j. j < length is \<Longrightarrow> \<exists>ms. input_messages e (is ! j) = Inr ms \<and> list_all2 P (input_outputs (k + j) (is ! j)) ms"
    and "list_all2 P outs ps"
  shows "\<exists>ms. foldR (\<lambda>i ps. bindR (input_messages e i) (\<lambda>ms. Inr (ps @ ms))) is ps = Inr ms \<and>
    list_all2 P (outs @ concat (map (\<lambda>j. input_outputs (k + j) (is ! j)) [0..<length is])) ms"
  using assms
proof (induction "is" arbitrary: k ps outs)
  case Nil
  then show ?case by simp
next
  case (Cons i "is")
  obtain ms where ms: "input_messages e i = Inr ms" "list_all2 P (input_outputs k i) ms"
    using Cons.prems(1) [of 0] by auto
  have "\<exists>ms. input_messages e (is ! j) = Inr ms \<and> list_all2 P (input_outputs (Suc k + j) (is ! j)) ms" if "j < length is" for j
    using Cons.prems(1) [of "Suc j"] that by simp
  moreover have "list_all2 P (outs @ input_outputs k i) (ps @ ms)" using Cons.prems(2) ms(2) by (rule list_all2_appendI)
  ultimately obtain r where "foldR (\<lambda>i ps. bindR (input_messages e i) (\<lambda>ms. Inr (ps @ ms))) is (ps @ ms) = Inr r"
      "list_all2 P ((outs @ input_outputs k i) @ concat (map (\<lambda>j. input_outputs (Suc k + j) (is ! j)) [0..<length is])) r"
    using Cons.IH by blast
  moreover have "concat (map (\<lambda>j. input_outputs (k + j) ((i # is) ! j)) [0..<length (i # is)]) =
      input_outputs k i @ concat (map (\<lambda>j. input_outputs (Suc k + j) (is ! j)) [0..<length is])"
    by (simp add: upt_conv_Cons map_Suc_upt [symmetric] comp_def del: upt_Suc)
  ultimately show ?case using ms(1) by simp
qed

lemma length_epoch_outputs: "length (epoch_outputs e) = sum_list (map output_count (processed_inputs e))"
proof -
  have "length (input_outputs k i) = output_count i" for k i
    by (simp add: input_outputs_def output_count_def split: processed_data.split)
  then have "length (epoch_outputs e) = sum_list (map (\<lambda>k. output_count (processed_inputs e ! k)) [0..<length (processed_inputs e)])"
    by (simp add: epoch_outputs_def length_concat comp_def)
  also have "map (\<lambda>k. output_count (processed_inputs e ! k)) [0..<length (processed_inputs e)] = map output_count (processed_inputs e)"
    by (rule nth_equalityI) simp_all
  finally show ?thesis .
qed

lemma finish_response_fields:
  assumes "epoch_ok K e" "outputs_hashed e" "e' = fst (finish_epoch e)"
  shows "\<exists>r. set_proto_finish_epoch_response e' = Inr r \<and>
    cmt_get_root_hash (vouchers_tree e) = Inr (fe_vouchers_epoch_root_hash r) \<and>
    cmt_get_root_hash (notices_tree e) = Inr (fe_notices_epoch_root_hash r) \<and>
    fe_machine_hash r = most_recent_machine_hash e \<and>
    length (fe_proofs r) = sum_list (map output_count (processed_inputs e)) \<and>
    list_all2 (message_fields K e') (epoch_outputs e) (fe_proofs r)"
proof -
  obtain is' where is': "finish_epoch e = (e\<lparr>state := epoch_finished, processed_inputs := is'\<rparr>, Inr ())"
      "length is' = length (processed_inputs e)"
      "\<And>k. k < length is' \<Longrightarrow> refreshed K e k (processed_inputs e ! k) (is' ! k)"
    using finish_epoch_ok [OF assms(1)] by auto
  then have e': "e' = e\<lparr>state := epoch_finished, processed_inputs := is'\<rparr>" using assms(3) by simp
  have same: "processed (is' ! k) = processed (processed_inputs e ! k)"
      "epoch_input_index (is' ! k) = of_nat k"
      "voucher_leaf (is' ! k) = voucher_leaf (processed_inputs e ! k)"
      "notice_leaf (is' ! k) = notice_leaf (processed_inputs e ! k)" if "k < length is'" for k
    using refreshed_leaf [OF is'(3) [OF that]] assms(1) that is'(2) by (simp_all add: epoch_ok_def)
  have outs: "outputs_hashed e'"
    using assms(2) same(1) is'(2) by (simp add: outputs_hashed_def e' all_set_conv_all_nth)
  obtain vr nr where roots: "cmt_get_root_hash (vouchers_tree e) = Inr vr" "cmt_get_root_hash (notices_tree e) = Inr nr"
    using assms(1) epoch_tree_root by (auto simp: epoch_ok_def)
  have each: "\<exists>ms. input_messages e' (is' ! k) = Inr ms \<and> list_all2 (message_fields K e') (input_outputs (0 + k) (is' ! k)) ms"
    if k: "k < length is'" for k
  proof -
    have "leaf_proof K (vouchers_tree e) k (voucher_leaf (is' ! k)) (voucher_hashes_in_epoch (is' ! k))"
      "leaf_proof K (notices_tree e) k (notice_leaf (is' ! k)) (notice_hashes_in_epoch (is' ! k))"
      using is'(3) [OF k] same(3,4) [OF k] unfolding refreshed_def by simp_all
    with roots same(2) [OF k] k outs show ?thesis
      using input_messages_ok [of e' vr nr k "is' ! k" K] by (simp add: e')
  qed
  have outputs: "concat (map (\<lambda>j. input_outputs (0 + j) (is' ! j)) [0..<length is']) = epoch_outputs e"
    using same(1) is'(2) by (auto simp: epoch_outputs_def input_outputs_def intro!: arg_cong [where f = concat] cong: processed_data.case_cong)
  obtain ms where ms: "foldR (\<lambda>i ps. bindR (input_messages e' i) (\<lambda>ms. Inr (ps @ ms))) is' [] = Inr ms"
      "list_all2 (message_fields K e') (epoch_outputs e) ms"
    using all_messages_ok [of is' e' "message_fields K e'" 0 "[]" "[]", OF each] outputs by auto
  have "length ms = sum_list (map output_count (processed_inputs e))"
    using list_all2_lengthD [OF ms(2)] length_epoch_outputs by simp
  then show ?thesis
    using roots ms by (simp add: set_proto_finish_epoch_response_def e' set_proto_hash_def)
qed

lemma finish_response_ok:
  assumes "epoch_ok K e" "outputs_ok K e" "e' = fst (finish_epoch e)"
  shows "\<exists>r. set_proto_finish_epoch_response e' = Inr r \<and>
    cmt_get_root_hash (vouchers_tree e) = Inr (fe_vouchers_epoch_root_hash r) \<and>
    cmt_get_root_hash (notices_tree e) = Inr (fe_notices_epoch_root_hash r) \<and>
    fe_machine_hash r = most_recent_machine_hash e \<and>
    length (fe_proofs r) = sum_list (map output_count (processed_inputs e)) \<and>
    list_all2 (message_ok K e') (epoch_outputs e) (fe_proofs r)"
proof -
  have "verified_output K (snd (snd (snd out)))" if mem: "out \<in> set (epoch_outputs e)" for out
  proof -
    obtain k where k: "k < length (processed_inputs e)" "out \<in> set (input_outputs k (processed_inputs e ! k))"
      using mem by (auto simp: epoch_outputs_def)
    then obtain d where d: "processed (processed_inputs e ! k) = Accepted_data d"
      by (cases "processed (processed_inputs e ! k)") (simp_all add: input_outputs_def)
    have "output_hashes_ok K (map v_hash (vouchers d))" "output_hashes_ok K (map n_hash (notices d))"
      using assms(2) nth_mem [OF k(1)] d by (auto simp: outputs_ok_def split: processed_data.splits)
    then show ?thesis using k(2) d by (auto simp: input_outputs_def output_hashes_ok_def)
  qed
  then have "list_all2 (message_fields K e') (epoch_outputs e) ms \<Longrightarrow> list_all2 (message_ok K e') (epoch_outputs e) ms" for ms
    by (elim list.rel_mono_strong) (blast intro: message_okI)
  then show ?thesis using finish_response_fields [OF assms(1) outputs_ok_hashed [OF assms(2)] assms(3)] by blast
qed

lemma finish_response_Inr:
  "epoch_ok K e \<Longrightarrow> outputs_hashed e \<Longrightarrow> \<exists>r. set_proto_finish_epoch_response (fst (finish_epoch e)) = Inr r"
  using finish_response_fields [OF _ _ refl] by blast

section \<open>Properties\<close>

text \<open>
  Finishing an epoch never throws and leaves every processed input with proofs of
  its vouchers and notices leaves that verify against the final roots of the epoch trees;
  nothing else of the epoch changes but its state.
\<close>

theorem finish_epoch_refreshes_proofs:
  assumes "epoch_ok K e"
  shows "\<exists>is'. finish_epoch e = (e\<lparr>state := epoch_finished, processed_inputs := is'\<rparr>, Inr ()) \<and>
    length is' = length (processed_inputs e) \<and>
    (\<forall>k < length is'. refreshed K e k (processed_inputs e ! k) (is' ! k))"
  by (rule finish_epoch_ok [OF assms])

text \<open>
  Claim C9. The response to \<open>FinishEpoch\<close> is complete and checkable at both levels: after the epoch is
  finished, building the response does not throw, it carries the roots of both epoch trees and the
  machine hash, and its entries are, in order, those of the vouchers and then the notices of every
  accepted input. Each entry names its input, its kind and its position among the outputs of that
  kind; it carries the root of the hashes of its input with the siblings of the recorded proof, which
  lead from the leaf recorded for the output to that root, and siblings that lead from the leaf of its input to
  the root of the epoch tree.
\<close>

theorem finish_epoch_response_checks:
  assumes "epoch_ok K e" "outputs_ok K e" "e' = fst (finish_epoch e)"
  shows "\<exists>r. set_proto_finish_epoch_response e' = Inr r \<and>
    cmt_get_root_hash (vouchers_tree e) = Inr (fe_vouchers_epoch_root_hash r) \<and>
    cmt_get_root_hash (notices_tree e) = Inr (fe_notices_epoch_root_hash r) \<and>
    fe_machine_hash r = most_recent_machine_hash e \<and>
    length (fe_proofs r) = sum_list (map output_count (processed_inputs e)) \<and>
    list_all2 (message_ok K e') (epoch_outputs e) (fe_proofs r)"
  by (rule finish_response_ok [OF assms])

text \<open>
  Starting a new epoch makes the next index active: the session gets a fresh active
  epoch under the incremented index, with consistent empty trees, no inputs, and the machine
  hash of the previous epoch; the other epochs are kept.
\<close>

theorem start_new_epoch_correct:
  assumes "sm_valid (epochs s)"
  shows "\<exists>s' e. start_new_epoch K prev s = Inr s' \<and>
    active_epoch_index s' = active_epoch_index s + 1 \<and>
    sm_find (epochs s') (active_epoch_index s') = Some e \<and>
    (\<forall>j. j \<noteq> active_epoch_index s' \<longrightarrow> sm_find (epochs s') j = sm_find (epochs s) j) \<and>
    s' = s\<lparr>active_epoch_index := active_epoch_index s', epochs := epochs s'\<rparr> \<and>
    epoch_ok K e \<and> state e = epoch_active \<and> epoch_index e = active_epoch_index s' \<and>
    processed_inputs e = [] \<and> pending_inputs e = [] \<and> pending_query e = None \<and>
    most_recent_machine_hash e = most_recent_machine_hash prev"
  using default_epoch_Inr [of K] assms
  by (auto simp: start_new_epoch_def Let_def sm_find_assign epoch_ok_def epoch_tree_def)

section \<open>Instances\<close>

text \<open>An epoch with one accepted input that produced one voucher.\<close>

definition sample_output_proof :: merkle_tree_proof where
  "sample_output_proof = sample_proof\<lparr>mtp_target_address := 32, mtp_log2_target_size := 5, mtp_log2_root_size := 7\<rparr>"

lemma sample_output_verified: "verified_output sample_digest (Some \<lparr>keccak = zero_hash, keccak_in_hashes = sample_output_proof\<rparr>)"
proof -
  have "proof_wf sample_output_proof" "proof_verify sample_digest sample_output_proof = Inr True"
    "mtp_log2_target_size sample_output_proof = LOG2_KECCAK_SIZE" "length zero_hash = hash_size"
    by code_simp+
  then show ?thesis by (simp add: verified_output_def)
qed

definition sample_input :: processed_input_type where
  "sample_input = \<lparr>input_index = 0, epoch_input_index = 0, pi_machine_hash = zero_hash,
     voucher_hashes_in_epoch = sample_proof, notice_hashes_in_epoch = sample_proof, pi_status = accepted,
     processed = Accepted_data \<lparr>voucher_hashes_in_machine = sample_proof,
       vouchers = [\<lparr>v_destination = replicate 20 1, v_payload = [1, 2],
                    v_hash = Some \<lparr>keccak = zero_hash, keccak_in_hashes = sample_output_proof\<rparr>\<rparr>],
       notice_hashes_in_machine = sample_proof, notices = []\<rparr>,
     pi_reports = []\<rparr>"

definition sample_epoch :: epoch_type where
  "sample_epoch =
     (let e = projr (default_epoch sample_digest);
          push = \<lambda>t. projr (cmt_push_back sample_digest (mtp_target_hash sample_proof) t)
      in e\<lparr>epoch_index := 4, vouchers_tree := push (vouchers_tree e),
           notices_tree := push (notices_tree e), processed_inputs := [sample_input]\<rparr>)"

lemma sample_epoch_ok: "epoch_ok sample_digest sample_epoch" "outputs_ok sample_digest sample_epoch"
    "processed_inputs sample_epoch = [sample_input]" "pending_inputs sample_epoch = []"
    "state sample_epoch = epoch_active" "epoch_index sample_epoch = 4"
proof -
  obtain e where e: "default_epoch sample_digest = Inr e" "epoch_tree sample_digest [] (vouchers_tree e)"
      "epoch_tree sample_digest [] (notices_tree e)" "pending_inputs e = []" "state e = epoch_active"
    using default_epoch_Inr [of sample_digest] by (auto simp: epoch_tree_def)
  obtain vt where "cmt_push_back sample_digest (mtp_target_hash sample_proof) (vouchers_tree e) = Inr vt"
      "epoch_tree sample_digest [mtp_target_hash sample_proof] vt"
    using epoch_tree_push [OF e(2)] by auto
  moreover obtain nt where "cmt_push_back sample_digest (mtp_target_hash sample_proof) (notices_tree e) = Inr nt"
      "epoch_tree sample_digest [mtp_target_hash sample_proof] nt"
    using epoch_tree_push [OF e(3)] by auto
  ultimately show "epoch_ok sample_digest sample_epoch"
    using e(1) by (simp add: epoch_ok_def sample_epoch_def sample_input_def voucher_leaf_def notice_leaf_def)
  show "outputs_ok sample_digest sample_epoch" "processed_inputs sample_epoch = [sample_input]"
      "pending_inputs sample_epoch = []" "state sample_epoch = epoch_active" "epoch_index sample_epoch = 4"
    using e(1,4,5) sample_output_verified
    by (simp_all add: outputs_ok_def output_hashes_ok_def sample_epoch_def sample_input_def Let_def)
qed

theorem finish_epoch_refreshes_proofs_witness:
  "\<exists>i. refreshed sample_digest sample_epoch 0 sample_input i \<and>
     fst (finish_epoch sample_epoch) = sample_epoch\<lparr>state := epoch_finished, processed_inputs := [i]\<rparr>"
  using finish_epoch_refreshes_proofs [OF sample_epoch_ok(1)]
  by (auto simp: sample_epoch_ok(3) length_Suc_conv)

theorem finish_epoch_response_checks_witness:
  "\<exists>r m. set_proto_finish_epoch_response (fst (finish_epoch sample_epoch)) = Inr r \<and> fe_proofs r = [m] \<and>
     output_hashes_root_hash (op_validity m) = mtp_root_hash sample_output_proof"
  using finish_epoch_response_checks [OF sample_epoch_ok(1,2) refl]
  by (auto simp: sample_epoch_ok(3) epoch_outputs_def input_outputs_def sample_input_def list_all2_Cons1 message_ok_def Let_def)

definition sample_session :: session_type where
  "sample_session = \<lparr>session_object = 0, session_id = ''s'', session_lock = False, session_lock_reason = [],
     processing_lock = False, tainted = False, taint_status = status_ok, server_stub = Some ''localhost:1'',
     current_mcycle = 0, active_epoch_index = 4, processed_input_count = 1, max_input_payload_length = 0,
     memory_range = empty_ranges, epochs = [(4, sample_epoch)],
     server_deadline = \<lparr>dl_checkin = 1000, dl_advance_state = 1000, dl_advance_state_increment = 1000,
       dl_inspect_state = 1000, dl_inspect_state_increment = 1000, dl_machine = 1000, dl_store = 1000,
       dl_fast = 1000\<rparr>,
     server_cycles = \<lparr>max_advance_state = 100, advance_state_increment = 10, max_inspect_state = 100,
       inspect_state_increment = 10\<rparr>,
     session_server_address = ''localhost:1''\<rparr>"

theorem start_new_epoch_correct_witness:
  "\<exists>s'. start_new_epoch sample_digest sample_epoch sample_session = Inr s' \<and> active_epoch_index s' = 5"
proof -
  have "sm_valid (epochs sample_session)" by (simp add: sample_session_def sm_valid_def)
  from start_new_epoch_correct [OF this, of sample_digest sample_epoch] show ?thesis
    by (auto simp: sample_session_def)
qed

end
