(* ===== verification/Rpc.thy ===== *)
theory Rpc
  imports Machine_Client Epochs
begin

text \<open>
  What all RPC handlers share: the \<open>auto_lock\<close> class, looking a session up, locking it for
  the time of a handler, and reporting exceptions to the client.
\<close>

section \<open>\<open>auto_lock\<close>\<close>

text \<open>The class is used on two members of a session, which it holds by reference.\<close>

datatype lock_member = Session_lock | Processing_lock

primrec lock_value :: "lock_member \<Rightarrow> session_type \<Rightarrow> bool" where
  "lock_value Session_lock s = session_lock s"
| "lock_value Processing_lock s = processing_lock s"

primrec set_lock :: "lock_member \<Rightarrow> bool \<Rightarrow> session_type \<Rightarrow> session_type" where
  "set_lock Session_lock b s = s\<lparr>session_lock := b\<rparr>"
| "set_lock Processing_lock b s = s\<lparr>processing_lock := b\<rparr>"

definition lock_acquire :: "lock_member \<Rightarrow> session_ref \<Rightarrow> string \<Rightarrow> unit handler" where
  "lock_acquire m r name =
     bindP (get_session r) (\<lambda>s.
       if lock_value m s then throw (Std_exception (Runtime_error (name @ '' already locked'')))
       else set_session r (set_lock m True))"

definition lock_release :: "lock_member \<Rightarrow> session_ref \<Rightarrow> string \<Rightarrow> unit handler" where
  "lock_release m r name =
     bindP (get_session r) (\<lambda>s.
       if \<not> lock_value m s then throw (Std_exception (Runtime_error (name @ '' not locked'')))
       else set_session r (set_lock m False))"

text \<open>The destructor clears the lock, whoever holds it, through the stored reference.\<close>

definition lock_destructor :: "lock_member \<Rightarrow> session_ref \<Rightarrow> handler_context \<Rightarrow> handler_context hres" where
  "lock_destructor m r = write_session r (set_lock m False)"

definition with_auto_lock :: "lock_member \<Rightarrow> session_ref \<Rightarrow> string \<Rightarrow> 'a handler \<Rightarrow> 'a handler" where
  "with_auto_lock m r name body = thenP (lock_acquire m r name) (on_scope_exit (lock_destructor m r) body)"

section \<open>Entering a session\<close>

definition get_session_lock_reason :: "string \<Rightarrow> string \<Rightarrow> string" where
  "get_session_lock_reason rpc peer = ''RPC '' @ rpc @ '' from '' @ peer"

definition find_session :: "id_type \<Rightarrow> session_ref option handler" where
  "find_session sid =
     gets (\<lambda>h. Inr (case um_find (sessions h) sid of
        None \<Rightarrow> None
      | Some s \<Rightarrow> Some \<lparr>ref_id = sid, ref_object = session_object s\<rparr>))"

text \<open>\<open>writer.Finish\<close> or \<open>writer.FinishWithError\<close> followed by \<open>yield\<close>.\<close>

definition finish :: "rpc_response \<Rightarrow> unit handler" where
  "finish response = bindP (suspend (Finish response)) (\<lambda>_. ret ())"

definition finish_with_error :: "grpc_status \<Rightarrow> unit handler" where
  "finish_with_error status = bindP (suspend (Finish_with_error status)) (\<lambda>_. ret ())"

definition unexpected :: "handler_exn \<Rightarrow> grpc_status" where
  "unexpected x = grpc_error INTERNAL (''unexpected exception '' @ what x)"

text \<open>The two \<open>catch\<close> clauses most handlers end with.\<close>

definition report_exceptions :: "unit handler \<Rightarrow> unit handler" where
  "report_exceptions body =
     try_catch body (\<lambda>x. case x of
        Finish_error_yield_none status \<Rightarrow> finish_with_error status
      | _ \<Rightarrow> finish_with_error (unexpected x))"

text \<open>
  The opening of the handlers that work on a session: find it, run the handler's own check
  \<open>pre\<close>, refuse when it is locked, and lock it until the handler's scope ends.
\<close>

definition concurrent_call :: "session_type \<Rightarrow> string \<Rightarrow> grpc_status" where
  "concurrent_call s new_lock_reason =
     grpc_error ABORTED (''concurrent call in session (already locked by '' @ session_lock_reason s @
       '' when attempted lock by '' @ new_lock_reason @ '')'')"

definition lock_session :: "string \<Rightarrow> string \<Rightarrow> session_ref \<Rightarrow> unit handler \<Rightarrow> unit handler" where
  "lock_session rpc peer r body =
     (let new_lock_reason = get_session_lock_reason rpc peer in
      bindP (get_session r) (\<lambda>s.
      if session_lock s then throw (Finish_error_yield_none (concurrent_call s new_lock_reason))
      else
        with_auto_lock Session_lock r (rpc @ '' session lock'')
          (thenP (set_session r (\<lambda>s. s\<lparr>session_lock_reason := new_lock_reason\<rparr>)) body)))"

definition enter_session ::
  "string \<Rightarrow> string \<Rightarrow> id_type \<Rightarrow> string \<Rightarrow> (session_ref \<Rightarrow> unit handler) \<Rightarrow>
     (session_ref \<Rightarrow> unit handler) \<Rightarrow> unit handler" where
  "enter_session rpc peer sid not_found pre body =
     bindP (find_session sid) (\<lambda>it.
     case it of
       None \<Rightarrow> finish_error INVALID_ARGUMENT not_found
     | Some r \<Rightarrow> thenP (pre r) (lock_session rpc peer r (body r)))"

text \<open>The check of \<open>FinishEpoch\<close> and \<open>AdvanceState\<close> before locking.\<close>

definition check_epoch_overflow :: "session_ref \<Rightarrow> unit handler" where
  "check_epoch_overflow r =
     bindP (get_session r) (\<lambda>s.
       if active_epoch_index s = - 1 then finish_error OUT_OF_RANGE ''active epoch index will overflow''
       else ret ())"

definition check_not_tainted :: "string \<Rightarrow> session_ref \<Rightarrow> unit handler" where
  "check_not_tainted prefix r =
     bindP (get_session r) (\<lambda>s.
       if tainted s
       then finish_error DATA_LOSS (prefix @ error_message (taint_status s) @ '')'')
       else ret ())"

section \<open>Behaviour of the opening\<close>

lemma find_session_eq:
  "find_session sid h = Done h (Inr (map_option (\<lambda>s. \<lparr>ref_id = sid, ref_object = session_object s\<rparr>)
     (um_find (sessions h) sid)))"
  by (simp add: find_session_def gets_def split: option.split)

lemma report_finish_error:
  "body h = Done h (Inl (Finish_error_yield_none st)) \<Longrightarrow>
     report_exceptions body h = Suspend h (Finish_with_error st) (\<lambda>_ h'. Done h' (Inr ()))"
  by (simp add: report_exceptions_def try_catch_def finish_with_error_def bindP_def suspend_def ret_def)

lemma enter_unknown_session:
  assumes "um_find (sessions h) sid = None"
  shows "enter_session rpc peer sid msg pre body h = Done h (Inl (Finish_error_yield_none (grpc_error INVALID_ARGUMENT msg)))"
  using assms by (simp add: enter_session_def bindP_def find_session_eq finish_error_def throw_def)

lemma enter_locked_session:
  assumes "um_find (sessions h) sid = Some s" "session_lock s"
    and "pre \<lparr>ref_id = sid, ref_object = session_object s\<rparr> h = Done h (Inr ())"
  shows "enter_session rpc peer sid msg pre body h =
     Done h (Inl (Finish_error_yield_none (concurrent_call s (get_session_lock_reason rpc peer))))"
proof -
  have "deref \<lparr>ref_id = sid, ref_object = session_object s\<rparr> h = Inr s"
    using assms(1) by (simp add: deref_Inr_iff)
  with assms show ?thesis
    by (simp add: enter_session_def bindP_def thenP_def find_session_eq lock_session_def get_session_def
        gets_def throw_def Let_def)
qed

lemma enter_failed_check:
  assumes "um_find (sessions h) sid = Some s"
    and "pre \<lparr>ref_id = sid, ref_object = session_object s\<rparr> h = Done h (Inl x)"
  shows "enter_session rpc peer sid msg pre body h = Done h (Inl x)"
  using assms by (simp add: enter_session_def bindP_def thenP_def find_session_eq)

end
