(* ===== verification/Interference.thy ===== *)
theory Interference
  imports Rpc
begin

text \<open>
  Reasoning about a handler that keeps its session locked while other handlers run. The locale
  states what such a handler relies on at its yield points and proves, once, the rules for the
  functions of \<open>Machine_Client\<close> it calls.
\<close>

section \<open>Yield points\<close>

text \<open>The calls that return before any other handler runs.\<close>

primrec atomic_point :: "yield_point \<Rightarrow> bool" where
  "atomic_point (Machine_call a q d) = False"
| "atomic_point (Finish response) = False"
| "atomic_point (Finish_with_error status) = False"
| "atomic_point (Wait_checkin i) = False"
| "atomic_point (Wait_alarm d) = False"
| "atomic_point Wait_resume = False"
| "atomic_point Clock_now = True"
| "atomic_point (Spawn_process c) = True"
| "atomic_point (Create_stub a) = True"
| "atomic_point (Shutdown_sync a d) = True"
| "atomic_point (Start_deadline i d) = True"
| "atomic_point (Cancel_alarm i) = True"
| "atomic_point (Resume_coroutine c) = False"

primrec is_reply :: "yield_point \<Rightarrow> bool" where
  "is_reply (Machine_call a q d) = False"
| "is_reply (Finish response) = True"
| "is_reply (Finish_with_error status) = True"
| "is_reply (Wait_checkin i) = False"
| "is_reply (Wait_alarm d) = False"
| "is_reply Wait_resume = False"
| "is_reply Clock_now = False"
| "is_reply (Spawn_process c) = False"
| "is_reply (Create_stub a) = False"
| "is_reply (Shutdown_sync a d) = False"
| "is_reply (Start_deadline i d) = False"
| "is_reply (Cancel_alarm i) = False"
| "is_reply (Resume_coroutine c) = False"

section \<open>Handlers that hold their session\<close>

locale held_session =
  fixes r :: session_ref
    and R :: "yield_point \<Rightarrow> handler_context \<Rightarrow> wake \<Rightarrow> handler_context \<Rightarrow> bool"
    and G :: "handler_context \<Rightarrow> yield_point \<Rightarrow> handler_context \<Rightarrow> bool"
  assumes atomic: "R y h w h' \<Longrightarrow> atomic_point y \<Longrightarrow> h' = h"
    and keeps: "R y h w h' \<Longrightarrow> \<not> atomic_point y \<Longrightarrow> deref r h = Inr s \<Longrightarrow>
      \<exists>a. deref r h' = Inr (s\<lparr>session_server_address := a\<rparr>)"
    and silent: "\<not> is_reply y \<Longrightarrow> G h0 y h"
begin

text \<open>The session is \<open>s\<close> up to the address the machine server checked in with.\<close>

definition holds :: "session_type \<Rightarrow> handler_context \<Rightarrow> bool" where
  "holds s h \<longleftrightarrow> (\<exists>a. deref r h = Inr (s\<lparr>session_server_address := a\<rparr>))"

lemma holdsI: "deref r h = Inr s \<Longrightarrow> holds s h"
  unfolding holds_def by (intro exI [of _ "session_server_address s"]) simp

lemma holds_resumed:
  assumes "holds s h" "R y h w h'"
  shows "holds s h'"
proof (cases "atomic_point y")
  case True
  then show ?thesis using assms atomic [of y h w h'] by simp
next
  case False
  from assms(1) obtain a where "deref r h = Inr (s\<lparr>session_server_address := a\<rparr>)" by (auto simp: holds_def)
  then have "\<exists>b. deref r h' = Inr (s\<lparr>session_server_address := a, session_server_address := b\<rparr>)"
    using keeps [OF assms(2) False] by simp
  then show ?thesis by (simp add: holds_def)
qed

lemma wp_suspend_held:
  assumes "holds s h" "\<not> is_reply y" "\<And>v h'. holds s h' \<Longrightarrow> Q h' (Inr v) h'"
  shows "wp G R Q (suspend y h) h0"
  using assms holds_resumed by (auto simp: wp_rules silent)

lemma wp_get_session:
  assumes "holds s h" "\<And>a. Q h0 (Inr (s\<lparr>session_server_address := a\<rparr>)) h"
  shows "wp G R Q (get_session r h) h0"
  using assms by (auto simp: get_session_def wp_rules holds_def)

lemma wp_set_session:
  assumes "holds s h"
    and "\<And>a. f (s\<lparr>session_server_address := a\<rparr>) = (f s)\<lparr>session_server_address := a\<rparr>"
    and "session_object (f s) = session_object s"
    and "\<And>h'. holds (f s) h' \<Longrightarrow> Q h0 (Inr ()) h'"
  shows "wp G R Q (set_session r f h) h0"
proof -
  obtain a where a: "deref r h = Inr (s\<lparr>session_server_address := a\<rparr>)" using assms(1) by (auto simp: holds_def)
  let ?h = "assign_session r ((f s)\<lparr>session_server_address := a\<rparr>) h"
  have "session_object (f s) = ref_object r" using a assms(3) by (simp add: deref_Inr_iff)
  then have "holds (f s) ?h" unfolding holds_def by (intro exI [of _ a]) simp
  then show ?thesis using a assms(2,4) by (simp add: set_session_def wp_rules write_session_def)
qed

lemma wp_machine_call:
  assumes "holds s h" "server_stub s = Some address" "actx_session actx = r"
    and "\<And>w h'. holds s h' \<Longrightarrow> Q h' (Inr w) h'"
  shows "wp G R Q (machine_call actx deadline request h) h0"
  unfolding machine_call_def wp_bindP assms(3)
  using assms(2,4) by (intro wp_get_session [OF assms(1)]) (simp add: wp_suspend_held [OF assms(1)])

text \<open>The functions of the session start: each ends normally or with an exception.\<close>

lemma wp_store_checks:
  assumes "holds s h" "server_stub s = Some address" "actx_session actx = r"
    and ok: "\<And>h1 h'. holds s h' \<Longrightarrow> Q h1 (Inr ()) h'"
    and err: "\<And>h1 h' x. holds s h' \<Longrightarrow> is_exception x \<Longrightarrow> Q h1 (Inl x) h'"
  shows "wp G R Q (check_server_version actx h) h0"
    and "wp G R Q (check_server_machine actx directory h) h0"
    and "wp G R Q (shutdown_server actx h) h0"
    and "wp G R Q (store actx directory h) h0"
  unfolding check_server_version_def check_server_machine_def shutdown_server_def store_def wp_bindP
  by (rule wp_machine_call [OF assms(1-3)],
      simp add: wp_rules CHECK_STATUS_OR_FAIL_def finish_error_def ok err)+

lemma wp_get_initial_config:
  assumes "holds s h" "server_stub s = Some address" "actx_session actx = r"
    and ok: "\<And>h1 h' c. holds s h' \<Longrightarrow> Q h1 (Inr c) h'"
    and err: "\<And>h1 h' x. holds s h' \<Longrightarrow> is_exception x \<Longrightarrow> Q h1 (Inl x) h'"
  shows "wp G R Q (get_initial_config actx h) h0"
  unfolding get_initial_config_def wp_bindP
  by (rule wp_machine_call [OF assms(1-3)], simp add: wp_rules CHECK_STATUS_OR_FAIL_def ok err)

lemma wp_get_root_hash:
  assumes "holds s h" "server_stub s = Some address" "actx_session actx = r"
    and ok: "\<And>h1 h' c. holds s h' \<Longrightarrow> length c = hash_size \<Longrightarrow> Q h1 (Inr c) h'"
    and err: "\<And>h1 h' x. holds s h' \<Longrightarrow> is_exception x \<Longrightarrow> Q h1 (Inl x) h'"
  shows "wp G R Q (get_root_hash actx h) h0"
  unfolding get_root_hash_def wp_bindP
  by (rule wp_machine_call [OF assms(1-3)],
      auto simp add: wp_rules CHECK_STATUS_OR_FAIL_def CHECK_STATUS_OR_TAINT_def get_proto_hash_def ok err)

lemma wp_check_is_yielded:
  assumes "holds s h" "server_stub s = Some address" "actx_session actx = r"
    and ok: "\<And>h1 h' c. holds s h' \<Longrightarrow> Q h1 (Inr c) h'"
    and err: "\<And>h1 h' x. holds s h' \<Longrightarrow> is_exception x \<Longrightarrow> Q h1 (Inl x) h'"
  shows "wp G R Q (check_is_yielded actx h) h0"
  unfolding check_is_yielded_def get_current_mcycle_def wp_bindP
  by (rule wp_machine_call [OF assms(1-3)], simp add: wp_rules CHECK_STATUS_OR_FAIL_def err,
      intro impI, rule wp_machine_call [OF _ assms(2,3)], assumption,
      simp add: wp_rules CHECK_STATUS_OR_FAIL_def finish_error_def Let_def check_htif_yield_manual_def
        taint_def check_yield_reason_accepted_def ok err)

lemma holds_waiting [simp]: "holds s (h\<lparr>sessions_waiting_checkin := w\<rparr>) = holds s h"
  by (simp add: holds_def deref_def)

lemma wp_check_server_stub:
  assumes "holds s h"
    and ok: "\<And>h1 h' a. holds (s\<lparr>server_stub := Some a\<rparr>) h' \<Longrightarrow> Q h1 (Inr ()) h'"
    and err: "\<And>h1 h' x. holds (s\<lparr>server_stub := None\<rparr>) h' \<Longrightarrow> is_exception x \<Longrightarrow> Q h1 (Inl x) h'"
  shows "wp G R Q (check_server_stub r h) h0"
proof -
  have "wp G R Q (thenP (set_session r (\<lambda>s. s\<lparr>server_stub := (if b then Some (session_server_address s) else None)\<rparr>))
      (bindP (get_session r) (\<lambda>s. if server_stub s = None
         then finish_error RESOURCE_EXHAUSTED ''unable to create machine stub for session'' else ret ())) h') h1"
    if h': "holds s h'" for b h' h1
  proof -
    obtain a where a: "deref r h' = Inr (s\<lparr>session_server_address := a\<rparr>)" using h' by (auto simp: holds_def)
    let ?s = "s\<lparr>server_stub := (if b then Some a else None)\<rparr>"
    have obj: "session_object s = ref_object r" using a by (simp add: deref_Inr_iff)
    have "s\<lparr>session_server_address := a, server_stub := u\<rparr> = s\<lparr>server_stub := u, session_server_address := a\<rparr>" for u
      by (cases s) simp
    then have "holds ?s (assign_session r
        (s\<lparr>session_server_address := a, server_stub := (if b then Some a else None)\<rparr>) h')"
      unfolding holds_def using obj by (intro exI [of _ a]) simp
    then show ?thesis
      using a obj ok [of a] err
      by (cases b) (simp_all add: wp_rules set_session_def get_session_def write_session_def finish_error_def)
  qed
  then show ?thesis
    unfolding check_server_stub_def wp_bindP
    by (intro wp_get_session [OF assms(1)]) (simp add: wp_bindP, rule wp_suspend_held [OF assms(1)], simp_all)
qed

end

text \<open>A handler that waits for its machine server relies on the check-in context being settled.\<close>

locale waiting_session = held_session +
  assumes settled: "R (Wait_checkin i) h w h' \<Longrightarrow>
    \<exists>c b. um_find (sessions_waiting_checkin h') i = Some c \<and> cc_status c = Some b"
begin

lemma wp_wait_checkin:
  assumes "holds s h" "\<And>v h'. holds s h' \<Longrightarrow>
      (\<exists>c b. um_find (sessions_waiting_checkin h') i = Some c \<and> cc_status c = Some b) \<Longrightarrow> Q h' (Inr v) h'"
  shows "wp G R Q (suspend (Wait_checkin i) h) h0"
  using assms holds_resumed [OF assms(1)] settled by (simp add: wp_rules silent)

lemma wp_trigger_and_wait_checkin:
  assumes s: "holds s h" "actx_session actx = r" "um_find (sessions_waiting_checkin h) (session_id s) = None"
    and trigger: "\<And>Q h0. (\<And>h1 h'. holds s h' \<Longrightarrow> Q h1 (Inr ()) h') \<Longrightarrow>
       (\<And>h1 h' x. holds s h' \<Longrightarrow> is_exception x \<Longrightarrow> Q h1 (Inl x) h') \<Longrightarrow> wp G R Q (trigger_checkin h) h0"
    and ok: "\<And>h1 h' a. holds (s\<lparr>server_stub := Some a\<rparr>) h' \<Longrightarrow> Q h1 (Inr ()) h'"
    and err: "\<And>h1 h' x b. holds (s\<lparr>server_stub := b\<rparr>) h' \<Longrightarrow> is_exception x \<Longrightarrow> Q h1 (Inl x) h'"
  shows "wp G R Q (trigger_and_wait_checkin actx trigger_checkin h) h0"
proof -
  have err': "Q h1 (Inl x) h'" if "holds s h'" "is_exception x" for h1 h' x
    using err [of "server_stub s"] that by simp
  show ?thesis
    unfolding trigger_and_wait_checkin_def s(2) wp_bindP wp_thenP wp_gets
    apply (rule wp_get_session [OF s(1)])
    apply (simp add: s(3) wp_bindP wp_thenP wp_gets)
    apply (rule trigger)
     apply (simp_all add: err')
    apply (simp add: wp_bindP wp_thenP wp_gets)
    apply (rule wp_get_session, assumption)
    apply (simp add: wp_bindP wp_thenP wp_update)
    apply (rule wp_suspend_held, simp, simp)
    apply (simp add: wp_bindP wp_thenP wp_update)
    apply (rule wp_wait_checkin, assumption)
    apply (simp add: wp_bindP wp_thenP wp_update)
    apply (rule wp_get_session, assumption)
    apply (auto simp: wp_bindP wp_thenP wp_update wp_gets taint_def wp_throw err' 
       intro!: wp_check_server_stub ok err)
    done
qed

end

end
