(* ===== verification/Input_Processing.thy ===== *)
theory Input_Processing
  imports Interference
begin

text \<open>
  \<open>process_pending_query\<close> and \<open>process_pending_inputs\<close> of \<^verbatim>\<open>src/src/server-manager.cpp\<close>. The
  source holds references to the epoch, to its pending query and to the input at the front of
  the queue; the model reads and writes the epoch through its index at each use. Elements of
  the queue are never modified, so the front is read once. \<open>input_slot\<close> is the source's local
  \<^verbatim>\<open>epoch_input_index\<close>. The loops are bounded by \<open>fuel\<close>.
\<close>

section \<open>Running until the machine stops\<close>

text \<open>The local variables of the loop that collects outputs.\<close>

record run_outcome =
  ro_status :: completion_status
  ro_mcycle :: u64
  ro_exception :: bytes
  ro_vouchers :: "voucher_type list"
  ro_notices :: "notice_type list"
  ro_reports :: "report_type list"

definition new_outcome :: "u64 \<Rightarrow> run_outcome" where
  "new_outcome mcycle = \<lparr>ro_status = accepted, ro_mcycle = mcycle, ro_exception = [], ro_vouchers = [],
     ro_notices = [], ro_reports = []\<rparr>"

text \<open>The limits a run is given, read from the session before the loop starts.\<close>

record run_limits =
  rl_max_mcycle :: u64
  rl_mcycle_increment :: u64
  rl_start_time :: int
  rl_deadline_increment :: u64
  rl_max_deadline :: u64

text \<open>An automatic yield while an input is processed: read the output, or ignore the yield.\<close>

definition read_advance_output :: "async_context \<Rightarrow> u64 \<Rightarrow> run_outcome \<Rightarrow> run_outcome handler" where
  "read_advance_output actx yield_reason out =
     (if yield_reason = HTIF_YIELD_REASON_TX_VOUCHER
      then bindP (read_voucher actx) (\<lambda>v. ret (out\<lparr>ro_vouchers := ro_vouchers out @ [v]\<rparr>))
      else if yield_reason = HTIF_YIELD_REASON_TX_NOTICE
      then bindP (read_notice actx) (\<lambda>n. ret (out\<lparr>ro_notices := ro_notices out @ [n]\<rparr>))
      else if yield_reason = HTIF_YIELD_REASON_TX_REPORT
      then bindP (read_report actx) (\<lambda>p. ret (out\<lparr>ro_reports := ro_reports out @ [p]\<rparr>))
      else ret out)"

text \<open>While a query is processed only reports are read.\<close>

definition read_inspect_output :: "async_context \<Rightarrow> u64 \<Rightarrow> run_outcome \<Rightarrow> run_outcome handler" where
  "read_inspect_output actx yield_reason out =
     (if yield_reason = HTIF_YIELD_REASON_TX_REPORT
      then bindP (read_report actx) (\<lambda>p. ret (out\<lparr>ro_reports := ro_reports out @ [p]\<rparr>))
      else ret out)"

text \<open>
  The loop of both functions. They differ in the outputs they read; what they do with a run
  response is the same.
\<close>

definition run_step ::
  "(async_context \<Rightarrow> u64 \<Rightarrow> run_outcome \<Rightarrow> run_outcome handler) \<Rightarrow> async_context \<Rightarrow> run_limits \<Rightarrow>
     run_outcome \<Rightarrow> run_response option \<Rightarrow> (run_outcome \<Rightarrow> run_outcome handler) \<Rightarrow> run_outcome handler" where
  "run_step read_output actx lim out response continue =
     (case response of
        None \<Rightarrow> ret (out\<lparr>ro_status := time_limit_exceeded\<rparr>)
      | Some run_response \<Rightarrow>
        if run_mcycle run_response \<ge> rl_max_mcycle lim then ret (out\<lparr>ro_status := cycle_limit_exceeded\<rparr>)
        else if iflags_h run_response then ret (out\<lparr>ro_status := machine_halted\<rparr>)
        else
          let yield_reason = yield_reason_of (run_tohost run_response) in
          if iflags_y run_response then
            if yield_reason = HTIF_YIELD_REASON_RX_REJECTED then ret (out\<lparr>ro_status := rejected\<rparr>)
            else if yield_reason = HTIF_YIELD_REASON_RX_ACCEPTED
            then ret (out\<lparr>ro_status := accepted, ro_mcycle := run_mcycle run_response\<rparr>)
            else if yield_reason = HTIF_YIELD_REASON_TX_EXCEPTION
            then bindP (read_exception actx) (\<lambda>data. ret (out\<lparr>ro_status := exception, ro_exception := data\<rparr>))
            else taint actx OUT_OF_RANGE ''unknown machine yield reason''
          else if \<not> iflags_x run_response
          then taint actx INTERNAL ''machine returned without hitting mcycle limit or yielding''
          else bindP (read_output actx yield_reason out) (\<lambda>out. continue (out\<lparr>ro_mcycle := run_mcycle run_response\<rparr>)))"

primrec run_loop ::
  "nat \<Rightarrow> nat \<Rightarrow> (async_context \<Rightarrow> u64 \<Rightarrow> run_outcome \<Rightarrow> run_outcome handler) \<Rightarrow> async_context \<Rightarrow> run_limits \<Rightarrow>
     run_outcome \<Rightarrow> run_outcome handler" where
  "run_loop 0 fuel read_output actx lim out = throw Out_of_fuel"
| "run_loop (Suc rounds) fuel read_output actx lim out =
     bindP (run_machine fuel actx (ro_mcycle out) (rl_mcycle_increment lim) (rl_max_mcycle lim)
              (rl_start_time lim) (rl_deadline_increment lim) (rl_max_deadline lim)) (\<lambda>response.
       run_step read_output actx lim out response (run_loop rounds fuel read_output actx lim))"

section \<open>Queries\<close>

text \<open>The pending query of an epoch, through the reference the handler took.\<close>

definition get_query :: "session_ref \<Rightarrow> u64 \<Rightarrow> query_type handler" where
  "get_query r i =
     bindP (get_epoch r i) (\<lambda>e. case pending_query e of None \<Rightarrow> throw dangling | Some q \<Rightarrow> ret q)"

definition set_query :: "session_ref \<Rightarrow> u64 \<Rightarrow> (query_type \<Rightarrow> query_type) \<Rightarrow> unit handler" where
  "set_query r i f =
     bindP (get_query r i) (\<lambda>q. set_epoch r i (\<lambda>e. e\<lparr>pending_query := Some (f q)\<rparr>))"

definition payload_fits :: "bytes \<Rightarrow> session_type \<Rightarrow> bool" where
  "payload_fits payload s \<longleftrightarrow>
     of_nat (length payload) + of_nat EVM_ABI_STRING_HEADER_LENGTH \<le> desc_length (rx_buffer (memory_range s))"

definition inspect_limits :: "session_type \<Rightarrow> int \<Rightarrow> run_limits" where
  "inspect_limits s start_time =
     \<lparr>rl_max_mcycle = current_mcycle s + max_inspect_state (server_cycles s),
      rl_mcycle_increment = inspect_state_increment (server_cycles s), rl_start_time = start_time,
      rl_deadline_increment = dl_inspect_state_increment (server_deadline s),
      rl_max_deadline = dl_inspect_state (server_deadline s)\<rparr>"

text \<open>
  The status, reports and exception data of the query are written into the pending query when the
  loop is over. The source writes them as they come; nobody else reads them before the function
  returns. When the loop throws, the pending query of the source has the reports read so far, here it
  has none; the handler then replies with an error and does not read them.
\<close>

definition process_pending_query :: "nat \<Rightarrow> async_context \<Rightarrow> u64 \<Rightarrow> unit handler" where
  "process_pending_query fuel actx i =
     (let r = actx_session actx in
      bindP (get_epoch r i) (\<lambda>e.
      if pending_query e = None then ret ()
      else
        bindP (get_session r) (\<lambda>s.
        thenP (set_query r i (\<lambda>q. q\<lparr>q_processed_input_count := processed_input_count s\<rparr>))
        (bindP (get_query r i) (\<lambda>q.
        if \<not> payload_fits (q_payload q) s
        then set_query r i (\<lambda>q. q\<lparr>q_status := payload_length_limit_exceeded\<rparr>)
        else
          thenP (trigger_and_wait_checkin actx (snapshot actx))
          (thenP (clear_rx_buffer actx)
          (bindP (get_query r i) (\<lambda>q.
          thenP (write_evm_abi_string actx (q_payload q) rx_buffer)
          (thenP (reset_iflags_y actx)
          (thenP (set_htif_yield_ack_data actx ROLLUP_INSPECT_STATE)
          (bindP (get_session r) (\<lambda>s.
          bindP (suspend Clock_now) (\<lambda>start.
          bindP (run_loop fuel fuel read_inspect_output actx (inspect_limits s (clock_now start))
                   (new_outcome (current_mcycle s))) (\<lambda>out.
          thenP (set_query r i (\<lambda>q. q\<lparr>q_status := ro_status out,
                   q_exception_data := (if ro_status out = exception then Some (ro_exception out) else q_exception_data q),
                   q_reports := q_reports q @ ro_reports out\<rparr>))
            (trigger_and_wait_checkin actx (rollback actx))))))))))))))))"

section \<open>Inputs\<close>

definition advance_limits :: "session_type \<Rightarrow> int \<Rightarrow> run_limits" where
  "advance_limits s start_time =
     \<lparr>rl_max_mcycle = current_mcycle s + max_advance_state (server_cycles s),
      rl_mcycle_increment = advance_state_increment (server_cycles s), rl_start_time = start_time,
      rl_deadline_increment = dl_advance_state_increment (server_deadline s),
      rl_max_deadline = dl_advance_state (server_deadline s)\<rparr>"

definition check_tree_sizes :: "async_context \<Rightarrow> u64 \<Rightarrow> nat \<Rightarrow> unit handler" where
  "check_tree_sizes actx i input_slot =
     bindP (get_epoch (actx_session actx) i) (\<lambda>e.
     bindP (liftH (lift_res (cmt_size (vouchers_tree e)))) (\<lambda>n.
     if n \<noteq> input_slot
     then taint actx INTERNAL ''inconsistent number of entries in epoch's session vouchers Merkle tree''
     else
       bindP (liftH (lift_res (cmt_size (notices_tree e)))) (\<lambda>n.
       if n \<noteq> input_slot
       then taint actx INTERNAL ''inconsistent number of entries in epoch's session notices Merkle tree''
       else ret ())))"

text \<open>Giving the input to the machine and running it.\<close>

definition run_input :: "nat \<Rightarrow> async_context \<Rightarrow> u64 \<Rightarrow> nat \<Rightarrow> input_type \<Rightarrow> u64 \<Rightarrow> run_outcome handler" where
  "run_input fuel actx i input_slot input mcycle =
     thenP (clear_memory_ranges actx)
     (thenP (write_evm_abi_string actx (in_payload input) rx_buffer)
     (thenP (write_memory_range actx (evm_abi_encoded_input_metadata (in_metadata input)) input_metadata)
     (thenP (reset_iflags_y actx)
     (thenP (check_htif_yield_ack_data actx ROLLUP_ADVANCE_STATE)
     (bindP (get_session (actx_session actx)) (\<lambda>s.
     bindP (suspend Clock_now) (\<lambda>start.
     bindP (run_loop fuel fuel read_advance_output actx (advance_limits s (clock_now start)) (new_outcome mcycle)) (\<lambda>out.
     thenP (check_tree_sizes actx i input_slot)
       (ret out)))))))))"

text \<open>Appending a leaf to one of the epoch trees and proving it.\<close>

definition push_leaf ::
  "digest \<Rightarrow> session_ref \<Rightarrow> u64 \<Rightarrow> (epoch_type \<Rightarrow> complete_merkle_tree) \<Rightarrow>
     (complete_merkle_tree \<Rightarrow> epoch_type \<Rightarrow> epoch_type) \<Rightarrow> nat \<Rightarrow> hash_type \<Rightarrow> merkle_tree_proof handler" where
  "push_leaf K r i get put input_slot hash =
     bindP (get_epoch r i) (\<lambda>e.
     bindP (liftH (lift_res (cmt_push_back K hash (get e)))) (\<lambda>t.
     thenP (set_epoch r i (put t))
     (bindP (get_epoch r i) (\<lambda>e.
       liftH (lift_res (cmt_get_proof (get e) (leaf_address (of_nat input_slot)) LOG2_KECCAK_SIZE))))))"

text \<open>The keccak of every output and its proof within the memory range of the hashes.\<close>

definition attach_hash ::
  "digest \<Rightarrow> async_context \<Rightarrow> (memory_ranges_type \<Rightarrow> memory_range_description_type) \<Rightarrow> bytes \<Rightarrow>
     (keccak_type \<Rightarrow> 'o \<Rightarrow> 'o) \<Rightarrow> nat \<Rightarrow> 'o list \<Rightarrow> 'o list handler" where
  "attach_hash K actx rng hashes put entry_index outputs =
     bindP (liftH (get_hash (actx_session actx) (take KECCAK_SIZE (drop (entry_index * KECCAK_SIZE) hashes)))) (\<lambda>keccak.
     bindP (get_proof actx (\<lambda>s. desc_start (rng (memory_range s)) + of_nat entry_index * of_nat KECCAK_SIZE)
              (\<lambda>_. word_of_int LOG2_KECCAK_SIZE)) (\<lambda>p.
     bindP (get_session (actx_session actx)) (\<lambda>s.
     bindP (liftH (lift_res (slice K p (int_of_u64 (desc_log2_size (rng (memory_range s)))) LOG2_KECCAK_SIZE))) (\<lambda>keccak_in_hashes.
       ret (outputs[entry_index :=
         put \<lparr>keccak = keccak, keccak_in_hashes = keccak_in_hashes\<rparr> (outputs ! entry_index)])))))"

text \<open>What is done for vouchers and then, in the same way, for notices of an accepted input.\<close>

definition record_outputs ::
  "digest \<Rightarrow> async_context \<Rightarrow> u64 \<Rightarrow> nat \<Rightarrow> (memory_ranges_type \<Rightarrow> memory_range_description_type) \<Rightarrow>
     (epoch_type \<Rightarrow> complete_merkle_tree) \<Rightarrow> (complete_merkle_tree \<Rightarrow> epoch_type \<Rightarrow> epoch_type) \<Rightarrow>
     string \<Rightarrow> (keccak_type \<Rightarrow> 'o \<Rightarrow> 'o) \<Rightarrow> 'o list \<Rightarrow>
     (merkle_tree_proof \<times> merkle_tree_proof \<times> 'o list) handler" where
  "record_outputs K actx i input_slot rng get put disagree put_hash outputs =
     bindP (get_proof actx (\<lambda>s. desc_start (rng (memory_range s))) (\<lambda>s. desc_log2_size (rng (memory_range s)))) (\<lambda>in_machine.
     bindP (push_leaf K (actx_session actx) i get put input_slot (mtp_target_hash in_machine)) (\<lambda>in_epoch.
     bindP (read_memory_range actx rng) (\<lambda>hashes.
     let output_count = unat (count_null_terminated_entries hashes KECCAK_SIZE) in
     if output_count \<noteq> length outputs then taint actx INVALID_ARGUMENT disagree
     else
       bindP (for_each (attach_hash K actx rng hashes put_hash) [0..<output_count] outputs) (\<lambda>outputs.
         ret (in_machine, in_epoch, outputs)))))"

definition accepted_result ::
  "u64 \<Rightarrow> nat \<Rightarrow> run_outcome \<Rightarrow> merkle_tree_proof \<times> merkle_tree_proof \<times> voucher_type list \<Rightarrow>
     merkle_tree_proof \<times> merkle_tree_proof \<times> notice_type list \<Rightarrow> hash_type \<Rightarrow> processed_input_type" where
  "accepted_result global_input_index input_slot out v n hash =
     \<lparr>input_index = global_input_index, epoch_input_index = of_nat input_slot, pi_machine_hash = hash,
      voucher_hashes_in_epoch = fst (snd v), notice_hashes_in_epoch = fst (snd n), pi_status = ro_status out,
      processed = Accepted_data \<lparr>voucher_hashes_in_machine = fst v, vouchers = snd (snd v),
        notice_hashes_in_machine = fst n, notices = snd (snd n)\<rparr>,
      pi_reports = ro_reports out\<rparr>"

definition accept_input :: "digest \<Rightarrow> async_context \<Rightarrow> u64 \<Rightarrow> u64 \<Rightarrow> nat \<Rightarrow> run_outcome \<Rightarrow> unit handler" where
  "accept_input K actx i global_input_index input_slot out =
     (let r = actx_session actx in
      bindP (record_outputs K actx i input_slot voucher_hashes vouchers_tree (\<lambda>t e. e\<lparr>vouchers_tree := t\<rparr>)
               ''number of vouchers yielded and non-zero voucher hashes disagree''
               (\<lambda>k v. v\<lparr>v_hash := Some k\<rparr>) (ro_vouchers out)) (\<lambda>v.
      bindP (record_outputs K actx i input_slot notice_hashes notices_tree (\<lambda>t e. e\<lparr>notices_tree := t\<rparr>)
               ''number notices yielded and non-zero notice hashes disagree''
               (\<lambda>k n. n\<lparr>n_hash := Some k\<rparr>) (ro_notices out)) (\<lambda>n.
      bindP (get_root_hash actx) (\<lambda>hash.
      thenP (set_epoch r i (\<lambda>e. e\<lparr>most_recent_machine_hash := hash\<rparr>))
      (thenP (set_epoch r i (\<lambda>e. e\<lparr>processed_inputs := processed_inputs e @
                [accepted_result global_input_index input_slot out v n (most_recent_machine_hash e)]\<rparr>))
        (set_session r (\<lambda>s. s\<lparr>current_mcycle := ro_mcycle out\<rparr>)))))))"

definition skipped_result ::
  "u64 \<Rightarrow> nat \<Rightarrow> run_outcome \<Rightarrow> merkle_tree_proof \<Rightarrow> merkle_tree_proof \<Rightarrow> hash_type \<Rightarrow> processed_input_type" where
  "skipped_result global_input_index input_slot out v n hash =
     \<lparr>input_index = global_input_index, epoch_input_index = of_nat input_slot, pi_machine_hash = hash,
      voucher_hashes_in_epoch = v, notice_hashes_in_epoch = n, pi_status = ro_status out,
      processed = Exception_data (ro_exception out), pi_reports = ro_reports out\<rparr>"

definition skip_input :: "digest \<Rightarrow> async_context \<Rightarrow> u64 \<Rightarrow> u64 \<Rightarrow> nat \<Rightarrow> run_outcome \<Rightarrow> unit handler" where
  "skip_input K actx i global_input_index input_slot out =
     (let r = actx_session actx in
      thenP (trigger_and_wait_checkin actx (rollback actx))
      (bindP (push_leaf K r i vouchers_tree (\<lambda>t e. e\<lparr>vouchers_tree := t\<rparr>) input_slot zero_hash) (\<lambda>v.
      bindP (push_leaf K r i notices_tree (\<lambda>t e. e\<lparr>notices_tree := t\<rparr>) input_slot zero_hash) (\<lambda>n.
      bindP (get_root_hash actx) (\<lambda>hash.
      bindP (get_epoch r i) (\<lambda>e.
      if most_recent_machine_hash e \<noteq> hash then taint actx INTERNAL ''machine hash is changed after rollback''
      else
        set_epoch r i (\<lambda>e. e\<lparr>processed_inputs := processed_inputs e @
          [skipped_result global_input_index input_slot out v n (most_recent_machine_hash e)]\<rparr>)))))))"

text \<open>One round of the loop, up to removing the input from the queue.\<close>

definition process_input :: "nat \<Rightarrow> digest \<Rightarrow> async_context \<Rightarrow> u64 \<Rightarrow> unit handler" where
  "process_input fuel K actx i =
     (let r = actx_session actx in
      bindP (get_session r) (\<lambda>s.
      let global_input_index = processed_input_count s in
      bindP (get_epoch r i) (\<lambda>e.
      let input_slot = length (processed_inputs e); input = hd (pending_inputs e) in
      thenP (trigger_and_wait_checkin actx (snapshot actx))
      (bindP (get_session r) (\<lambda>s.
      bindP (if payload_fits (in_payload input) s
             then run_input fuel actx i input_slot input (current_mcycle s)
             else ret ((new_outcome (current_mcycle s))\<lparr>ro_status := payload_length_limit_exceeded\<rparr>)) (\<lambda>out.
      thenP (if ro_status out = accepted
             then accept_input K actx i global_input_index input_slot out
             else skip_input K actx i global_input_index input_slot out)
      (thenP (set_session r (\<lambda>s. s\<lparr>processed_input_count := processed_input_count s + 1\<rparr>))
        (set_epoch r i (\<lambda>e. e\<lparr>pending_inputs := tl (pending_inputs e)\<rparr>)))))))))"

definition enqueue_completion_queue :: "coroutine option \<Rightarrow> unit handler" where
  "enqueue_completion_queue c =
     (case c of
        None \<Rightarrow> throw (Std_exception (Undefined_behaviour ''null coroutine''))
      | Some c \<Rightarrow> update (\<lambda>h. Inr (h\<lparr>completion_queue := completion_queue h @ [c]\<rparr>)))"

text \<open>Handing over to the coroutine of a pending query, if there is one.\<close>

definition resume_pending_query :: "session_ref \<Rightarrow> u64 \<Rightarrow> coroutine \<Rightarrow> unit handler" where
  "resume_pending_query r i self =
     bindP (get_epoch r i) (\<lambda>e.
     case pending_query e of
       None \<Rightarrow> ret ()
     | Some q \<Rightarrow>
       thenP (enqueue_completion_queue (q_coroutine q))
       (thenP (set_query r i (\<lambda>q. q\<lparr>q_coroutine := Some self\<rparr>))
         (bindP (suspend Wait_resume) (\<lambda>_. ret ()))))"

primrec process_inputs_loop :: "nat \<Rightarrow> nat \<Rightarrow> digest \<Rightarrow> async_context \<Rightarrow> u64 \<Rightarrow> unit handler" where
  "process_inputs_loop 0 fuel K actx i = throw Out_of_fuel"
| "process_inputs_loop (Suc n) fuel K actx i =
     bindP (get_epoch (actx_session actx) i) (\<lambda>e.
     if pending_inputs e = [] then ret ()
     else
       thenP (process_input fuel K actx i)
       (thenP (resume_pending_query (actx_session actx) i (actx_self actx))
         (process_inputs_loop n fuel K actx i)))"

definition process_pending_inputs :: "nat \<Rightarrow> digest \<Rightarrow> async_context \<Rightarrow> u64 \<Rightarrow> unit handler" where
  "process_pending_inputs fuel K actx i =
     bindP (get_session (actx_session actx)) (\<lambda>s.
     if processing_lock s then taint actx INTERNAL ''concurrent input processing detected in session''
     else
       with_auto_lock Processing_lock (actx_session actx) ''process_pending_inputs processing lock''
         (process_inputs_loop fuel fuel K actx i))"

end
