(* ===== verification/Session_Logic.thy ===== *)
theory Session_Logic
  imports Interference
begin

text \<open>
  A rely-guarantee logic for handlers that work on a session other handlers may change. A
  triple \<open>triple P m Q E\<close> says: started with a session that satisfies \<open>P\<close>, the program \<open>m\<close>
  keeps the guarantee at every yield point and either returns a value \<open>v\<close> with the session
  satisfying \<open>Q v\<close>, or throws with the session satisfying \<open>E\<close>; it never runs into undefined
  behaviour and never taints another session. The locale states what the handler relies on.
\<close>

text \<open>The exceptions allowed: no undefined behaviour, and no other session is tainted.\<close>

definition contained :: "session_ref \<Rightarrow> handler_exn \<Rightarrow> bool" where
  "contained r x \<longleftrightarrow> (\<forall>m. x \<noteq> Std_exception (Undefined_behaviour m)) \<and> (\<forall>t st. x = Taint_session t st \<longrightarrow> t = r)"

lemma contained_simps [simp]:
  "contained r (Finish_error_yield_none st)" "contained r (Taint_session t st) \<longleftrightarrow> t = r"
  "contained r Exit_process" "contained r Out_of_fuel"
  "contained r (Std_exception c) \<longleftrightarrow> (\<forall>m. c \<noteq> Undefined_behaviour m)"
  by (auto simp: contained_def)

locale session_logic =
  fixes r :: session_ref
    and R :: "yield_point \<Rightarrow> handler_context \<Rightarrow> wake \<Rightarrow> handler_context \<Rightarrow> bool"
    and guar :: "yield_point \<Rightarrow> session_type \<Rightarrow> bool"
    and evolves :: "session_type \<Rightarrow> session_type \<Rightarrow> bool"
    and replies :: "yield_point \<Rightarrow> wake \<Rightarrow> bool"
  assumes atomic: "R y h w h' \<Longrightarrow> atomic_point y \<Longrightarrow> h' = h"
    and resumed: "R y h w h' \<Longrightarrow> \<not> atomic_point y \<Longrightarrow> deref r h = Inr s \<Longrightarrow>
      \<exists>s'. deref r h' = Inr s' \<and> evolves s s'"
    and answered: "R y h w h' \<Longrightarrow> replies y w"
begin

definition at :: "(session_type \<Rightarrow> bool) \<Rightarrow> handler_context \<Rightarrow> bool" where
  "at P h \<longleftrightarrow> (\<exists>s. deref r h = Inr s \<and> P s)"

definition G :: "handler_context \<Rightarrow> yield_point \<Rightarrow> handler_context \<Rightarrow> bool" where
  "G h0 y h \<longleftrightarrow> at (guar y) h"

definition post :: "('a \<Rightarrow> session_type \<Rightarrow> bool) \<Rightarrow> (session_type \<Rightarrow> bool) \<Rightarrow>
    handler_context \<Rightarrow> 'a hres \<Rightarrow> handler_context \<Rightarrow> bool" where
  "post Q E h1 res h = (case res of Inl x \<Rightarrow> at E h \<and> contained r x | Inr v \<Rightarrow> at (Q v) h)"

definition triple :: "(session_type \<Rightarrow> bool) \<Rightarrow> 'a handler \<Rightarrow> ('a \<Rightarrow> session_type \<Rightarrow> bool) \<Rightarrow>
    (session_type \<Rightarrow> bool) \<Rightarrow> bool" where
  "triple P m Q E \<longleftrightarrow> (\<forall>h h0. at P h \<longrightarrow> wp G R (post Q E) (m h) h0)"

definition stable :: "(session_type \<Rightarrow> bool) \<Rightarrow> bool" where
  "stable P \<longleftrightarrow> (\<forall>s s'. P s \<longrightarrow> evolves s s' \<longrightarrow> P s')"

lemma at_mono: "at P h \<Longrightarrow> (\<And>s. P s \<Longrightarrow> P' s) \<Longrightarrow> at P' h"
  by (auto simp: at_def)

lemma post_mono: "post Q E h1 res h \<Longrightarrow> (\<And>v s. Q v s \<Longrightarrow> Q' v s) \<Longrightarrow> (\<And>s. E s \<Longrightarrow> E' s) \<Longrightarrow> post Q' E' h1 res h"
  by (auto simp: post_def at_def split: sum.splits)

lemma conseq:
  assumes "triple P' m Q' E'" "\<And>s. P s \<Longrightarrow> P' s" "\<And>v s. Q' v s \<Longrightarrow> Q v s" "\<And>s. E' s \<Longrightarrow> E s"
  shows "triple P m Q E"
  unfolding triple_def
proof (intro allI impI)
  fix h h0 assume "at P h"
  then have "wp G R (post Q' E') (m h) h0"
    using assms(1) at_mono [OF _ assms(2)] by (auto simp: triple_def)
  then show "wp G R (post Q E) (m h) h0"
    by (rule wp_mono) (erule post_mono [OF _ assms(3,4)])
qed

lemma bind:
  assumes "triple P m Q E" "\<And>v. triple (Q v) (f v) Q' E"
  shows "triple P (bindP m f) Q' E"
  unfolding triple_def wp_bindP
proof (intro allI impI)
  fix h h0 assume "at P h"
  then have "wp G R (post Q E) (m h) h0" using assms(1) by (simp add: triple_def)
  then show "wp G R (\<lambda>s1 res s. case res of Inl x \<Rightarrow> post Q' E s1 (Inl x) s | Inr a \<Rightarrow> wp G R (post Q' E) (f a s) s1) (m h) h0"
    by (rule wp_mono) (use assms(2) in \<open>auto simp: post_def triple_def split: sum.splits\<close>)
qed

lemma seq: "triple P m (\<lambda>_. Q) E \<Longrightarrow> triple Q n Q' E \<Longrightarrow> triple P (thenP m n) Q' E"
  unfolding thenP_def by (rule bind)

lemma return: "(\<And>s. P s \<Longrightarrow> Q v s) \<Longrightarrow> triple P (ret v) Q E"
  by (auto simp: triple_def wp_ret post_def intro: at_mono)

lemma raise: "(\<And>s. P s \<Longrightarrow> E s) \<Longrightarrow> contained r x \<Longrightarrow> triple P (throw x) Q E"
  by (auto simp: triple_def wp_throw post_def intro: at_mono)

lemma lift:
  assumes "\<And>s v. P s \<Longrightarrow> res = Inr v \<Longrightarrow> Q v s" "\<And>s x. P s \<Longrightarrow> res = Inl x \<Longrightarrow> E s \<and> contained r x"
  shows "triple P (liftH res) Q E"
  using assms by (auto simp: triple_def wp_liftH post_def at_def split: sum.split)

lemma read_session: "triple P (get_session r) (\<lambda>v s. P s \<and> v = s) E"
  by (auto simp: triple_def get_session_def wp_gets post_def at_def)

lemma write_session:
  assumes "\<And>s. P s \<Longrightarrow> Q () (f s) \<and> session_object (f s) = session_object s"
  shows "triple P (set_session r f) Q E"
  unfolding triple_def
proof (intro allI impI)
  fix h h0 assume "at P h"
  then obtain s where s: "deref r h = Inr s" "P s" by (auto simp: at_def)
  have "session_object (f s) = ref_object r" using s assms [OF s(2)] by (simp add: deref_Inr_iff)
  then have "deref r (assign_session r (f s) h) = Inr (f s)" by simp
  then show "wp G R (post Q E) (set_session r f h) h0"
    using s assms [OF s(2)] by (simp add: set_session_def wp_update write_session_def post_def at_def)
qed

lemma read_epoch:
  assumes "\<And>s. P s \<Longrightarrow> sm_find (epochs s) i \<noteq> None"
  shows "triple P (get_epoch r i) (\<lambda>e s. P s \<and> sm_find (epochs s) i = Some e) E"
  using assms by (fastforce simp: triple_def get_epoch_def wp_gets post_def at_def deref_epoch_def)

lemma write_epoch:
  assumes "\<And>s. P s \<Longrightarrow> \<exists>e. sm_find (epochs s) i = Some e \<and> Q () (s\<lparr>epochs := sm_assign i (f e) (epochs s)\<rparr>)"
  shows "triple P (set_epoch r i f) Q E"
  unfolding triple_def
proof (intro allI impI)
  fix h h0 assume "at P h"
  then obtain s where s: "deref r h = Inr s" "P s" by (auto simp: at_def)
  obtain e where e: "sm_find (epochs s) i = Some e" "Q () (s\<lparr>epochs := sm_assign i (f e) (epochs s)\<rparr>)"
    using assms [OF s(2)] by blast
  have "session_object s = ref_object r" using s by (simp add: deref_Inr_iff)
  then show "wp G R (post Q E) (set_epoch r i f h) h0"
    using s(1) e
    by (simp add: set_epoch_def wp_update write_epoch_def deref_epoch_def write_session_def post_def at_def)
qed

lemma yields:
  assumes "\<And>s. P s \<Longrightarrow> guar y s" "\<And>s s' w. P s \<Longrightarrow> (if atomic_point y then s' = s else evolves s s') \<Longrightarrow> replies y w \<Longrightarrow> Q w s'"
  shows "triple P (suspend y) Q E"
  unfolding triple_def wp_suspend
proof (intro allI impI conjI)
  fix h h0 assume h: "at P h"
  then show "G h0 y h" using assms(1) by (auto simp: G_def at_def)
  fix w h' assume R: "R y h w h'"
  obtain s where s: "deref r h = Inr s" "P s" using h by (auto simp: at_def)
  obtain s' where "deref r h' = Inr s'" "if atomic_point y then s' = s else evolves s s'"
    using atomic [OF R] resumed [OF R _ s(1)] s(1) by (cases "atomic_point y") auto
  then show "post Q E h' (Inr w) h'" using assms(2) [OF s(2) _ answered [OF R]] by (auto simp: post_def at_def)
qed

lemma cases_if:
  assumes "b \<Longrightarrow> triple P m Q E" "\<not> b \<Longrightarrow> triple P n Q E"
  shows "triple P (if b then m else n) Q E"
  using assms by simp

text \<open>A fact about the session that does not change it may be used to choose the rule.\<close>

lemma given: "(\<And>s. P s \<Longrightarrow> A) \<Longrightarrow> (A \<Longrightarrow> triple P m Q E) \<Longrightarrow> triple P m Q E"
  by (auto simp: triple_def at_def)

lemma loop:
  assumes "\<And>x t. x \<in> set xs \<Longrightarrow> triple (I t) (body x t) I E"
  shows "triple (I t) (for_each body xs t) I E"
  using assms
proof (induction xs arbitrary: t)
  case Nil
  then show ?case by (simp add: return)
next
  case (Cons x xs)
  have "triple (I t) (bindP (body x t) (for_each body xs)) I E"
    by (rule bind [where Q = I]) (simp_all add: Cons)
  then show ?case by simp
qed

text \<open>A program that does not yield.\<close>

lemma segment:
  assumes "\<And>h s. deref r h = Inr s \<Longrightarrow> P s \<Longrightarrow>
    (\<exists>h' x. m h = Done h' (Inl x) \<and> at E h' \<and> contained r x) \<or> (\<exists>h' v. m h = Done h' (Inr v) \<and> at (Q v) h')"
  shows "triple P m Q E"
  unfolding triple_def
proof (intro allI impI)
  fix h h0 assume "at P h"
  then obtain s where "deref r h = Inr s" "P s" by (auto simp: at_def)
  then show "wp G R (post Q E) (m h) h0" using assms [of h s] by (auto simp: post_def)
qed

lemma loop_upt:
  assumes "\<And>j t. a \<le> j \<Longrightarrow> j < b \<Longrightarrow> triple (I j t) (body j t) (I (Suc j)) E" "a \<le> b"
  shows "triple (I a t) (for_each body [a..<b] t) (I b) E"
  using assms
proof (induction "b - a" arbitrary: a t)
  case 0
  then show ?case by (simp add: return)
next
  case (Suc n)
  then have "triple (I a t) (bindP (body a t) (for_each body [Suc a..<b])) (I b) E"
    by (intro bind [where Q = "I (Suc a)"]) simp_all
  then show ?case using Suc.hyps(2) by (simp add: upt_conv_Cons)
qed

section \<open>Talking to the machine server\<close>

text \<open>
  An assertion that survives every call to the machine server: it is stable, implies a stub
  and the guarantee, and is strong enough for the error case.
\<close>

definition calm :: "(session_type \<Rightarrow> bool) \<Rightarrow> (session_type \<Rightarrow> bool) \<Rightarrow> bool" where
  "calm P E \<longleftrightarrow> stable P \<and> (\<forall>s. P s \<longrightarrow> server_stub s \<noteq> None \<and> E s \<and> (\<forall>y. \<not> is_reply y \<longrightarrow> guar y s))"

lemma calmD: "calm P E \<Longrightarrow> P s \<Longrightarrow> E s" by (simp add: calm_def)

lemma calm_yield:
  assumes "calm P E" "\<not> is_reply y"
  shows "triple P (suspend y) (\<lambda>w s. P s \<and> replies y w) E"
  using assms by (intro yields) (auto simp: calm_def stable_def split: if_splits)

lemma call:
  assumes "calm P E" "actx_session actx = r"
  shows "triple P (machine_call actx deadline request) (\<lambda>w s. P s \<and> (\<exists>a s0. P s0 \<and> replies (Machine_call a (request s0) (deadline s0)) w)) E"
  unfolding machine_call_def assms(2)
proof (rule bind [OF read_session])
  fix s0
  show "triple (\<lambda>s. P s \<and> s0 = s)
     (case server_stub s0 of None \<Rightarrow> throw (Std_exception (Undefined_behaviour ''null stub''))
      | Some address \<Rightarrow> suspend (Machine_call address (request s0) (deadline s0)))
     (\<lambda>w s. P s \<and> (\<exists>a s0. P s0 \<and> replies (Machine_call a (request s0) (deadline s0)) w)) E"
  proof (cases "server_stub s0")
    case None
    then show ?thesis using assms(1) by (rule_tac given [where A = False]) (auto simp: calm_def)
  next
    case (Some a)
    let ?y = "Machine_call a (request s0) (deadline s0)"
    have "triple (\<lambda>s. P s \<and> s0 = s) (suspend ?y) (\<lambda>w s. P s \<and> P s0 \<and> replies ?y w) E"
    proof (rule yields)
      fix s assume "P s \<and> s0 = s"
      then show "guar ?y s" using assms(1) by (simp add: calm_def)
      fix s' w assume "if atomic_point ?y then s' = s else evolves s s'" "replies ?y w"
      then show "P s' \<and> P s0 \<and> replies ?y w"
        using \<open>P s \<and> s0 = s\<close> assms(1) unfolding calm_def stable_def by auto
    qed
    then have "triple (\<lambda>s. P s \<and> s0 = s) (suspend ?y)
        (\<lambda>w s. P s \<and> (\<exists>a s0. P s0 \<and> replies (Machine_call a (request s0) (deadline s0)) w)) E"
      by (rule conseq) blast+
    then show ?thesis using Some by simp
  qed
qed

lemma calm_call:
  assumes "calm P E" "actx_session actx = r" "\<And>w. triple P (f w) Q E"
  shows "triple P (bindP (machine_call actx deadline request) f) Q E"
  by (rule bind [OF call [OF assms(1,2)]]) (rule conseq [OF assms(3)], auto)

lemma calm_raise: "calm P E \<Longrightarrow> contained r x \<Longrightarrow> triple P (throw x) Q E"
  by (rule raise) (auto simp: calm_def)

lemma calm_taint: "calm P E \<Longrightarrow> actx_session actx = r \<Longrightarrow> triple P (taint actx code m) Q E"
  by (simp add: taint_def calm_raise)

lemma calm_check_status:
  "calm P E \<Longrightarrow> t = r \<Longrightarrow> triple P (CHECK_STATUS_OR_TAINT st t d) (\<lambda>_. P) E"
  "calm P E \<Longrightarrow> triple P (CHECK_STATUS_OR_FAIL st d) (\<lambda>_. P) E"
  by (simp_all add: CHECK_STATUS_OR_TAINT_def CHECK_STATUS_OR_FAIL_def return calm_raise)

lemma calm_lift: "calm P E \<Longrightarrow> (\<And>x. res = Inl x \<Longrightarrow> contained r x) \<Longrightarrow>
    triple P (liftH res) (\<lambda>v s. P s \<and> res = Inr v) E"
  by (rule lift) (auto simp: calm_def)

lemma calm_session: "(\<And>s. P s \<Longrightarrow> triple P (f s) Q E) \<Longrightarrow> triple P (bindP (get_session r) f) Q E"
  by (rule bind [OF read_session], rule given [where A = "P _"]) (auto intro: conseq)

lemma weaken_pre: "triple P m Q E \<Longrightarrow> (\<And>s. P' s \<Longrightarrow> P s) \<Longrightarrow> triple P' m Q E"
  by (erule conseq) auto

lemma weaken_post: "triple P m Q E \<Longrightarrow> (\<And>v s. Q v s \<Longrightarrow> Q' v s) \<Longrightarrow> triple P m Q' E"
  by (erule conseq) auto

text \<open>The calls that only check the status.\<close>

lemma calm_simple_calls:
  assumes "calm P E" "actx_session actx = r"
  shows "triple P (snapshot actx) (\<lambda>_. P) E"
    and "triple P (rollback actx) (\<lambda>_. P) E"
    and "triple P (reset_iflags_y actx) (\<lambda>_. P) E"
    and "triple P (set_htif_fromhost actx v) (\<lambda>_. P) E"
    and "triple P (replace_memory_range actx rng) (\<lambda>_. P) E"
    and "triple P (write_memory_range actx data rng) (\<lambda>_. P) E"
    and "triple P (write_evm_abi_string actx data rng) (\<lambda>_. P) E"
  unfolding snapshot_def rollback_def reset_iflags_y_def set_htif_fromhost_def replace_memory_range_def
    write_memory_range_def write_evm_abi_string_def
  by (rule calm_call [OF assms] calm_check_status(1) [OF assms])+

lemma calm_clear:
  assumes "calm P E" "actx_session actx = r"
  shows "triple P (clear_memory_ranges actx) (\<lambda>_. P) E" "triple P (clear_rx_buffer actx) (\<lambda>_. P) E"
  unfolding clear_memory_ranges_def clear_rx_buffer_def
  by (rule loop calm_simple_calls(5) [OF assms])+

lemma calm_htif:
  assumes "calm P E" "actx_session actx = r"
  shows "triple P (get_htif_fromhost actx) (\<lambda>_. P) E"
    and "triple P (check_htif_yield_manual actx name v) (\<lambda>_. P) E"
  unfolding get_htif_fromhost_def check_htif_yield_manual_def Let_def
  by (rule calm_call [OF assms] seq calm_check_status(1) [OF assms] return cases_if calm_taint [OF assms] | assumption)+

lemma calm_yield_ack:
  assumes "calm P E" "actx_session actx = r"
  shows "triple P (check_htif_yield_ack_data actx v) (\<lambda>_. P) E"
    and "triple P (set_htif_yield_ack_data actx v) (\<lambda>_. P) E"
  unfolding check_htif_yield_ack_data_def set_htif_yield_ack_data_def Let_def
  by (rule bind [OF calm_htif(1) [OF assms]] seq [OF calm_htif(2) [OF assms]] cases_if calm_taint [OF assms]
      calm_simple_calls(4) [OF assms] return | assumption)+

lemma calm_read_memory:
  assumes "calm P E" "actx_session actx = r"
  shows "triple P (read_memory actx address len) (\<lambda>_. P) E"
  unfolding read_memory_def assms(2)
  by (rule bind [where Q = "\<lambda>_. P"] calm_session return calm_call [OF assms] seq calm_check_status(1) [OF assms(1) refl]
      cases_if calm_taint [OF assms] | assumption)+

text \<open>State outside the session.\<close>

lemma peek: "triple P (gets (\<lambda>h. Inr (f h))) (\<lambda>_. P) E"
  by (simp add: triple_def wp_gets post_def)

lemma poke: "(\<And>h. sessions (f h) = sessions h) \<Longrightarrow> triple P (update (\<lambda>h. Inr (f h))) (\<lambda>_. P) E"
  by (simp add: triple_def wp_update post_def at_def deref_def)

lemma bind_same: "triple P m (\<lambda>_. P) E \<Longrightarrow> (\<And>v. triple P (f v) Q E) \<Longrightarrow> triple P (bindP m f) Q E"
  by (rule bind)

text \<open>Decoders applied to what was read: they may taint the session.\<close>

lemma calm_decode:
  assumes "calm P E" "t = r"
  shows "triple P (liftH (get_payload_length t data)) (\<lambda>_. P) E"
    and "triple P (liftH (get_evm_address t data)) (\<lambda>_. P) E"
    and "triple P (liftH (get_hash t data)) (\<lambda>_. P) E"
  by (rule lift, simp, auto simp: get_payload_length_def get_evm_address_def get_hash_def Let_def
      calmD [OF assms(1)] assms(2) split: if_splits)+

lemma calm_read_lengths:
  assumes "calm P E" "actx_session actx = r"
  shows "triple P (read_voucher_address_and_payload_data_length actx) (\<lambda>_. P) E"
    and "triple P (read_tx_payload_data_length actx) (\<lambda>_. P) E"
  unfolding read_voucher_address_and_payload_data_length_def read_tx_payload_data_length_def
  by (rule bind_same [OF calm_read_memory [OF assms]] bind_same [OF calm_decode(1) [OF assms]]
      bind_same [OF calm_decode(2) [OF assms]] calm_decode [OF assms] return | assumption)+

lemma calm_read_payloads:
  assumes "calm P E" "actx_session actx = r"
  shows "triple P (read_voucher_payload_data actx n) (\<lambda>_. P) E"
    and "triple P (read_tx_payload_data actx n) (\<lambda>_. P) E"
  unfolding read_voucher_payload_data_def read_tx_payload_data_def Let_def assms(2)
  by (rule calm_session cases_if calm_taint [OF assms] calm_read_memory [OF assms])+

lemma calm_read_outputs:
  assumes "calm P E" "actx_session actx = r"
  shows "triple P (read_voucher actx) (\<lambda>_. P) E" "triple P (read_notice actx) (\<lambda>_. P) E"
    and "triple P (read_report actx) (\<lambda>_. P) E" "triple P (read_exception actx) (\<lambda>_. P) E"
  unfolding read_voucher_def read_notice_def read_report_def read_exception_def split_def
  by (rule bind_same [OF calm_read_lengths(1) [OF assms]] bind_same [OF calm_read_lengths(2) [OF assms]]
      bind_same [OF calm_read_payloads(1) [OF assms]] bind_same [OF calm_read_payloads(2) [OF assms]]
      calm_read_payloads [OF assms] return | assumption)+

lemma calm_get_proof:
  assumes "calm P E" "actx_session actx = r"
  shows "triple P (get_proof actx a n) (\<lambda>p s. P s \<and> proof_wf p \<and> length (mtp_target_hash p) = hash_size) E"
  unfolding get_proof_def
proof (rule calm_call [OF assms], rule seq [OF calm_check_status(1) [OF assms]])
  fix w
  have "contained r x" if "lift_res (get_proto_merkle_tree_proof m) = Inl x" for x m
    using that get_proto_merkle_tree_proof_exn [of m] by (auto simp: lift_res_def split: sum.splits)
  then show "triple P (liftH (lift_res (get_proto_merkle_tree_proof (reply_proof w))))
      (\<lambda>p s. P s \<and> proof_wf p \<and> length (mtp_target_hash p) = hash_size) E"
    using accepted_proof_wf [of "reply_proof w"]
    by (intro lift) (auto simp: lift_res_def proof_hashes_ok_def calmD [OF assms(1)] split: sum.splits)
qed

lemma calm_get_root_hash:
  assumes "calm P E" "actx_session actx = r"
  shows "triple P (get_root_hash actx) (\<lambda>_. P) E"
  unfolding get_root_hash_def
  by (rule calm_call [OF assms], rule seq [OF calm_check_status(1) [OF assms]], rule lift)
    (auto simp: get_proto_hash_def calmD [OF assms(1)] split: if_splits)

text \<open>The loops that run the machine. The limit of every request is at most the maximum.\<close>

lemma calm_run_increments:
  assumes "calm P E" "actx_session actx = r"
  shows "triple P (run_increments fuel actx inc mx start dinc mdl limit)
    (\<lambda>resp s. P s \<and> (\<forall>rr. resp = Some rr \<longrightarrow> iflags_y rr \<or> iflags_x rr \<or> iflags_h rr \<or> run_mcycle rr \<ge> mx)) E"
proof (induction fuel arbitrary: limit)
  case 0
  then show ?case by (simp add: calm_raise [OF assms(1)])
next
  case (Suc fuel)
  show ?case
    unfolding run_increments.simps Let_def
    by (rule calm_call [OF assms], rule seq [OF calm_check_status(1) [OF assms]], rule cases_if,
        rule return, simp, rule bind, rule calm_yield [OF assms(1)], simp, rule cases_if, rule return, simp,
        rule weaken_pre [OF Suc.IH], simp)
qed

lemma calm_run_machine:
  assumes "calm P E" "actx_session actx = r"
  shows "triple P (run_machine fuel actx cur inc mx start dinc mdl)
    (\<lambda>resp s. P s \<and> (\<forall>rr. resp = Some rr \<longrightarrow> iflags_y rr \<or> iflags_x rr \<or> iflags_h rr \<or> run_mcycle rr \<ge> mx)) E"
  unfolding run_machine_def by (rule calm_run_increments [OF assms])

text \<open>Waiting for a check-in replaces the stub.\<close>

lemma calm_check_server_stub:
  assumes "calm P E" "\<And>s a. P s \<Longrightarrow> P (s\<lparr>server_stub := Some a\<rparr>)" "\<And>s. P s \<Longrightarrow> E (s\<lparr>server_stub := None\<rparr>)"
  shows "triple P (check_server_stub r) (\<lambda>_. P) E"
  unfolding check_server_stub_def
proof (rule calm_session, rule bind [OF calm_yield [OF assms(1)]], simp)
  fix w :: wake
  let ?stub = "\<lambda>s. s\<lparr>server_stub := (if stub_created w then Some (session_server_address s) else None)\<rparr>"
  let ?mid = "\<lambda>s. if stub_created w then P s \<and> server_stub s \<noteq> None else E s \<and> server_stub s = None"
  have "triple P (set_session r ?stub) (\<lambda>_. ?mid) E"
    by (rule write_session) (simp add: assms(2,3))
  moreover have "triple ?mid (bindP (get_session r) (\<lambda>s. if server_stub s = None
       then finish_error RESOURCE_EXHAUSTED ''unable to create machine stub for session'' else ret ())) (\<lambda>_. P) E"
    by (rule bind [OF read_session], rule cases_if)
      (auto simp: finish_error_def intro: raise return given [where A = False])
  ultimately have "triple P (thenP (set_session r ?stub) (bindP (get_session r) (\<lambda>s. if server_stub s = None
       then finish_error RESOURCE_EXHAUSTED ''unable to create machine stub for session'' else ret ()))) (\<lambda>_. P) E"
    by (rule seq)
  then show "triple (\<lambda>s. P s \<and> replies (Create_stub a) w) (thenP (set_session r ?stub)
      (bindP (get_session r) (\<lambda>s. if server_stub s = None
       then finish_error RESOURCE_EXHAUSTED ''unable to create machine stub for session'' else ret ()))) (\<lambda>_. P) E" for a
    by (rule weaken_pre) simp
qed

lemma calm_trigger_and_wait_checkin:
  assumes "calm P E" "actx_session actx = r"
    and "\<And>s a. P s \<Longrightarrow> P (s\<lparr>server_stub := Some a\<rparr>)" "\<And>s. P s \<Longrightarrow> E (s\<lparr>server_stub := None\<rparr>)"
    and "triple P trigger (\<lambda>_. P) E"
  shows "triple P (trigger_and_wait_checkin actx trigger) (\<lambda>_. P) E"
  unfolding trigger_and_wait_checkin_def assms(2)
  apply (rule calm_session, rule bind_same [OF peek], rule cases_if, rule calm_raise [OF assms(1)], simp)
  apply (rule seq [OF assms(5)], rule calm_session, rule seq, rule poke, simp)
  apply (rule bind [OF calm_yield [OF assms(1)]], simp)
  apply (rule bind [OF weaken_pre [OF calm_yield [OF assms(1)]]], simp, simp)
  apply (rule weaken_pre [where P = P])
   apply (rule calm_session, rule bind_same [OF peek])
   apply (split option.split, intro conjI allI impI, rule calm_raise [OF assms(1)], simp)
   apply (split option.split, intro conjI allI impI, rule calm_raise [OF assms(1)], simp)
   apply (rule seq, rule poke, simp, rule cases_if, rule calm_taint [OF assms(1,2)])
   apply (rule calm_check_server_stub [OF assms(1,3,4)])
   apply simp_all
  done

end

end
