(* ===== verification/Query_Handlers.thy ===== *)
theory Query_Handlers
  imports Rpc
begin

text \<open>
  The handlers that only report: \<open>GetVersion\<close>, \<open>GetStatus\<close>, \<open>GetSessionStatus\<close>,
  \<open>GetEpochStatus\<close> and the two health handlers of \<^verbatim>\<open>src/src/server-manager.cpp\<close>. A handler
  is the body that runs when its RPC arrives; accepting the next RPC of the same kind is left
  to the dispatcher. \<open>ok\<close> is the flag the completion queue returned.
\<close>

definition manager_version :: version_response where
  "manager_version = \<lparr>ver_major = 0, ver_minor = 9, ver_patch = 2, ver_pre_release = [], ver_build = []\<rparr>"

definition GetVersion_handler :: "bool \<Rightarrow> unit handler" where
  "GetVersion_handler ok = (if \<not> ok then ret () else finish (Version_response manager_version))"

definition GetStatus_handler :: "bool \<Rightarrow> unit handler" where
  "GetStatus_handler ok =
     (if \<not> ok then ret ()
      else bindP (gets (\<lambda>h. Inr (um_keys (sessions h)))) (\<lambda>ids. finish (Status_response ids)))"

definition taint_report :: "session_type \<Rightarrow> grpc_status option" where
  "taint_report s = (if tainted s then Some (taint_status s) else None)"

definition GetSessionStatus_handler :: "bool \<Rightarrow> string \<Rightarrow> id_type \<Rightarrow> unit handler" where
  "GetSessionStatus_handler ok peer sid =
     (if \<not> ok then ret ()
      else report_exceptions
        (enter_session ''GetSessionStatus'' peer sid ''session id not found!'' (\<lambda>_. ret ()) (\<lambda>r.
          bindP (get_session r) (\<lambda>s.
            finish (Session_status \<lparr>ss_session_id = sid, ss_active_epoch_index = active_epoch_index s,
              ss_epoch_index = sm_keys (epochs s), ss_taint_status = taint_report s\<rparr>)))))"

record epoch_status_request =
  esr_session_id :: id_type
  esr_epoch_index :: u64

definition GetEpochStatus_handler :: "bool \<Rightarrow> string \<Rightarrow> epoch_status_request \<Rightarrow> unit handler" where
  "GetEpochStatus_handler ok peer request =
     (if \<not> ok then ret ()
      else report_exceptions
        (enter_session ''GetEpochStatus'' peer (esr_session_id request) ''session id not found'' (\<lambda>_. ret ()) (\<lambda>r.
          bindP (get_session r) (\<lambda>s.
          case sm_find (epochs s) (esr_epoch_index request) of
            None \<Rightarrow> finish_error INVALID_ARGUMENT ''unknown epoch index''
          | Some e \<Rightarrow>
              finish (Epoch_status \<lparr>es_session_id = esr_session_id request,
                es_epoch_index = esr_epoch_index request, es_state = state e,
                es_processed_inputs = map set_proto_processed_input (processed_inputs e),
                es_pending_input_count = of_nat (length (pending_inputs e)),
                es_taint_status = taint_report s\<rparr>)))))"

definition Health_Check_handler :: "bool \<Rightarrow> string \<Rightarrow> unit handler" where
  "Health_Check_handler ok service =
     (if \<not> ok then ret ()
      else bindP (gets (\<lambda>h. Inr (um_find (service_health h) service))) (\<lambda>iter.
        case iter of
          None \<Rightarrow> finish_with_error (grpc_error NOT_FOUND ''Service not found'')
        | Some status \<Rightarrow> finish (Health_check status)))"

definition Health_Watch_handler :: "bool \<Rightarrow> unit handler" where
  "Health_Watch_handler ok =
     (if \<not> ok then ret () else finish_with_error (grpc_error UNIMPLEMENTED ''Not implemented''))"

section \<open>The whole run of a locked handler\<close>

text \<open>
  A handler body that only replies: the session is locked while the reply is on its way, and
  unlocked when the handler is resumed, if the session still exists.
\<close>

definition entered :: "string \<Rightarrow> string \<Rightarrow> session_ref \<Rightarrow> session_type \<Rightarrow> handler_context \<Rightarrow> handler_context" where
  "entered rpc peer r s h =
     assign_session r (s\<lparr>session_lock := True, session_lock_reason := get_session_lock_reason rpc peer\<rparr>) h"

definition left :: "session_ref \<Rightarrow> handler_context \<Rightarrow> (handler_context, yield_point, wake, unit) proc" where
  "left r h = (case lock_destructor Session_lock r h of Inl x \<Rightarrow> Done h (Inl x) | Inr h' \<Rightarrow> Done h' (Inr ()))"

lemma deref_entered:
  "um_find (sessions h) sid = Some s \<Longrightarrow> r = \<lparr>ref_id = sid, ref_object = session_object s\<rparr> \<Longrightarrow>
     deref r (entered rpc peer r s h) =
       Inr (s\<lparr>session_lock := True, session_lock_reason := get_session_lock_reason rpc peer\<rparr>)"
  by (simp add: entered_def)

lemma enter_session_runs:
  assumes "um_find (sessions h) sid = Some s" "\<not> session_lock s"
    and r: "r = \<lparr>ref_id = sid, ref_object = session_object s\<rparr>" and pre: "pre r h = Done h (Inr ())"
  shows "enter_session rpc peer sid msg pre body h =
    scope_proc (body r (entered rpc peer r s h)) (lock_destructor Session_lock r)"
proof -
  have d: "deref r h = Inr s" using assms by (simp add: deref_Inr_iff)
  have "write_session r (set_lock Session_lock True) h = Inr (assign_session r (s\<lparr>session_lock := True\<rparr>) h)"
    using d by (simp add: write_session_def)
  moreover have "write_session r (\<lambda>s. s\<lparr>session_lock_reason := get_session_lock_reason rpc peer\<rparr>)
      (assign_session r (s\<lparr>session_lock := True\<rparr>) h) = Inr (entered rpc peer r s h)"
    using r by (simp add: write_session_def entered_def)
  ultimately show ?thesis
    using assms d
    by (simp add: enter_session_def bindP_def thenP_def find_session_eq lock_session_def get_session_def
        gets_def Let_def with_auto_lock_def lock_acquire_def set_session_def update_def on_scope_exit_def)
qed

lemma scope_finish:
  "scope_proc (finish resp h) (lock_destructor Session_lock r) =
     Suspend h (Finish resp) (\<lambda>_ h'. left r h')"
  by (simp add: finish_def bindP_def suspend_def ret_def left_def run_destructor_def)

lemma left_cases:
  "left r h = (case deref r h of Inl x \<Rightarrow> Done h (Inl x)
     | Inr s \<Rightarrow> Done (assign_session r (s\<lparr>session_lock := False\<rparr>) h) (Inr ()))"
  by (simp add: left_def lock_destructor_def write_session_def split: sum.split)

lemma deref_failure: "deref r h = Inl x \<Longrightarrow> \<not> is_exception x"
  by (auto simp: deref_def dangling_def split: option.splits if_splits)

lemma catch_left: "catch_proc (left r h) f = left r h"
  by (cases "deref r h") (simp_all add: left_cases deref_failure)

lemma report_reply:
  assumes "um_find (sessions h) sid = Some s" "\<not> session_lock s"
    and r: "r = \<lparr>ref_id = sid, ref_object = session_object s\<rparr>"
    and body: "body r (entered rpc peer r s h) = finish resp (entered rpc peer r s h)"
  shows "report_exceptions (enter_session rpc peer sid msg (\<lambda>_. ret ()) body) h =
     Suspend (entered rpc peer r s h) (Finish resp) (\<lambda>_ h'. left r h')"
  using enter_session_runs [OF assms(1,2) r, of "\<lambda>_. ret ()" rpc peer msg body]
  by (simp add: ret_def report_exceptions_def try_catch_def body scope_finish catch_left)

text \<open>
  \<open>GetEpochStatus\<close> on an unlocked session reports exactly the epoch: its state, the
  processed inputs with their outputs and reports, the number of pending inputs and the taint
  status. While the reply is being sent the session stays locked and nothing else of the state
  has changed; afterwards the lock is released.
\<close>

lemma epoch_status_runs:
  assumes "um_find (sessions h) sid = Some s" "\<not> session_lock s"
    and "r = \<lparr>ref_id = sid, ref_object = session_object s\<rparr>"
    and "sm_find (epochs s) i = Some e"
  shows "GetEpochStatus_handler True peer \<lparr>esr_session_id = sid, esr_epoch_index = i\<rparr> h =
    Suspend (entered ''GetEpochStatus'' peer r s h)
      (Finish (Epoch_status \<lparr>es_session_id = sid, es_epoch_index = i, es_state = state e,
         es_processed_inputs = map set_proto_processed_input (processed_inputs e),
         es_pending_input_count = of_nat (length (pending_inputs e)), es_taint_status = taint_report s\<rparr>))
      (\<lambda>_ h'. left r h')"
  using assms
  by (simp add: GetEpochStatus_handler_def)
    (rule report_reply, simp_all add: get_session_def bindP_def gets_def deref_entered taint_report_def)

section \<open>Properties\<close>

text \<open>
  \<open>GetSessionStatus\<close> on an unlocked session reports the active epoch, the indices
  of all cached epochs in increasing order and the taint status, and changes nothing but the
  lock.
\<close>

theorem session_status_report:
  assumes "um_find (sessions h) sid = Some s" "\<not> session_lock s"
    and "r = \<lparr>ref_id = sid, ref_object = session_object s\<rparr>"
    and "sm_valid (epochs s)"
  shows "GetSessionStatus_handler True peer sid h =
    Suspend (entered ''GetSessionStatus'' peer r s h)
      (Finish (Session_status \<lparr>ss_session_id = sid, ss_active_epoch_index = active_epoch_index s,
         ss_epoch_index = sm_keys (epochs s), ss_taint_status = taint_report s\<rparr>))
      (\<lambda>_ h'. left r h') \<and>
    sorted_wrt (<) (sm_keys (epochs s)) \<and> set (sm_keys (epochs s)) = {i. sm_find (epochs s) i \<noteq> None}"
proof -
  have "GetSessionStatus_handler True peer sid h =
    Suspend (entered ''GetSessionStatus'' peer r s h)
      (Finish (Session_status \<lparr>ss_session_id = sid, ss_active_epoch_index = active_epoch_index s,
         ss_epoch_index = sm_keys (epochs s), ss_taint_status = taint_report s\<rparr>)) (\<lambda>_ h'. left r h')"
    using assms(1-3)
    by (simp add: GetSessionStatus_handler_def)
      (rule report_reply, simp_all add: get_session_def bindP_def gets_def deref_entered taint_report_def)
  moreover have "sorted_wrt (<) (sm_keys (epochs s))" using assms(4) by (simp add: sm_valid_def sm_keys_def)
  ultimately show ?thesis using sm.set_keys [OF assms(4)] by simp
qed

section \<open>Instances\<close>

definition sample_context :: handler_context where
  "sample_context = \<lparr>remote_cartesi_machine_path = ''remote-cartesi-machine'', manager_address = ''localhost:0'',
     machine_server_address = ''localhost:0'', sessions = [(''s'', sample_session)],
     sessions_waiting_checkin = [], service_health = [([], SERVING)], completion_queue = [],
     next_object = 1, terminated = []\<rparr>"

definition sample_ref :: session_ref where
  "sample_ref = \<lparr>ref_id = ''s'', ref_object = 0\<rparr>"

lemma sample_context_session:
  "um_find (sessions sample_context) ''s'' = Some sample_session" "\<not> session_lock sample_session"
  "sample_ref = \<lparr>ref_id = ''s'', ref_object = session_object sample_session\<rparr>"
  "sm_valid (epochs sample_session)" "sm_find (epochs sample_session) 4 = Some sample_epoch"
  by (simp_all add: sample_context_def sample_session_def sample_ref_def um_find_def sm_valid_def sm_find_def)

theorem session_status_report_witness:
  "\<exists>k m. GetSessionStatus_handler True ''peer'' ''s'' sample_context =
     Suspend (entered ''GetSessionStatus'' ''peer'' sample_ref sample_session sample_context)
       (Finish (Session_status m)) k \<and> ss_epoch_index m = [4]"
  using session_status_report [OF sample_context_session(1-4), of "''peer''"]
  by (simp add: sample_session_def sm_keys_def)

end
