(* ===== verification/Input_Correctness.thy ===== *)
theory Input_Correctness
  imports Input_Processing Session_Logic Query_Handlers
begin

text \<open>
  What processing inputs has to produce: consecutive results, each in order with respect to the
  machine hash before it. Also the facts on trees, slices and the run loop that the theories on
  input processing share.
\<close>

section \<open>Results\<close>

text \<open>
  One result, given the machine hash before the input: an accepted input carries verified
  outputs; a skipped one leaves the machine hash alone.
\<close>

definition result_ok :: "digest \<Rightarrow> hash_type \<Rightarrow> processed_input_type \<Rightarrow> bool" where
  "result_ok K h p \<longleftrightarrow>
     (case processed p of
        Accepted_data d \<Rightarrow> pi_status p = accepted \<and>
          output_hashes_ok K (map v_hash (vouchers d)) \<and> output_hashes_ok K (map n_hash (notices d))
      | Exception_data x \<Rightarrow> pi_status p \<noteq> accepted \<and> pi_machine_hash p = h)"

text \<open>Consecutive results, numbered from \<open>c\<close> since genesis and from \<open>k\<close> within the epoch.\<close>

primrec results_from :: "digest \<Rightarrow> u64 \<Rightarrow> nat \<Rightarrow> hash_type \<Rightarrow> processed_input_type list \<Rightarrow> bool" where
  "results_from K c k h [] = True"
| "results_from K c k h (p # ps) =
     (input_index p = c \<and> epoch_input_index p = of_nat k \<and> result_ok K h p \<and>
      results_from K (c + 1) (Suc k) (pi_machine_hash p) ps)"

definition last_hash :: "hash_type \<Rightarrow> processed_input_type list \<Rightarrow> hash_type" where
  "last_hash h ps = (if ps = [] then h else pi_machine_hash (last ps))"

lemma last_hash_simps [simp]:
  "last_hash h [] = h" "last_hash h (ps @ [p]) = pi_machine_hash p"
  "last_hash h (p # ps) = last_hash (pi_machine_hash p) ps"
  by (simp_all add: last_hash_def)

lemma results_from_snoc:
  "results_from K c k h (ps @ [p]) \<longleftrightarrow> results_from K c k h ps \<and> input_index p = c + of_nat (length ps) \<and>
     epoch_input_index p = of_nat (k + length ps) \<and> result_ok K (last_hash h ps) p"
  by (induction ps arbitrary: c k h) (auto simp: algebra_simps)

section \<open>Trees\<close>

text \<open>
  The epoch trees hold the leaves of the results and, while an input is being recorded, the leaves
  \<open>vs\<close> and \<open>ns\<close> of that input.
\<close>

definition trees_ok :: "digest \<Rightarrow> hash_type list \<Rightarrow> hash_type list \<Rightarrow> epoch_type \<Rightarrow> bool" where
  "trees_ok K vs ns e \<longleftrightarrow>
     epoch_tree K (map voucher_leaf (processed_inputs e) @ vs) (vouchers_tree e) \<and>
     epoch_tree K (map notice_leaf (processed_inputs e) @ ns) (notices_tree e)"

text \<open>Appending to a tree: a proof of the new leaf, or the tree is full.\<close>

lemma push_tree:
  assumes "epoch_tree K leaves t"
  shows "cmt_push_back K hash t = Inl (Out_of_range ''tree is full'') \<or>
    (\<exists>t' p. cmt_push_back K hash t = Inr t' \<and> epoch_tree K (leaves @ [hash]) t' \<and>
       cmt_get_proof t' (leaf_address (of_nat (length leaves))) LOG2_KECCAK_SIZE = Inr p \<and>
       leaf_proof K t' (length leaves) hash p)"
proof (cases "length leaves < epoch_capacity")
  case True
  then obtain t' where t': "cmt_push_back K hash t = Inr t'" "epoch_tree K (leaves @ [hash]) t'"
    using epoch_tree_push [OF assms] by blast
  then show ?thesis
    using epoch_tree_leaf_proof [OF t'(2), of "length leaves"]
    by auto
next
  case False
  then have "length leaves = epoch_capacity" using epoch_tree_capacity [OF assms] by simp
  then show ?thesis
    using push_back_full [of K leaves t hash] assms
    by (simp add: epoch_tree_def complete_config_def LOG2_ROOT_SIZE_def LOG2_KECCAK_SIZE_def)
qed

text \<open>
  Slicing the proof of an output: the sizes are out of range, the shift is undefined, or the slice
  verifies.
\<close>

lemma slice_outcome:
  assumes "proof_wf p"
  shows "(\<exists>m. slice K p r' t' = Inl (Out_of_range m)) \<or> slice K p r' t' = Inl undefined_shift \<or>
    (\<exists>q. slice K p r' t' = Inr q \<and> proof_wf q \<and> proof_verify K q = Inr True \<and> mtp_log2_target_size q = t')"
proof (cases "0 < r' \<and> 0 \<le> t' \<and> t' \<le> r' \<and> r' \<le> mtp_log2_root_size p \<and> mtp_log2_target_size p \<le> t'")
  case True
  then have c: "0 < r'" "mtp_log2_target_size p \<le> t'" "t' \<le> r'" "r' \<le> mtp_log2_root_size p" by simp_all
  have t: "mtp_log2_target_size (sliced_proof K p r' t') = t'" by (simp add: sliced_proof_def Let_def)
  show ?thesis
  proof (cases "r' \<le> 64 \<and> t' < 64")
    case True
    then show ?thesis
      using slice_eq [OF assms c] sliced_proof_wf [OF assms c] sliced_proof_verify [OF assms c] t by blast
  next
    case False
    then have "64 < r' \<or> 64 \<le> t'" by linarith
    then show ?thesis using slice_undefined [OF assms c] by blast
  qed
next
  case False
  then show ?thesis by (auto simp: slice_def)
qed

section \<open>The run loop\<close>

context session_logic
begin

lemma calm_run_loop:
  assumes "calm P E" "actx_session actx = r"
    and read: "\<And>y out. triple P (read_output actx y out) (\<lambda>_. P) E"
  shows "triple P (run_loop rounds fuel read_output actx lim out) (\<lambda>_. P) E"
proof (induction rounds arbitrary: out)
  case 0
  then show ?case by (simp add: calm_raise [OF assms(1)])
next
  case (Suc rounds)
  have step: "triple P (run_step read_output actx lim out resp (run_loop rounds fuel read_output actx lim)) (\<lambda>_. P) E" for resp
  proof (cases resp)
    case None
    then show ?thesis by (simp add: run_step_def return)
  next
    case (Some rr)
    show ?thesis
      unfolding run_step_def Some option.case Let_def
      by (intro cases_if return calm_taint [OF assms(1,2)] bind_same [OF calm_read_outputs(4) [OF assms(1,2)]]
          bind_same [OF read] Suc.IH)
  qed
  show ?case
    unfolding run_loop.simps
    by (rule bind [OF calm_run_machine [OF assms(1,2)]]) (rule weaken_pre [OF step], simp)
qed

lemma calm_read_advance_output:
  assumes "calm P E" "actx_session actx = r"
  shows "triple P (read_advance_output actx y out) (\<lambda>_. P) E"
    and "triple P (read_inspect_output actx y out) (\<lambda>_. P) E"
  unfolding read_advance_output_def read_inspect_output_def
  by (rule cases_if return bind_same [OF calm_read_outputs(1) [OF assms]] bind_same [OF calm_read_outputs(2) [OF assms]]
      bind_same [OF calm_read_outputs(3) [OF assms]] | assumption)+

end

section \<open>An instance\<close>

text \<open>The sample session with one input waiting.\<close>

definition busy_epoch :: epoch_type where
  "busy_epoch = sample_epoch\<lparr>pending_inputs := [\<lparr>in_payload = [1, 2, 3], in_metadata =
     \<lparr>msg_sender = replicate EVM_ADDRESS_LENGTH 7, block_number = 1, timestamp = 2, epoch_index_field = 0,
      input_index_field = 1\<rparr>\<rparr>], pending_query := None\<rparr>"

definition busy_session :: session_type where
  "busy_session = sample_session\<lparr>server_stub := Some ''machine'', epochs := [(4, busy_epoch)]\<rparr>"

definition busy_context :: handler_context where
  "busy_context = sample_context\<lparr>sessions := [(''s'', busy_session)]\<rparr>"

lemma busy_session:
  "deref sample_ref busy_context = Inr busy_session" "\<not> processing_lock busy_session"
  "server_stub busy_session \<noteq> None" "sm_valid (epochs busy_session)" "sm_find (epochs busy_session) 4 = Some busy_epoch"
  by (simp_all add: busy_context_def busy_session_def sample_session_def sample_ref_def deref_def um_find_def
      sm_valid_def sm_find_def)

lemma busy_epoch: "epoch_ok sample_digest busy_epoch" "outputs_ok sample_digest busy_epoch"
  using sample_epoch_ok(1,2)
  by (simp_all add: busy_epoch_def epoch_ok_def outputs_ok_def)

end
