(* ===== verification/Run_Correctness.thy ===== *)
theory Run_Correctness
  imports Input_Correctness
begin

text \<open>
  The loop that runs the machine in increments: it ends, within a number of rounds computed from
  the limits, when the machine runs up to the limit of each request or reports why not.
\<close>

section \<open>What the loop relies on\<close>

text \<open>
  The documented behaviour of the \<open>Run\<close> call: the machine stops at the limit, or it reports that
  it yielded or halted.
\<close>

definition stopped :: "u64 \<Rightarrow> run_response \<Rightarrow> bool" where
  "stopped limit rr \<longleftrightarrow> iflags_y rr \<or> iflags_x rr \<or> iflags_h rr \<or> limit \<le> run_mcycle rr"

definition run_rely :: "session_ref \<Rightarrow> yield_point \<Rightarrow> handler_context \<Rightarrow> wake \<Rightarrow> handler_context \<Rightarrow> bool" where
  "run_rely r y h w h' \<longleftrightarrow>
     (if atomic_point y then h' = h
      else (\<exists>s. deref r h = Inr s \<and> server_stub s \<noteq> None) \<longrightarrow> (\<exists>s. deref r h' = Inr s \<and> server_stub s \<noteq> None)) \<and>
     (\<forall>a limit d. y = Machine_call a (M_Run limit) d \<and> is_ok (call_status w) \<longrightarrow> stopped limit (reply_run w))"

text \<open>The calls of the loop: the clock, and runs whose limit stays between the first and the maximum.\<close>

definition run_calls :: "u64 \<Rightarrow> u64 \<Rightarrow> u64 \<Rightarrow> handler_context \<Rightarrow> yield_point \<Rightarrow> handler_context \<Rightarrow> bool" where
  "run_calls first top_limit deadline h0 y h \<longleftrightarrow>
     y = Clock_now \<or> (\<exists>a limit. y = Machine_call a (M_Run limit) deadline \<and> first \<le> limit \<and> limit \<le> top_limit)"

definition run_returns :: "u64 \<Rightarrow> handler_context \<Rightarrow> run_response option hres \<Rightarrow> handler_context \<Rightarrow> bool" where
  "run_returns top_limit h0 res h \<longleftrightarrow>
     (case res of
        Inl x \<Rightarrow> \<exists>t st. x = Taint_session t st
      | Inr None \<Rightarrow> True
      | Inr (Some rr) \<Rightarrow> stopped top_limit rr)"

section \<open>The limits\<close>

lemma next_limit:
  fixes limit :: u64
  assumes "unat mx + unat inc < 2 ^ 64" "limit \<le> mx"
  shows "unat (min (limit + inc) mx) = min (unat limit + unat inc) (unat mx)" "limit \<le> min (limit + inc) mx"
proof -
  have "unat (limit + inc) = unat limit + unat inc"
    using assms by (intro unat_add_lem [THEN iffD1]) (simp add: word_le_nat_alt)
  then show "unat (min (limit + inc) mx) = min (unat limit + unat inc) (unat mx)" "limit \<le> min (limit + inc) mx"
    using assms(2) by (auto simp: min_def word_le_nat_alt)
qed

text \<open>One round, given what happens in the next one.\<close>

lemma run_round:
  assumes "deref r h = Inr s" "server_stub s \<noteq> None" "actx_session actx = r" "first \<le> limit" "limit \<le> mx"
    and continue: "\<And>h s. limit < mx \<Longrightarrow> deref r h = Inr s \<Longrightarrow> server_stub s \<noteq> None \<Longrightarrow>
      wp (run_calls first mx dinc) (run_rely r) (run_returns mx)
        (run_increments fuel actx inc mx start dinc mdl (min (limit + inc) mx) h) h"
  shows "wp (run_calls first mx dinc) (run_rely r) (run_returns mx)
     (run_increments (Suc fuel) actx inc mx start dinc mdl limit h) h0"
proof -
  obtain a where a: "server_stub s = Some a" using assms(2) by auto
  let ?y = "Machine_call a (M_Run limit) dinc"
  have call: "run_calls first mx dinc h0 ?y h" using assms(4,5) by (simp add: run_calls_def)
  have clock: "run_calls first mx dinc h1 Clock_now h2" for h1 h2 by (simp add: run_calls_def)
  have resumed: "(\<exists>s'. deref r h' = Inr s' \<and> server_stub s' \<noteq> None) \<and> (is_ok (call_status w) \<longrightarrow> stopped limit (reply_run w))"
    if "run_rely r ?y h w h'" for w h'
    using that assms(1,2) by (auto simp: run_rely_def)
  have returned: "wp (run_calls first mx dinc) (run_rely r) (run_returns mx)
      (thenP (CHECK_STATUS_OR_TAINT (call_status w) r ''advance/inspect state increment'')
        (if iflags_y (reply_run w) \<or> iflags_x (reply_run w) \<or> iflags_h (reply_run w) \<or> mx \<le> run_mcycle (reply_run w)
         then ret (Some (reply_run w))
         else bindP (suspend Clock_now) (\<lambda>now.
           if deadline_expired (clock_now now) start mdl then ret None
           else run_increments fuel actx inc mx start dinc mdl (min (limit + inc) mx))) h') h'"
    if R: "run_rely r ?y h w h'" for w h'
  proof (cases "stopped mx (reply_run w) \<or> \<not> is_ok (call_status w)")
    case True
    then show ?thesis
      by (auto simp: wp_rules CHECK_STATUS_OR_TAINT_def run_returns_def stopped_def)
  next
    case False
    then have "limit < mx" using resumed [OF R] by (auto simp: stopped_def)
    then show ?thesis
      using False resumed [OF R] continue clock
      by (auto simp: wp_rules CHECK_STATUS_OR_TAINT_def run_returns_def stopped_def run_rely_def)
  qed
  show ?thesis
    using assms(1,3) a call returned
    by (simp add: wp_bindP wp_suspend machine_call_def get_session_def wp_gets Let_def)
qed

lemma run_increments_returns:
  assumes "deref r h = Inr s" "server_stub s \<noteq> None" "actx_session actx = r"
    and "unat mx + unat inc < 2 ^ 64" "first \<le> limit" "limit \<le> mx" "unat mx \<le> unat limit + fuel * unat inc"
  shows "wp (run_calls first mx dinc) (run_rely r) (run_returns mx)
     (run_increments (Suc fuel) actx inc mx start dinc mdl limit h) h0"
  using assms(1,2,5-7)
proof (induction fuel arbitrary: h s limit h0)
  case 0
  then have "\<not> limit < mx" by (simp add: word_less_nat_alt)
  then show ?case using 0 by (intro run_round [OF 0(1,2) assms(3)]) simp_all
next
  case (Suc fuel)
  let ?next = "min (limit + inc) mx"
  have n: "first \<le> ?next" "?next \<le> mx" "unat mx \<le> unat ?next + fuel * unat inc"
    using Suc.prems next_limit [OF assms(4) Suc.prems(4)] by (auto intro: order_trans)
  show ?case
    by (rule run_round [OF Suc.prems(1,2) assms(3) Suc.prems(3,4)]) (rule Suc.IH [OF _ _ n])
qed

lemma signed_value:
  fixes w :: u64
  shows "sint w = (if unat w < 2 ^ 63 then int (unat w) else int (unat w) - 2 ^ 64)"
  (is "_ = (if _ then ?x else _)")
proof -
  have x: "0 \<le> ?x" "?x < 2 ^ 64" using unsigned_less [of w, where 'a = int] by simp_all
  have "sint w = (?x + 2 ^ 63) mod 2 ^ 64 - 2 ^ 63"
    using int_word_sint [of "uint w", where 'a = 64] by simp
  moreover have "(?x + 2 ^ 63) mod 2 ^ 64 = ?x - 2 ^ 63" if "2 ^ 63 \<le> ?x"
    using that x minus_mod_self2 [of "?x + 2 ^ 63" "2 ^ 64"] by simp
  moreover have "unat w < 2 ^ 63 \<longleftrightarrow> ?x < 2 ^ 63"
    using of_nat_less_iff [of "unat w" "2 ^ 63", where 'a = int] by simp
  moreover have "(?x + 2 ^ 63) mod 2 ^ 64 = ?x + 2 ^ 63" if "?x < 2 ^ 63"
    using that x by (intro mod_pos_pos_trivial) simp_all
  ultimately show ?thesis by simp
qed

section \<open>Claims\<close>

text \<open>
  Claim C16. Running the machine returns: when the increment covers the distance to the maximum
  within \<open>fuel\<close> rounds and no limit wraps around, and the machine behaves as documented, the loop
  ends with a response that says why the machine stopped, with an expired deadline, or by
  tainting the session; it never asks the machine to run past the maximum or less far than before.
\<close>

theorem run_machine_returns:
  assumes "deref r h = Inr s" "server_stub s \<noteq> None" "actx_session actx = r"
    and "unat max_mcycle + unat mcycle_increment < 2 ^ 64" "curr_mcycle \<le> max_mcycle"
    and "0 < fuel" "unat max_mcycle \<le> unat curr_mcycle + fuel * unat mcycle_increment"
  shows "wp (run_calls (min (curr_mcycle + mcycle_increment) max_mcycle) max_mcycle deadline_increment) (run_rely r)
     (run_returns max_mcycle)
     (run_machine fuel actx curr_mcycle mcycle_increment max_mcycle start_time deadline_increment max_deadline h) h"
proof -
  obtain n where n: "fuel = Suc n" using assms(6) by (cases fuel) auto
  let ?first = "min (curr_mcycle + mcycle_increment) max_mcycle"
  have "unat max_mcycle \<le> unat ?first + n * unat mcycle_increment"
    using next_limit(1) [OF assms(4,5)] assms(7) n by (simp add: min_def)
  then show ?thesis
    unfolding run_machine_def n by (intro run_increments_returns [OF assms(1-4)]) simp_all
qed

text \<open>The busy session, run from cycle 10 to 35 in steps of 10.\<close>

theorem run_machine_returns_witness:
  "wp (run_calls 20 35 5) (run_rely sample_ref) (run_returns 35)
     (run_machine 3 \<lparr>actx_session = sample_ref, actx_self = 0\<rparr> 10 10 35 0 5 100 busy_context) busy_context"
  using run_machine_returns [OF busy_session(1,3), of "\<lparr>actx_session = sample_ref, actx_self = 0\<rparr>" 35 10 10 3 5 0 100]
  by simp

text \<open>
  Claim C36. The limits are 64-bit sums that may wrap around: when the current cycle plus the
  increment exceeds the range, the first request asks the machine for a limit it has already
  passed, although the maximum is not reached.
\<close>

theorem run_limit_wraps:
  assumes "deref r h = Inr s" "server_stub s = Some a" "actx_session actx = r"
    and "curr_mcycle < max_mcycle" "2 ^ 64 \<le> unat curr_mcycle + unat mcycle_increment"
  shows "\<exists>limit k. limit < curr_mcycle \<and>
     run_machine (Suc n) actx curr_mcycle mcycle_increment max_mcycle start_time deadline_increment max_deadline h =
       Suspend h (Machine_call a (M_Run limit) deadline_increment) k"
proof -
  let ?limit = "min (curr_mcycle + mcycle_increment) max_mcycle"
  have "unat (curr_mcycle + mcycle_increment) < unat curr_mcycle"
    using assms(5) unsigned_less [of curr_mcycle, where 'a = nat] unsigned_less [of mcycle_increment, where 'a = nat]
    by (simp add: unat_word_ariths le_mod_geq)
  then have "?limit < curr_mcycle" by (simp add: min_def word_less_nat_alt word_le_nat_alt)
  moreover have "\<exists>k. run_machine (Suc n) actx curr_mcycle mcycle_increment max_mcycle start_time deadline_increment
      max_deadline h = Suspend h (Machine_call a (M_Run ?limit) deadline_increment) k"
    using assms(1-3)
    by (simp add: run_machine_def machine_call_def bindP_def get_session_def gets_def suspend_def)
  ultimately show ?thesis by blast
qed

theorem run_limit_wraps_witness:
  "\<exists>limit k. limit < 18446744073709551606 \<and>
     run_machine 1 \<lparr>actx_session = sample_ref, actx_self = 0\<rparr> 18446744073709551606 20 18446744073709551615 0 5 100 busy_context =
       Suspend busy_context (Machine_call ''machine'' (M_Run limit) 5) k"
  using run_limit_wraps [OF busy_session(1), of "''machine''" "\<lparr>actx_session = sample_ref, actx_self = 0\<rparr>"
      18446744073709551606 18446744073709551615 20 0 0 5 100]
  by (simp add: busy_session_def)

text \<open>
  Claim C37. The deadline of a run is a 64-bit number of milliseconds that the code compares as
  signed. One below \<open>2\<^sup>63\<close> expires when more milliseconds have passed; a larger one counts as
  negative and has expired from the start.
\<close>

theorem deadline_sign:
  assumes "start \<le> now"
  shows "deadline_expired now start max_deadline \<longleftrightarrow>
     (unat max_deadline < 2 ^ 63 \<longrightarrow> int (unat max_deadline) < (now - start) div 1000000)"
proof -
  have e: "elapsed_ms now start = (now - start) div 1000000"
    using assms by (cases "now = start") (simp_all add: elapsed_ms_def sgn_if)
  have "0 \<le> (now - start) div 1000000" using assms by (simp add: div_int_pos_iff)
  moreover have "int (unat max_deadline) - 2 ^ 64 < 0"
    using unsigned_less [of max_deadline, where 'a = int] by simp
  ultimately show ?thesis
    unfolding deadline_expired_def e signed_value by auto
qed

theorem deadline_sign_witness:
  "deadline_expired 0 0 9223372036854775808 \<and> \<not> deadline_expired 5000000 0 10"
  using deadline_sign [of 0 0 9223372036854775808] deadline_sign [of 0 5000000 10] by simp

end
