(* ===== verification/Epoch_Handlers.thy ===== *)
theory Epoch_Handlers
  imports Query_Handlers
begin

text \<open>
  The handlers that end epochs and sessions: \<open>FinishEpoch\<close>, \<open>DeleteEpoch\<close> and \<open>EndSession\<close> of
  \<^verbatim>\<open>src/src/server-manager.cpp\<close>.
\<close>

section \<open>\<open>FinishEpoch\<close>\<close>

record finish_epoch_request =
  fer_session_id :: id_type
  fer_active_epoch_index :: u64
  fer_processed_input_count_within_epoch :: u64
  fer_storage_directory :: string

text \<open>The checks on the epoch before anything changes.\<close>

definition check_epoch_can_finish :: "finish_epoch_request \<Rightarrow> session_ref \<Rightarrow> unit handler" where
  "check_epoch_can_finish request r =
     bindP (get_session r) (\<lambda>s.
     case sm_find (epochs s) (fer_active_epoch_index request) of
       None \<Rightarrow> finish_error INVALID_ARGUMENT ''unknown epoch index''
     | Some e \<Rightarrow>
       if state e \<noteq> epoch_active then finish_error INVALID_ARGUMENT ''epoch already finished''
       else if pending_inputs e \<noteq> [] then finish_error INVALID_ARGUMENT ''epoch still has pending inputs''
       else if of_nat (length (processed_inputs e)) \<noteq> fer_processed_input_count_within_epoch request
       then finish_error INVALID_ARGUMENT (''incorrect processed input count (expected '' @
              nat_to_string (length (processed_inputs e)) @ '', got '' @
              u64_to_string (fer_processed_input_count_within_epoch request) @ '')'')
       else ret ())"

text \<open>\<open>finish_epoch(e); start_new_epoch(e, session);\<close> and the response.\<close>

definition close_epoch :: "digest \<Rightarrow> session_ref \<Rightarrow> u64 \<Rightarrow> finish_epoch_response handler" where
  "close_epoch K r i =
     bindP (get_epoch r i) (\<lambda>e.
     thenP (set_epoch r i (\<lambda>_. fst (finish_epoch e)))
     (thenP (liftH (lift_res (snd (finish_epoch e))))
     (bindP (get_epoch r i) (\<lambda>e.
     bindP (get_session r) (\<lambda>s.
     bindP (liftH (lift_res (start_new_epoch K e s))) (\<lambda>s'.
     thenP (set_session r (\<lambda>_. s'))
     (bindP (get_epoch r i) (\<lambda>e.
       liftH (lift_res (set_proto_finish_epoch_response e))))))))))"

definition FinishEpoch_handler :: "digest \<Rightarrow> coroutine \<Rightarrow> bool \<Rightarrow> string \<Rightarrow> finish_epoch_request \<Rightarrow> unit handler" where
  "FinishEpoch_handler K self ok peer request =
     (if \<not> ok then ret ()
      else report_exceptions
        (enter_session ''FinishEpoch'' peer (fer_session_id request) ''session id not found''
           check_epoch_overflow (\<lambda>r.
          thenP (check_not_tainted ''session was previously tainted ('' r)
          (thenP (check_epoch_can_finish request r)
          (thenP (if fer_storage_directory request \<noteq> []
                  then store \<lparr>actx_session = r, actx_self = self\<rparr> (fer_storage_directory request)
                  else ret ())
          (bindP (close_epoch K r (fer_active_epoch_index request)) (\<lambda>response.
            finish (Finish_epoch response))))))))"

section \<open>\<open>DeleteEpoch\<close>\<close>

record delete_epoch_request =
  der_session_id :: id_type
  der_epoch_index :: u64

definition DeleteEpoch_handler :: "bool \<Rightarrow> string \<Rightarrow> delete_epoch_request \<Rightarrow> unit handler" where
  "DeleteEpoch_handler ok peer request =
     (if \<not> ok then ret ()
      else report_exceptions
        (enter_session ''DeleteEpoch'' peer (der_session_id request) ''session id not found'' (\<lambda>_. ret ()) (\<lambda>r.
          bindP (get_session r) (\<lambda>s.
          case sm_find (epochs s) (der_epoch_index request) of
            None \<Rightarrow> finish_error INVALID_ARGUMENT ''unknown epoch index''
          | Some e \<Rightarrow>
            if state e = epoch_active \<or> active_epoch_index s = der_epoch_index request
            then finish_error INVALID_ARGUMENT ''epoch is active''
            else
              thenP (set_session r (\<lambda>s. s\<lparr>epochs := sm_erase (der_epoch_index request) (epochs s)\<rparr>))
                (finish Void_response)))))"

section \<open>\<open>EndSession\<close>\<close>

text \<open>
  \<open>epochs[session.active_epoch_index]\<close> inserts a default epoch when the active one is missing.
  The session is erased before the reply is sent; \<open>session_lock\<close> is destroyed after it.
\<close>

definition EndSession_handler :: "digest \<Rightarrow> coroutine \<Rightarrow> bool \<Rightarrow> string \<Rightarrow> id_type \<Rightarrow> unit handler" where
  "EndSession_handler K self ok peer sid =
     (if \<not> ok then ret ()
      else report_exceptions
        (enter_session ''EndSession'' peer sid ''session id not found'' (\<lambda>_. ret ()) (\<lambda>r.
          bindP (get_session r) (\<lambda>s.
          thenP (if \<not> tainted s then
                   thenP (epoch_at K r (active_epoch_index s))
                   (bindP (get_epoch r (active_epoch_index s)) (\<lambda>e.
                    if pending_inputs e \<noteq> [] then finish_error INVALID_ARGUMENT ''active epoch has pending inputs''
                    else if processed_inputs e \<noteq> []
                    then finish_error INVALID_ARGUMENT ''active epoch has processed inputs''
                    else ret ()))
                 else ret ())
          (bindP (get_session r) (\<lambda>s.
          if processing_lock s then finish_error INTERNAL ''session is processing inputs!''
          else
            thenP (shutdown_server \<lparr>actx_session = r, actx_self = self\<rparr>)
            (bindP (get_session r) (\<lambda>s.
            thenP (if tainted s then update (\<lambda>h. Inr (h\<lparr>terminated := terminated h @ [sid]\<rparr>)) else ret ())
            (thenP (update (\<lambda>h. Inr (h\<lparr>sessions := um_erase sid (sessions h)\<rparr>)))
              (finish Void_response))))))))))"

section \<open>Symbolic execution\<close>

text \<open>Unfolding of the program constructors, for runs along a known path.\<close>

lemmas exec =
  bindP_def thenP_def ret_def throw_def liftH_def gets_def update_def get_session_def set_session_def
  get_epoch_def set_epoch_def finish_error_def

lemma scope_throw:
  assumes "deref r h = Inr s"
  shows "scope_proc (Done h (Inl (Finish_error_yield_none st))) (lock_destructor Session_lock r) =
     Done (assign_session r (s\<lparr>session_lock := False\<rparr>) h) (Inl (Finish_error_yield_none st))"
  using assms by (simp add: run_destructor_def lock_destructor_def write_session_def)

text \<open>A refusal after the session was entered: the lock is released before the reply.\<close>

lemma enter_refusal:
  assumes "um_find (sessions h) sid = Some s" "\<not> session_lock s"
    and r: "r = \<lparr>ref_id = sid, ref_object = session_object s\<rparr>" and pre: "pre r h = Done h (Inr ())"
    and body: "body r (entered rpc peer r s h) =
      Done (entered rpc peer r s h) (Inl (Finish_error_yield_none st))"
  shows "enter_session rpc peer sid msg pre body h =
    Done (assign_session r (s\<lparr>session_lock_reason := get_session_lock_reason rpc peer\<rparr>) h)
      (Inl (Finish_error_yield_none st))"
proof -
  let ?s = "s\<lparr>session_lock := True, session_lock_reason := get_session_lock_reason rpc peer\<rparr>"
  have unlocked: "?s\<lparr>session_lock := False\<rparr> = s\<lparr>session_lock_reason := get_session_lock_reason rpc peer\<rparr>"
    using assms(2) by (cases s) simp
  have "scope_proc (body r (entered rpc peer r s h)) (lock_destructor Session_lock r) =
      Done (assign_session r (?s\<lparr>session_lock := False\<rparr>) (entered rpc peer r s h)) (Inl (Finish_error_yield_none st))"
    unfolding body by (rule scope_throw [OF deref_entered [OF assms(1) r]])
  then show ?thesis
    unfolding enter_session_runs [where pre = pre, OF assms(1,2) r pre] unlocked by (simp add: entered_def)
qed

lemma report_refusal:
  assumes "um_find (sessions h) sid = Some s" "\<not> session_lock s"
    and r: "r = \<lparr>ref_id = sid, ref_object = session_object s\<rparr>" and pre: "pre r h = Done h (Inr ())"
    and body: "body r (entered rpc peer r s h) =
      Done (entered rpc peer r s h) (Inl (Finish_error_yield_none st))"
  shows "report_exceptions (enter_session rpc peer sid msg pre body) h =
    Suspend (assign_session r (s\<lparr>session_lock_reason := get_session_lock_reason rpc peer\<rparr>) h)
      (Finish_with_error st) (\<lambda>_ h'. Done h' (Inr ()))"
  using enter_refusal [where pre = pre and body = body, OF assms]
  by (simp add: report_exceptions_def try_catch_def finish_with_error_def bindP_def suspend_def ret_def)

lemma check_epoch_overflow_passes:
  "deref r h = Inr s \<Longrightarrow> active_epoch_index s \<noteq> - 1 \<Longrightarrow> check_epoch_overflow r h = Done h (Inr ())"
  by (simp add: check_epoch_overflow_def exec)

section \<open>Sessions between requests\<close>

text \<open>
  The epochs of a session: keys are epoch indices up to the active one, and the active epoch
  is the only one in state active.
\<close>

definition session_ok :: "session_type \<Rightarrow> bool" where
  "session_ok s \<longleftrightarrow> sm_valid (epochs s) \<and>
     (\<exists>e. sm_find (epochs s) (active_epoch_index s) = Some e) \<and>
     (\<forall>i e. sm_find (epochs s) i = Some e \<longrightarrow>
        epoch_index e = i \<and> i \<le> active_epoch_index s \<and> (state e = epoch_active \<longleftrightarrow> i = active_epoch_index s))"

lemma u64_less_Suc: "i \<le> a \<Longrightarrow> a \<noteq> - 1 \<Longrightarrow> i \<le> a + 1 \<and> i \<noteq> a + 1" for a :: u64
  using unatSuc [of a] by (auto simp: word_le_nat_alt eq_neg_iff_add_eq_0 add.commute)

lemma start_new_epoch_session_ok:
  assumes "session_ok s" "active_epoch_index s \<noteq> - 1" "sm_find (epochs s) (active_epoch_index s) = Some e"
    and "state e' = epoch_finished" "epoch_index e' = active_epoch_index s"
    and "s1 = s\<lparr>epochs := sm_assign (active_epoch_index s) e' (epochs s)\<rparr>"
  shows "\<exists>s'. start_new_epoch K e' s1 = Inr s' \<and> session_ok s' \<and>
    active_epoch_index s' = active_epoch_index s + 1 \<and> session_lock s' = session_lock s \<and>
    session_object s' = session_object s \<and>
    s' = s\<lparr>active_epoch_index := active_epoch_index s', epochs := epochs s'\<rparr> \<and>
    (\<forall>j. j \<noteq> active_epoch_index s \<longrightarrow> j \<noteq> active_epoch_index s' \<longrightarrow> sm_find (epochs s') j = sm_find (epochs s) j) \<and>
    sm_find (epochs s') (active_epoch_index s) = Some e' \<and>
    (\<exists>e2. sm_find (epochs s') (active_epoch_index s') = Some e2 \<and> epoch_ok K e2 \<and>
       processed_inputs e2 = [] \<and> pending_inputs e2 = [] \<and>
       most_recent_machine_hash e2 = most_recent_machine_hash e')"
proof -
  let ?a = "active_epoch_index s"
  have valid: "sm_valid (epochs s)" "sm_valid (epochs s1)"
    using assms(1,6) by (simp_all add: session_ok_def sm_valid_assign)
  have find1: "sm_find (epochs s1) j = (if j = ?a then Some e' else sm_find (epochs s) j)" for j
    using assms(6) valid(1) by (simp add: sm_find_assign)
  have ne: "i \<le> ?a + 1 \<and> i \<noteq> ?a + 1" if "sm_find (epochs s1) i = Some x" for i x
    using that assms(1,2) u64_less_Suc [of i ?a] by (auto simp: find1 session_ok_def split: if_splits)
  obtain vt nt where d: "default_epoch K = Inr \<lparr>epoch_index = 0, state = epoch_active,
      most_recent_machine_hash = zero_hash, vouchers_tree = vt, notices_tree = nt,
      processed_inputs = [], pending_inputs = [], pending_query = None\<rparr>"
      "epoch_tree K [] vt" "epoch_tree K [] nt"
    using default_epoch_Inr [of K] by (auto simp: epoch_tree_def)
  define e2 where "e2 = \<lparr>epoch_index = ?a + 1, state = epoch_active,
      most_recent_machine_hash = most_recent_machine_hash e', vouchers_tree = vt, notices_tree = nt,
      processed_inputs = [], pending_inputs = [], pending_query = None\<rparr>"
  define s' where "s' = s1\<lparr>active_epoch_index := ?a + 1, epochs := sm_assign (?a + 1) e2 (epochs s1)\<rparr>"
  have start: "start_new_epoch K e' s1 = Inr s'"
    using assms(6) by (simp add: start_new_epoch_def d s'_def e2_def Let_def)
  have find': "sm_find (epochs s') j = (if j = ?a + 1 then Some e2 else sm_find (epochs s1) j)" for j
    using valid(2) by (simp add: s'_def sm_find_assign)
  have "session_ok s'"
    unfolding session_ok_def
  proof (intro conjI allI impI)
    show "sm_valid (epochs s')" using valid(2) by (simp add: s'_def sm_valid_assign)
    show "\<exists>e. sm_find (epochs s') (active_epoch_index s') = Some e" by (simp add: find') (simp add: s'_def)
    fix i x assume x: "sm_find (epochs s') i = Some x"
    have a': "active_epoch_index s' = ?a + 1" by (simp add: s'_def)
    show "epoch_index x = i"
      using x assms(1,5) by (auto simp: find' find1 e2_def session_ok_def split: if_splits)
    show "i \<le> active_epoch_index s'" using x ne by (auto simp: find' a' split: if_splits)
    show "state x = epoch_active \<longleftrightarrow> i = active_epoch_index s'"
      using x assms(1,4) ne by (auto simp: find' find1 a' e2_def session_ok_def split: if_splits)
  qed
  moreover have "sm_find (epochs s') ?a = Some e'" using ne [of ?a e'] by (auto simp: find' find1)
  moreover have "sm_find (epochs s') (active_epoch_index s') = Some e2" by (simp add: find') (simp add: s'_def)
  moreover have "\<forall>j. j \<noteq> ?a \<longrightarrow> j \<noteq> ?a + 1 \<longrightarrow> sm_find (epochs s') j = sm_find (epochs s) j" by (simp add: find' find1)
  ultimately show ?thesis
    using start assms(6) d(2,3) by (simp add: s'_def epoch_ok_def e2_def)
qed

lemma close_epoch_correct:
  assumes r: "deref r h = Inr s" and s: "session_ok s" "active_epoch_index s \<noteq> - 1"
    and e: "sm_find (epochs s) (active_epoch_index s) = Some e" "epoch_ok K e" "outputs_hashed e"
  shows "\<exists>h' s' response. close_epoch K r (active_epoch_index s) h = Done h' (Inr response) \<and>
    h' = assign_session r s' h \<and> session_ok s' \<and>
    active_epoch_index s' = active_epoch_index s + 1 \<and> session_lock s' = session_lock s \<and>
    session_object s' = session_object s \<and>
    s' = s\<lparr>active_epoch_index := active_epoch_index s', epochs := epochs s'\<rparr> \<and>
    (\<forall>j. j \<noteq> active_epoch_index s \<longrightarrow> j \<noteq> active_epoch_index s' \<longrightarrow> sm_find (epochs s') j = sm_find (epochs s) j) \<and>
    sm_find (epochs s') (active_epoch_index s) = Some (fst (finish_epoch e)) \<and>
    set_proto_finish_epoch_response (fst (finish_epoch e)) = Inr response \<and>
    (\<exists>e2. sm_find (epochs s') (active_epoch_index s') = Some e2 \<and> epoch_ok K e2 \<and>
       processed_inputs e2 = [] \<and> pending_inputs e2 = [] \<and>
       most_recent_machine_hash e2 = most_recent_machine_hash e)"
proof -
  let ?a = "active_epoch_index s" and ?e = "fst (finish_epoch e)"
  obtain is' where fin: "finish_epoch e = (e\<lparr>state := epoch_finished, processed_inputs := is'\<rparr>, Inr ())"
    using finish_epoch_ok [OF e(2)] by auto
  have e': "state ?e = epoch_finished" "epoch_index ?e = ?a" "most_recent_machine_hash ?e = most_recent_machine_hash e"
    using fin s(1) e(1) by (auto simp: session_ok_def)
  define s1 where "s1 = s\<lparr>epochs := sm_assign ?a ?e (epochs s)\<rparr>"
  have find1: "sm_find (epochs s1) ?a = Some ?e"
    using s(1) by (simp add: s1_def session_ok_def sm_find_assign)
  obtain s' where s': "start_new_epoch K ?e s1 = Inr s'" "session_ok s'" "active_epoch_index s' = ?a + 1"
      "session_lock s' = session_lock s" "session_object s' = session_object s"
      "sm_find (epochs s') ?a = Some ?e"
      "s' = s\<lparr>active_epoch_index := active_epoch_index s', epochs := epochs s'\<rparr>"
      "\<forall>j. j \<noteq> ?a \<longrightarrow> j \<noteq> active_epoch_index s' \<longrightarrow> sm_find (epochs s') j = sm_find (epochs s) j"
      "\<exists>e2. sm_find (epochs s') (active_epoch_index s') = Some e2 \<and> epoch_ok K e2 \<and>
         processed_inputs e2 = [] \<and> pending_inputs e2 = [] \<and>
         most_recent_machine_hash e2 = most_recent_machine_hash ?e"
    using start_new_epoch_session_ok [OF s e(1) e'(1,2) s1_def, of K] by blast
  obtain response where resp: "set_proto_finish_epoch_response ?e = Inr response"
    using finish_response_Inr [OF e(2,3)] by blast
  have obj: "session_object s = ref_object r" using r by (simp add: deref_Inr_iff)
  have w1: "write_epoch r ?a (\<lambda>_. ?e) h = Inr (assign_session r s1 h)"
    using r e(1) by (simp add: write_epoch_def deref_epoch_def write_session_def s1_def)
  have obj1: "session_object s1 = ref_object r" "session_object s' = ref_object r"
    using obj s'(5) by (simp_all add: s1_def)
  have "close_epoch K r ?a h = Done (assign_session r s' h) (Inr response)"
    using r e(1) w1 fin find1 s'(1,6) resp obj1
    by (simp add: close_epoch_def exec deref_epoch_def write_session_def)
  then show ?thesis
    using s'(2-6,9) s'(7,8) resp e'(3)
    by (intro exI [of _ "assign_session r s' h"] exI [of _ s'] exI [of _ response]) auto
qed

section \<open>Runs of the handlers\<close>

lemma delete_epoch_runs:
  assumes "um_find (sessions h) sid = Some s" "\<not> session_lock s"
    and "r = \<lparr>ref_id = sid, ref_object = session_object s\<rparr>"
    and "request = \<lparr>der_session_id = sid, der_epoch_index = i\<rparr>"
    and "s' = s\<lparr>session_lock_reason := get_session_lock_reason ''DeleteEpoch'' peer\<rparr>"
  shows "DeleteEpoch_handler True peer request h =
    (case sm_find (epochs s) i of
       None \<Rightarrow> Suspend (assign_session r s' h)
         (Finish_with_error (grpc_error INVALID_ARGUMENT ''unknown epoch index'')) (\<lambda>_ h'. Done h' (Inr ()))
     | Some e \<Rightarrow>
       if state e = epoch_active \<or> active_epoch_index s = i
       then Suspend (assign_session r s' h)
         (Finish_with_error (grpc_error INVALID_ARGUMENT ''epoch is active'')) (\<lambda>_ h'. Done h' (Inr ()))
       else Suspend (assign_session r (s\<lparr>session_lock := True,
             session_lock_reason := get_session_lock_reason ''DeleteEpoch'' peer,
             epochs := sm_erase i (epochs s)\<rparr>) h)
         (Finish Void_response) (\<lambda>_ h'. left r h'))"
proof -
  let ?h = "entered ''DeleteEpoch'' peer r s h"
  have d: "deref r ?h = Inr (s\<lparr>session_lock := True, session_lock_reason := get_session_lock_reason ''DeleteEpoch'' peer\<rparr>)"
    using deref_entered [OF assms(1,3)] .
  show ?thesis
  proof (cases "\<exists>e. sm_find (epochs s) i = Some e \<and> state e \<noteq> epoch_active \<and> active_epoch_index s \<noteq> i")
    case True
    then show ?thesis
      using enter_session_runs [OF assms(1,2,3), of "\<lambda>_. ret ()" "''DeleteEpoch''" peer] d assms(3-5)
      by (auto simp: DeleteEpoch_handler_def report_exceptions_def try_catch_def exec write_session_def
          scope_finish catch_left entered_def [of "''DeleteEpoch''"])
  next
    case False
    then show ?thesis
      using d assms(4,5)
      by (cases "sm_find (epochs s) i")
        (simp_all add: DeleteEpoch_handler_def report_refusal [OF assms(1-3)] exec)
  qed
qed

lemma finish_epoch_runs:
  assumes "um_find (sessions h) sid = Some s" "\<not> session_lock s" "\<not> tainted s"
    and "r = \<lparr>ref_id = sid, ref_object = session_object s\<rparr>"
    and "session_ok s" "active_epoch_index s \<noteq> - 1"
    and "sm_find (epochs s) (active_epoch_index s) = Some e" "pending_inputs e = []"
    and "epoch_ok K e" "outputs_hashed e"
    and "request = \<lparr>fer_session_id = sid, fer_active_epoch_index = active_epoch_index s,
           fer_processed_input_count_within_epoch = of_nat (length (processed_inputs e)),
           fer_storage_directory = []\<rparr>"
  shows "\<exists>s' response. FinishEpoch_handler K self True peer request h =
      Suspend (assign_session r s' h) (Finish (Finish_epoch response)) (\<lambda>_ h'. left r h') \<and>
    session_ok s' \<and> session_lock s' \<and> active_epoch_index s' = active_epoch_index s + 1 \<and>
    s' = s\<lparr>session_lock := True, session_lock_reason := get_session_lock_reason ''FinishEpoch'' peer,
      active_epoch_index := active_epoch_index s', epochs := epochs s'\<rparr> \<and>
    (\<forall>j. j \<noteq> active_epoch_index s \<longrightarrow> j \<noteq> active_epoch_index s' \<longrightarrow> sm_find (epochs s') j = sm_find (epochs s) j) \<and>
    sm_find (epochs s') (active_epoch_index s) = Some (fst (finish_epoch e)) \<and>
    set_proto_finish_epoch_response (fst (finish_epoch e)) = Inr response \<and>
    (\<exists>e2. sm_find (epochs s') (active_epoch_index s') = Some e2 \<and> epoch_ok K e2 \<and>
       processed_inputs e2 = [] \<and> pending_inputs e2 = [] \<and>
       most_recent_machine_hash e2 = most_recent_machine_hash e)"
proof -
  let ?h = "entered ''FinishEpoch'' peer r s h"
  let ?s = "s\<lparr>session_lock := True, session_lock_reason := get_session_lock_reason ''FinishEpoch'' peer\<rparr>"
  have d0: "deref r h = Inr s" using assms(1,4) by (simp add: deref_Inr_iff)
  have d: "deref r ?h = Inr ?s" using deref_entered [OF assms(1,4)] .
  have s: "session_ok ?s" "active_epoch_index ?s \<noteq> - 1" "sm_find (epochs ?s) (active_epoch_index ?s) = Some e"
    using assms(5-7) by (simp_all add: session_ok_def)
  obtain s' response where c: "close_epoch K r (active_epoch_index s) ?h = Done (assign_session r s' h) (Inr response)"
      "session_ok s'" "session_lock s'" "active_epoch_index s' = active_epoch_index s + 1"
      "s' = ?s\<lparr>active_epoch_index := active_epoch_index s', epochs := epochs s'\<rparr>"
      "\<forall>j. j \<noteq> active_epoch_index s \<longrightarrow> j \<noteq> active_epoch_index s' \<longrightarrow> sm_find (epochs s') j = sm_find (epochs s) j"
      "sm_find (epochs s') (active_epoch_index s) = Some (fst (finish_epoch e))"
      "set_proto_finish_epoch_response (fst (finish_epoch e)) = Inr response"
      "\<exists>e2. sm_find (epochs s') (active_epoch_index s') = Some e2 \<and> epoch_ok K e2 \<and>
         processed_inputs e2 = [] \<and> pending_inputs e2 = [] \<and>
         most_recent_machine_hash e2 = most_recent_machine_hash e"
    using close_epoch_correct [OF d s assms(9,10)] by (auto simp: entered_def)
  have checks: "check_not_tainted p r ?h = Done ?h (Inr ())"
      "check_epoch_can_finish request r ?h = Done ?h (Inr ())" for p
    using d assms(3,5,7,8,11)
    by (auto simp: check_not_tainted_def check_epoch_can_finish_def exec session_ok_def)
  have "FinishEpoch_handler K self True peer request h =
      Suspend (assign_session r s' h) (Finish (Finish_epoch response)) (\<lambda>_ h'. left r h')"
    using enter_session_runs [where pre = check_epoch_overflow, OF assms(1,2,4)
        check_epoch_overflow_passes [OF d0 assms(6)], of "''FinishEpoch''" peer] checks c(1) assms(11)
    by (simp add: FinishEpoch_handler_def report_exceptions_def try_catch_def bindP_def thenP_def ret_def
        scope_finish catch_left)
  with c(2-9) show ?thesis by blast
qed

lemma end_session_runs:
  assumes "um_find (sessions h) sid = Some s" "\<not> session_lock s" "\<not> tainted s" "\<not> processing_lock s"
    and "r = \<lparr>ref_id = sid, ref_object = session_object s\<rparr>"
    and "sm_find (epochs s) (active_epoch_index s) = Some e" "pending_inputs e = []" "processed_inputs e = []"
    and "server_stub s = Some address"
  shows "\<exists>k. EndSession_handler K self True peer sid h =
      Suspend (entered ''EndSession'' peer r s h)
        (Machine_call address M_Shutdown (dl_fast (server_deadline s))) k \<and>
    (\<forall>w. is_ok (call_status w) \<longrightarrow>
      (\<exists>k' h2. k w (entered ''EndSession'' peer r s h) = Suspend h2 (Finish Void_response) k' \<and>
         um_find (sessions h2) sid = None \<and> completion_queue h2 = completion_queue h \<and>
         (\<forall>v h3. um_find (sessions h3) sid = None \<longrightarrow> k' v h3 = Done h3 (Inl dangling))))"
proof -
  let ?h = "entered ''EndSession'' peer r s h"
  have d: "deref r ?h = Inr (s\<lparr>session_lock := True, session_lock_reason := get_session_lock_reason ''EndSession'' peer\<rparr>)"
    using deref_entered [OF assms(1,5)] .
  have gone: "left r h3 = Done h3 (Inl dangling)" if "um_find (sessions h3) sid = None" for h3
    using that assms(5) by (simp add: left_cases deref_def)
  have q: "completion_queue ?h = completion_queue h" by (simp add: entered_def assign_session_def)
  show ?thesis
    using enter_session_runs [OF assms(1,2,5), of "\<lambda>_. ret ()" "''EndSession''" peer] d assms(3-9) gone q
    by (simp add: EndSession_handler_def report_exceptions_def try_catch_def exec epoch_at_def
        deref_epoch_def shutdown_server_def machine_call_def suspend_def CHECK_STATUS_OR_FAIL_def
        scope_finish catch_left)
qed

section \<open>Properties\<close>

text \<open>
  Claim C29. \<open>DeleteEpoch\<close> removes exactly the requested epoch, and only a finished epoch that
  is not the active one: otherwise it is refused and no epoch changes.
\<close>

theorem delete_epoch_correct:
  assumes "um_find (sessions h) sid = Some s" "\<not> session_lock s"
    and "r = \<lparr>ref_id = sid, ref_object = session_object s\<rparr>"
    and "request = \<lparr>der_session_id = sid, der_epoch_index = i\<rparr>"
    and "s' = s\<lparr>session_lock_reason := get_session_lock_reason ''DeleteEpoch'' peer\<rparr>"
  shows "DeleteEpoch_handler True peer request h =
    (case sm_find (epochs s) i of
       None \<Rightarrow> Suspend (assign_session r s' h)
         (Finish_with_error (grpc_error INVALID_ARGUMENT ''unknown epoch index'')) (\<lambda>_ h'. Done h' (Inr ()))
     | Some e \<Rightarrow>
       if state e = epoch_active \<or> active_epoch_index s = i
       then Suspend (assign_session r s' h)
         (Finish_with_error (grpc_error INVALID_ARGUMENT ''epoch is active'')) (\<lambda>_ h'. Done h' (Inr ()))
       else Suspend (assign_session r (s\<lparr>session_lock := True,
             session_lock_reason := get_session_lock_reason ''DeleteEpoch'' peer,
             epochs := sm_erase i (epochs s)\<rparr>) h)
         (Finish Void_response) (\<lambda>_ h'. left r h'))"
  using assms by (rule delete_epoch_runs)

text \<open>
  Claim C8. A valid \<open>FinishEpoch\<close> request without a storage directory is served in one
  uninterrupted step: the active epoch becomes finished with refreshed proofs, a fresh epoch
  with the next index and the same machine hash becomes active, the response is the one built
  from the finished epoch, and the session keeps its invariant and stays locked until the
  reply is acknowledged.
\<close>

theorem finish_epoch_rpc_correct:
  assumes "um_find (sessions h) sid = Some s" "\<not> session_lock s" "\<not> tainted s"
    and "r = \<lparr>ref_id = sid, ref_object = session_object s\<rparr>"
    and "session_ok s" "active_epoch_index s \<noteq> - 1"
    and "sm_find (epochs s) (active_epoch_index s) = Some e" "pending_inputs e = []"
    and "epoch_ok K e" "outputs_hashed e"
    and "request = \<lparr>fer_session_id = sid, fer_active_epoch_index = active_epoch_index s,
           fer_processed_input_count_within_epoch = of_nat (length (processed_inputs e)),
           fer_storage_directory = []\<rparr>"
  shows "\<exists>s' response. FinishEpoch_handler K self True peer request h =
      Suspend (assign_session r s' h) (Finish (Finish_epoch response)) (\<lambda>_ h'. left r h') \<and>
    session_ok s' \<and> session_lock s' \<and> active_epoch_index s' = active_epoch_index s + 1 \<and>
    sm_find (epochs s') (active_epoch_index s) = Some (fst (finish_epoch e)) \<and>
    set_proto_finish_epoch_response (fst (finish_epoch e)) = Inr response \<and>
    (\<exists>e2. sm_find (epochs s') (active_epoch_index s') = Some e2 \<and> epoch_ok K e2 \<and>
       processed_inputs e2 = [] \<and> pending_inputs e2 = [] \<and>
       most_recent_machine_hash e2 = most_recent_machine_hash e)"
  using finish_epoch_runs [OF assms] by blast

text \<open>
  Claim C30. A successful \<open>EndSession\<close> destroys its lock object after the session it refers
  to: once the machine server has acknowledged the shutdown, the session is erased and the
  reply is sent, and when the handler is resumed the destructor of its lock writes through a
  dangling reference.
\<close>

theorem end_session_writes_dangling_lock:
  assumes "um_find (sessions h) sid = Some s" "\<not> session_lock s" "\<not> tainted s" "\<not> processing_lock s"
    and "r = \<lparr>ref_id = sid, ref_object = session_object s\<rparr>"
    and "sm_find (epochs s) (active_epoch_index s) = Some e" "pending_inputs e = []" "processed_inputs e = []"
    and "server_stub s = Some address"
  shows "\<exists>k. EndSession_handler K self True peer sid h =
      Suspend (entered ''EndSession'' peer r s h)
        (Machine_call address M_Shutdown (dl_fast (server_deadline s))) k \<and>
    (\<forall>w. is_ok (call_status w) \<longrightarrow>
      (\<exists>k' h2. k w (entered ''EndSession'' peer r s h) = Suspend h2 (Finish Void_response) k' \<and>
         um_find (sessions h2) sid = None \<and>
         (\<forall>v h3. um_find (sessions h3) sid = None \<longrightarrow> k' v h3 = Done h3 (Inl dangling))))"
  using end_session_runs [OF assms, of K self peer] by blast

section \<open>Instances\<close>

theorem delete_epoch_correct_witness:
  "\<exists>k. DeleteEpoch_handler True ''peer'' \<lparr>der_session_id = ''s'', der_epoch_index = 4\<rparr> sample_context =
     Suspend (assign_session sample_ref (sample_session\<lparr>session_lock_reason := ''RPC DeleteEpoch from peer''\<rparr>)
       sample_context) (Finish_with_error (grpc_error INVALID_ARGUMENT ''epoch is active'')) k"
proof -
  have "active_epoch_index sample_session = 4" by (simp add: sample_session_def)
  then show ?thesis
    using delete_epoch_correct [OF sample_context_session(1-3) refl refl, of "''peer''" 4]
      sample_context_session(5)
    by (simp add: get_session_lock_reason_def)
qed

lemma sample_session_ok: "session_ok sample_session"
  using sample_epoch_ok(5,6) by (simp add: session_ok_def sample_session_def sm_valid_def sm_find_def)

theorem finish_epoch_rpc_correct_witness:
  "\<exists>s' response. FinishEpoch_handler sample_digest 0 True ''peer''
      \<lparr>fer_session_id = ''s'', fer_active_epoch_index = 4, fer_processed_input_count_within_epoch = 1,
       fer_storage_directory = []\<rparr> sample_context =
     Suspend (assign_session sample_ref s' sample_context) (Finish (Finish_epoch response))
       (\<lambda>_ h'. left sample_ref h') \<and> session_ok s' \<and> active_epoch_index s' = 5"
proof -
  have s: "\<not> tainted sample_session" "active_epoch_index sample_session = 4"
      "active_epoch_index sample_session \<noteq> - 1"
    by (simp_all add: sample_session_def)
  have e: "sm_find (epochs sample_session) (active_epoch_index sample_session) = Some sample_epoch"
    using sample_context_session(5) s(2) by simp
  show ?thesis
    using finish_epoch_rpc_correct [OF sample_context_session(1,2) s(1) sample_context_session(3)
        sample_session_ok s(3) e sample_epoch_ok(4,1) outputs_ok_hashed [OF sample_epoch_ok(2)] refl, of 0 "''peer''"] s(2) sample_epoch_ok(3)
    by auto
qed

definition fresh_session :: session_type where
  "fresh_session = sample_session\<lparr>epochs := [(4, projr (default_epoch sample_digest))]\<rparr>"

definition fresh_context :: handler_context where
  "fresh_context = sample_context\<lparr>sessions := [(''s'', fresh_session)]\<rparr>"

definition ok_wake :: wake where
  "ok_wake = \<lparr>wake_ok = True, call_status = status_ok, reply_version = (0, 7),
     reply_config = \<lparr>cfg_htif = \<lparr>yield_manual = True, yield_automatic = True, console_getchar = False\<rparr>,
       cfg_rollup = None\<rparr>,
     reply_csr = 0,
     reply_run = \<lparr>run_mcycle = 0, run_tohost = 0, iflags_h = False, iflags_x = False, iflags_y = False\<rparr>,
     reply_hash = zero_hash, reply_data = [],
     reply_proof = \<lparr>ptp_target_address = 0, ptp_log2_target_size = 0, ptp_target_hash = zero_hash,
       ptp_log2_root_size = 0, ptp_root_hash = zero_hash, ptp_sibling_hashes = []\<rparr>,
     clock_now = 0, spawn_error = None, stub_created = True\<rparr>"

theorem end_session_writes_dangling_lock_witness:
  "\<exists>k h1 h2 k'. EndSession_handler sample_digest 0 True ''peer'' ''s'' fresh_context =
       Suspend h1 (Machine_call ''localhost:1'' M_Shutdown 1000) k \<and>
     k ok_wake h1 = Suspend h2 (Finish Void_response) k' \<and> k' ok_wake h2 = Done h2 (Inl dangling)"
proof -
  obtain e where e: "default_epoch sample_digest = Inr e" "pending_inputs e = []" "processed_inputs e = []"
    using default_epoch_Inr [of sample_digest] by auto
  have s: "um_find (sessions fresh_context) ''s'' = Some fresh_session" "\<not> session_lock fresh_session"
      "\<not> tainted fresh_session" "\<not> processing_lock fresh_session"
      "sample_ref = \<lparr>ref_id = ''s'', ref_object = session_object fresh_session\<rparr>"
      "sm_find (epochs fresh_session) (active_epoch_index fresh_session) = Some e"
      "server_stub fresh_session = Some ''localhost:1''" "dl_fast (server_deadline fresh_session) = 1000"
    using e(1)
    by (simp_all add: fresh_context_def fresh_session_def sample_session_def um_find_def sm_find_def sample_ref_def)
  have "is_ok (call_status ok_wake)" by (simp add: ok_wake_def is_ok_def status_ok_def)
  then show ?thesis
    using end_session_writes_dangling_lock [OF s(1-6) e(2,3) s(7), of sample_digest 0 "''peer''"] s(8)
    by metis
qed

end
