(* ===== verification/Input_Liveness.thy ===== *)
theory Input_Liveness
  imports Run_Correctness Epoch_Handlers
begin

text \<open>
  Processing a queue of inputs returns: a run in which the machine server answers every call and
  checks in after every snapshot and rollback, and no other handler interferes.
\<close>

section \<open>Runs\<close>

definition outcome :: "('y \<Rightarrow> 's \<Rightarrow> 'v \<times> 's) \<Rightarrow> ('s, 'y, 'v, 'a) proc \<Rightarrow> 's \<times> 'a hres" where
  "outcome env p = snd (run_proc env p)"

named_theorems outcome_rules \<open>running every program constructor\<close>

lemma outcome_Done [outcome_rules]: "outcome env (Done h res) = (h, res)"
  by (simp add: outcome_def)

lemma outcome_Suspend: "outcome env (Suspend h y k) = outcome env (case_prod k (env y h))"
  by (simp add: outcome_def split: prod.split)

lemma outcome_bind_proc:
  "outcome env (bind_proc p f) =
     (case outcome env p of (h, Inl x) \<Rightarrow> (h, Inl x) | (h, Inr a) \<Rightarrow> outcome env (f a h))"
  by (induction p rule: proc_induct) (simp_all add: outcome_Done outcome_Suspend split: prod.split sum.split)

lemma outcome_scope_proc:
  "outcome env (scope_proc p d) = (case outcome env p of (h, res) \<Rightarrow> outcome env (run_destructor d h res))"
  for p :: "('s, 'y, 'v, 'a) proc"
  by (induction p rule: proc_induct) (simp_all add: outcome_Done outcome_Suspend split: prod.split)

lemma outcome_programs [outcome_rules]:
  "outcome env (bindP m f h) = (case outcome env (m h) of (h, Inl x) \<Rightarrow> (h, Inl x) | (h, Inr a) \<Rightarrow> outcome env (f a h))"
  "outcome env (thenP n m h) = (case outcome env (n h) of (h, Inl x) \<Rightarrow> (h, Inl x) | (h, Inr a) \<Rightarrow> outcome env (m h))"
  "outcome env (ret v h) = (h, Inr v)"
  "outcome env (throw x h) = (h, Inl x)"
  "outcome env (liftH res h) = (h, res)"
  "outcome env (gets g h) = (h, g h)"
  "outcome env (update u h) = (case u h of Inl x \<Rightarrow> (h, Inl x) | Inr h' \<Rightarrow> (h', Inr ()))"
  "outcome env (suspend y h) = (snd (env y h), Inr (fst (env y h)))"
  by (simp_all add: bindP_def thenP_def outcome_bind_proc ret_def throw_def liftH_def gets_def update_def suspend_def
      outcome_Done outcome_Suspend split: sum.split prod.split)

lemma outcome_scope [outcome_rules]:
  "outcome env (on_scope_exit d m h) = (case outcome env (m h) of (h', res) \<Rightarrow> outcome env (run_destructor d h' res))"
  by (simp add: on_scope_exit_def outcome_scope_proc)

section \<open>A cooperative machine server\<close>

text \<open>
  Every call is answered by \<open>w\<close>; a machine server that should check in does so before its
  deadline. Nothing else changes meanwhile.
\<close>

definition cooperate :: "wake \<Rightarrow> yield_point \<Rightarrow> handler_context \<Rightarrow> wake \<times> handler_context" where
  "cooperate w y h =
     (w, case y of
        Wait_checkin i \<Rightarrow>
          (case um_find (sessions_waiting_checkin h) i of
             None \<Rightarrow> h
           | Some c \<Rightarrow> h\<lparr>sessions_waiting_checkin := um_assign i (c\<lparr>cc_status := Some True\<rparr>) (sessions_waiting_checkin h)\<rparr>)
      | _ \<Rightarrow> h)"

text \<open>
  The answers to an input that the machine rejects: it has the machine hash of the epoch after
  the rollback, acknowledges the request and yields with the rejection before the cycle limit.
\<close>

definition rejects :: "wake \<Rightarrow> hash_type \<Rightarrow> u64 \<Rightarrow> bool" where
  "rejects w hash max_mcycle \<longleftrightarrow> is_ok (call_status w) \<and> stub_created w \<and> get_proto_hash (reply_hash w) = Inr hash \<and>
     htif_dev_field (reply_csr w) = HTIF_DEVICE_YIELD \<and> htif_cmd_field (reply_csr w) = HTIF_YIELD_MANUAL \<and>
     htif_data_field (reply_csr w) = ROLLUP_ADVANCE_STATE \<and>
     iflags_y (reply_run w) \<and> \<not> iflags_h (reply_run w) \<and>
     yield_reason_of (run_tohost (reply_run w)) = HTIF_YIELD_REASON_RX_REJECTED \<and> run_mcycle (reply_run w) < max_mcycle"

text \<open>The session between two steps: connected, nothing waiting for its check-in.\<close>

definition connected :: "session_ref \<Rightarrow> session_type \<Rightarrow> handler_context \<Rightarrow> bool" where
  "connected r s h \<longleftrightarrow> deref r h = Inr s \<and> server_stub s \<noteq> None \<and> um_find (sessions_waiting_checkin h) (session_id s) = None"

lemma run_get_session:
  "connected r s h \<Longrightarrow> outcome env (get_session r h) = (h, Inr s)"
  by (simp add: connected_def get_session_def outcome_rules)

lemma run_machine_call:
  "connected r s h \<Longrightarrow> actx_session actx = r \<Longrightarrow> outcome (cooperate w) (machine_call actx d q h) = (h, Inr w)"
  by (auto simp: connected_def machine_call_def outcome_rules get_session_def cooperate_def)

lemma run_simple_calls:
  assumes "connected r s h" "actx_session actx = r" "is_ok (call_status w)"
  shows "outcome (cooperate w) (snapshot actx h) = (h, Inr ())" "outcome (cooperate w) (rollback actx h) = (h, Inr ())"
    "outcome (cooperate w) (clear_memory_ranges actx h) = (h, Inr ())"
    "outcome (cooperate w) (write_evm_abi_string actx data rng h) = (h, Inr ())"
    "outcome (cooperate w) (write_memory_range actx data rng h) = (h, Inr ())"
    "outcome (cooperate w) (reset_iflags_y actx h) = (h, Inr ())"
  using assms(3)
  by (simp_all add: snapshot_def rollback_def clear_memory_ranges_def replace_memory_range_def write_evm_abi_string_def
      write_memory_range_def reset_iflags_y_def outcome_rules run_machine_call [OF assms(1,2)] CHECK_STATUS_OR_TAINT_def)

lemma run_answers:
  assumes "connected r s h" "actx_session actx = r" "rejects w hash mx"
  shows "outcome (cooperate w) (get_root_hash actx h) = (h, Inr hash)"
    "outcome (cooperate w) (check_htif_yield_ack_data actx ROLLUP_ADVANCE_STATE h) = (h, Inr ())"
    "outcome (cooperate w) (run_machine (Suc n) actx cur inc mx start dinc mdl h) = (h, Inr (Some (reply_run w)))"
  using assms(3)
  by (simp_all add: get_root_hash_def check_htif_yield_ack_data_def get_htif_fromhost_def check_htif_yield_manual_def
      run_machine_def outcome_rules run_machine_call [OF assms(1,2)] CHECK_STATUS_OR_TAINT_def rejects_def Let_def)

lemma run_checkin:
  assumes "connected r s h" "actx_session actx = r" "stub_created w"
    and "outcome (cooperate w) (trigger h) = (h, Inr ())"
  shows "\<exists>h'. outcome (cooperate w) (trigger_and_wait_checkin actx trigger h) = (h', Inr ()) \<and>
     connected r (s\<lparr>server_stub := Some (session_server_address s)\<rparr>) h'"
proof -
  have c: "deref r h = Inr s" "session_object s = ref_object r" "um_find (sessions_waiting_checkin h) (session_id s) = None"
    using assms(1) by (simp_all add: connected_def deref_Inr_iff)
  have waiting: "deref r (h\<lparr>sessions_waiting_checkin := m\<rparr>) = Inr s"
    "assign_session r s' (h\<lparr>sessions_waiting_checkin := m\<rparr>) = (assign_session r s' h)\<lparr>sessions_waiting_checkin := m\<rparr>"
    "deref r ((assign_session r s' h)\<lparr>sessions_waiting_checkin := m\<rparr>) = deref r (assign_session r s' h)" for m s'
    using c(1) by (simp_all add: deref_def assign_session_def)
  show ?thesis
    using assms(2-4) c
    by (simp add: trigger_and_wait_checkin_def outcome_rules get_session_def set_session_def cooperate_def waiting
        check_server_stub_def write_session_def connected_def)
qed

text \<open>One input, before and after.\<close>

definition due :: "digest \<Rightarrow> session_ref \<Rightarrow> u64 \<Rightarrow> wake \<Rightarrow> session_type \<Rightarrow> epoch_type \<Rightarrow> handler_context \<Rightarrow> bool" where
  "due K r i w s e h \<longleftrightarrow> connected r s h \<and> sm_valid (epochs s) \<and> sm_find (epochs s) i = Some e \<and>
     trees_ok K [] [] e \<and> pending_query e = None \<and>
     length (processed_inputs e) + length (pending_inputs e) \<le> epoch_capacity \<and>
     rejects w (most_recent_machine_hash e) (current_mcycle s + max_advance_state (server_cycles s))"

definition run_status :: "session_type \<Rightarrow> input_type \<Rightarrow> completion_status" where
  "run_status s input = (if payload_fits (in_payload input) s then rejected else payload_length_limit_exceeded)"

lemma run_input_rejected:
  assumes "due K r i w s e h" "actx_session actx = r"
  shows "outcome (cooperate w) (run_input (Suc n) actx i (length (processed_inputs e)) input mcycle h) =
     (h, Inr ((new_outcome mcycle)\<lparr>ro_status := rejected\<rparr>))"
proof -
  have c: "connected r s h" "deref r h = Inr s" "sm_find (epochs s) i = Some e"
    and w: "is_ok (call_status w)" "rejects w (most_recent_machine_hash e) (current_mcycle s + max_advance_state (server_cycles s))"
    using assms(1) by (simp_all add: due_def rejects_def connected_def)
  have sizes: "lift_res (cmt_size (vouchers_tree e)) = Inr (length (processed_inputs e))"
      "lift_res (cmt_size (notices_tree e)) = Inr (length (processed_inputs e))"
    using assms(1) epoch_tree_size by (fastforce simp: due_def trees_ok_def)+
  have "\<not> current_mcycle s + max_advance_state (server_cycles s) \<le> run_mcycle (reply_run w)"
    using w(2) by (simp add: rejects_def not_le)
  then have run: "outcome (cooperate w) (run_loop (Suc n) (Suc n) read_advance_output actx (advance_limits s start) (new_outcome mcycle) h) =
      (h, Inr ((new_outcome mcycle)\<lparr>ro_status := rejected\<rparr>))" for start
    using w(2) run_answers(3) [OF c(1) assms(2), of w "most_recent_machine_hash e" "rl_max_mcycle (advance_limits s start)"]
    by (simp add: outcome_rules run_step_def advance_limits_def rejects_def Let_def htif_reasons)
  show ?thesis
    using c(2,3) sizes run
    by (simp add: run_input_def outcome_rules run_simple_calls [OF c(1) assms(2) w(1)] run_answers(2) [OF c(1) assms(2) w(2)]
        run_get_session [OF c(1)] assms(2) cooperate_def check_tree_sizes_def get_epoch_def deref_epoch_def)
qed

lemma run_push_leaf:
  assumes "deref r h = Inr s" "sm_valid (epochs s)" "sm_find (epochs s) i = Some e"
    and "epoch_tree K leaves (get e)" "\<And>t. get (put t e) = t" "n = length leaves" "n < epoch_capacity"
  shows "\<exists>t p. outcome env (push_leaf K r i get put n hash h) =
       (assign_session r (s\<lparr>epochs := sm_assign i (put t e) (epochs s)\<rparr>) h, Inr p) \<and> epoch_tree K (leaves @ [hash]) t"
proof -
  obtain t p where t: "cmt_push_back K hash (get e) = Inr t" "epoch_tree K (leaves @ [hash]) t"
      "cmt_get_proof t (leaf_address (of_nat n)) LOG2_KECCAK_SIZE = Inr p"
    using push_tree [OF assms(4), of hash] epoch_tree_push [OF assms(4), of hash] assms(6,7) by auto
  have "session_object s = ref_object r" using assms(1) by (simp add: deref_Inr_iff)
  then show ?thesis
    using assms(1-3,5) t
    by (auto simp: push_leaf_def outcome_rules get_epoch_def set_epoch_def deref_epoch_def write_epoch_def write_session_def
        sm_find_assign)
qed

lemma skip_input_runs:
  assumes "due K r i w s e h" "actx_session actx = r" "length (processed_inputs e) < epoch_capacity"
  shows "\<exists>h' vt nt vp np. outcome (cooperate w) (skip_input K actx i c (length (processed_inputs e)) out h) = (h', Inr ()) \<and>
     connected r (s\<lparr>server_stub := Some (session_server_address s), epochs := sm_assign i
       (e\<lparr>vouchers_tree := vt, notices_tree := nt, processed_inputs := processed_inputs e @
          [skipped_result c (length (processed_inputs e)) out vp np (most_recent_machine_hash e)]\<rparr>) (epochs s)\<rparr>) h' \<and>
     epoch_tree K (map voucher_leaf (processed_inputs e) @ [zero_hash]) vt \<and>
     epoch_tree K (map notice_leaf (processed_inputs e) @ [zero_hash]) nt"
proof -
  let ?n = "length (processed_inputs e)"
  have c: "connected r s h" "sm_valid (epochs s)" "sm_find (epochs s) i = Some e" "trees_ok K [] [] e"
    and w: "is_ok (call_status w)" "stub_created w"
      "rejects w (most_recent_machine_hash e) (current_mcycle s + max_advance_state (server_cycles s))"
    using assms(1) by (simp_all add: due_def rejects_def)
  let ?s1 = "s\<lparr>server_stub := Some (session_server_address s)\<rparr>"
  obtain h1 where h1: "outcome (cooperate w) (trigger_and_wait_checkin actx (rollback actx) h) = (h1, Inr ())" "connected r ?s1 h1"
    using run_checkin [where trigger = "rollback actx", OF c(1) assms(2) w(2) run_simple_calls(2) [OF c(1) assms(2) w(1)]] by blast
  have d1: "deref r h1 = Inr ?s1" "session_object s = ref_object r" using h1(2) by (auto simp: connected_def deref_Inr_iff)
  obtain vt vp where v: "outcome (cooperate w) (push_leaf K r i vouchers_tree (\<lambda>t e. e\<lparr>vouchers_tree := t\<rparr>) ?n zero_hash h1) =
      (assign_session r (?s1\<lparr>epochs := sm_assign i (e\<lparr>vouchers_tree := vt\<rparr>) (epochs s)\<rparr>) h1, Inr vp)"
      "epoch_tree K (map voucher_leaf (processed_inputs e) @ [zero_hash]) vt"
    using run_push_leaf [where get = vouchers_tree and put = "\<lambda>t e. e\<lparr>vouchers_tree := t\<rparr>" and leaves = "map voucher_leaf (processed_inputs e)",
        OF d1(1), of i e K ?n "cooperate w" zero_hash] c assms(3) by (auto simp: trees_ok_def)
  let ?e2 = "e\<lparr>vouchers_tree := vt\<rparr>"
  let ?s2 = "?s1\<lparr>epochs := sm_assign i ?e2 (epochs s)\<rparr>"
  have d2: "deref r (assign_session r ?s2 h1) = Inr ?s2" "sm_valid (epochs ?s2)" "sm_find (epochs ?s2) i = Some ?e2"
    using d1 c(2) by (simp_all add: sm_valid_assign sm_find_assign)
  obtain nt np where n: "outcome (cooperate w) (push_leaf K r i notices_tree (\<lambda>t e. e\<lparr>notices_tree := t\<rparr>) ?n zero_hash (assign_session r ?s2 h1)) =
      (assign_session r (?s2\<lparr>epochs := sm_assign i (?e2\<lparr>notices_tree := nt\<rparr>) (epochs ?s2)\<rparr>) (assign_session r ?s2 h1), Inr np)"
      "epoch_tree K (map notice_leaf (processed_inputs e) @ [zero_hash]) nt"
    using run_push_leaf [where get = notices_tree and put = "\<lambda>t e. e\<lparr>notices_tree := t\<rparr>" and leaves = "map notice_leaf (processed_inputs e)",
        OF d2, of K ?n "cooperate w" zero_hash] c(4) assms(3) by (auto simp: trees_ok_def)
  let ?e3 = "?e2\<lparr>notices_tree := nt\<rparr>"
  let ?s3 = "?s1\<lparr>epochs := sm_assign i ?e3 (epochs s)\<rparr>"
  let ?h3 = "assign_session r ?s3 h1"
  have h3: "connected r ?s3 ?h3" using h1(2) d1(2) by (simp add: connected_def)
     (simp add: assign_session_def)
  have e3: "sm_find (epochs ?s3) i = Some ?e3" "deref r ?h3 = Inr ?s3" using c(2) d1(2) by (simp_all add: sm_find_assign)
  let ?e4 = "?e3\<lparr>processed_inputs := processed_inputs e @ [skipped_result c ?n out vp np (most_recent_machine_hash e)]\<rparr>"
  let ?s4 = "?s3\<lparr>epochs := sm_assign i ?e4 (epochs ?s3)\<rparr>"
  have run: "outcome (cooperate w) (skip_input K actx i c ?n out h) = (assign_session r ?s4 ?h3, Inr ())"
    using e3 v(1) n(1)
    by (simp add: skip_input_def outcome_rules assms(2) h1(1) run_answers(1) [OF h3 assms(2) w(3)] get_epoch_def set_epoch_def
        deref_epoch_def write_epoch_def write_session_def)
  have "connected r ?s4 (assign_session r ?s4 ?h3)"
    using h1(2) d1(2) by (simp add: connected_def) (simp add: assign_session_def)
  then show ?thesis
    using run v(2) n(2) by (intro exI [of _ "assign_session r ?s4 ?h3"] exI [of _ vt] exI [of _ nt] exI [of _ vp] exI [of _ np]) simp
qed

text \<open>What processing the inputs \<open>inputs\<close> has added.\<close>

definition skipped_all ::
  "session_type \<Rightarrow> epoch_type \<Rightarrow> input_type list \<Rightarrow> session_type \<Rightarrow> epoch_type \<Rightarrow> bool" where
  "skipped_all s e inputs s' e' \<longleftrightarrow>
     (\<exists>new. processed_inputs e' = processed_inputs e @ new \<and> map pi_status new = map (run_status s) inputs) \<and>
     processed_input_count s' = processed_input_count s + of_nat (length inputs) \<and>
     most_recent_machine_hash e' = most_recent_machine_hash e \<and> current_mcycle s' = current_mcycle s \<and>
     processing_lock s' = processing_lock s \<and> memory_range s' = memory_range s"

lemma skipped_all_trans:
  assumes "skipped_all s e xs s' e'" "skipped_all s' e' ys s'' e''"
  shows "skipped_all s e (xs @ ys) s'' e''"
proof -
  have "run_status s' = run_status s" using assms(1) by (simp add: skipped_all_def run_status_def payload_fits_def fun_eq_iff)
  then show ?thesis using assms unfolding skipped_all_def by (auto simp: algebra_simps)
qed

lemma process_input_runs:
  assumes "due K r i w s e h" "actx_session actx = r" "pending_inputs e = input # rest"
  shows "\<exists>h' s' e'. outcome (cooperate w) (process_input (Suc n) K actx i h) = (h', Inr ()) \<and> due K r i w s' e' h' \<and>
     pending_inputs e' = rest \<and> skipped_all s e [input] s' e'"
proof -
  let ?n = "length (processed_inputs e)" and ?c = "processed_input_count s"
  have c: "connected r s h" "deref r h = Inr s" "sm_find (epochs s) i = Some e"
    and w: "is_ok (call_status w)" "stub_created w"
    using assms(1) by (simp_all add: due_def rejects_def connected_def)
  let ?s1 = "s\<lparr>server_stub := Some (session_server_address s)\<rparr>"
  obtain h1 where h1: "outcome (cooperate w) (trigger_and_wait_checkin actx (snapshot actx) h) = (h1, Inr ())" "connected r ?s1 h1"
    using run_checkin [where trigger = "snapshot actx", OF c(1) assms(2) w(2) run_simple_calls(1) [OF c(1) assms(2) w(1)]] by blast
  have due1: "due K r i w ?s1 e h1" using assms(1) h1(2) by (simp add: due_def)
  let ?out = "(new_outcome (current_mcycle s))\<lparr>ro_status := run_status s input\<rparr>"
  have fits: "payload_fits x ?s1 = payload_fits x s" for x by (simp add: payload_fits_def)
  have ran: "outcome (cooperate w) (run_input (Suc n) actx i ?n input (current_mcycle s) h1) =
      (h1, Inr ((new_outcome (current_mcycle s))\<lparr>ro_status := rejected\<rparr>))"
    by (rule run_input_rejected [OF due1 assms(2)])
  obtain h2 vt nt vp np where h2: "outcome (cooperate w) (skip_input K actx i ?c ?n ?out h1) = (h2, Inr ())"
      "connected r (?s1\<lparr>server_stub := Some (session_server_address ?s1), epochs := sm_assign i
       (e\<lparr>vouchers_tree := vt, notices_tree := nt, processed_inputs := processed_inputs e @
          [skipped_result ?c ?n ?out vp np (most_recent_machine_hash e)]\<rparr>) (epochs ?s1)\<rparr>) h2"
      "epoch_tree K (map voucher_leaf (processed_inputs e) @ [zero_hash]) vt"
      "epoch_tree K (map notice_leaf (processed_inputs e) @ [zero_hash]) nt"
    using skip_input_runs [OF due1 assms(2), of ?c ?out] due1 assms(3) by (auto simp: due_def)
  let ?p = "skipped_result ?c ?n ?out vp np (most_recent_machine_hash e)"
  let ?e2 = "e\<lparr>vouchers_tree := vt, notices_tree := nt, processed_inputs := processed_inputs e @ [?p]\<rparr>"
  let ?s2 = "?s1\<lparr>epochs := sm_assign i ?e2 (epochs s)\<rparr>"
  let ?s3 = "?s2\<lparr>processed_input_count := processed_input_count s + 1\<rparr>"
  let ?e4 = "?e2\<lparr>pending_inputs := rest\<rparr>"
  let ?s4 = "?s3\<lparr>epochs := sm_assign i ?e4 (epochs s)\<rparr>"
  have d2: "deref r h2 = Inr ?s2" "session_object s = ref_object r" using h2(2) by (auto simp: connected_def deref_Inr_iff)
  have valid: "sm_valid (epochs s)" using assms(1) by (simp add: due_def)
  have run: "outcome (cooperate w) (process_input (Suc n) K actx i h) = (assign_session r ?s4 h2, Inr ())"
    using c(2,3) d2 h1 ran h2(1) valid assms(3)
    by (cases "payload_fits (in_payload input) s")
      (simp_all add: process_input_def outcome_rules assms(2) Let_def get_session_def set_session_def get_epoch_def set_epoch_def
        deref_epoch_def write_epoch_def write_session_def sm_find_assign connected_def fits run_status_def)
  have leaf: "voucher_leaf ?p = zero_hash" "notice_leaf ?p = zero_hash" "pi_status ?p = run_status s input"
    by (simp_all add: voucher_leaf_def notice_leaf_def skipped_result_def)
  have "connected r ?s4 (assign_session r ?s4 h2)" using h2(2) d2(2) by (simp add: connected_def) (simp add: assign_session_def)
  then have "due K r i w ?s4 ?e4 (assign_session r ?s4 h2)"
    using assms(1,3) h2(3,4) valid leaf
    by (simp add: due_def sm_valid_assign sm_find_assign trees_ok_def)
  moreover have "skipped_all s e [input] ?s4 ?e4" by (simp add: skipped_all_def leaf)
  ultimately show ?thesis using run by (intro exI [of _ "assign_session r ?s4 h2"] exI [of _ ?s4] exI [of _ ?e4]) simp
qed

lemma process_inputs_loop_runs:
  assumes "due K r i w s e h" "actx_session actx = r" "length (pending_inputs e) \<le> n"
  shows "\<exists>h' s' e'. outcome (cooperate w) (process_inputs_loop (Suc n) (Suc fuel) K actx i h) = (h', Inr ()) \<and>
     due K r i w s' e' h' \<and> pending_inputs e' = [] \<and> skipped_all s e (pending_inputs e) s' e'"
  using assms
proof (induction n arbitrary: h s e)
  case 0
  then show ?case
    by (intro exI [of _ h] exI [of _ s] exI [of _ e])
      (auto simp: due_def connected_def outcome_rules get_epoch_def deref_epoch_def skipped_all_def)
next
  case (Suc n)
  have c: "deref r h = Inr s" "sm_find (epochs s) i = Some e" using Suc.prems(1) by (simp_all add: due_def connected_def)
  show ?case
  proof (cases "pending_inputs e")
    case Nil
    then show ?thesis
      using c Suc.prems
      by (intro exI [of _ h] exI [of _ s] exI [of _ e])
        (auto simp: outcome_rules get_epoch_def deref_epoch_def skipped_all_def)
  next
    case (Cons input rest)
    obtain h1 s1 e1 where h1: "outcome (cooperate w) (process_input (Suc fuel) K actx i h) = (h1, Inr ())" "due K r i w s1 e1 h1"
        "pending_inputs e1 = rest" "skipped_all s e [input] s1 e1"
      using process_input_runs [OF Suc.prems(1,2) Cons] by blast
    have c1: "deref r h1 = Inr s1" "sm_find (epochs s1) i = Some e1" "pending_query e1 = None"
      using h1(2) by (simp_all add: due_def connected_def)
    obtain h2 s2 e2 where h2: "outcome (cooperate w) (process_inputs_loop (Suc n) (Suc fuel) K actx i h1) = (h2, Inr ())"
        "due K r i w s2 e2 h2" "pending_inputs e2 = []" "skipped_all s1 e1 rest s2 e2"
      using Suc.IH [OF h1(2) Suc.prems(2)] h1(3) Suc.prems(3) Cons by auto
    have "outcome (cooperate w) (process_inputs_loop (Suc (Suc n)) (Suc fuel) K actx i h) = (h2, Inr ())"
      using c c1 Cons h1(1) h2(1) Suc.prems(2)
      by (simp add: outcome_rules get_epoch_def deref_epoch_def resume_pending_query_def del: process_inputs_loop.simps(2)
          add: process_inputs_loop.simps(2) [of "Suc n"])
    then show ?thesis using h2 skipped_all_trans [OF h1(4) h2(4)] Cons by auto
  qed
qed

section \<open>Claim\<close>

text \<open>
  Claim C17. Processing returns. When the machine server answers every call, checks in after every
  snapshot and rollback and rejects the inputs, when the epoch has room for them and no query is
  pending, \<open>process_pending_inputs\<close> returns after processing the whole queue, with as much fuel as
  there are inputs, plus one. Every input has its result, in order, rejected or skipped for its
  length; the machine hash and cycle are as before, the inputs are counted and the processing
  lock is free.
\<close>

theorem rejected_inputs_return:
  assumes "due K r i w s e h" "\<not> processing_lock s" "actx_session actx = r" "length (pending_inputs e) < fuel"
  shows "\<exists>h' s' e'. outcome (cooperate w) (process_pending_inputs fuel K actx i h) = (h', Inr ()) \<and>
     deref r h' = Inr s' \<and> sm_find (epochs s') i = Some e' \<and> pending_inputs e' = [] \<and>
     skipped_all s e (pending_inputs e) s' e'"
proof -
  obtain n where n: "fuel = Suc n" "length (pending_inputs e) \<le> n" using assms(4) by (cases fuel) auto
  let ?s = "s\<lparr>processing_lock := True\<rparr>"
  have d: "deref r h = Inr s" "session_object s = ref_object r" using assms(1) by (auto simp: due_def connected_def deref_Inr_iff)
  have "due K r i w ?s e (assign_session r ?s h)"
    using assms(1) d(2) by (simp add: due_def connected_def) (simp add: assign_session_def)
  from process_inputs_loop_runs [OF this assms(3) n(2), of n] obtain h1 s1 e1 where h1:
      "outcome (cooperate w) (process_inputs_loop (Suc n) (Suc n) K actx i (assign_session r ?s h)) = (h1, Inr ())"
      "due K r i w s1 e1 h1" "pending_inputs e1 = []" "skipped_all ?s e (pending_inputs e) s1 e1"
    by blast
  have d1: "deref r h1 = Inr s1" "session_object s1 = ref_object r" "sm_find (epochs s1) i = Some e1"
    using h1(2) by (auto simp: due_def connected_def deref_Inr_iff)
  let ?s' = "s1\<lparr>processing_lock := False\<rparr>"
  have "outcome (cooperate w) (process_pending_inputs fuel K actx i h) = (assign_session r ?s' h1, Inr ())"
    using d assms(2,3) h1(1) d1(1) n(1)
    by (simp add: process_pending_inputs_def outcome_rules get_session_def set_session_def with_auto_lock_def lock_acquire_def
        write_session_def run_destructor_def lock_destructor_def del: process_inputs_loop.simps)
  moreover have "run_status ?s = run_status s" by (simp add: run_status_def payload_fits_def fun_eq_iff)
  then have "skipped_all s e (pending_inputs e) ?s' e1" using h1(4) assms(2) by (simp add: skipped_all_def)
  ultimately show ?thesis using d1 h1(3) by (intro exI [of _ "assign_session r ?s' h1"] exI [of _ ?s'] exI [of _ e1]) simp
qed

definition rejecting_wake :: wake where
  "rejecting_wake = ok_wake\<lparr>stub_created := True, reply_hash := set_proto_hash zero_hash, reply_csr := 0x0201000000000000,
     reply_run := \<lparr>run_mcycle = 5, run_tohost = 0x200000000, iflags_h = False, iflags_x = False, iflags_y = True\<rparr>\<rparr>"

theorem rejected_inputs_return_witness:
  "\<exists>h' s' e'. outcome (cooperate rejecting_wake) (process_pending_inputs 2 sample_digest
      \<lparr>actx_session = sample_ref, actx_self = 0\<rparr> 4 busy_context) = (h', Inr ()) \<and>
     deref sample_ref h' = Inr s' \<and> sm_find (epochs s') 4 = Some e' \<and> pending_inputs e' = [] \<and>
     skipped_all busy_session busy_epoch (pending_inputs busy_epoch) s' e'"
proof (rule rejected_inputs_return)
  have "most_recent_machine_hash sample_epoch = zero_hash"
    using default_epoch_Inr [of sample_digest] by (auto simp: sample_epoch_def)
  moreover have "rejects rejecting_wake zero_hash 100"
  proof -
    have "is_ok (call_status ok_wake)" "get_proto_hash (set_proto_hash zero_hash) = Inr zero_hash"
      by (simp_all add: ok_wake_def is_ok_def status_ok_def get_proto_hash_def set_proto_hash_def zero_hash_def)
    moreover have "htif_dev_field 0x0201000000000000 = HTIF_DEVICE_YIELD" "htif_cmd_field 0x0201000000000000 = HTIF_YIELD_MANUAL"
        "htif_data_field 0x0201000000000000 = ROLLUP_ADVANCE_STATE" "yield_reason_of 0x200000000 = HTIF_YIELD_REASON_RX_REJECTED"
      by code_simp+
    ultimately show ?thesis by (simp add: rejects_def rejecting_wake_def)
  qed
  ultimately show "due sample_digest sample_ref 4 rejecting_wake busy_session busy_epoch busy_context"
    using busy_session busy_epoch(1)
    by (simp add: due_def connected_def epoch_ok_def trees_ok_def)
      (simp add: busy_epoch_def busy_context_def busy_session_def sample_context_def sample_session_def sample_epoch_ok(3))
qed (simp_all add: busy_session(2) busy_epoch_def)

end
