(* ===== verification/Advance_Inspect.thy ===== *)
theory Advance_Inspect
  imports Input_Processing Epoch_Handlers
begin

text \<open>
  The handlers that feed the machine: \<open>AdvanceState\<close> and \<open>InspectState\<close> of
  \<^verbatim>\<open>src/src/server-manager.cpp\<close>, with \<open>get_proto_input_metadata\<close> and the \<open>auto_resume\<close> class.
\<close>

section \<open>\<open>AdvanceState\<close>\<close>

record proto_input_metadata =
  pim_msg_sender :: "bytes option"
  pim_block_number :: u64
  pim_timestamp :: u64
  pim_epoch_index :: u64
  pim_input_index :: u64

record advance_state_request =
  asr_session_id :: id_type
  asr_active_epoch_index :: u64
  asr_current_input_index :: u64
  asr_input_metadata :: "proto_input_metadata option"
  asr_input_payload :: bytes

text \<open>A missing message reads as one with default fields.\<close>

definition get_proto_input_metadata :: "proto_input_metadata \<Rightarrow> input_metadata_type res" where
  "get_proto_input_metadata proto =
     bindR (get_proto_evm_address (case pim_msg_sender proto of Some a \<Rightarrow> a | None \<Rightarrow> [])) (\<lambda>sender.
     Inr \<lparr>msg_sender = sender, block_number = pim_block_number proto, timestamp = pim_timestamp proto,
          epoch_index_field = pim_epoch_index proto, input_index_field = pim_input_index proto\<rparr>)"

definition check_input_metadata :: "advance_state_request \<Rightarrow> u64 \<Rightarrow> input_metadata_type handler" where
  "check_input_metadata request current_input_index =
     (case asr_input_metadata request of
        None \<Rightarrow> finish_error INVALID_ARGUMENT ''missing input metadata''
      | Some m \<Rightarrow>
       (case pim_msg_sender m of
          None \<Rightarrow> finish_error INVALID_ARGUMENT ''missing input metadata msg_sender''
        | Some sender \<Rightarrow>
          if length sender \<noteq> EVM_ADDRESS_LENGTH
          then finish_error INVALID_ARGUMENT (''invalid input metadata msg_sender length (expected '' @
                 nat_to_string EVM_ADDRESS_LENGTH @ '' bytes, got '' @ nat_to_string (length sender) @ '' bytes)'')
          else
            bindP (liftH (lift_res (get_proto_input_metadata m))) (\<lambda>metadata.
            if epoch_index_field metadata \<noteq> 0
            then finish_error INVALID_ARGUMENT
                   (''input metadata epoch index is deprecated. Should always be 0 received ('' @
                    u64_to_string (epoch_index_field metadata) @ '')'')
            else if input_index_field metadata \<noteq> current_input_index
            then finish_error INVALID_ARGUMENT (''input metadata input index ('' @
                   u64_to_string (input_index_field metadata) @ '') is inconsistent with current input index ('' @
                   u64_to_string current_input_index @ '')'')
            else ret metadata)))"

text \<open>The checks after the session is locked, ending with the input in the queue of the active epoch.\<close>

definition enqueue_input :: "advance_state_request \<Rightarrow> session_ref \<Rightarrow> u64 handler" where
  "enqueue_input request r =
     thenP (check_not_tainted ''session was previously tainted ('' r)
     (bindP (get_session r) (\<lambda>s.
      if active_epoch_index s \<noteq> asr_active_epoch_index request
      then finish_error INVALID_ARGUMENT (''incorrect active epoch index (expected '' @
             u64_to_string (active_epoch_index s) @ '', got '' @
             u64_to_string (asr_active_epoch_index request) @ '')'')
      else
       case sm_find (epochs s) (active_epoch_index s) of
         None \<Rightarrow> finish_error INTERNAL ''active epoch not found''
       | Some e \<Rightarrow>
         if state e \<noteq> epoch_active then finish_error INVALID_ARGUMENT ''epoch is finished''
         else
          let current_input_index = of_nat (length (pending_inputs e)) + processed_input_count s in
          if current_input_index \<noteq> asr_current_input_index request
          then finish_error INVALID_ARGUMENT (''incorrect current input index (expected '' @
                 u64_to_string (processed_input_count s) @ '', got '' @
                 u64_to_string (asr_current_input_index request) @ '')'')
          else
            bindP (check_input_metadata request current_input_index) (\<lambda>metadata.
            thenP (set_epoch r (active_epoch_index s) (\<lambda>e. e\<lparr>pending_inputs := pending_inputs e @
                     [\<lparr>in_payload = asr_input_payload request, in_metadata = metadata\<rparr>]\<rparr>))
              (ret (active_epoch_index s)))))"

text \<open>The body under the lock: enqueue, reply, release the lock, process when the queue was empty.\<close>

definition AdvanceState_body :: "nat \<Rightarrow> digest \<Rightarrow> coroutine \<Rightarrow> advance_state_request \<Rightarrow> session_ref \<Rightarrow> unit handler" where
  "AdvanceState_body fuel K self request r =
     bindP (enqueue_input request r) (\<lambda>i.
     thenP (finish Void_response)
     (thenP (lock_release Session_lock r ''AdvanceState session lock'')
     (bindP (get_epoch r i) (\<lambda>e.
      if length (pending_inputs e) = 1
      then process_pending_inputs fuel K \<lparr>actx_session = r, actx_self = self\<rparr> i
      else ret ()))))"

text \<open>The handlers of \<open>taint_session\<close> and \<^verbatim>\<open>std::exception\<close>: taint, then let a waiting query go on.\<close>

definition taint_and_resume :: "digest \<Rightarrow> coroutine \<Rightarrow> session_ref \<Rightarrow> grpc_status \<Rightarrow> unit handler" where
  "taint_and_resume K self r status =
     thenP (set_session r (\<lambda>s. s\<lparr>tainted := True, taint_status := status\<rparr>))
     (bindP (get_session r) (\<lambda>s.
      thenP (epoch_at K r (active_epoch_index s))
        (resume_pending_query r (active_epoch_index s) self)))"

definition AdvanceState_catch :: "digest \<Rightarrow> coroutine \<Rightarrow> id_type \<Rightarrow> handler_exn \<Rightarrow> unit handler" where
  "AdvanceState_catch K self sid x =
     (case x of
        Finish_error_yield_none status \<Rightarrow> finish_with_error status
      | Taint_session r status \<Rightarrow> taint_and_resume K self r status
      | _ \<Rightarrow>
        bindP (find_session sid) (\<lambda>it.
        case it of
          None \<Rightarrow> ret ()
        | Some r \<Rightarrow> taint_and_resume K self r (unexpected x)))"

definition AdvanceState_handler ::
  "nat \<Rightarrow> digest \<Rightarrow> coroutine \<Rightarrow> bool \<Rightarrow> string \<Rightarrow> advance_state_request \<Rightarrow> unit handler" where
  "AdvanceState_handler fuel K self ok peer request =
     (if \<not> ok then ret ()
      else try_catch
        (enter_session ''AdvanceState'' peer (asr_session_id request) ''session id not found!'' check_epoch_overflow
           (AdvanceState_body fuel K self request))
        (AdvanceState_catch K self (asr_session_id request)))"

section \<open>\<open>InspectState\<close>\<close>

record inspect_state_request =
  isr_session_id :: id_type
  isr_query_payload :: bytes

text \<open>The destructor of \<open>auto_resume\<close>.\<close>

definition auto_resume_destructor :: "coroutine option \<Rightarrow> handler_context \<Rightarrow> handler_context hres" where
  "auto_resume_destructor c h =
     Inr (case c of None \<Rightarrow> h | Some c \<Rightarrow> h\<lparr>completion_queue := completion_queue h @ [c]\<rparr>)"

definition inspect_response :: "session_type \<Rightarrow> query_type \<Rightarrow> inspect_state_response" where
  "inspect_response s q =
     \<lparr>is_session_id = session_id s, is_active_epoch_index = active_epoch_index s,
      is_processed_input_count = q_processed_input_count q, is_reports = map r_payload (q_reports q),
      is_status = q_status q,
      is_exception_data = (if q_status q = exception then q_exception_data q else None)\<rparr>"

text \<open>The checks after the session is locked, ending with the query pending in the active epoch.\<close>

definition add_query :: "inspect_state_request \<Rightarrow> session_ref \<Rightarrow> u64 handler" where
  "add_query request r =
     thenP (check_not_tainted ''session was previously tainted ('' r)
     (bindP (get_session r) (\<lambda>s.
      case sm_find (epochs s) (active_epoch_index s) of
        None \<Rightarrow> finish_error INTERNAL ''active epoch not found''
      | Some e \<Rightarrow>
        if pending_query e \<noteq> None then finish_error INTERNAL ''another query is already pending''
        else
          thenP (set_epoch r (active_epoch_index s)
                   (\<lambda>e. e\<lparr>pending_query := Some (new_query (isr_query_payload request))\<rparr>))
            (ret (active_epoch_index s))))"

text \<open>From the check that the session was not tainted meanwhile to the reply.\<close>

definition answer_query :: "nat \<Rightarrow> coroutine \<Rightarrow> session_ref \<Rightarrow> u64 \<Rightarrow> unit handler" where
  "answer_query fuel self r i =
     thenP (check_not_tainted ''session is tainted ('' r)
     (thenP (process_pending_query fuel \<lparr>actx_session = r, actx_self = self\<rparr> i)
     (bindP (get_session r) (\<lambda>s.
      bindP (get_query r i) (\<lambda>q.
      thenP (set_epoch r i (\<lambda>e. e\<lparr>pending_query := None\<rparr>))
        (finish (Inspect_state (inspect_response s q)))))))"

definition InspectState_body :: "nat \<Rightarrow> coroutine \<Rightarrow> inspect_state_request \<Rightarrow> session_ref \<Rightarrow> unit handler" where
  "InspectState_body fuel self request r =
     bindP (add_query request r) (\<lambda>i.
     bindP (get_epoch r i) (\<lambda>e.
     if pending_inputs e \<noteq> []
     then
       thenP (set_query r i (\<lambda>q. q\<lparr>q_coroutine := Some self\<rparr>))
       (bindP (suspend Wait_resume) (\<lambda>_.
        bindP (get_query r i) (\<lambda>q.
          on_scope_exit (auto_resume_destructor (q_coroutine q)) (answer_query fuel self r i))))
     else answer_query fuel self r i))"

definition InspectState_catch :: "id_type \<Rightarrow> handler_exn \<Rightarrow> unit handler" where
  "InspectState_catch sid x =
     (case x of
        Finish_error_yield_none status \<Rightarrow> finish_with_error status
      | Taint_session r status \<Rightarrow>
        thenP (set_session r (\<lambda>s. s\<lparr>tainted := True, taint_status := status\<rparr>))
          (finish_with_error status)
      | _ \<Rightarrow>
        bindP (find_session sid) (\<lambda>it.
        thenP (case it of
                 None \<Rightarrow> ret ()
               | Some r \<Rightarrow> set_session r (\<lambda>s. s\<lparr>tainted := True, taint_status := unexpected x\<rparr>))
          (finish_with_error (unexpected x))))"

definition InspectState_handler :: "nat \<Rightarrow> coroutine \<Rightarrow> bool \<Rightarrow> string \<Rightarrow> inspect_state_request \<Rightarrow> unit handler" where
  "InspectState_handler fuel self ok peer request =
     (if \<not> ok then ret ()
      else try_catch
        (enter_session ''InspectState'' peer (isr_session_id request) ''session id not found!'' (\<lambda>_. ret ())
           (InspectState_body fuel self request))
        (InspectState_catch (isr_session_id request)))"

end
