(* ===== verification/Advance_Correctness.thy ===== *)
theory Advance_Correctness
  imports Advance_Inspect Input_Correctness
begin

text \<open>
  What \<open>AdvanceState\<close> decides about a request, what it does to the queue, and the window in which
  it taints the session.
\<close>

section \<open>Acceptable requests\<close>

definition acceptable_metadata :: "proto_input_metadata option \<Rightarrow> u64 \<Rightarrow> input_metadata_type option" where
  "acceptable_metadata proto n =
     (case proto of
        None \<Rightarrow> None
      | Some m \<Rightarrow>
        (case pim_msg_sender m of
           None \<Rightarrow> None
         | Some sender \<Rightarrow>
           if length sender = EVM_ADDRESS_LENGTH \<and> pim_epoch_index m = 0 \<and> pim_input_index m = n
           then Some \<lparr>msg_sender = sender, block_number = pim_block_number m, timestamp = pim_timestamp m,
                      epoch_index_field = 0, input_index_field = n\<rparr>
           else None))"

text \<open>
  The input a request adds to the active epoch \<open>e\<close>: it must name that epoch, be numbered after
  the inputs processed and pending, and carry matching metadata.
\<close>

definition acceptable_input :: "advance_state_request \<Rightarrow> session_type \<Rightarrow> epoch_type \<Rightarrow> input_type option" where
  "acceptable_input request s e =
     (if \<not> tainted s \<and> asr_active_epoch_index request = active_epoch_index s \<and> state e = epoch_active \<and>
         asr_current_input_index request = of_nat (length (pending_inputs e)) + processed_input_count s
      then map_option (\<lambda>m. \<lparr>in_payload = asr_input_payload request, in_metadata = m\<rparr>)
             (acceptable_metadata (asr_input_metadata request) (asr_current_input_index request))
      else None)"

definition add_input :: "input_type \<Rightarrow> session_type \<Rightarrow> epoch_type \<Rightarrow> session_type" where
  "add_input input s e =
     s\<lparr>epochs := sm_assign (active_epoch_index s) (e\<lparr>pending_inputs := pending_inputs e @ [input]\<rparr>) (epochs s)\<rparr>"

lemma check_input_metadata_cases:
  "acceptable_metadata (asr_input_metadata request) n = Some m \<Longrightarrow> check_input_metadata request n h = Done h (Inr m)"
  "acceptable_metadata (asr_input_metadata request) n = None \<Longrightarrow>
     \<exists>st. check_input_metadata request n h = Done h (Inl (Finish_error_yield_none st)) \<and> \<not> is_ok st"
  by (auto simp: check_input_metadata_def acceptable_metadata_def exec get_proto_input_metadata_def
      get_proto_evm_address_def is_ok_def split: option.splits)

lemma enqueue_accepted:
  assumes "deref r h = Inr s" "sm_find (epochs s) (active_epoch_index s) = Some e" "acceptable_input request s e = Some input"
  shows "enqueue_input request r h = Done (assign_session r (add_input input s e) h) (Inr (active_epoch_index s))"
proof -
  obtain m where m: "acceptable_metadata (asr_input_metadata request) (asr_current_input_index request) = Some m"
      "input = \<lparr>in_payload = asr_input_payload request, in_metadata = m\<rparr>"
    and c: "\<not> tainted s" "asr_active_epoch_index request = active_epoch_index s" "state e = epoch_active"
      "asr_current_input_index request = of_nat (length (pending_inputs e)) + processed_input_count s"
    using assms(3) by (auto simp: acceptable_input_def split: if_splits)
  have "check_input_metadata request (asr_current_input_index request) h = Done h (Inr m)"
    using m(1) by (rule check_input_metadata_cases)
  then show ?thesis
    using assms(1,2) m(2) c
    by (simp add: enqueue_input_def check_not_tainted_def exec Let_def write_epoch_def deref_epoch_def
        write_session_def add_input_def)
qed

lemma enqueue_refused:
  assumes "deref r h = Inr s" "sm_find (epochs s) (active_epoch_index s) = Some e" "acceptable_input request s e = None"
  shows "\<exists>st. enqueue_input request r h = Done h (Inl (Finish_error_yield_none st)) \<and> \<not> is_ok st"
proof (cases "\<not> tainted s \<and> asr_active_epoch_index request = active_epoch_index s \<and> state e = epoch_active \<and>
    asr_current_input_index request = of_nat (length (pending_inputs e)) + processed_input_count s")
  case True
  then have "acceptable_metadata (asr_input_metadata request) (asr_current_input_index request) = None"
    using assms(3) by (simp add: acceptable_input_def)
  from check_input_metadata_cases(2) [OF this] obtain st where
    "check_input_metadata request (asr_current_input_index request) h = Done h (Inl (Finish_error_yield_none st))" "\<not> is_ok st"
    by blast
  then show ?thesis using True assms(1,2) by (simp add: enqueue_input_def check_not_tainted_def exec Let_def)
next
  case False
  then show ?thesis using assms(1,2)
    by (auto simp: enqueue_input_def check_not_tainted_def exec Let_def is_ok_def)
qed

section \<open>The handler\<close>

text \<open>What the handler does once the client has its reply.\<close>

definition advance_rest ::
  "nat \<Rightarrow> digest \<Rightarrow> coroutine \<Rightarrow> id_type \<Rightarrow> session_ref \<Rightarrow> u64 \<Rightarrow> unit handler" where
  "advance_rest fuel K self sid r i =
     try_catch
       (on_scope_exit (lock_destructor Session_lock r)
         (thenP (lock_release Session_lock r ''AdvanceState session lock'')
           (bindP (get_epoch r i) (\<lambda>e.
             if length (pending_inputs e) = 1
             then process_pending_inputs fuel K \<lparr>actx_session = r, actx_self = self\<rparr> i
             else ret ()))))
       (AdvanceState_catch K self sid)"

lemma advance_state_runs:
  assumes s: "um_find (sessions h) (asr_session_id request) = Some s" "\<not> session_lock s" "active_epoch_index s \<noteq> - 1"
    and r: "r = \<lparr>ref_id = asr_session_id request, ref_object = session_object s\<rparr>"
    and e: "sm_find (epochs s) (active_epoch_index s) = Some e" "acceptable_input request s e = Some input"
  shows "AdvanceState_handler fuel K self True peer request h =
     Suspend (entered ''AdvanceState'' peer r (add_input input s e) h) (Finish Void_response)
       (\<lambda>_. advance_rest fuel K self (asr_session_id request) r (active_epoch_index s))"
proof -
  let ?s = "s\<lparr>session_lock := True, session_lock_reason := get_session_lock_reason ''AdvanceState'' peer\<rparr>"
  have d: "deref r h = Inr s" using s r by (simp add: deref_Inr_iff)
  have "acceptable_input request ?s e = Some input" using e(2) by (simp add: acceptable_input_def)
  moreover have "add_input input ?s e =
      (add_input input s e)\<lparr>session_lock := True, session_lock_reason := get_session_lock_reason ''AdvanceState'' peer\<rparr>"
    by (simp add: add_input_def)
  ultimately have "enqueue_input request r (entered ''AdvanceState'' peer r s h) =
      Done (entered ''AdvanceState'' peer r (add_input input s e) h) (Inr (active_epoch_index s))"
    using enqueue_accepted [OF deref_entered [OF s(1) r, of "''AdvanceState''" peer], of e request input] e(1)
    by (simp add: entered_def)
  then show ?thesis
    by (simp add: AdvanceState_handler_def try_catch_def AdvanceState_body_def
        enter_session_runs [where pre = check_epoch_overflow, OF s(1,2) r check_epoch_overflow_passes [OF d s(3)]])
      (simp add: exec finish_def suspend_def advance_rest_def try_catch_def on_scope_exit_def fun_eq_iff)
qed

lemma advance_rest_released:
  assumes "deref r h = Inr s" "session_lock s" "sm_find (epochs s) i = Some e" "length (pending_inputs e) \<noteq> 1"
  shows "advance_rest fuel K self sid r i h = Done (assign_session r (s\<lparr>session_lock := False\<rparr>) h) (Inr ())"
proof -
  have "session_object s = ref_object r" using assms(1) by (simp add: deref_Inr_iff)
  then show ?thesis
    using assms
    by (simp add: advance_rest_def try_catch_def on_scope_exit_def lock_release_def exec write_session_def
        deref_epoch_def run_destructor_def lock_destructor_def)
qed

lemma advance_rest_taints:
  assumes "deref r h = Inr s" "session_lock s" "processing_lock s" "sm_find (epochs s) i = Some e"
    and "length (pending_inputs e) = 1" "active_epoch_index s = i" "pending_query e = None"
  shows "advance_rest fuel K self sid r i h = Done (assign_session r (s\<lparr>session_lock := False, tainted := True,
      taint_status := grpc_error INTERNAL ''concurrent input processing detected in session''\<rparr>) h) (Inr ())"
proof -
  have "session_object s = ref_object r" using assms(1) by (simp add: deref_Inr_iff)
  then show ?thesis
    using assms
    by (simp add: advance_rest_def try_catch_def on_scope_exit_def lock_release_def exec write_session_def
        deref_epoch_def run_destructor_def lock_destructor_def process_pending_inputs_def taint_def
        AdvanceState_catch_def taint_and_resume_def epoch_at_def resume_pending_query_def)
qed

section \<open>Claims\<close>

text \<open>
  Claim C11. An acceptable \<open>AdvanceState\<close> request is enqueued and acknowledged: the input becomes
  the last one of the active epoch, numbered after all processed and pending inputs, and nothing
  else changes but the lock, which the handler holds while the reply is on its way. If other
  inputs are queued when the handler continues, it only releases the lock: the handler that is
  processing them will process this one too.
\<close>

theorem advance_state_accepts:
  assumes "um_find (sessions h) (asr_session_id request) = Some s" "\<not> session_lock s" "active_epoch_index s \<noteq> - 1"
    and "r = \<lparr>ref_id = asr_session_id request, ref_object = session_object s\<rparr>"
    and "sm_find (epochs s) (active_epoch_index s) = Some e" "acceptable_input request s e = Some input"
  shows "input_index_field (in_metadata input) = processed_input_count s + of_nat (length (pending_inputs e)) \<and>
    (\<exists>k. AdvanceState_handler fuel K self True peer request h =
       Suspend (entered ''AdvanceState'' peer r (add_input input s e) h) (Finish Void_response) k \<and>
     (\<forall>w h' s' e'. deref r h' = Inr s' \<and> session_lock s' \<and> sm_find (epochs s') (active_epoch_index s) = Some e' \<and>
        length (pending_inputs e') \<noteq> 1 \<longrightarrow>
        k w h' = Done (assign_session r (s'\<lparr>session_lock := False\<rparr>) h') (Inr ())))"
proof
  show "input_index_field (in_metadata input) = processed_input_count s + of_nat (length (pending_inputs e))"
    using assms(6) by (auto simp: acceptable_input_def acceptable_metadata_def split: if_splits option.splits)
qed (use advance_state_runs [OF assms] advance_rest_released in blast)

text \<open>
  Claim C12. Any other request to an existing, unlocked session is refused with an error before
  the queue is touched: the only trace is the reason of the last lock.
\<close>

theorem advance_state_refuses:
  assumes "um_find (sessions h) (asr_session_id request) = Some s" "\<not> session_lock s" "active_epoch_index s \<noteq> - 1"
    and "r = \<lparr>ref_id = asr_session_id request, ref_object = session_object s\<rparr>"
    and "sm_find (epochs s) (active_epoch_index s) = Some e" "acceptable_input request s e = None"
  shows "\<exists>st. \<not> is_ok st \<and> AdvanceState_handler fuel K self True peer request h =
     Suspend (assign_session r (s\<lparr>session_lock_reason := get_session_lock_reason ''AdvanceState'' peer\<rparr>) h)
       (Finish_with_error st) (\<lambda>_ h'. Done h' (Inr ()))"
proof -
  let ?s = "s\<lparr>session_lock := True, session_lock_reason := get_session_lock_reason ''AdvanceState'' peer\<rparr>"
  have d: "deref r h = Inr s" using assms(1,4) by (simp add: deref_Inr_iff)
  have "acceptable_input request ?s e = None" using assms(6) by (simp add: acceptable_input_def)
  then obtain st where st: "\<not> is_ok st" "enqueue_input request r (entered ''AdvanceState'' peer r s h) =
      Done (entered ''AdvanceState'' peer r s h) (Inl (Finish_error_yield_none st))"
    using enqueue_refused [OF deref_entered [OF assms(1,4), of "''AdvanceState''" peer], of e request] assms(5) by auto
  have "AdvanceState_body fuel K self request r (entered ''AdvanceState'' peer r s h) =
      Done (entered ''AdvanceState'' peer r s h) (Inl (Finish_error_yield_none st))"
    by (simp add: AdvanceState_body_def bindP_def st(2))
  then show ?thesis
    using st(1) enter_refusal [where pre = check_epoch_overflow and body = "AdvanceState_body fuel K self request",
        OF assms(1,2,4) check_epoch_overflow_passes [OF d assms(3)], of "''AdvanceState''" peer st]
    by (auto simp: AdvanceState_handler_def try_catch_def AdvanceState_catch_def finish_with_error_def exec suspend_def)
qed

text \<open>
  Claim C38. The window in which \<open>AdvanceState\<close> taints a healthy session. When a query is
  pending, \<open>process_pending_inputs\<close> waits for it after removing an input from the queue and
  before looking at the queue again, with the processing lock held. If the queue is empty then,
  an \<open>AdvanceState\<close> that arrives once the query is answered is acknowledged, takes its input for
  the first of an idle session, finds the processing lock taken and taints the session.
\<close>

theorem advance_state_window:
  assumes wait: "deref r h0 = Inr s0" "processing_lock s0" "sm_find (epochs s0) i = Some e0"
      "pending_inputs e0 = []" "pending_query e0 = Some q" "q_coroutine q = Some c"
    and s: "um_find (sessions h) (asr_session_id request) = Some s" "\<not> session_lock s" "active_epoch_index s \<noteq> - 1"
    and r: "r = \<lparr>ref_id = asr_session_id request, ref_object = session_object s\<rparr>"
    and e: "sm_find (epochs s) (active_epoch_index s) = Some e" "acceptable_input request s e = Some input"
    and idle: "pending_inputs e = []" "pending_query e = None" "processing_lock s" "sm_valid (epochs s)"
  shows "(\<exists>h1 k. resume_pending_query r i self0 h0 = Suspend h1 Wait_resume k \<and>
       (\<exists>s1. deref r h1 = Inr s1 \<and> processing_lock s1)) \<and>
    (\<exists>k. AdvanceState_handler fuel K self True peer request h =
       Suspend (entered ''AdvanceState'' peer r (add_input input s e) h) (Finish Void_response) k \<and>
     (\<forall>w. \<exists>h2 s2. k w (entered ''AdvanceState'' peer r (add_input input s e) h) = Done h2 (Inr ()) \<and>
        deref r h2 = Inr s2 \<and> tainted s2 \<and>
        taint_status s2 = grpc_error INTERNAL ''concurrent input processing detected in session''))"
proof
  have "session_object s0 = ref_object r" using wait(1) by (simp add: deref_Inr_iff)
  then show "\<exists>h1 k. resume_pending_query r i self0 h0 = Suspend h1 Wait_resume k \<and>
       (\<exists>s1. deref r h1 = Inr s1 \<and> processing_lock s1)"
    using wait
    by (auto simp: resume_pending_query_def exec deref_epoch_def enqueue_completion_queue_def set_query_def
        get_query_def suspend_def write_epoch_def write_session_def deref_def assign_session_def split: option.splits if_splits)
  let ?s = "(add_input input s e)\<lparr>session_lock := True, session_lock_reason := get_session_lock_reason ''AdvanceState'' peer\<rparr>"
  let ?h = "entered ''AdvanceState'' peer r (add_input input s e) h"
  have d: "deref r ?h = Inr ?s" using s r by (simp add: entered_def add_input_def)
  have f: "sm_find (epochs ?s) (active_epoch_index s) = Some (e\<lparr>pending_inputs := pending_inputs e @ [input]\<rparr>)"
    using idle(4) by (simp add: add_input_def sm_find_assign)
  have "advance_rest fuel K self (asr_session_id request) r (active_epoch_index s) ?h = Done
      (assign_session r (?s\<lparr>session_lock := False, tainted := True,
      taint_status := grpc_error INTERNAL ''concurrent input processing detected in session''\<rparr>) ?h) (Inr ())"
    using idle by (intro advance_rest_taints [OF d _ _ f]) (simp_all add: add_input_def)
  then show "\<exists>k. AdvanceState_handler fuel K self True peer request h = Suspend ?h (Finish Void_response) k \<and>
     (\<forall>w. \<exists>h2 s2. k w ?h = Done h2 (Inr ()) \<and> deref r h2 = Inr s2 \<and> tainted s2 \<and>
        taint_status s2 = grpc_error INTERNAL ''concurrent input processing detected in session'')"
    using advance_state_runs [OF s r e] r by (fastforce simp: add_input_def)
qed

section \<open>Instances\<close>

definition sample_request :: "u64 \<Rightarrow> advance_state_request" where
  "sample_request n = \<lparr>asr_session_id = ''s'', asr_active_epoch_index = 4, asr_current_input_index = n,
     asr_input_metadata = Some \<lparr>pim_msg_sender = Some (replicate EVM_ADDRESS_LENGTH 7), pim_block_number = 1,
       pim_timestamp = 2, pim_epoch_index = 0, pim_input_index = n\<rparr>,
     asr_input_payload = [1, 2, 3]\<rparr>"

text \<open>The sample session in the window: nothing queued, no query, the processing lock held.\<close>

definition window_epoch :: "query_type option \<Rightarrow> epoch_type" where
  "window_epoch q = sample_epoch\<lparr>pending_inputs := [], pending_query := q\<rparr>"

definition window_session :: "query_type option \<Rightarrow> session_type" where
  "window_session q = sample_session\<lparr>processing_lock := True, epochs := [(4, window_epoch q)]\<rparr>"

definition window_context :: "query_type option \<Rightarrow> handler_context" where
  "window_context q = sample_context\<lparr>sessions := [(''s'', window_session q)]\<rparr>"

lemma window:
  "um_find (sessions (window_context q)) ''s'' = Some (window_session q)" "deref sample_ref (window_context q) = Inr (window_session q)"
  "\<not> session_lock (window_session q)" "active_epoch_index (window_session q) = 4" "processing_lock (window_session q)"
  "sm_find (epochs (window_session q)) 4 = Some (window_epoch q)" "sm_valid (epochs (window_session q))"
  "pending_inputs (window_epoch q) = []" "pending_query (window_epoch q) = q" "state (window_epoch q) = epoch_active"
  "\<not> tainted (window_session q)" "processed_input_count (window_session q) = processed_input_count sample_session"
  "sample_ref = \<lparr>ref_id = ''s'', ref_object = session_object (window_session q)\<rparr>"
  using sample_epoch_ok(5)
  by (simp_all add: window_context_def window_session_def window_epoch_def sample_session_def sample_ref_def
      deref_def um_find_def sm_find_def sm_valid_def)

lemma sample_request_accepted:
  assumes "\<not> tainted s" "active_epoch_index s = 4" "state e = epoch_active" "pending_inputs e = []" "processed_input_count s = n"
  shows "\<exists>input. acceptable_input (sample_request n) s e = Some input"
  using assms by (simp add: acceptable_input_def acceptable_metadata_def sample_request_def)

theorem advance_state_accepts_witness:
  "\<exists>k input. AdvanceState_handler 5 sample_digest 0 True ''peer'' (sample_request (processed_input_count sample_session)) (window_context None) =
     Suspend (entered ''AdvanceState'' ''peer'' sample_ref (add_input input (window_session None) (window_epoch None)) (window_context None))
       (Finish Void_response) k"
proof -
  obtain input where "acceptable_input (sample_request (processed_input_count sample_session)) (window_session None)
      (window_epoch None) = Some input"
    using sample_request_accepted window by blast
  then show ?thesis
    using advance_state_accepts [of "window_context None" "sample_request (processed_input_count sample_session)"
        "window_session None" sample_ref "window_epoch None" input 5 sample_digest 0 "''peer''"] window [of None]
    by (auto simp: sample_request_def)
qed

theorem advance_state_refuses_witness:
  "\<exists>st. \<not> is_ok st \<and> AdvanceState_handler 5 sample_digest 0 True ''peer''
      (sample_request (processed_input_count sample_session + 1)) (window_context None) =
     Suspend (assign_session sample_ref ((window_session None)\<lparr>session_lock_reason := ''RPC AdvanceState from peer''\<rparr>)
       (window_context None)) (Finish_with_error st) (\<lambda>_ h'. Done h' (Inr ()))"
proof -
  have "acceptable_input (sample_request (processed_input_count sample_session + 1)) (window_session None) (window_epoch None) = None"
    using window [of None] by (simp add: acceptable_input_def sample_request_def)
  then show ?thesis
    using advance_state_refuses [of "window_context None" "sample_request (processed_input_count sample_session + 1)"
        "window_session None" sample_ref "window_epoch None" 5 sample_digest 0 "''peer''"] window [of None]
    by (simp add: sample_request_def get_session_lock_reason_def)
qed

theorem advance_state_window_witness:
  "(\<exists>h1 k. resume_pending_query sample_ref 4 0 (window_context (Some ((new_query [])\<lparr>q_coroutine := Some 1\<rparr>))) =
      Suspend h1 Wait_resume k) \<and>
   (\<exists>h2 k. AdvanceState_handler 5 sample_digest 2 True ''peer'' (sample_request (processed_input_count sample_session))
       (window_context None) = Suspend h2 (Finish Void_response) k \<and>
     (\<forall>w. \<exists>h3 s3. k w h2 = Done h3 (Inr ()) \<and> deref sample_ref h3 = Inr s3 \<and> tainted s3))"
proof -
  let ?q = "(new_query [])\<lparr>q_coroutine := Some 1\<rparr>" and ?req = "sample_request (processed_input_count sample_session)"
  have req: "asr_session_id ?req = ''s''" by (simp add: sample_request_def)
  obtain input where "acceptable_input ?req (window_session None) (window_epoch None) = Some input"
    using sample_request_accepted window by blast
  then have "(\<exists>h1 k. resume_pending_query sample_ref 4 0 (window_context (Some ?q)) = Suspend h1 Wait_resume k \<and>
       (\<exists>s1. deref sample_ref h1 = Inr s1 \<and> processing_lock s1)) \<and>
    (\<exists>k. AdvanceState_handler 5 sample_digest 2 True ''peer'' ?req (window_context None) =
       Suspend (entered ''AdvanceState'' ''peer'' sample_ref (add_input input (window_session None) (window_epoch None))
         (window_context None)) (Finish Void_response) k \<and>
     (\<forall>w. \<exists>h2 s2. k w (entered ''AdvanceState'' ''peer'' sample_ref
           (add_input input (window_session None) (window_epoch None)) (window_context None)) = Done h2 (Inr ()) \<and>
        deref sample_ref h2 = Inr s2 \<and> tainted s2 \<and>
        taint_status s2 = grpc_error INTERNAL ''concurrent input processing detected in session''))"
    using window [of None] req
    by (intro advance_state_window [OF window(2) [of "Some ?q"] window(5,6,8,9)]) simp_all
  then show ?thesis by blast
qed

end
