(* ===== verification/Inspect_Correctness.thy ===== *)
theory Inspect_Correctness
  imports Advance_Correctness
begin

text \<open>
  Correctness of \<open>InspectState\<close> on a session that is not processing inputs: the query runs
  between a snapshot and a rollback, the reply describes the session as it was, and nothing of
  the session changes but the stub.
\<close>

section \<open>The session while a query is processed\<close>

text \<open>
  The handler holds the session lock, so that other handlers leave the session alone; a
  check-in changes the address of the machine server.
\<close>

definition query_evolves :: "session_type \<Rightarrow> session_type \<Rightarrow> bool" where
  "query_evolves s s' \<longleftrightarrow> (\<exists>a. s' = s\<lparr>session_server_address := a\<rparr>)"

definition query_rely :: "session_ref \<Rightarrow> yield_point \<Rightarrow> handler_context \<Rightarrow> wake \<Rightarrow> handler_context \<Rightarrow> bool" where
  "query_rely r y h w h' \<longleftrightarrow>
     (if atomic_point y then h' = h
      else (\<forall>s. deref r h = Inr s \<longrightarrow> (\<exists>s'. deref r h' = Inr s' \<and> query_evolves s s')))"

interpretation query: session_logic r "query_rely r" "\<lambda>y s. \<not> is_reply y" query_evolves "\<lambda>y w. True" for r
  by unfold_locales (auto simp: query_rely_def)

text \<open>The session \<open>s0\<close> with the query \<open>q\<close> pending in epoch \<open>i\<close>, up to the stub and the address.\<close>

definition asking :: "u64 \<Rightarrow> session_type \<Rightarrow> query_type \<Rightarrow> session_type \<Rightarrow> bool" where
  "asking i s0 q s \<longleftrightarrow> sm_valid (epochs s0) \<and>
     (\<exists>e a b. sm_find (epochs s0) i = Some e \<and>
        s = s0\<lparr>server_stub := b, session_server_address := a,
               epochs := sm_assign i (e\<lparr>pending_query := Some q\<rparr>) (epochs s0)\<rparr>)"

definition ready :: "u64 \<Rightarrow> session_type \<Rightarrow> query_type \<Rightarrow> session_type \<Rightarrow> bool" where
  "ready i s0 q s \<longleftrightarrow> server_stub s \<noteq> None \<and> asking i s0 q s"

definition asked :: "u64 \<Rightarrow> session_type \<Rightarrow> session_type \<Rightarrow> bool" where
  "asked i s0 s \<longleftrightarrow> (\<exists>q. asking i s0 q s)"

lemma calm_ready: "query.calm (ready i s0 q) (asked i s0)"
  by (cases s0) (auto simp: query.calm_def query.stable_def ready_def asked_def asking_def query_evolves_def)

lemma ready_fields:
  assumes "ready i s0 q s"
  shows "processed_input_count s = processed_input_count s0" "memory_range s = memory_range s0"
    and "current_mcycle s = current_mcycle s0" "tainted s = tainted s0" "session_lock s = session_lock s0"
    and "\<exists>e. sm_find (epochs s) i = Some (e\<lparr>pending_query := Some q\<rparr>)"
  using assms by (auto simp: ready_def asking_def sm_find_assign)

lemma ready_assign:
  assumes "ready i s0 q s" "sm_find (epochs s) i = Some e"
  shows "ready i s0 q' (s\<lparr>epochs := sm_assign i (e\<lparr>pending_query := Some q'\<rparr>) (epochs s)\<rparr>)"
  using assms by (cases s0) (auto simp: ready_def asking_def sm_find_assign)

lemma read_query: "query.triple r (ready i s0 q) (get_query r i) (\<lambda>v s. ready i s0 q s \<and> v = q) E"
  unfolding get_query_def
proof (rule query.bind [OF query.read_epoch])
  fix e
  show "query.triple r (\<lambda>s. ready i s0 q s \<and> sm_find (epochs s) i = Some e)
      (case pending_query e of None \<Rightarrow> throw dangling | Some q \<Rightarrow> ret q) (\<lambda>v s. ready i s0 q s \<and> v = q) E"
    by (rule query.given [where A = "pending_query e = Some q"])
      (use ready_fields(6) in \<open>force intro: query.return\<close>)+
qed (use ready_fields(6) in fastforce)

lemma with_query:
  assumes "query.triple r (ready i s0 q) (f q) Q E"
  shows "query.triple r (ready i s0 q) (bindP (get_query r i) f) Q E"
proof (rule query.bind [OF read_query])
  fix v
  show "query.triple r (\<lambda>s. ready i s0 q s \<and> v = q) (f v) Q E"
    using assms by (cases "v = q") (auto intro: query.weaken_pre query.given [where A = False])
qed

lemma update_query: "query.triple r (ready i s0 q) (set_query r i f) (\<lambda>_. ready i s0 (f q)) E"
  unfolding set_query_def
  by (rule with_query, rule query.write_epoch) (use ready_fields(6) ready_assign in blast)

text \<open>What is known of a query that has been processed.\<close>

definition answered :: "session_type \<Rightarrow> bytes \<Rightarrow> query_type \<Rightarrow> bool" where
  "answered s0 payload q \<longleftrightarrow> q_processed_input_count q = processed_input_count s0 \<and>
     (q_status q = exception \<longrightarrow> q_exception_data q \<noteq> None) \<and>
     (\<not> payload_fits payload s0 \<longrightarrow> q_status q = payload_length_limit_exceeded \<and> q_reports q = [])"

text \<open>From the snapshot to the rollback, for a query that fits the buffer.\<close>

abbreviation qtriple :: "session_ref \<Rightarrow> u64 \<Rightarrow> session_type \<Rightarrow> (session_type \<Rightarrow> bool) \<Rightarrow> 'a handler \<Rightarrow>
    ('a \<Rightarrow> session_type \<Rightarrow> bool) \<Rightarrow> bool" where
  "qtriple r i s0 P m Q \<equiv> query.triple r P m Q (asked i s0)"

lemma ready_checkin:
  assumes "actx_session actx = r" "qtriple r i s0 (ready i s0 q) trigger (\<lambda>_. ready i s0 q)"
  shows "qtriple r i s0 (ready i s0 q) (trigger_and_wait_checkin actx trigger) (\<lambda>_. ready i s0 q)"
  by (rule query.calm_trigger_and_wait_checkin [OF calm_ready assms(1) _ _ assms(2)])
    (cases s0, auto simp: ready_def asking_def asked_def)+

lemma run_query_ok:
  assumes "actx_session actx = r"
  shows "qtriple r i s0 (ready i s0 q)
     (bindP (run_loop fuel fuel read_inspect_output actx lim out) (\<lambda>out.
        thenP (set_query r i (f out)) (trigger_and_wait_checkin actx (rollback actx))))
     (\<lambda>_ s. \<exists>out. ready i s0 (f out q) s)"
proof (rule query.bind_same)
  show "qtriple r i s0 (ready i s0 q) (run_loop fuel fuel read_inspect_output actx lim out) (\<lambda>_. ready i s0 q)"
    by (rule query.calm_run_loop [OF calm_ready assms]) (rule query.calm_read_advance_output(2) [OF calm_ready assms])
  fix out
  have "qtriple r i s0 (ready i s0 (f out q)) (trigger_and_wait_checkin actx (rollback actx)) (\<lambda>_. ready i s0 (f out q))"
    by (rule ready_checkin [OF assms query.calm_simple_calls(2) [OF calm_ready assms]])
  then show "qtriple r i s0 (ready i s0 q) (thenP (set_query r i (f out)) (trigger_and_wait_checkin actx (rollback actx)))
     (\<lambda>_ s. \<exists>out. ready i s0 (f out q) s)"
    by (intro query.seq [OF update_query]) (rule query.weaken_post, assumption, blast)
qed

lemma process_pending_query_ok:
  assumes actx: "actx_session actx = r"
  shows "qtriple r i s0 (ready i s0 (new_query payload)) (process_pending_query fuel actx i)
     (\<lambda>_ s. \<exists>q. ready i s0 q s \<and> answered s0 payload q)"
proof -
  let ?new = "new_query payload" and ?Q = "\<lambda>_ s. \<exists>q. ready i s0 q s \<and> answered s0 payload q"
  let ?q = "?new\<lparr>q_processed_input_count := processed_input_count s0\<rparr>"
  let ?f = "\<lambda>(out :: run_outcome) q. q\<lparr>q_status := ro_status out,
      q_exception_data := (if ro_status out = exception then Some (ro_exception out) else q_exception_data q),
      q_reports := q_reports q @ ro_reports out\<rparr>"
  note calls = query.calm_clear(2) [OF calm_ready actx] query.calm_simple_calls(3,7) [OF calm_ready actx]
    query.calm_yield_ack(2) [OF calm_ready actx]
  have final: "qtriple r i s0 (ready i s0 ?q)
     (bindP (run_loop fuel fuel read_inspect_output actx lim out) (\<lambda>out.
        thenP (set_query r i (?f out)) (trigger_and_wait_checkin actx (rollback actx)))) ?Q"
    if "payload_fits payload s0" for lim out
  proof (rule query.weaken_post [OF run_query_ok [OF actx]])
    fix v s assume "\<exists>out. ready i s0 (?f out ?q) s"
    then obtain out where "ready i s0 (?f out ?q) s" ..
    moreover have "answered s0 payload (?f out ?q)" using that by (simp add: answered_def new_query_def)
    ultimately show "?Q v s" by blast
  qed
  have run: "qtriple r i s0 (ready i s0 ?q)
     (thenP (trigger_and_wait_checkin actx (snapshot actx))
      (thenP (clear_rx_buffer actx)
      (bindP (get_query r i) (\<lambda>q.
      thenP (write_evm_abi_string actx (q_payload q) rx_buffer)
      (thenP (reset_iflags_y actx)
      (thenP (set_htif_yield_ack_data actx ROLLUP_INSPECT_STATE)
      (bindP (get_session r) (\<lambda>s.
      bindP (suspend Clock_now) (\<lambda>start.
      bindP (run_loop fuel fuel read_inspect_output actx (inspect_limits s (clock_now start)) (new_outcome (current_mcycle s)))
        (\<lambda>out. thenP (set_query r i (?f out)) (trigger_and_wait_checkin actx (rollback actx)))))))))))) ?Q"
    (is "qtriple r i s0 _ ?run _")
    if "payload_fits payload s0"
    apply (rule query.seq, rule ready_checkin [OF actx query.calm_simple_calls(1) [OF calm_ready actx]])
    apply (rule query.seq, rule calls)
    apply (rule with_query)
    apply (rule query.seq, rule calls)+
    apply (rule query.calm_session, rule query.bind [OF query.calm_yield [OF calm_ready]], simp)
    apply (rule query.weaken_pre [OF final [OF that]], simp)
    done
  have refuse: "qtriple r i s0 (ready i s0 ?q) (set_query r i (\<lambda>q. q\<lparr>q_status := payload_length_limit_exceeded\<rparr>)) ?Q"
    if "\<not> payload_fits payload s0"
    by (rule query.weaken_post [OF update_query]) (use that in \<open>auto simp: answered_def new_query_def\<close>)
  have count: "processed_input_count s = processed_input_count s0" "payload_fits x s = payload_fits x s0"
    if "ready i s0 ?new s" for s x
    using ready_fields(1,2) [OF that] by (simp_all add: payload_fits_def)
  have payload: "q_payload ?q = payload" by (simp add: new_query_def)
  show ?thesis
    unfolding process_pending_query_def Let_def actx
  proof (rule query.bind [OF query.read_epoch])
    fix e
    show "qtriple r i s0 (\<lambda>s. ready i s0 ?new s \<and> sm_find (epochs s) i = Some e)
      (if pending_query e = None then ret ()
       else bindP (get_session r) (\<lambda>s.
         thenP (set_query r i (\<lambda>q. q\<lparr>q_processed_input_count := processed_input_count s\<rparr>))
         (bindP (get_query r i) (\<lambda>q.
           if \<not> payload_fits (q_payload q) s
           then set_query r i (\<lambda>q. q\<lparr>q_status := payload_length_limit_exceeded\<rparr>) else ?run)))) ?Q"
      (is "qtriple r i s0 ?P _ _")
    proof (rule query.cases_if)
      show "qtriple r i s0 ?P (ret ()) ?Q" if "pending_query e = None"
        by (rule query.given [where A = False]) (use that ready_fields(6) in fastforce)+
      have "qtriple r i s0 (ready i s0 ?new) (bindP (get_session r) (\<lambda>s.
         thenP (set_query r i (\<lambda>q. q\<lparr>q_processed_input_count := processed_input_count s\<rparr>))
         (bindP (get_query r i) (\<lambda>q.
           if \<not> payload_fits (q_payload q) s
           then set_query r i (\<lambda>q. q\<lparr>q_status := payload_length_limit_exceeded\<rparr>) else ?run)))) ?Q"
      proof (rule query.calm_session)
        fix s assume s: "ready i s0 ?new s"
        show "qtriple r i s0 (ready i s0 ?new)
          (thenP (set_query r i (\<lambda>q. q\<lparr>q_processed_input_count := processed_input_count s\<rparr>))
           (bindP (get_query r i) (\<lambda>q.
             if \<not> payload_fits (q_payload q) s
             then set_query r i (\<lambda>q. q\<lparr>q_status := payload_length_limit_exceeded\<rparr>) else ?run))) ?Q"
          unfolding count [OF s]
          by (rule query.seq [OF update_query], rule with_query, unfold payload, rule query.cases_if, erule refuse,
              rule run, simp)
      qed
      then show "qtriple r i s0 ?P (bindP (get_session r) (\<lambda>s.
         thenP (set_query r i (\<lambda>q. q\<lparr>q_processed_input_count := processed_input_count s\<rparr>))
         (bindP (get_query r i) (\<lambda>q.
           if \<not> payload_fits (q_payload q) s
           then set_query r i (\<lambda>q. q\<lparr>q_status := payload_length_limit_exceeded\<rparr>) else ?run)))) ?Q"
        by (rule query.weaken_pre) simp
    qed
  qed (use ready_fields(6) in blast)
qed

section \<open>The handler\<close>

text \<open>
  After an error the lock is released before the reply is sent, so that nothing is known of the
  session when the reply has been sent.
\<close>

definition inspect_rely :: "session_ref \<Rightarrow> yield_point \<Rightarrow> handler_context \<Rightarrow> wake \<Rightarrow> handler_context \<Rightarrow> bool" where
  "inspect_rely r y h w h' \<longleftrightarrow> (\<exists>st. y = Finish_with_error st) \<or> query_rely r y h w h'"

text \<open>The session of a reply: as it was, up to the lock, the stub and the address.\<close>

definition unchanged :: "session_type \<Rightarrow> session_type \<Rightarrow> bool" where
  "unchanged s s' \<longleftrightarrow> (\<exists>b a l m. s' = s\<lparr>server_stub := b, session_server_address := a, session_lock := l, session_lock_reason := m\<rparr>)"

definition inspect_replies ::
  "session_ref \<Rightarrow> session_type \<Rightarrow> bytes \<Rightarrow> handler_context \<Rightarrow> yield_point \<Rightarrow> handler_context \<Rightarrow> bool" where
  "inspect_replies r s payload h0 y h \<longleftrightarrow>
     (case y of
        Finish response \<Rightarrow> \<exists>s' q. deref r h = Inr s' \<and> unchanged s s' \<and> answered s payload q \<and>
          response = Inspect_state (inspect_response s q)
      | Finish_with_error st \<Rightarrow> \<exists>s'. deref r h = Inr s' \<and> \<not> session_lock s' \<and> current_mcycle s' = current_mcycle s \<and>
          processed_input_count s' = processed_input_count s
      | _ \<Rightarrow> True)"

definition inspect_ends :: "session_ref \<Rightarrow> handler_context \<Rightarrow> unit hres \<Rightarrow> handler_context \<Rightarrow> bool" where
  "inspect_ends r h1 res h \<longleftrightarrow>
     (case res of
        Inl x \<Rightarrow> contained r x \<and> \<not> is_exception x
      | Inr _ \<Rightarrow> h = h1 \<or> (\<exists>s. deref r h = Inr s \<and> \<not> session_lock s))"

lemma unchanged_trans: "unchanged s s' \<Longrightarrow> unchanged s' s'' \<Longrightarrow> unchanged s s''"
  by (cases s) (auto simp: unchanged_def)

lemma unchanged_views:
  assumes "unchanged s s'"
  shows "answered s' payload q = answered s payload q" "inspect_response s' q = inspect_response s q"
  using assms by (auto simp: unchanged_def answered_def payload_fits_def inspect_response_def)

lemma answer_run:
  assumes "deref r h = Inr s1" "ready i s0 q s1" "sm_find (epochs s0) i = Some e" "pending_query e = None"
  shows "bindP (get_session r) (\<lambda>s. bindP (get_query r i) (\<lambda>q.
        thenP (set_epoch r i (\<lambda>e. e\<lparr>pending_query := None\<rparr>)) (finish (Inspect_state (inspect_response s q))))) h =
      Suspend (assign_session r (s1\<lparr>epochs := epochs s0\<rparr>) h) (Finish (Inspect_state (inspect_response s0 q)))
        (\<lambda>_ h'. Done h' (Inr ()))"
    and "unchanged s0 (s1\<lparr>epochs := epochs s0\<rparr>)"
proof -
  obtain a b where s1: "s1 = s0\<lparr>server_stub := b, session_server_address := a,
      epochs := sm_assign i (e\<lparr>pending_query := Some q\<rparr>) (epochs s0)\<rparr>" and valid: "sm_valid (epochs s0)"
    using assms(2,3) by (auto simp: ready_def asking_def)
  have e: "e\<lparr>pending_query := None\<rparr> = e" using assms(4) by (cases e) simp
  have f: "sm_find (epochs s1) i = Some (e\<lparr>pending_query := Some q\<rparr>)" using valid by (simp add: s1 sm_find_assign)
  have r: "inspect_response s1 q = inspect_response s0 q" by (simp add: s1 inspect_response_def)
  have "sm_assign i (e\<lparr>pending_query := None\<rparr>) (epochs s1) = epochs s0"
    using sm_assign_triv [OF valid assms(3)] by (simp add: s1 e)
  then show "bindP (get_session r) (\<lambda>s. bindP (get_query r i) (\<lambda>q.
        thenP (set_epoch r i (\<lambda>e. e\<lparr>pending_query := None\<rparr>)) (finish (Inspect_state (inspect_response s q))))) h =
      Suspend (assign_session r (s1\<lparr>epochs := epochs s0\<rparr>) h) (Finish (Inspect_state (inspect_response s0 q)))
        (\<lambda>_ h'. Done h' (Inr ()))"
    using assms(1) f r
    by (simp add: exec get_query_def deref_epoch_def write_epoch_def write_session_def finish_def suspend_def)
  show "unchanged s0 (s1\<lparr>epochs := epochs s0\<rparr>)"
    unfolding unchanged_def s1
    by (intro exI [of _ b] exI [of _ a] exI [of _ "session_lock s0"] exI [of _ "session_lock_reason s0"]) (cases s0, simp)
qed

text \<open>How the body of the handler ends.\<close>

definition body_ends :: "session_ref \<Rightarrow> u64 \<Rightarrow> session_type \<Rightarrow> handler_context \<Rightarrow> unit hres \<Rightarrow> handler_context \<Rightarrow> bool" where
  "body_ends r i s0 h1 res h \<longleftrightarrow>
     (\<exists>s. deref r h = Inr s \<and> (case res of Inl x \<Rightarrow> contained r x \<and> asked i s0 s | Inr _ \<Rightarrow> True))"

lemma answer_query_ok:
  assumes h: "deref r h = Inr s1" "ready i s0 (new_query payload) s1"
    and s0: "sm_find (epochs s0) i = Some e" "pending_query e = None" "\<not> tainted s0"
    and s: "unchanged s s0"
  shows "wp (inspect_replies r s payload) (inspect_rely r) (body_ends r i s0) (answer_query fuel self r i h) h0"
proof -
  let ?actx = "\<lparr>actx_session = r, actx_self = self\<rparr>"
  let ?reply = "bindP (get_session r) (\<lambda>s. bindP (get_query r i) (\<lambda>q.
      thenP (set_epoch r i (\<lambda>e. e\<lparr>pending_query := None\<rparr>)) (finish (Inspect_state (inspect_response s q)))))"
  have "query.at r (ready i s0 (new_query payload)) h" using h by (auto simp: query.at_def)
  then have "wp (query.G r) (query_rely r) (query.post r (\<lambda>_ s. \<exists>q. ready i s0 q s \<and> answered s0 payload q) (asked i s0))
      (process_pending_query fuel ?actx i h) h0"
    using process_pending_query_ok [of ?actx r i s0 payload fuel] by (simp add: query.triple_def)
  then have query_ends: "wp (inspect_replies r s payload) (inspect_rely r)
      (query.post r (\<lambda>_ s. \<exists>q. ready i s0 q s \<and> answered s0 payload q) (asked i s0))
      (process_pending_query fuel ?actx i h) h0"
  proof (rule wp_conseq)
    fix h0 y h w h' assume y: "query.G r h0 y h"
    then show "inspect_replies r s payload h0 y h"
      by (auto simp: query.G_def query.at_def inspect_replies_def split: yield_point.splits)
    show "query_rely r y h w h'" if "inspect_rely r y h w h'"
      using that y by (auto simp: inspect_rely_def query.G_def query.at_def)
  qed
  have unfolded: "answer_query fuel self r i h = thenP (process_pending_query fuel ?actx i) ?reply h"
    using h s0(3) ready_fields(4) [OF h(2)] by (simp add: answer_query_def check_not_tainted_def exec)
  show ?thesis
    unfolding unfolded wp_thenP
  proof (rule wp_mono [OF query_ends])
    fix h1 :: handler_context and res :: "unit hres" and h2
    assume p: "query.post r (\<lambda>_ s. \<exists>q. ready i s0 q s \<and> answered s0 payload q) (asked i s0) h1 res h2"
    show "case res of Inl x \<Rightarrow> body_ends r i s0 h1 (Inl x) h2
        | Inr a \<Rightarrow> wp (inspect_replies r s payload) (inspect_rely r) (body_ends r i s0) (?reply h2) h1"
    proof (cases res)
      case (Inl x)
      then show ?thesis using p by (auto simp: query.post_def query.at_def body_ends_def)
    next
      case (Inr u)
      then obtain s2 q where s2: "deref r h2 = Inr s2" "ready i s0 q s2" "answered s0 payload q"
        using p by (auto simp: query.post_def query.at_def)
      note run = answer_run [OF s2(1,2) s0(1,2)]
      let ?s = "s2\<lparr>epochs := epochs s0\<rparr>"
      have d: "deref r (assign_session r ?s h2) = Inr ?s" using s2(1) by (simp add: deref_Inr_iff)
      have "inspect_replies r s payload h1 (Finish (Inspect_state (inspect_response s0 q))) (assign_session r ?s h2)"
        using d unchanged_trans [OF s run(2)] s2(3) unchanged_views [OF s] by (auto simp: inspect_replies_def)
      moreover have "\<exists>s'. deref r h' = Inr s'"
        if "inspect_rely r (Finish (Inspect_state (inspect_response s0 q))) (assign_session r ?s h2) w h'" for w h'
        using that d by (auto simp: inspect_rely_def query_rely_def)
      ultimately show ?thesis unfolding Inr run(1) by (auto simp: body_ends_def)
    qed
  qed
qed

lemma inspect_catch_ok:
  assumes h: "deref r h = Inr s'" "\<not> session_lock s'" "ref_id r = sid"
    and s: "current_mcycle s' = current_mcycle s" "processed_input_count s' = processed_input_count s"
    and x: "contained r x" "is_exception x"
  shows "wp (inspect_replies r s payload) (inspect_rely r) (inspect_ends r) (InspectState_catch sid x h) h1"
proof -
  have obj: "session_object s' = ref_object r" "um_find (sessions h) sid = Some s'"
    using h by (simp_all add: deref_Inr_iff)
  have r: "\<lparr>ref_id = sid, ref_object = session_object s'\<rparr> = r" using h(3) obj(1) by (cases r) simp
  have reply: "wp (inspect_replies r s payload) (inspect_rely r) (inspect_ends r) (finish_with_error st h') h1"
    if "deref r h' = Inr s''" "\<not> session_lock s''" "current_mcycle s'' = current_mcycle s"
      "processed_input_count s'' = processed_input_count s" for st h' s''
    using that by (auto simp: finish_with_error_def wp_rules inspect_replies_def inspect_ends_def)
  have tainted: "wp (inspect_replies r s payload) (inspect_rely r) (inspect_ends r)
      (thenP (set_session r (\<lambda>s. s\<lparr>tainted := True, taint_status := st\<rparr>)) (finish_with_error st') h) h1" for st st'
    using h s obj by (simp add: wp_thenP set_session_def wp_update write_session_def) (rule reply [where s'' = "s'\<lparr>tainted := True, taint_status := st\<rparr>"], simp_all)
  show ?thesis
  proof (cases x)
    case (Finish_error_yield_none st)
    then show ?thesis using h s by (simp add: InspectState_catch_def reply)
  next
    case (Taint_session t st)
    then show ?thesis using x tainted by (simp add: InspectState_catch_def)
  next
    case (Std_exception c)
    then show ?thesis
      using tainted [of "unexpected x" "unexpected x"] obj r by (simp add: InspectState_catch_def wp_bindP find_session_eq bindP_def)
  qed (use x in \<open>simp_all\<close>)
qed

text \<open>The handler up to the query being pending: what remains is answering it, under the lock.\<close>

lemma inspect_state_runs:
  assumes s: "um_find (sessions h) (isr_session_id request) = Some s" "\<not> session_lock s" "\<not> tainted s"
    and r: "r = \<lparr>ref_id = isr_session_id request, ref_object = session_object s\<rparr>"
    and e: "sm_valid (epochs s)" "sm_find (epochs s) (active_epoch_index s) = Some e" "pending_inputs e = []" "pending_query e = None"
    and s1: "s1 = s\<lparr>session_lock := True, session_lock_reason := get_session_lock_reason ''InspectState'' peer,
      epochs := sm_assign (active_epoch_index s) (e\<lparr>pending_query := Some (new_query (isr_query_payload request))\<rparr>) (epochs s)\<rparr>"
  shows "InspectState_handler fuel self True peer request h =
      catch_proc (scope_proc (answer_query fuel self r (active_epoch_index s) (assign_session r s1 h)) (lock_destructor Session_lock r))
        (InspectState_catch (isr_session_id request))"
proof -
  have obj: "session_object s = ref_object r" using r by simp
  note d = deref_entered [OF s(1) r, of "''InspectState''" peer]
  have body: "InspectState_body fuel self request r (entered ''InspectState'' peer r s h) =
      answer_query fuel self r (active_epoch_index s) (assign_session r s1 h)"
    using s(3) e obj
    by (simp add: InspectState_body_def add_query_def check_not_tainted_def exec d deref_epoch_def
        write_epoch_def write_session_def sm_find_assign s1) (simp add: entered_def)
  show ?thesis
    using enter_session_runs [where pre = "\<lambda>_. ret ()", OF s(1,2) r, of "''InspectState''" peer]
    by (simp add: InspectState_handler_def try_catch_def body ret_def)
qed

text \<open>
  Claim C7. \<open>InspectState\<close> on a session with no inputs pending. The reply describes the session:
  its identifier, active epoch and the number of inputs processed, the reports and the status of
  the query; a query that does not fit the buffer is answered with that status and no reports.
  When the reply is sent the epochs and every other part of the session are as before the call
  (only the lock, the stub and the address of the machine server may differ), and the lock is
  released afterwards. On an error the lock is released before the error is reported, and the
  machine cycle and input count are unchanged. The handler ends, without undefined behaviour.
\<close>

theorem inspect_state_correct:
  assumes s: "um_find (sessions h) (isr_session_id request) = Some s" "\<not> session_lock s" "\<not> tainted s" "server_stub s \<noteq> None"
    and r: "r = \<lparr>ref_id = isr_session_id request, ref_object = session_object s\<rparr>"
    and e: "sm_valid (epochs s)" "sm_find (epochs s) (active_epoch_index s) = Some e" "pending_inputs e = []" "pending_query e = None"
  shows "wp (inspect_replies r s (isr_query_payload request)) (inspect_rely r) (inspect_ends r)
     (InspectState_handler fuel self True peer request h) h"
proof -
  let ?reason = "get_session_lock_reason ''InspectState'' peer" and ?i = "active_epoch_index s"
  let ?q = "new_query (isr_query_payload request)"
  let ?s0 = "s\<lparr>session_lock := True, session_lock_reason := ?reason\<rparr>"
  let ?s1 = "?s0\<lparr>epochs := sm_assign ?i (e\<lparr>pending_query := Some ?q\<rparr>) (epochs s)\<rparr>"
  let ?h = "assign_session r ?s1 h"
  have obj: "session_object s = ref_object r" and sid: "ref_id r = isr_session_id request" using r by simp_all
  have u: "unchanged s ?s0" "ready ?i ?s0 ?q ?s1"
    using s(4) e by (cases s, auto simp: unchanged_def ready_def asking_def)+
  have d1: "deref r ?h = Inr ?s1" using obj by simp
  have answer: "wp (inspect_replies r s (isr_query_payload request)) (inspect_rely r) (body_ends r ?i ?s0)
      (answer_query fuel self r ?i ?h) h"
    using s(3) e by (intro answer_query_ok [OF d1 u(2) _ e(4) _ u(1)]) simp_all
  note runs = inspect_state_runs [OF s(1-3) r e refl, of fuel self peer]
  show ?thesis
    unfolding runs wp_catch_proc wp_scope_proc
  proof (rule wp_mono [OF answer])
    fix h1 :: handler_context and res :: "unit hres" and h2 assume "body_ends r ?i ?s0 h1 res h2"
    then obtain s2 where s2: "deref r h2 = Inr s2" "case res of Inl x \<Rightarrow> contained r x \<and> asked ?i ?s0 s2 | Inr _ \<Rightarrow> True"
      by (auto simp: body_ends_def)
    let ?s3 = "s2\<lparr>session_lock := False\<rparr>"
    let ?h3 = "assign_session r ?s3 h2"
    have h3: "lock_destructor Session_lock r h2 = Inr ?h3" "deref r ?h3 = Inr ?s3"
      using s2(1) by (simp add: lock_destructor_def write_session_def, simp add: deref_Inr_iff)
    have caught: "wp (inspect_replies r s (isr_query_payload request)) (inspect_rely r) (inspect_ends r)
        (InspectState_catch (isr_session_id request) x ?h3) h1" if "res = Inl x" "is_exception x" for x
      using that s2(2) by (intro inspect_catch_ok [OF h3(2)]) (auto simp: sid asked_def asking_def)
    show "wp (inspect_replies r s (isr_query_payload request)) (inspect_rely r)
        (\<lambda>h1 res h. case res of
            Inl x \<Rightarrow> if is_exception x
              then wp (inspect_replies r s (isr_query_payload request)) (inspect_rely r) (inspect_ends r)
                (InspectState_catch (isr_session_id request) x h) h1
              else inspect_ends r h1 (Inl x) h
          | Inr a \<Rightarrow> inspect_ends r h1 (Inr a) h)
        (run_destructor (lock_destructor Session_lock r) h2 res) h1"
      using s2 h3 caught by (cases res) (auto simp: wp_run_destructor inspect_ends_def)
  qed
qed

definition idle_session :: session_type where
  "idle_session = sample_session\<lparr>server_stub := Some ''machine'', epochs := [(4, window_epoch None)]\<rparr>"

definition idle_context :: handler_context where
  "idle_context = sample_context\<lparr>sessions := [(''s'', idle_session)]\<rparr>"

lemma idle:
  "um_find (sessions idle_context) ''s'' = Some idle_session" "\<not> session_lock idle_session" "\<not> tainted idle_session"
  "server_stub idle_session = Some ''machine''" "active_epoch_index idle_session = 4" "sm_valid (epochs idle_session)"
  "sm_find (epochs idle_session) 4 = Some (window_epoch None)"
  "sample_ref = \<lparr>ref_id = ''s'', ref_object = session_object idle_session\<rparr>"
  by (simp_all add: idle_context_def idle_session_def sample_session_def sample_ref_def um_find_def sm_find_def sm_valid_def)

theorem inspect_state_correct_witness:
  "wp (inspect_replies sample_ref idle_session [1, 2]) (inspect_rely sample_ref) (inspect_ends sample_ref)
     (InspectState_handler 5 7 True ''peer'' \<lparr>isr_session_id = ''s'', isr_query_payload = [1, 2]\<rparr> idle_context) idle_context"
  using inspect_state_correct [where request = "\<lparr>isr_session_id = ''s'', isr_query_payload = [1, 2]\<rparr>" and h = idle_context
      and s = idle_session and r = sample_ref and e = "window_epoch None"] idle window(8,9) [of None]
  by simp

end
