(* ===== verification/Query_Failure.thy ===== *)
theory Query_Failure
  imports Inspect_Correctness
begin

text \<open>
  What a failed \<open>InspectState\<close> leaves behind: the query stays pending when no stub can be created for
  the machine server that checked in after the snapshot.
\<close>

section \<open>Running composed programs\<close>

lemma run_proc_bind:
  "run_proc env p = (ys, s, Inr a) \<Longrightarrow> run_proc env (f a s) = (zs, res) \<Longrightarrow> run_proc env (bind_proc p f) = (ys @ zs, res)"
  by (induction p arbitrary: ys rule: proc_induct) (auto split: prod.splits)

lemma run_proc_bind_fails:
  "run_proc env p = (ys, s, Inl x) \<Longrightarrow> run_proc env (bind_proc p f) = (ys, s, Inl x)"
  by (induction p arbitrary: ys rule: proc_induct) (auto split: prod.splits)

lemma run_proc_scope:
  assumes "run_proc env p = (ys, s, Inl x)" "is_exception x" "d s = Inr s'"
  shows "run_proc env (scope_proc p d) = (ys, s', Inl x)"
  using assms by (induction p arbitrary: ys rule: proc_induct) (auto simp: run_destructor_def split: prod.splits)

lemma run_proc_catch:
  assumes "run_proc env p = (ys, s, Inl x)" "is_exception x" "run_proc env (f x s) = (zs, res)"
  shows "run_proc env (catch_proc p f) = (ys @ zs, res)"
  using assms by (induction p arbitrary: ys rule: proc_induct) (auto split: prod.splits)

section \<open>A check-in without a stub\<close>

text \<open>
  Whatever happens at a yield point, the calls succeed, the session \<open>r\<close> refers to is left alone but for
  the address of its machine server, a machine server that is waited for checks in, and no stub
  can be created.
\<close>

definition without_stub :: "session_ref \<Rightarrow> yield_point \<Rightarrow> handler_context \<Rightarrow> wake \<Rightarrow> handler_context \<Rightarrow> bool" where
  "without_stub r y h w h' \<longleftrightarrow> is_ok (call_status w) \<and> \<not> stub_created w \<and>
     (\<forall>s. deref r h = Inr s \<longrightarrow> (\<exists>a. deref r h' = Inr (s\<lparr>session_server_address := a\<rparr>))) \<and>
     (case y of
        Wait_checkin i \<Rightarrow> \<exists>c. um_find (sessions_waiting_checkin h') i = Some \<lparr>cc_coroutine = c, cc_status = Some True\<rparr>
      | _ \<Rightarrow> um_find (sessions_waiting_checkin h') (ref_id r) = um_find (sessions_waiting_checkin h) (ref_id r))"

definition stub_fails :: "session_ref \<Rightarrow> (yield_point \<Rightarrow> handler_context \<Rightarrow> wake \<times> handler_context) \<Rightarrow> bool" where
  "stub_fails r env \<longleftrightarrow> (\<forall>y h. without_stub r y h (fst (env y h)) (snd (env y h)))"

text \<open>The session is \<open>s\<close> up to the address of its machine server.\<close>

definition at_session :: "session_ref \<Rightarrow> session_type \<Rightarrow> handler_context \<Rightarrow> bool" where
  "at_session r s h \<longleftrightarrow> (\<exists>a. deref r h = Inr (s\<lparr>session_server_address := a\<rparr>))"

lemma at_session_resumed: "at_session r s h \<Longrightarrow> without_stub r y h w h' \<Longrightarrow> at_session r s h'"
  by (cases s) (fastforce simp: at_session_def without_stub_def)

lemma env_answers:
  assumes "stub_fails r env"
  obtains w h' where "env y h = (w, h')" "without_stub r y h w h'"
  using assms by (cases "env y h") (auto simp: stub_fails_def, metis fst_conv snd_conv)

abbreviation no_stub :: handler_exn where
  "no_stub \<equiv> Finish_error_yield_none (grpc_error RESOURCE_EXHAUSTED ''unable to create machine stub for session'')"

lemma snapshot_returns:
  assumes "stub_fails r env" "at_session r s h" "server_stub s = Some address" "actx_session actx = r"
  shows "\<exists>ys h'. run_proc env (snapshot actx h) = (ys, h', Inr ()) \<and> at_session r s h' \<and>
    um_find (sessions_waiting_checkin h') (ref_id r) = um_find (sessions_waiting_checkin h) (ref_id r)"
proof -
  obtain a where a: "deref r h = Inr (s\<lparr>session_server_address := a\<rparr>)" using assms(2) by (auto simp: at_session_def)
  obtain w h' where w: "env (Machine_call address M_Snapshot (dl_fast (server_deadline s))) h = (w, h')"
      "without_stub r (Machine_call address M_Snapshot (dl_fast (server_deadline s))) h w h'"
    using assms(1) by (rule env_answers)
  have "at_session r s h'" using at_session_resumed [OF assms(2) w(2)] .
  then show ?thesis
    using w a assms(3,4)
    by (auto simp: snapshot_def machine_call_def exec suspend_def CHECK_STATUS_OR_TAINT_def without_stub_def)
qed

lemma stub_refused:
  assumes "stub_fails r env" "at_session r s h"
  shows "\<exists>ys h'. run_proc env (check_server_stub r h) = (ys, h', Inl no_stub) \<and> at_session r (s\<lparr>server_stub := None\<rparr>) h'"
proof -
  obtain a where a: "deref r h = Inr (s\<lparr>session_server_address := a\<rparr>)" using assms(2) by (auto simp: at_session_def)
  obtain w h' where w: "env (Create_stub a) h = (w, h')" "without_stub r (Create_stub a) h w h'"
    using assms(1) by (rule env_answers)
  obtain b where b: "deref r h' = Inr (s\<lparr>session_server_address := b\<rparr>)"
    using at_session_resumed [OF assms(2) w(2)] by (auto simp: at_session_def)
  let ?s = "s\<lparr>session_server_address := b, server_stub := None\<rparr>"
  have d: "deref r (assign_session r ?s h') = Inr ?s" using b by (simp add: deref_Inr_iff)
  moreover have "?s = s\<lparr>server_stub := None, session_server_address := b\<rparr>" by simp
  ultimately have at: "at_session r (s\<lparr>server_stub := None\<rparr>) (assign_session r ?s h')" unfolding at_session_def by metis
  have "run_proc env (check_server_stub r h) = ([Create_stub a], assign_session r ?s h', Inl no_stub)"
    using a b d w by (simp add: check_server_stub_def exec suspend_def write_session_def without_stub_def)
  then show ?thesis using at by blast
qed

text \<open>What \<open>trigger_and_wait_checkin\<close> does once the check-in is triggered.\<close>

definition checked_in :: "async_context \<Rightarrow> unit \<Rightarrow> unit handler" where
  "checked_in actx = (\<lambda>_. bindP (get_session (actx_session actx)) (\<lambda>session.
        thenP (update (\<lambda>h. Inr (h\<lparr>sessions_waiting_checkin :=
                 um_assign (session_id session) \<lparr>cc_coroutine = actx_self actx, cc_status = None\<rparr>
                   (sessions_waiting_checkin h)\<rparr>)))
        (bindP (suspend (Start_deadline (session_id session) (dl_checkin (server_deadline session)))) (\<lambda>_.
        (bindP (suspend (Wait_checkin (session_id session))) (\<lambda>_.
        bindP (get_session (actx_session actx)) (\<lambda>session.
        bindP (gets (\<lambda>h. Inr (um_find (sessions_waiting_checkin h) (session_id session)))) (\<lambda>it.
        case it of
          None \<Rightarrow> throw Exit_process
        | Some cctx \<Rightarrow>
           (case cc_status cctx of
              None \<Rightarrow> throw Exit_process
            | Some ok \<Rightarrow>
                thenP (update (\<lambda>h. Inr (h\<lparr>sessions_waiting_checkin :=
                         um_erase (session_id session) (sessions_waiting_checkin h)\<rparr>)))
                (if \<not> ok
                 then taint actx INTERNAL (''Remote machine check-in has failed on session: '' @ session_id session)
                 else check_server_stub (actx_session actx)))))))))))"

lemma checkin_without_stub:
  assumes env: "stub_fails r env" and h: "at_session r s h" "server_stub s = Some address" "actx_session actx = r" "session_id s = ref_id r"
    and free: "um_find (sessions_waiting_checkin h) (ref_id r) = None"
  shows "\<exists>ys h'. run_proc env (trigger_and_wait_checkin actx (snapshot actx) h) = (ys, h', Inl no_stub) \<and>
    at_session r (s\<lparr>server_stub := None\<rparr>) h'"
proof -
  let ?alarm = "Start_deadline (ref_id r) (dl_checkin (server_deadline s))" and ?wait = "Wait_checkin (ref_id r)"
  obtain ys1 h1 where 1: "run_proc env (snapshot actx h) = (ys1, h1, Inr ())" "at_session r s h1"
    using snapshot_returns [OF env h(1-3)] by blast
  let ?h1 = "h1\<lparr>sessions_waiting_checkin := um_assign (ref_id r) \<lparr>cc_coroutine = actx_self actx, cc_status = None\<rparr>
      (sessions_waiting_checkin h1)\<rparr>"
  have waiting: "at_session r s (g\<lparr>sessions_waiting_checkin := m\<rparr>) = at_session r s g" for g m by (simp add: at_session_def deref_def)
  then have at1: "at_session r s ?h1" using 1(2) by simp
  obtain w2 h2 where 2: "env ?alarm ?h1 = (w2, h2)" "without_stub r ?alarm ?h1 w2 h2" using env by (rule env_answers)
  note at2 = at_session_resumed [OF at1 2(2)]
  obtain w3 h3 where 3: "env ?wait h2 = (w3, h3)" "without_stub r ?wait h2 w3 h3" using env by (rule env_answers)
  note at3 = at_session_resumed [OF at2 3(2)]
  let ?h3 = "h3\<lparr>sessions_waiting_checkin := um_erase (ref_id r) (sessions_waiting_checkin h3)\<rparr>"
  have "at_session r s ?h3" using at3 waiting by simp
  then obtain ys4 h4 where 4: "run_proc env (check_server_stub r ?h3) = (ys4, h4, Inl no_stub)" "at_session r (s\<lparr>server_stub := None\<rparr>) h4"
    using stub_refused [OF env] by blast
  obtain a a1 a3 where d: "deref r h = Inr (s\<lparr>session_server_address := a\<rparr>)" "deref r h1 = Inr (s\<lparr>session_server_address := a1\<rparr>)"
      "deref r h3 = Inr (s\<lparr>session_server_address := a3\<rparr>)"
    using h(1) 1(2) at3 by (auto simp: at_session_def)
  obtain rest where rest: "trigger_and_wait_checkin actx (snapshot actx) h = bind_proc (snapshot actx h) rest"
    "\<exists>zs. run_proc env (rest () h1) = (zs, h4, Inl no_stub)"
  proof
    show "trigger_and_wait_checkin actx (snapshot actx) h = bind_proc (snapshot actx h) (checked_in actx)"
      using d(1) h(3,4) free by (simp add: trigger_and_wait_checkin_def checked_in_def bindP_def thenP_def get_session_def gets_def)
    show "\<exists>zs. run_proc env (checked_in actx () h1) = (zs, h4, Inl no_stub)"
      using d(2,3) 2 3 4(1) h(3,4) by (auto simp: checked_in_def exec suspend_def without_stub_def)
  qed
  then show ?thesis using run_proc_bind [OF 1(1)] 4(2) by force
qed

section \<open>The handler\<close>

lemma query_without_stub:
  assumes env: "stub_fails r env" and h: "deref r h = Inr s" "server_stub s = Some address" "session_id s = ref_id r" "\<not> tainted s"
    and free: "um_find (sessions_waiting_checkin h) (ref_id r) = None"
    and e: "sm_valid (epochs s)" "sm_find (epochs s) i = Some e" "pending_query e = Some q" "payload_fits (q_payload q) s"
    and s': "s' = s\<lparr>server_stub := None,
      epochs := sm_assign i (e\<lparr>pending_query := Some (q\<lparr>q_processed_input_count := processed_input_count s\<rparr>)\<rparr>) (epochs s)\<rparr>"
  shows "\<exists>ys h'. run_proc env (answer_query fuel self r i h) = (ys, h', Inl no_stub) \<and> at_session r s' h'"
proof -
  let ?q = "q\<lparr>q_processed_input_count := processed_input_count s\<rparr>"
  let ?s = "s\<lparr>epochs := sm_assign i (e\<lparr>pending_query := Some ?q\<rparr>) (epochs s)\<rparr>" and ?actx = "\<lparr>actx_session = r, actx_self = self\<rparr>"
  let ?h = "assign_session r ?s h"
  have d: "deref r ?h = Inr ?s" using h(1) by (simp add: deref_Inr_iff)
  have f: "sm_find (epochs ?s) i = Some (e\<lparr>pending_query := Some ?q\<rparr>)" using e(1) by (simp add: sm_find_assign)
  have "?s = ?s\<lparr>session_server_address := session_server_address s\<rparr>" by simp
  then have "at_session r ?s ?h" using d unfolding at_session_def by metis
  moreover have "um_find (sessions_waiting_checkin ?h) (ref_id r) = None" using free by (simp add: assign_session_def)
  ultimately obtain ys h' where run: "run_proc env (trigger_and_wait_checkin ?actx (snapshot ?actx) ?h) = (ys, h', Inl no_stub)"
      "at_session r (?s\<lparr>server_stub := None\<rparr>) h'"
    using checkin_without_stub [OF env, of ?s ?h address ?actx] h(2,3) by auto
  have "write_epoch r i (\<lambda>e. e\<lparr>pending_query := Some ?q\<rparr>) h = Inr ?h"
    using h(1) e(2) by (simp add: write_epoch_def deref_epoch_def write_session_def)
  then have "\<exists>g. process_pending_query fuel ?actx i h = bind_proc (trigger_and_wait_checkin ?actx (snapshot ?actx) ?h) g"
    using h(1) e(2-4) d f
    by (simp add: process_pending_query_def exec get_query_def set_query_def deref_epoch_def Let_def) (intro exI, rule refl)
  then have query: "run_proc env (process_pending_query fuel ?actx i h) = (ys, h', Inl no_stub)"
    using run_proc_bind_fails [OF run(1)] by auto
  obtain g where "answer_query fuel self r i h = bind_proc (process_pending_query fuel ?actx i h) g"
    using h(1,4) by (simp add: answer_query_def check_not_tainted_def bindP_def thenP_def get_session_def gets_def ret_def)
  then have "run_proc env (answer_query fuel self r i h) = (ys, h', Inl no_stub)"
    using run_proc_bind_fails [OF query, of g] by simp
  moreover have "?s\<lparr>server_stub := None\<rparr> = s'" using s' by simp
  ultimately show ?thesis using run(2) by auto
qed

text \<open>
  Claim C39. \<open>InspectState\<close> does not clean up when it fails. On any idle session, when every call
  succeeds and the machine server checks in after the snapshot, but no stub can be created for it, and
  other handlers leave the session alone: the client gets an error and the session is left unlocked
  and untainted, with no stub and with the query still pending without a coroutine. Handing over to
  that query, as the processing of the next input does, then dereferences a null coroutine.
\<close>

theorem inspect_state_leaves_query:
  assumes s: "um_find (sessions h) (isr_session_id request) = Some s" "\<not> session_lock s" "\<not> tainted s"
      "session_id s = isr_session_id request" "server_stub s = Some address"
    and r: "r = \<lparr>ref_id = isr_session_id request, ref_object = session_object s\<rparr>"
    and e: "sm_valid (epochs s)" "sm_find (epochs s) (active_epoch_index s) = Some e" "pending_inputs e = []" "pending_query e = None"
    and fits: "payload_fits (isr_query_payload request) s"
    and free: "um_find (sessions_waiting_checkin h) (isr_session_id request) = None"
    and env: "stub_fails r env"
  shows "case run_proc env (InspectState_handler fuel self True peer request h) of (ys, h', res) \<Rightarrow>
    res = Inr () \<and>
    (\<exists>st. last ys = Finish_with_error st \<and> error_code st = RESOURCE_EXHAUSTED) \<and>
    (\<exists>s' e' q. deref r h' = Inr s' \<and> \<not> session_lock s' \<and> \<not> tainted s' \<and> server_stub s' = None \<and>
       sm_find (epochs s') (active_epoch_index s) = Some e' \<and> pending_query e' = Some q \<and> q_coroutine q = None) \<and>
    resume_pending_query r (active_epoch_index s) self' h' =
      Done h' (Inl (Std_exception (Undefined_behaviour ''null coroutine'')))"
proof -
  let ?i = "active_epoch_index s" and ?q = "new_query (isr_query_payload request)"
  define s1 where "s1 = s\<lparr>session_lock := True, session_lock_reason := get_session_lock_reason ''InspectState'' peer,
      epochs := sm_assign ?i (e\<lparr>pending_query := Some ?q\<rparr>) (epochs s)\<rparr>"
  let ?h = "assign_session r s1 h"
  have d: "deref r ?h = Inr s1" using r by (simp add: s1_def)
  have valid: "sm_valid (epochs s1)" using e(1) by (simp add: s1_def sm_valid_assign)
  have f: "sm_find (epochs s1) ?i = Some (e\<lparr>pending_query := Some ?q\<rparr>)" using e(1) by (simp add: s1_def sm_find_assign)
  define q where "q = ?q\<lparr>q_processed_input_count := processed_input_count s1\<rparr>"
  define s2 where "s2 = s1\<lparr>server_stub := None,
      epochs := sm_assign ?i ((e\<lparr>pending_query := Some ?q\<rparr>)\<lparr>pending_query := Some q\<rparr>) (epochs s1)\<rparr>"
  have "\<exists>ys h2. run_proc env (answer_query fuel self r ?i ?h) = (ys, h2, Inl no_stub) \<and> at_session r s2 h2"
    using s r fits free
    by (intro query_without_stub [OF env d _ _ _ _ valid f _ _ s2_def [unfolded q_def]])
      (simp_all add: s1_def payload_fits_def new_query_def assign_session_def)
  then obtain ys h2 a where run: "run_proc env (answer_query fuel self r ?i ?h) = (ys, h2, Inl no_stub)"
      "deref r h2 = Inr (s2\<lparr>session_server_address := a\<rparr>)"
    by (auto simp: at_session_def)
  let ?s3 = "s2\<lparr>session_server_address := a, session_lock := False\<rparr>"
  let ?h3 = "assign_session r ?s3 h2"
  have d3: "deref r ?h3 = Inr ?s3" using run(2) by (simp add: deref_Inr_iff)
  have "lock_destructor Session_lock r h2 = Inr ?h3" using run(2) by (simp add: lock_destructor_def write_session_def)
  then have scope: "run_proc env (scope_proc (answer_query fuel self r ?i ?h) (lock_destructor Session_lock r)) = (ys, ?h3, Inl no_stub)"
    by (intro run_proc_scope [OF run(1)]) simp_all
  let ?y = "Finish_with_error (grpc_error RESOURCE_EXHAUSTED ''unable to create machine stub for session'')"
  obtain w h' where w: "env ?y ?h3 = (w, h')" "without_stub r ?y ?h3 w h'" using env by (rule env_answers)
  obtain b where d': "deref r h' = Inr (?s3\<lparr>session_server_address := b\<rparr>)" using w(2) d3 by (auto simp: without_stub_def)
  have "run_proc env (InspectState_catch (isr_session_id request) no_stub ?h3) = ([?y], h', Inr ())"
    using w(1) by (simp add: InspectState_catch_def finish_with_error_def exec suspend_def)
  then have handler: "run_proc env (InspectState_handler fuel self True peer request h) = (ys @ [?y], h', Inr ())"
    using run_proc_catch [OF scope] inspect_state_runs [OF s(1-3) r e s1_def, of fuel self] by simp
  let ?s4 = "?s3\<lparr>session_server_address := b\<rparr>" and ?e = "e\<lparr>pending_query := Some q\<rparr>"
  have s4: "\<not> session_lock ?s4" "\<not> tainted ?s4" "server_stub ?s4 = None" "sm_find (epochs ?s4) ?i = Some ?e" "q_coroutine q = None"
    using s(3) e(1) by (simp_all add: s2_def s1_def sm_find_assign q_def new_query_def)
  have "resume_pending_query r ?i self' h' = Done h' (Inl (Std_exception (Undefined_behaviour ''null coroutine'')))"
    using d' s4(4,5) by (simp add: resume_pending_query_def exec deref_epoch_def enqueue_completion_queue_def)
  moreover have "\<exists>s' e' q. deref r h' = Inr s' \<and> \<not> session_lock s' \<and> \<not> tainted s' \<and> server_stub s' = None \<and>
       sm_find (epochs s') ?i = Some e' \<and> pending_query e' = Some q \<and> q_coroutine q = None"
    using d' s4 by (intro exI [of _ ?s4] exI [of _ ?e] exI [of _ q]) simp
  ultimately show ?thesis using handler by simp
qed

section \<open>Instances\<close>

text \<open>Calls succeed, the machine server checks in, no stub is created and nothing else happens.\<close>

definition stubless :: "yield_point \<Rightarrow> handler_context \<Rightarrow> wake \<times> handler_context" where
  "stubless y h =
     (ok_wake\<lparr>stub_created := False\<rparr>,
      case y of
        Wait_checkin i \<Rightarrow> h\<lparr>sessions_waiting_checkin := um_assign i \<lparr>cc_coroutine = 7, cc_status = Some True\<rparr> (sessions_waiting_checkin h)\<rparr>
      | _ \<Rightarrow> h)"

lemma stubless_fails: "stub_fails r stubless"
proof -
  have "s\<lparr>session_server_address := session_server_address s\<rparr> = s" for s :: session_type by simp
  then have "\<exists>a. s = s\<lparr>session_server_address := a\<rparr>" for s :: session_type by metis
  moreover have "deref r (h\<lparr>sessions_waiting_checkin := m\<rparr>) = deref r h" for h m by (simp add: deref_def)
  ultimately show ?thesis
    by (auto simp: stub_fails_def without_stub_def stubless_def ok_wake_def is_ok_def status_ok_def split: yield_point.split)
qed

definition roomy_session :: session_type where
  "roomy_session = idle_session\<lparr>memory_range := empty_ranges\<lparr>rx_buffer := empty_description\<lparr>desc_length := 4096\<rparr>\<rparr>\<rparr>"

definition roomy_context :: handler_context where
  "roomy_context = sample_context\<lparr>sessions := [(''s'', roomy_session)]\<rparr>"

theorem inspect_state_leaves_query_witness:
  "case run_proc stubless (InspectState_handler 5 7 True ''peer'' \<lparr>isr_session_id = ''s'', isr_query_payload = [1, 2]\<rparr> roomy_context)
   of (ys, h, res) \<Rightarrow> res = Inr () \<and> (\<exists>s. deref sample_ref h = Inr s \<and> \<not> session_lock s \<and> \<not> tainted s \<and> server_stub s = None) \<and>
     resume_pending_query sample_ref 4 0 h = Done h (Inl (Std_exception (Undefined_behaviour ''null coroutine'')))"
proof -
  let ?req = "\<lparr>isr_session_id = ''s'', isr_query_payload = [1, 2]\<rparr> :: inspect_state_request"
  have s: "um_find (sessions roomy_context) (isr_session_id ?req) = Some roomy_session" "\<not> session_lock roomy_session"
      "\<not> tainted roomy_session" "session_id roomy_session = isr_session_id ?req" "server_stub roomy_session = Some ''machine''"
      "sample_ref = \<lparr>ref_id = isr_session_id ?req, ref_object = session_object roomy_session\<rparr>" "active_epoch_index roomy_session = 4"
      "sm_valid (epochs roomy_session)" "sm_find (epochs roomy_session) (active_epoch_index roomy_session) = Some (window_epoch None)"
    using idle by (simp_all add: roomy_context_def roomy_session_def um_find_def, simp_all add: idle_session_def sample_session_def)
  have fits: "payload_fits (isr_query_payload ?req) roomy_session"
    by (simp add: payload_fits_def roomy_session_def evm_abi_constants)
  have free: "um_find (sessions_waiting_checkin roomy_context) (isr_session_id ?req) = None"
    by (simp add: roomy_context_def sample_context_def um_find_def)
  from inspect_state_leaves_query [OF s(1-6,8,9) window(8,9) fits free stubless_fails, where fuel = 5 and self = 7 and peer = "''peer''" and self' = 0] s(7)
  show ?thesis by (auto split: prod.splits)
qed

end
