(* ===== verification/Ownership.thy ===== *)
theory Ownership
  imports Interference
begin

text \<open>
  Rely-guarantee reasoning with ownership. A coroutine owns parts of the shared state between
  its segments; what it owns is auxiliary information of type \<open>'g\<close> that is chosen anew at every
  yield. The guarantee \<open>G g s0 y g' s\<close> speaks about a segment that started in \<open>s0\<close> with
  ownership \<open>g\<close> and stopped at \<open>y\<close> in \<open>s\<close> with ownership \<open>g'\<close>; the rely \<open>R g s s'\<close> says how
  other coroutines may have changed the state while this one owned \<open>g\<close>.
\<close>

section \<open>Weakest preconditions with ownership\<close>

primrec wpo ::
  "('g \<Rightarrow> 's \<Rightarrow> 'y \<Rightarrow> 'g \<Rightarrow> 's \<Rightarrow> bool) \<Rightarrow> ('g \<Rightarrow> 's \<Rightarrow> 's \<Rightarrow> bool) \<Rightarrow> ('g \<Rightarrow> 's \<Rightarrow> 'a hres \<Rightarrow> 's \<Rightarrow> bool) \<Rightarrow>
     ('s, 'y, 'v, 'a) proc \<Rightarrow> 'g \<Rightarrow> 's \<Rightarrow> bool" where
  "wpo G R Q (Done s r) = (\<lambda>g s0. Q g s0 r s)"
| "wpo G R Q (Suspend s y k) = (\<lambda>g s0. \<exists>g'. G g s0 y g' s \<and> (\<forall>v s'. R g' s s' \<longrightarrow> wpo G R Q (k v s') g' s'))"

lemma wpo_mono:
  assumes "wpo G R Q p g s0" "\<And>g s0 r s. Q g s0 r s \<Longrightarrow> Q' g s0 r s"
  shows "wpo G R Q' p g s0"
  using assms(1)
proof (induction p arbitrary: g s0 rule: proc_induct)
  case (Suspend s y k)
  then show ?case by simp blast
qed (simp add: assms(2))

lemma wpo_bind_proc:
  "wpo G R Q (bind_proc p f) g s0 =
     wpo G R (\<lambda>g s1 r s. case r of Inl x \<Rightarrow> Q g s1 (Inl x) s | Inr a \<Rightarrow> wpo G R Q (f a s) g s1) p g s0"
proof (induction p arbitrary: g s0 rule: proc_induct)
  case (Done s r)
  then show ?case by (cases r) simp_all
qed simp

lemma wpo_catch_proc:
  "wpo G R Q (catch_proc p h) g s0 =
     wpo G R (\<lambda>g s1 r s. case r of
         Inl x \<Rightarrow> if is_exception x then wpo G R Q (h x s) g s1 else Q g s1 (Inl x) s
       | Inr a \<Rightarrow> Q g s1 (Inr a) s) p g s0"
proof (induction p arbitrary: g s0 rule: proc_induct)
  case (Done s r)
  then show ?case by (cases r) simp_all
qed simp

lemma wpo_scope_proc:
  "wpo G R Q (scope_proc p d) g s0 =
     wpo G R (\<lambda>g s1 r s. wpo G R Q (run_destructor d s r :: ('s, 'y, 'v, 'a) proc) g s1) p g s0"
  for p :: "('s, 'y, 'v, 'a) proc"
  by (induction p arbitrary: g s0 rule: proc_induct) simp_all

section \<open>Programs that change little\<close>

text \<open>
  \<open>modest D Y X V m\<close>: whatever the state is, every segment of \<open>m\<close> makes a change in \<open>D\<close>, stops
  at yield points in \<open>Y\<close>, throws exceptions in \<open>X\<close> and returns values in \<open>V\<close>.
\<close>

definition modest :: "('s \<Rightarrow> 's \<Rightarrow> bool) \<Rightarrow> ('y \<Rightarrow> bool) \<Rightarrow> (handler_exn \<Rightarrow> bool) \<Rightarrow> ('a \<Rightarrow> bool) \<Rightarrow>
    ('s, 'y, 'v, 'a) prog \<Rightarrow> bool" where
  "modest D Y X V m \<longleftrightarrow> (\<forall>s. wp (\<lambda>s0 y s. D s0 s \<and> Y y) (\<lambda>_ _ _ _. True)
      (\<lambda>s0 r s. D s0 s \<and> (case r of Inl x \<Rightarrow> is_exception x \<longrightarrow> X x | Inr v \<Rightarrow> V v)) (m s) s)"

lemma modest_weaken:
  assumes "modest D Y X V m" "\<And>s s'. D s s' \<Longrightarrow> D' s s'" "\<And>y. Y y \<Longrightarrow> Y' y" "\<And>x. X x \<Longrightarrow> X' x" "\<And>v. V v \<Longrightarrow> V' v"
  shows "modest D' Y' X' V' m"
  unfolding modest_def
proof
  fix s
  have "wp (\<lambda>s0 y s. D s0 s \<and> Y y) (\<lambda>_ _ _ _. True)
      (\<lambda>s0 r s. D s0 s \<and> (case r of Inl x \<Rightarrow> is_exception x \<longrightarrow> X x | Inr v \<Rightarrow> V v)) (m s) s"
    using assms(1) by (simp add: modest_def)
  then show "wp (\<lambda>s0 y s. D' s0 s \<and> Y' y) (\<lambda>_ _ _ _. True)
      (\<lambda>s0 r s. D' s0 s \<and> (case r of Inl x \<Rightarrow> is_exception x \<longrightarrow> X' x | Inr v \<Rightarrow> V' v)) (m s) s"
    by (rule wp_conseq) (auto simp: assms(2-5) split: sum.splits)
qed

text \<open>A change \<open>D\<close> that can be made repeatedly.\<close>

locale change =
  fixes D :: "'s \<Rightarrow> 's \<Rightarrow> bool"
  assumes refl: "D s s" and trans: "D s s' \<Longrightarrow> D s' s'' \<Longrightarrow> D s s''"
begin

lemma continued:
  assumes "modest D Y X V m" "D s0 s"
  shows "wp (\<lambda>s0 y s. D s0 s \<and> Y y) (\<lambda>_ _ _ _. True)
      (\<lambda>s0 r s. D s0 s \<and> (case r of Inl x \<Rightarrow> is_exception x \<longrightarrow> X x | Inr v \<Rightarrow> V v)) (m s) s0"
proof -
  have "wp (\<lambda>s0 y s. D s0 s \<and> Y y) (\<lambda>_ _ _ _. True)
      (\<lambda>s0 r s. D s0 s \<and> (case r of Inl x \<Rightarrow> is_exception x \<longrightarrow> X x | Inr v \<Rightarrow> V v)) (m s) s"
    using assms(1) by (simp add: modest_def)
  then show ?thesis using assms(2) by (cases "m s") (auto intro: trans)
qed

lemma modest_ret: "V v \<Longrightarrow> modest D Y X V (ret v)"
  by (simp add: modest_def wp_ret refl)

lemma modest_throw: "(is_exception x \<Longrightarrow> X x) \<Longrightarrow> modest D Y X V (throw x)"
  by (simp add: modest_def wp_throw refl)

lemma modest_gets:
  "(\<And>s x. f s = Inl x \<Longrightarrow> is_exception x \<Longrightarrow> X x) \<Longrightarrow> (\<And>s v. f s = Inr v \<Longrightarrow> V v) \<Longrightarrow> modest D Y X V (gets f)"
  by (auto simp: modest_def wp_gets refl split: sum.split)

lemma modest_lift:
  "(\<And>x. r = Inl x \<Longrightarrow> is_exception x \<Longrightarrow> X x) \<Longrightarrow> (\<And>v. r = Inr v \<Longrightarrow> V v) \<Longrightarrow> modest D Y X V (liftH r)"
  by (auto simp: modest_def wp_liftH refl split: sum.split)

lemma modest_update:
  "(\<And>s x. f s = Inl x \<Longrightarrow> is_exception x \<Longrightarrow> X x) \<Longrightarrow> (\<And>s s'. f s = Inr s' \<Longrightarrow> D s s') \<Longrightarrow> V () \<Longrightarrow>
     modest D Y X V (update f)"
  by (auto simp: modest_def wp_update refl split: sum.split)

lemma modest_suspend: "Y y \<Longrightarrow> (\<And>v. V v) \<Longrightarrow> modest D Y X V (suspend y)"
  by (simp add: modest_def wp_suspend refl)

lemma modest_bind:
  assumes "modest D Y X U m" "\<And>v. U v \<Longrightarrow> modest D Y X V (f v)"
  shows "modest D Y X V (bindP m f)"
  unfolding modest_def wp_bindP
proof
  fix s
  have "wp (\<lambda>s0 y s. D s0 s \<and> Y y) (\<lambda>_ _ _ _. True)
      (\<lambda>s0 r s. D s0 s \<and> (case r of Inl x \<Rightarrow> is_exception x \<longrightarrow> X x | Inr v \<Rightarrow> U v)) (m s) s"
    using assms(1) by (simp add: modest_def)
  then show "wp (\<lambda>s0 y s. D s0 s \<and> Y y) (\<lambda>_ _ _ _. True)
     (\<lambda>s1 r s. case r of Inl x \<Rightarrow> D s1 s \<and> (case (Inl x) of Inl x \<Rightarrow> is_exception x \<longrightarrow> X x | Inr v \<Rightarrow> V v)
        | Inr a \<Rightarrow> wp (\<lambda>s0 y s. D s0 s \<and> Y y) (\<lambda>_ _ _ _. True)
            (\<lambda>s0 r s. D s0 s \<and> (case r of Inl x \<Rightarrow> is_exception x \<longrightarrow> X x | Inr v \<Rightarrow> V v)) (f a s) s1) (m s) s"
    by (rule wp_mono) (auto intro: continued [OF assms(2)] split: sum.splits)
qed

lemma modest_seq: "modest D Y X U m \<Longrightarrow> modest D Y X V n \<Longrightarrow> modest D Y X V (thenP m n)"
  unfolding thenP_def by (rule modest_bind)

lemma modest_loop:
  assumes "\<And>x t. x \<in> set xs \<Longrightarrow> V t \<Longrightarrow> modest D Y X V (body x t)" "V t"
  shows "modest D Y X V (for_each body xs t)"
  using assms
proof (induction xs arbitrary: t)
  case Nil
  then show ?case by (simp add: modest_ret)
next
  case (Cons x xs)
  show ?case
    unfolding for_each.simps by (rule modest_bind [where U = V]) (use Cons in auto)
qed

lemma modest_loop_upt:
  assumes "\<And>j t. a \<le> j \<Longrightarrow> j < b \<Longrightarrow> I j t \<Longrightarrow> modest D Y X (I (Suc j)) (body j t)" "a \<le> b" "I a t"
  shows "modest D Y X (I b) (for_each body [a..<b] t)"
  using assms
proof (induction "b - a" arbitrary: a t)
  case 0
  then show ?case by (simp add: modest_ret)
next
  case (Suc n)
  then have "modest D Y X (I b) (bindP (body a t) (for_each body [Suc a..<b]))"
    by (intro modest_bind [where U = "I (Suc a)"]) simp_all
  then show ?case using Suc.hyps(2) by (simp add: upt_conv_Cons)
qed

text \<open>A program that does not yield, and one that starts with such a step.\<close>

lemma modest_segment:
  assumes "\<And>s. \<exists>s' r. m s = Done s' r \<and> D s s' \<and> (case r of Inl x \<Rightarrow> is_exception x \<longrightarrow> X x | Inr v \<Rightarrow> V v)"
  shows "modest D Y X V m"
  unfolding modest_def
proof
  fix s
  show "wp (\<lambda>s0 y s. D s0 s \<and> Y y) (\<lambda>_ _ _ _. True)
      (\<lambda>s0 r s. D s0 s \<and> (case r of Inl x \<Rightarrow> is_exception x \<longrightarrow> X x | Inr v \<Rightarrow> V v)) (m s) s"
    using assms [of s] by auto
qed

lemma modest_cases:
  assumes "\<And>s. (\<exists>x. m s = Done s (Inl x) \<and> (is_exception x \<longrightarrow> X x)) \<or>
      (\<exists>s' n. m s = n s' \<and> D s s' \<and> modest D Y X V n)"
  shows "modest D Y X V m"
  unfolding modest_def
proof
  fix s
  consider (throws) x where "m s = Done s (Inl x)" "is_exception x \<longrightarrow> X x"
    | (goes) s' n where "m s = n s'" "D s s'" "modest D Y X V n"
    using assms by blast
  then show "wp (\<lambda>s0 y s. D s0 s \<and> Y y) (\<lambda>_ _ _ _. True)
      (\<lambda>s0 r s. D s0 s \<and> (case r of Inl x \<Rightarrow> is_exception x \<longrightarrow> X x | Inr v \<Rightarrow> V v)) (m s) s"
  proof cases
    case throws
    then show ?thesis by (simp add: refl)
  next
    case goes
    then show ?thesis using continued [OF goes(3,2)] by simp
  qed
qed

lemma modest_if: "(b \<Longrightarrow> modest D Y X V m) \<Longrightarrow> (\<not> b \<Longrightarrow> modest D Y X V n) \<Longrightarrow> modest D Y X V (if b then m else n)"
  by simp

lemma modest_option: "(x = None \<Longrightarrow> modest D Y X V m) \<Longrightarrow> (\<And>v. x = Some v \<Longrightarrow> modest D Y X V (n v)) \<Longrightarrow>
    modest D Y X V (case x of None \<Rightarrow> m | Some v \<Rightarrow> n v)"
  by (simp split: option.split)

lemma modest_scope:
  assumes "modest D Y X V m" "\<And>s z. d s = Inl z \<Longrightarrow> is_exception z \<Longrightarrow> X z" "\<And>s s'. d s = Inr s' \<Longrightarrow> D s s'"
  shows "modest D Y X V (on_scope_exit d m)"
  unfolding modest_def wp_on_scope_exit
proof
  fix s
  have "wp (\<lambda>s0 y s. D s0 s \<and> Y y) (\<lambda>_ _ _ _. True)
      (\<lambda>s0 r s. D s0 s \<and> (case r of Inl x \<Rightarrow> is_exception x \<longrightarrow> X x | Inr v \<Rightarrow> V v)) (m s) s"
    using assms(1) by (simp add: modest_def)
  then show "wp (\<lambda>s0 y s. D s0 s \<and> Y y) (\<lambda>_ _ _ _. True)
     (\<lambda>s1 r s. if case r of Inl x \<Rightarrow> is_exception x | Inr _ \<Rightarrow> True
        then case d s of Inl z \<Rightarrow> D s1 s \<and> (case (Inl z) of Inl x \<Rightarrow> is_exception x \<longrightarrow> X x | Inr v \<Rightarrow> V v)
             | Inr s' \<Rightarrow> D s1 s' \<and> (case r of Inl x \<Rightarrow> is_exception x \<longrightarrow> X x | Inr v \<Rightarrow> V v)
        else D s1 s \<and> (case r of Inl x \<Rightarrow> is_exception x \<longrightarrow> X x | Inr v \<Rightarrow> V v)) (m s) s"
    by (rule wp_mono) (auto dest: assms(2,3) intro: trans split: sum.splits)
qed

end

section \<open>Triples\<close>

text \<open>
  Assertions relate the ownership and the state at the start of the current segment to the
  current state. Outcomes that end the process (exit, undefined behaviour, a loop that used up
  its bound) need no postcondition.
\<close>

type_synonym ('g, 's) assn = "'g \<Rightarrow> 's \<Rightarrow> 's \<Rightarrow> bool"

locale ownership =
  fixes G :: "'g \<Rightarrow> 's \<Rightarrow> 'y \<Rightarrow> 'g \<Rightarrow> 's \<Rightarrow> bool"
    and R :: "'g \<Rightarrow> 's \<Rightarrow> 's \<Rightarrow> bool"
begin

definition outcome :: "('a \<Rightarrow> ('g, 's) assn) \<Rightarrow> (handler_exn \<Rightarrow> ('g, 's) assn) \<Rightarrow>
    'g \<Rightarrow> 's \<Rightarrow> 'a hres \<Rightarrow> 's \<Rightarrow> bool" where
  "outcome Q E g s0 r s = (case r of Inl x \<Rightarrow> is_exception x \<longrightarrow> E x g s0 s | Inr v \<Rightarrow> Q v g s0 s)"

definition triple :: "('g, 's) assn \<Rightarrow> ('s, 'y, 'v, 'a) prog \<Rightarrow> ('a \<Rightarrow> ('g, 's) assn) \<Rightarrow>
    (handler_exn \<Rightarrow> ('g, 's) assn) \<Rightarrow> bool" where
  "triple P m Q E \<longleftrightarrow> (\<forall>g s0 s. P g s0 s \<longrightarrow> wpo G R (outcome Q E) (m s) g s0)"

lemma outcome_simps [simp]:
  "outcome Q E g s0 (Inr v) s = Q v g s0 s" "outcome Q E g s0 (Inl x) s = (is_exception x \<longrightarrow> E x g s0 s)"
  by (simp_all add: outcome_def)

lemma conseq:
  assumes "triple P' m Q' E'" "\<And>g s0 s. P g s0 s \<Longrightarrow> P' g s0 s" "\<And>v g s0 s. Q' v g s0 s \<Longrightarrow> Q v g s0 s"
    "\<And>x g s0 s. E' x g s0 s \<Longrightarrow> E x g s0 s"
  shows "triple P m Q E"
  unfolding triple_def
proof (intro allI impI)
  fix g s0 s assume "P g s0 s"
  then have "wpo G R (outcome Q' E') (m s) g s0" using assms(1,2) by (simp add: triple_def)
  then show "wpo G R (outcome Q E) (m s) g s0"
    by (rule wpo_mono) (auto simp: outcome_def assms(3,4) split: sum.splits)
qed

lemma weaken_pre: "triple P' m Q E \<Longrightarrow> (\<And>g s0 s. P g s0 s \<Longrightarrow> P' g s0 s) \<Longrightarrow> triple P m Q E"
  by (erule conseq)

lemma weaken_post: "triple P m Q' E \<Longrightarrow> (\<And>v g s0 s. Q' v g s0 s \<Longrightarrow> Q v g s0 s) \<Longrightarrow> triple P m Q E"
  by (erule conseq)

lemma weaken_exn: "triple P m Q E' \<Longrightarrow> (\<And>x g s0 s. E' x g s0 s \<Longrightarrow> E x g s0 s) \<Longrightarrow> triple P m Q E"
  by (erule conseq)

lemma bind:
  assumes "triple P m M E" "\<And>v. triple (M v) (f v) Q E"
  shows "triple P (bindP m f) Q E"
  unfolding triple_def bindP_def wpo_bind_proc
proof (intro allI impI)
  fix g s0 s assume "P g s0 s"
  then have "wpo G R (outcome M E) (m s) g s0" using assms(1) by (simp add: triple_def)
  then show "wpo G R (\<lambda>g s1 r s. case r of Inl x \<Rightarrow> outcome Q E g s1 (Inl x) s | Inr a \<Rightarrow> wpo G R (outcome Q E) (f a s) g s1) (m s) g s0"
    by (rule wpo_mono) (use assms(2) in \<open>auto simp: triple_def split: sum.splits\<close>)
qed

lemma seq: "triple P m (\<lambda>_. M) E \<Longrightarrow> triple M n Q E \<Longrightarrow> triple P (thenP m n) Q E"
  unfolding thenP_def by (rule bind)

lemma return: "(\<And>g s0 s. P g s0 s \<Longrightarrow> Q v g s0 s) \<Longrightarrow> triple P (ret v) Q E"
  by (simp add: triple_def ret_def)

lemma raise: "(\<And>g s0 s. P g s0 s \<Longrightarrow> is_exception x \<Longrightarrow> E x g s0 s) \<Longrightarrow> triple P (throw x) Q E"
  by (simp add: triple_def throw_def)

lemma read_state: "(\<And>g s0 s v. P g s0 s \<Longrightarrow> f s = Inr v \<Longrightarrow> Q v g s0 s) \<Longrightarrow>
    (\<And>g s0 s x. P g s0 s \<Longrightarrow> f s = Inl x \<Longrightarrow> is_exception x \<Longrightarrow> E x g s0 s) \<Longrightarrow> triple P (gets f) Q E"
  by (auto simp: triple_def gets_def outcome_def split: sum.splits)

lemma lift: "(\<And>g s0 s v. P g s0 s \<Longrightarrow> r = Inr v \<Longrightarrow> Q v g s0 s) \<Longrightarrow>
    (\<And>g s0 s x. P g s0 s \<Longrightarrow> r = Inl x \<Longrightarrow> is_exception x \<Longrightarrow> E x g s0 s) \<Longrightarrow> triple P (liftH r) Q E"
  by (auto simp: triple_def liftH_def outcome_def split: sum.splits)

lemma write_state: "(\<And>g s0 s s'. P g s0 s \<Longrightarrow> f s = Inr s' \<Longrightarrow> Q () g s0 s') \<Longrightarrow>
    (\<And>g s0 s x. P g s0 s \<Longrightarrow> f s = Inl x \<Longrightarrow> is_exception x \<Longrightarrow> E x g s0 s) \<Longrightarrow> triple P (update f) Q E"
  by (auto simp: triple_def update_def split: sum.splits)

lemma yields:
  assumes "\<And>g s0 s. P g s0 s \<Longrightarrow> \<exists>g'. G g s0 y g' s \<and> (\<forall>v s'. R g' s s' \<longrightarrow> Q v g' s' s')"
  shows "triple P (suspend y) Q E"
  using assms by (simp add: triple_def suspend_def)

lemma catches:
  assumes "triple P m Q E'" "\<And>x. is_exception x \<Longrightarrow> triple (E' x) (h x) Q E"
  shows "triple P (try_catch m h) Q E"
  unfolding triple_def try_catch_def wpo_catch_proc
proof (intro allI impI)
  fix g s0 s assume "P g s0 s"
  then have "wpo G R (outcome Q E') (m s) g s0" using assms(1) by (simp add: triple_def)
  then show "wpo G R (\<lambda>g s1 r s. case r of
         Inl x \<Rightarrow> if is_exception x then wpo G R (outcome Q E) (h x s) g s1 else outcome Q E g s1 (Inl x) s
       | Inr a \<Rightarrow> outcome Q E g s1 (Inr a) s) (m s) g s0"
    by (rule wpo_mono) (use assms(2) in \<open>auto simp: triple_def split: sum.splits\<close>)
qed

lemma leaves:
  assumes "triple P m Q' E'"
    and "\<And>v g s0 s s'. Q' v g s0 s \<Longrightarrow> d s = Inr s' \<Longrightarrow> Q v g s0 s'"
    and "\<And>x g s0 s s'. is_exception x \<Longrightarrow> E' x g s0 s \<Longrightarrow> d s = Inr s' \<Longrightarrow> E x g s0 s'"
    and "\<And>s z. d s = Inl z \<Longrightarrow> \<not> is_exception z"
  shows "triple P (on_scope_exit d m) Q E"
  unfolding triple_def on_scope_exit_def wpo_scope_proc
proof (intro allI impI)
  fix g s0 s assume "P g s0 s"
  then have "wpo G R (outcome Q' E') (m s) g s0" using assms(1) by (simp add: triple_def)
  then show "wpo G R (\<lambda>g s1 r s. wpo G R (outcome Q E) (run_destructor d s r) g s1) (m s) g s0"
    by (rule wpo_mono) (use assms(2-4) in \<open>auto simp: run_destructor_def outcome_def split: sum.splits\<close>)
qed

lemma cases_if: "(b \<Longrightarrow> triple P m Q E) \<Longrightarrow> (\<not> b \<Longrightarrow> triple P n Q E) \<Longrightarrow> triple P (if b then m else n) Q E"
  by simp

lemma cases_option: "(x = None \<Longrightarrow> triple P m Q E) \<Longrightarrow> (\<And>v. x = Some v \<Longrightarrow> triple P (n v) Q E) \<Longrightarrow>
    triple P (case x of None \<Rightarrow> m | Some v \<Rightarrow> n v) Q E"
  by (simp split: option.split)

lemma given: "(\<And>g s0 s. P g s0 s \<Longrightarrow> A) \<Longrightarrow> (A \<Longrightarrow> triple P m Q E) \<Longrightarrow> triple P m Q E"
  by (auto simp: triple_def)

text \<open>A program that does not yield, by its result.\<close>

lemma segment:
  assumes "\<And>g s0 s. P g s0 s \<Longrightarrow> \<exists>s' r. m s = Done s' r \<and> outcome Q E g s0 r s'"
  shows "triple P m Q E"
  unfolding triple_def
proof (intro allI impI)
  fix g s0 s assume "P g s0 s"
  from assms [OF this] show "wpo G R (outcome Q E) (m s) g s0" by auto
qed

text \<open>A modest program keeps every assertion that survives its changes and interference.\<close>

lemma modest_triple:
  assumes m: "modest D Y X V m"
    and change: "\<And>g s0 s s'. P g s0 s \<Longrightarrow> D s s' \<Longrightarrow> P g s0 s'"
    and yield: "\<And>g s0 s y. P g s0 s \<Longrightarrow> Y y \<Longrightarrow> \<exists>g'. G g s0 y g' s \<and> (\<forall>s'. R g' s s' \<longrightarrow> P g' s' s')"
    and exn: "\<And>x g s0 s. X x \<Longrightarrow> P g s0 s \<Longrightarrow> E x g s0 s"
  shows "triple P m (\<lambda>v g s0 s. P g s0 s \<and> V v) E"
  unfolding triple_def
proof (intro allI impI)
  fix g s0 s assume P: "P g s0 s"
  have "wpo G R (outcome (\<lambda>v g s0 s. P g s0 s \<and> V v) E) p g s0"
    if "P g s0 s" "wp (\<lambda>s0 y s. D s0 s \<and> Y y) (\<lambda>_ _ _ _. True)
      (\<lambda>s0 r s. D s0 s \<and> (case r of Inl x \<Rightarrow> is_exception x \<longrightarrow> X x | Inr v \<Rightarrow> V v)) p s" for p g s0 s
    using that
  proof (induction p arbitrary: g s0 s rule: proc_induct)
    case (Done s' r)
    then show ?case using change [OF Done(1)] exn by (auto simp: outcome_def split: sum.splits)
  next
    case (Suspend s' y k)
    then have "P g s0 s'" "Y y" using change [OF Suspend.prems(1)] by auto
    then obtain g' where g': "G g s0 y g' s'" "\<forall>s2. R g' s' s2 \<longrightarrow> P g' s2 s2" using yield by blast
    show ?case
      using g' Suspend by (simp, intro exI [of _ g']) auto
  qed
  from this [OF P] m show "wpo G R (outcome (\<lambda>v g s0 s. P g s0 s \<and> V v) E) (m s) g s0"
    unfolding modest_def by blast
qed

end

end
