(* ===== verification/Start_Session.thy ===== *)
theory Start_Session
  imports Epoch_Handlers Interference
begin

text \<open>
  \<open>StartSession\<close> and the check-in of machine servers: from \<open>get_proto_deadline_config\<close> to
  \<open>new_StartSession_handler\<close>, and \<open>new_Checkin_handler\<close> of \<^verbatim>\<open>src/src/server-manager.cpp\<close>.
\<close>

section \<open>Requests\<close>

record start_session_request =
  ssr_session_id :: id_type
  ssr_machine_directory :: string
  ssr_active_epoch_index :: u64
  ssr_processed_input_count :: u64
  ssr_server_deadline :: "deadline_config_type option"
  ssr_server_cycles :: "cycles_config_type option"

definition get_proto_deadline_config :: "deadline_config_type option \<Rightarrow> deadline_config_type" where
  "get_proto_deadline_config proto =
     (case proto of
        Some p \<Rightarrow> \<lparr>dl_checkin = dl_checkin p, dl_advance_state = dl_advance_state p,
          dl_advance_state_increment = dl_advance_state_increment p, dl_inspect_state = dl_inspect_state p,
          dl_inspect_state_increment = dl_inspect_state_increment p, dl_machine = dl_machine p,
          dl_store = dl_store p, dl_fast = dl_fast p\<rparr>
      | None \<Rightarrow> \<lparr>dl_checkin = 0, dl_advance_state = 0, dl_advance_state_increment = 0,
          dl_inspect_state = 0, dl_inspect_state_increment = 0, dl_machine = 0, dl_store = 0, dl_fast = 0\<rparr>)"

definition get_proto_cycles_config :: "cycles_config_type option \<Rightarrow> cycles_config_type" where
  "get_proto_cycles_config proto =
     (case proto of
        Some p \<Rightarrow> \<lparr>max_advance_state = max_advance_state p,
          advance_state_increment = advance_state_increment p,
          max_inspect_state = max_inspect_state p, inspect_state_increment = inspect_state_increment p\<rparr>
      | None \<Rightarrow> \<lparr>max_advance_state = 0, advance_state_increment = 0, max_inspect_state = 0,
          inspect_state_increment = 0\<rparr>)"

definition get_proto_session :: "nat \<Rightarrow> start_session_request \<Rightarrow> session_type" where
  "get_proto_session object request =
     \<lparr>session_object = object, session_id = ssr_session_id request, session_lock = False,
      session_lock_reason = [], processing_lock = False, tainted = False, taint_status = status_ok,
      server_stub = None, current_mcycle = 0, active_epoch_index = ssr_active_epoch_index request,
      processed_input_count = ssr_processed_input_count request, max_input_payload_length = 0,
      memory_range = empty_ranges, epochs = [],
      server_deadline = get_proto_deadline_config (ssr_server_deadline request),
      server_cycles = get_proto_cycles_config (ssr_server_cycles request), session_server_address = []\<rparr>"

text \<open>\<^verbatim>\<open>sessions[id] = get_proto_session(request)\<close>, a new object.\<close>

definition create_session :: "start_session_request \<Rightarrow> session_ref handler" where
  "create_session request h =
     Done (h\<lparr>sessions := um_assign (ssr_session_id request) (get_proto_session (next_object h) request) (sessions h),
             next_object := Suc (next_object h)\<rparr>)
       (Inr \<lparr>ref_id = ssr_session_id request, ref_object = next_object h\<rparr>)"

section \<open>Checks\<close>

text \<open>The checks of the request, in the order of the source.\<close>

definition check_start_request :: "start_session_request \<Rightarrow> session_type \<Rightarrow> unit hres" where
  "check_start_request request s =
     (if ssr_machine_directory request = []
      then Inl (Finish_error_yield_none (grpc_error INVALID_ARGUMENT ''missing machine directory in config''))
      else if active_epoch_index s = - 1
      then Inl (Finish_error_yield_none (grpc_error OUT_OF_RANGE ''active epoch index will overflow''))
      else if ssr_server_deadline request = None
      then Inl (Finish_error_yield_none (grpc_error INVALID_ARGUMENT ''missing server deadline config''))
      else if dl_advance_state (server_deadline s) < dl_advance_state_increment (server_deadline s)
      then Inl (Finish_error_yield_none (grpc_error INVALID_ARGUMENT
             ''advance state deadline is less than advance state increment deadline''))
      else if dl_inspect_state (server_deadline s) < dl_inspect_state_increment (server_deadline s)
      then Inl (Finish_error_yield_none (grpc_error INVALID_ARGUMENT
             ''inspect state deadline is less than inspect state increment deadline''))
      else if ssr_server_cycles request = None
      then Inl (Finish_error_yield_none (grpc_error INVALID_ARGUMENT ''missing server cycles config''))
      else if max_advance_state (server_cycles s) = 0 \<or> advance_state_increment (server_cycles s) = 0
      then Inl (Finish_error_yield_none (grpc_error INVALID_ARGUMENT
             ''max cycles per advance state or cycles per advance state increment is zero''))
      else if max_advance_state (server_cycles s) < advance_state_increment (server_cycles s)
      then Inl (Finish_error_yield_none (grpc_error INVALID_ARGUMENT
             ''max cycles per advance state is less than cycles per advance state increment''))
      else if max_inspect_state (server_cycles s) = 0 \<or> inspect_state_increment (server_cycles s) = 0
      then Inl (Finish_error_yield_none (grpc_error INVALID_ARGUMENT
             ''max cycles per inspect state or cycles per inspect state increment is zero''))
      else if max_inspect_state (server_cycles s) < inspect_state_increment (server_cycles s)
      then Inl (Finish_error_yield_none (grpc_error INVALID_ARGUMENT
             ''max cycles per inspect state is less than cycles per inspect state increment''))
      else Inr ())"

definition check_range ::
  "session_ref \<Rightarrow> (memory_ranges_type \<Rightarrow> memory_range_description_type) \<Rightarrow>
     (memory_range_description_type \<Rightarrow> memory_ranges_type \<Rightarrow> memory_ranges_type) \<Rightarrow> string \<Rightarrow>
     memory_range_config \<Rightarrow> unit handler" where
  "check_range r get put name config =
     bindP (get_session r) (\<lambda>s.
     bindP (liftH (check_memory_range_config (get (memory_range s)) name config)) (\<lambda>d.
       set_session r (\<lambda>s. s\<lparr>memory_range := put d (memory_range s)\<rparr>)))"

definition check_rollup_config :: "session_ref \<Rightarrow> machine_config \<Rightarrow> unit handler" where
  "check_rollup_config r config =
     (case cfg_rollup config of
        None \<Rightarrow> finish_error INVALID_ARGUMENT ''missing remote machine rollup config''
      | Some rollup \<Rightarrow>
        if cfg_length (cfg_rx_buffer rollup) = 0 \<and> cfg_length (cfg_tx_buffer rollup) = 0 \<and>
           cfg_length (cfg_input_metadata rollup) = 0 \<and> cfg_length (cfg_voucher_hashes rollup) = 0 \<and>
           cfg_length (cfg_notice_hashes rollup) = 0
        then finish_error INVALID_ARGUMENT ''invalid remote machine rollup config''
        else
          thenP (check_range r tx_buffer (\<lambda>d m. m\<lparr>tx_buffer := d\<rparr>) ''tx buffer'' (cfg_tx_buffer rollup))
          (thenP (check_range r rx_buffer (\<lambda>d m. m\<lparr>rx_buffer := d\<rparr>) ''rx buffer'' (cfg_rx_buffer rollup))
          (thenP (check_range r input_metadata (\<lambda>d m. m\<lparr>input_metadata := d\<rparr>) ''input metadata''
                    (cfg_input_metadata rollup))
          (thenP (check_range r voucher_hashes (\<lambda>d m. m\<lparr>voucher_hashes := d\<rparr>) ''voucher hashes''
                    (cfg_voucher_hashes rollup))
          (check_range r notice_hashes (\<lambda>d m. m\<lparr>notice_hashes := d\<rparr>) ''notice hashes''
             (cfg_notice_hashes rollup))))))"

definition start_first_epoch :: "digest \<Rightarrow> async_context \<Rightarrow> unit handler" where
  "start_first_epoch K actx =
     (let r = actx_session actx in
      bindP (liftH (lift_res (default_epoch K))) (\<lambda>e.
      bindP (get_session r) (\<lambda>s.
      let e = e\<lparr>epoch_index := active_epoch_index s, state := epoch_active\<rparr> in
      bindP (get_root_hash actx) (\<lambda>hash.
      let e = e\<lparr>most_recent_machine_hash := hash\<rparr> in
      set_session r (\<lambda>s. s\<lparr>epochs := sm_assign (epoch_index e) e (epochs s)\<rparr>)))))"

section \<open>The handlers\<close>

definition spawn_server :: "async_context \<Rightarrow> unit handler" where
  "spawn_server actx =
     bindP (get_session (actx_session actx)) (\<lambda>s.
     bindP (gets (\<lambda>h. Inr (remote_cartesi_machine_path h @ '' --session-id='' @ session_id s @
              '' --checkin-address='' @ manager_address h @ '' --server-address='' @ machine_server_address h)))
       (\<lambda>cmdline.
     bindP (suspend (Spawn_process cmdline)) (\<lambda>w.
     case spawn_error w of
       None \<Rightarrow> ret ()
     | Some e \<Rightarrow> finish_error INTERNAL (''failed spawning remote machine server with command-line '' @
                    [CHR 0x27] @ cmdline @ [CHR 0x27] @ '' ('' @ e @ '')''))))"

definition start_machine :: "digest \<Rightarrow> async_context \<Rightarrow> start_session_request \<Rightarrow> unit handler" where
  "start_machine K actx request =
     (let r = actx_session actx in
      thenP (check_server_version actx)
      (thenP (check_server_machine actx (ssr_machine_directory request))
      (bindP (get_initial_config actx) (\<lambda>config.
      thenP (liftH (check_htif_config (cfg_htif config)))
      (thenP (check_rollup_config r config)
      (bindP (check_is_yielded actx) (\<lambda>mcycle.
      thenP (set_session r (\<lambda>s. s\<lparr>current_mcycle := mcycle\<rparr>))
      (thenP (start_first_epoch K actx)
        (finish (Start_session config))))))))))"

text \<open>\<^verbatim>\<open>catch (...)\<close>: a blocking \<open>Shutdown\<close> call, then the exception goes on.\<close>

definition shutdown_and_rethrow :: "session_ref \<Rightarrow> handler_exn \<Rightarrow> unit handler" where
  "shutdown_and_rethrow r x =
     bindP (get_session r) (\<lambda>s.
     case server_stub s of
       None \<Rightarrow> throw (Std_exception (Undefined_behaviour ''null stub''))
     | Some address \<Rightarrow> bindP (suspend (Shutdown_sync address (dl_fast (server_deadline s)))) (\<lambda>_. throw x))"

definition StartSession_body :: "digest \<Rightarrow> coroutine \<Rightarrow> string \<Rightarrow> start_session_request \<Rightarrow> unit handler" where
  "StartSession_body K self peer request =
     (let sid = ssr_session_id request in
      if sid = [] then finish_with_error (grpc_error INVALID_ARGUMENT ''session id is empty'')
      else
        bindP (find_session sid) (\<lambda>it.
        if it \<noteq> None then finish_with_error (grpc_error ALREADY_EXISTS ''session id is taken'')
        else
          bindP (create_session request) (\<lambda>r.
          let actx = \<lparr>actx_session = r, actx_self = self\<rparr> in
          with_auto_lock Session_lock r ''StartSession session lock''
            (thenP (set_session r (\<lambda>s. s\<lparr>session_lock_reason := get_session_lock_reason ''StartSession'' peer\<rparr>))
            (bindP (get_session r) (\<lambda>s.
            thenP (liftH (check_start_request request s))
            (thenP (trigger_and_wait_checkin actx (spawn_server actx))
              (try_catch (start_machine K actx request) (shutdown_and_rethrow r)))))))))"

definition StartSession_handler :: "digest \<Rightarrow> coroutine \<Rightarrow> bool \<Rightarrow> string \<Rightarrow> start_session_request \<Rightarrow> unit handler" where
  "StartSession_handler K self ok peer request =
     (if \<not> ok then ret ()
      else try_catch (StartSession_body K self peer request) (\<lambda>x.
        thenP (update (\<lambda>h. Inr (h\<lparr>sessions := um_erase (ssr_session_id request) (sessions h)\<rparr>)))
        (case x of
           Finish_error_yield_none status \<Rightarrow> finish_with_error status
         | _ \<Rightarrow> finish_with_error (unexpected x))))"

record checkin_request =
  cir_session_id :: id_type
  cir_address :: string

definition Checkin_handler :: "bool \<Rightarrow> checkin_request \<Rightarrow> unit handler" where
  "Checkin_handler ok request =
     (if \<not> ok then ret ()
      else report_exceptions
        (let sid = cir_session_id request in
         bindP (gets (\<lambda>h. Inr (um_find (sessions_waiting_checkin h) sid))) (\<lambda>waiting.
         case waiting of
           None \<Rightarrow> finish_error INVALID_ARGUMENT (''check-in with wrong session id '' @ sid)
         | Some cctx \<Rightarrow>
           bindP (find_session sid) (\<lambda>it.
           case it of
             None \<Rightarrow> finish_error INVALID_ARGUMENT (''could not find an actual session with id '' @ sid)
           | Some r \<Rightarrow>
             thenP (set_session r (\<lambda>s. s\<lparr>session_server_address := cir_address request\<rparr>))
             (thenP (update (\<lambda>h. Inr (h\<lparr>sessions_waiting_checkin :=
                       um_assign sid (cctx\<lparr>cc_status := Some True\<rparr>) (sessions_waiting_checkin h)\<rparr>)))
             (bindP (suspend (Cancel_alarm sid)) (\<lambda>_.
             (thenP (finish Void_response)
             (bindP (suspend (Resume_coroutine (cc_coroutine cctx))) (\<lambda>_. ret ()))))))))))"

section \<open>What a session start relies on and guarantees\<close>

text \<open>
  Between a yield and its resumption other handlers run. They refuse to work on a locked
  session, and only \<open>Checkin\<close> writes a member of it, the server address. A coroutine that
  waits for a check-in is resumed by \<open>Checkin\<close> or \<open>CheckinDeadline\<close>, after they set the status.
\<close>

definition start_rely :: "id_type \<Rightarrow> yield_point \<Rightarrow> handler_context \<Rightarrow> wake \<Rightarrow> handler_context \<Rightarrow> bool" where
  "start_rely sid y h w h' \<longleftrightarrow>
     (if atomic_point y then h' = h
      else (\<forall>s. um_find (sessions h) sid = Some s \<longrightarrow>
              (\<exists>a. um_find (sessions h') sid = Some (s\<lparr>session_server_address := a\<rparr>))) \<and>
           (\<forall>i. y = Wait_checkin i \<longrightarrow>
              (\<exists>c b. um_find (sessions_waiting_checkin h') i = Some c \<and> cc_status c = Some b)))"

text \<open>The limits of a session are consistent: every increment is positive and within its maximum.\<close>

definition limits_ok :: "session_type \<Rightarrow> bool" where
  "limits_ok s \<longleftrightarrow>
     0 < advance_state_increment (server_cycles s) \<and>
     advance_state_increment (server_cycles s) \<le> max_advance_state (server_cycles s) \<and>
     0 < inspect_state_increment (server_cycles s) \<and>
     inspect_state_increment (server_cycles s) \<le> max_inspect_state (server_cycles s) \<and>
     dl_advance_state_increment (server_deadline s) \<le> dl_advance_state (server_deadline s) \<and>
     dl_inspect_state_increment (server_deadline s) \<le> dl_inspect_state (server_deadline s)"

definition described :: "memory_range_description_type \<Rightarrow> bool" where
  "described d \<longleftrightarrow> valid_range (desc_config d) \<and> cfg_image_filename (desc_config d) = [] \<and>
     desc_start d = cfg_start (desc_config d) \<and> desc_length d = cfg_length (desc_config d) \<and>
     unat (desc_length d) = 2 ^ unat (desc_log2_size d)"

definition ranges_ok :: "memory_ranges_type \<Rightarrow> bool" where
  "ranges_ok m \<longleftrightarrow> described (tx_buffer m) \<and> described (rx_buffer m) \<and> described (input_metadata m) \<and>
     described (voucher_hashes m) \<and> described (notice_hashes m)"

text \<open>A session as \<open>StartSession\<close> announces it.\<close>

definition started :: "digest \<Rightarrow> start_session_request \<Rightarrow> session_type \<Rightarrow> bool" where
  "started K request s \<longleftrightarrow>
     session_lock s \<and> \<not> processing_lock s \<and> \<not> tainted s \<and> server_stub s \<noteq> None \<and>
     active_epoch_index s = ssr_active_epoch_index request \<and> active_epoch_index s \<noteq> - 1 \<and>
     processed_input_count s = ssr_processed_input_count request \<and>
     ssr_server_cycles request = Some (server_cycles s) \<and>
     ssr_server_deadline request = Some (server_deadline s) \<and>
     limits_ok s \<and> ranges_ok (memory_range s) \<and> session_ok s \<and>
     (\<exists>e. epochs s = [(active_epoch_index s, e)] \<and> epoch_ok K e \<and> state e = epoch_active \<and>
        processed_inputs e = [] \<and> pending_inputs e = [] \<and> pending_query e = None \<and>
        length (most_recent_machine_hash e) = hash_size)"

definition start_guarantee ::
  "digest \<Rightarrow> start_session_request \<Rightarrow> handler_context \<Rightarrow> yield_point \<Rightarrow> handler_context \<Rightarrow> bool" where
  "start_guarantee K request h0 y h \<longleftrightarrow>
     (case y of
        Finish response \<Rightarrow> (\<exists>s. um_find (sessions h) (ssr_session_id request) = Some s \<and> started K request s)
      | Finish_with_error status \<Rightarrow> um_find (sessions h) (ssr_session_id request) = None
      | _ \<Rightarrow> True)"

lemma check_start_request_Inr:
  assumes "check_start_request request (get_proto_session n request) = Inr ()"
  shows "limits_ok (get_proto_session n request)" "ssr_active_epoch_index request \<noteq> - 1"
    and "ssr_server_cycles request = Some (server_cycles (get_proto_session n request))"
    and "ssr_server_deadline request = Some (server_deadline (get_proto_session n request))"
  using assms
  by (auto simp: check_start_request_def limits_ok_def get_proto_session_def get_proto_cycles_config_def
      get_proto_deadline_config_def word_neq_0_conv not_less split: if_splits)

lemma check_start_request_Inl:
  "check_start_request request s = Inl x \<Longrightarrow> is_exception x"
  by (auto simp: check_start_request_def split: if_splits)

interpretation start: waiting_session "\<lparr>ref_id = ssr_session_id request, ref_object = n\<rparr>"
  "start_rely (ssr_session_id request)" "start_guarantee K request"
  for request n K
proof
  fix y h w h' s
  assume "start_rely (ssr_session_id request) y h w h'" "\<not> atomic_point y"
    "deref \<lparr>ref_id = ssr_session_id request, ref_object = n\<rparr> h = Inr s"
  then show "\<exists>a. deref \<lparr>ref_id = ssr_session_id request, ref_object = n\<rparr> h' = Inr (s\<lparr>session_server_address := a\<rparr>)"
    by (auto simp: start_rely_def deref_Inr_iff)
qed (auto simp: start_rely_def start_guarantee_def split: yield_point.splits)

lemma check_memory_range_config_described:
  assumes "check_memory_range_config d0 name config = Inr d"
  shows "described d"
proof -
  have v: "valid_range config" and d: "d = \<lparr>desc_index = desc_index d0, desc_start = cfg_start config,
      desc_length = cfg_length config, desc_log2_size = ilog2 (cfg_length config),
      desc_config = config\<lparr>cfg_image_filename := []\<rparr>\<rparr>"
    using assms aligned_iff [of "cfg_start config" "unat (ilog2 (cfg_length config))"]
    by (auto simp: check_memory_range_config_def Let_def valid_range_iff split: if_splits)
  have "valid_range (config\<lparr>cfg_image_filename := []\<rparr>)" using v by (simp add: valid_range_def)
  then show ?thesis
    using power_of_two_length [of "cfg_length config"] v by (simp add: d described_def valid_range_iff)
qed

lemma check_memory_range_config_Inl:
  "check_memory_range_config d0 name config = Inl x \<Longrightarrow> is_exception x"
  by (auto simp: check_memory_range_config_def Let_def split: if_splits)

context held_session
begin

lemma wp_check_range:
  assumes "holds s h" "\<And>d m. P m \<Longrightarrow> described d \<Longrightarrow> P' (put d m)" "P (memory_range s)"
    and ok: "\<And>h1 h' m. P' m \<Longrightarrow> holds (s\<lparr>memory_range := m\<rparr>) h' \<Longrightarrow> Q h1 (Inr ()) h'"
    and err: "\<And>h1 h' x. holds s h' \<Longrightarrow> is_exception x \<Longrightarrow> Q h1 (Inl x) h'"
  shows "wp G R Q (check_range r get put name config h) h0"
  unfolding check_range_def wp_bindP
proof (rule wp_get_session [OF assms(1)], simp add: wp_bindP wp_liftH split: sum.split, intro conjI allI impI)
  fix x assume "check_memory_range_config (get (memory_range s)) name config = Inl x"
  then show "Q h0 (Inl x) h" using err [OF assms(1)] check_memory_range_config_Inl by blast
next
  fix d assume "check_memory_range_config (get (memory_range s)) name config = Inr d"
  then have "P' (put d (memory_range s))" using assms(2,3) check_memory_range_config_described by blast
  then show "wp G R Q (set_session r (\<lambda>s. s\<lparr>memory_range := put d (memory_range s)\<rparr>) h) h0"
    by (intro wp_set_session [OF assms(1)] ok) simp_all
qed

lemma wp_check_rollup_config:
  assumes "holds s h"
    and ok: "\<And>h1 h' m. ranges_ok m \<Longrightarrow> holds (s\<lparr>memory_range := m\<rparr>) h' \<Longrightarrow> Q h1 (Inr ()) h'"
    and err: "\<And>h1 h' x m. holds (s\<lparr>memory_range := m\<rparr>) h' \<Longrightarrow> is_exception x \<Longrightarrow> Q h1 (Inl x) h'"
  shows "wp G R Q (check_rollup_config r config h) h0"
proof (cases "cfg_rollup config")
  case None
  then show ?thesis using err [of "memory_range s" h] assms(1) by (simp add: check_rollup_config_def finish_error_def wp_throw)
next
  case (Some rollup)
  let ?tx = "\<lambda>m. described (tx_buffer m)"
  let ?rx = "\<lambda>m. ?tx m \<and> described (rx_buffer m)"
  let ?im = "\<lambda>m. ?rx m \<and> described (input_metadata m)"
  let ?vh = "\<lambda>m. ?im m \<and> described (voucher_hashes m)"
  have e: "Q h1 (Inl x) h'" if "holds s h'" "is_exception x" for h1 h' x
    using err [of "memory_range s" h'] that by simp
  show ?thesis
    unfolding check_rollup_config_def Some
    apply (simp add: finish_error_def wp_throw e [OF assms(1)] wp_thenP, intro impI)
    apply (rule wp_check_range [where P = "\<lambda>_. True" and P' = ?tx, OF assms(1)]; simp add: wp_thenP e)
    apply (rule wp_check_range [where P = ?tx and P' = ?rx], assumption; simp add: wp_thenP err)
    apply (rule wp_check_range [where P = ?rx and P' = ?im], assumption; simp add: wp_thenP err)
    apply (rule wp_check_range [where P = ?im and P' = ?vh], assumption; simp add: wp_thenP err)
    apply (rule wp_check_range [where P = ?vh and P' = ranges_ok], assumption; simp add: ranges_ok_def ok err)
    done
qed

end

section \<open>The start of a session\<close>

abbreviation started_from :: "start_session_request \<Rightarrow> nat \<Rightarrow> string \<Rightarrow> string option \<Rightarrow> session_type" where
  "started_from request n reason stub \<equiv>
     (get_proto_session n request)\<lparr>session_lock := True, session_lock_reason := reason, server_stub := stub\<rparr>"

lemma check_htif_config_Inl: "check_htif_config c = Inl x \<Longrightarrow> is_exception x"
  by (auto simp: check_htif_config_def split: if_splits)

text \<open>The first epoch is the only one, empty and active.\<close>

lemma started_with_first_epoch:
  assumes "check_start_request request (get_proto_session n request) = Inr ()" "ranges_ok m"
    and "default_epoch K = Inr e" and hash: "length hash = hash_size"
    and "e' = e\<lparr>epoch_index := ssr_active_epoch_index request, state := epoch_active, most_recent_machine_hash := hash\<rparr>"
    and "s = (started_from request n reason (Some a))\<lparr>memory_range := m, current_mcycle := c,
           epochs := sm_assign (ssr_active_epoch_index request) e' [], session_server_address := b\<rparr>"
  shows "started K request s"
proof -
  obtain vt nt where e: "e = \<lparr>epoch_index = 0, state = epoch_active,
      most_recent_machine_hash = zero_hash, vouchers_tree = vt, notices_tree = nt,
      processed_inputs = [], pending_inputs = [], pending_query = None\<rparr>"
      "epoch_tree K [] vt" "epoch_tree K [] nt"
    using default_epoch_Inr [of K] unfolding assms(3) epoch_tree_def by blast
  have eps: "epochs s = [(ssr_active_epoch_index request, e')]"
    using assms(6) by (simp add: sm_assign_def)
  have g: "active_epoch_index s = ssr_active_epoch_index request"
    using assms(6) by (simp add: get_proto_session_def)
  have "epoch_ok K e'" using e by (simp add: assms(5) epoch_ok_def)
  moreover have "session_ok s"
    using eps g e(1) by (simp add: session_ok_def sm_valid_def sm_find_def assms(5))
  moreover have "limits_ok s" using check_start_request_Inr(1) [OF assms(1)] assms(6) by (simp add: limits_ok_def)
  moreover have "server_cycles s = server_cycles (get_proto_session n request)"
      "server_deadline s = server_deadline (get_proto_session n request)"
    using assms(6) by simp_all
  then have "ssr_server_cycles request = Some (server_cycles s)" "ssr_server_deadline request = Some (server_deadline s)"
    using check_start_request_Inr(3,4) [OF assms(1)] by simp_all
  moreover have "session_lock s" "\<not> processing_lock s" "\<not> tainted s" "server_stub s = Some a"
      "processed_input_count s = ssr_processed_input_count request" "memory_range s = m"
    using assms(6) by (simp_all add: get_proto_session_def)
  ultimately show ?thesis
    using check_start_request_Inr(2) [OF assms(1)] eps g assms(2) e(1)
    by (simp add: started_def) (simp add: assms(5) hash)
qed

lemma wp_announce:
  assumes "start.holds request n ((started_from request n reason (Some a))\<lparr>memory_range := m, current_mcycle := c,
      epochs := sm_assign (active_epoch_index (get_proto_session n request))
        (e\<lparr>epoch_index := active_epoch_index (get_proto_session n request), state := epoch_active,
           most_recent_machine_hash := hash\<rparr>) (epochs (get_proto_session n request))\<rparr>) h"
    and "check_start_request request (get_proto_session n request) = Inr ()" "ranges_ok m" "default_epoch K = Inr e" "length hash = hash_size"
    and ok: "\<And>h' s. deref \<lparr>ref_id = ssr_session_id request, ref_object = n\<rparr> h' = Inr s \<Longrightarrow> Q h' (Inr ()) h'"
  shows "wp (start_guarantee K request) (start_rely (ssr_session_id request)) Q
    (finish (Start_session config) h) h0"
proof -
  obtain b where d: "deref \<lparr>ref_id = ssr_session_id request, ref_object = n\<rparr> h =
    Inr ((started_from request n reason (Some a))\<lparr>memory_range := m, current_mcycle := c,
      epochs := sm_assign (ssr_active_epoch_index request)
        (e\<lparr>epoch_index := ssr_active_epoch_index request, state := epoch_active,
           most_recent_machine_hash := hash\<rparr>) [], session_server_address := b\<rparr>)"
      (is "_ = Inr ?s")
    using assms(1) by (auto simp: start.holds_def get_proto_session_def)
  have "started K request ?s" using started_with_first_epoch [OF assms(2-5) refl refl] .
  then have "start_guarantee K request h0 (Finish (Start_session config)) h"
    using d by (simp add: start_guarantee_def deref_Inr_iff)
  moreover have "\<exists>s. deref \<lparr>ref_id = ssr_session_id request, ref_object = n\<rparr> h' = Inr s"
    if "start_rely (ssr_session_id request) (Finish (Start_session config)) h w h'" for w h'
    using start.keeps [OF that _ d] by auto
  ultimately show ?thesis using ok by (auto simp: finish_def wp_bindP wp_suspend wp_ret)
qed

lemma wp_start_machine:
  fixes request n
  defines "r \<equiv> \<lparr>ref_id = ssr_session_id request, ref_object = n\<rparr>"
  assumes "start.holds request n (started_from request n reason (Some a)) h"
    and "check_start_request request (get_proto_session n request) = Inr ()"
    and "actx_session actx = r"
    and ok: "\<And>h' s. deref r h' = Inr s \<Longrightarrow> Q h' (Inr ()) h'"
    and err: "\<And>h1 h' x s. deref r h' = Inr s \<Longrightarrow> server_stub s = Some a \<Longrightarrow> is_exception x \<Longrightarrow> Q h1 (Inl x) h'"
  shows "wp (start_guarantee K request) (start_rely (ssr_session_id request)) Q (start_machine K actx request h) h0"
proof -
  have e: "Q h1 (Inl x) h'" if "start.holds request n s h'" "server_stub s = Some a" "is_exception x" for h1 h' x s
    using that err by (auto simp: start.holds_def r_def)
  obtain ep where ep: "default_epoch K = Inr ep" using default_epoch_Inr [of K] by blast
  show ?thesis
    unfolding start_machine_def assms(4) Let_def wp_thenP
    apply (rule start.wp_store_checks(1) [OF assms(2)])
    apply (simp_all add: e wp_thenP assms(4) r_def)
    apply (rule start.wp_store_checks(2), assumption)
    apply (simp_all add: e wp_bindP assms(4) r_def)
    apply (rule start.wp_get_initial_config, assumption)
    apply (simp_all add: e wp_thenP wp_liftH assms(4) r_def)
    apply (simp split: sum.split, intro conjI allI impI)
     apply (erule e, simp, erule check_htif_config_Inl)
    apply (simp add: wp_thenP)
    apply (rule start.wp_check_rollup_config, assumption)
     apply (simp_all add: e wp_bindP)
    apply (rule start.wp_check_is_yielded, assumption)
    apply (simp_all add: e wp_thenP assms(4) r_def)
    apply (rule start.wp_set_session, assumption)
    apply (simp_all add: e wp_thenP assms(4) r_def)
    apply (simp add: start_first_epoch_def ep wp_bindP wp_liftH assms(4) r_def Let_def)
    apply (rule start.wp_get_session, assumption)
    apply (simp add: wp_bindP)
    apply (rule start.wp_get_root_hash, assumption)
    apply (simp_all add: e assms(4) r_def)
    apply (rule start.wp_set_session, assumption)
      apply (simp_all)
    apply (rule wp_announce [OF _ assms(3) _ ep]; (assumption | simp add: ok r_def))
    done
qed

text \<open>Leaving the handler: nothing changes in the last segment but the lock of the session.\<close>

definition start_end :: "session_ref \<Rightarrow> handler_context \<Rightarrow> unit hres \<Rightarrow> handler_context \<Rightarrow> bool" where
  "start_end r h1 res h' \<longleftrightarrow> res = Inr () \<and>
     (h' = h1 \<or> (\<exists>s. deref r h1 = Inr s \<and> h' = assign_session r (s\<lparr>session_lock := False\<rparr>) h1))"

lemma wp_spawn_server:
  assumes "start.holds request n s h" "actx_session actx = \<lparr>ref_id = ssr_session_id request, ref_object = n\<rparr>"
    and ok: "\<And>h1 h'. start.holds request n s h' \<Longrightarrow> Q h1 (Inr ()) h'"
    and err: "\<And>h1 h' x. start.holds request n s h' \<Longrightarrow> is_exception x \<Longrightarrow> Q h1 (Inl x) h'"
  shows "wp (start_guarantee K request) (start_rely (ssr_session_id request)) Q (spawn_server actx h) h0"
  unfolding spawn_server_def assms(2) wp_bindP
  apply (rule start.wp_get_session [OF assms(1)])
  apply (simp add: wp_bindP wp_gets)
  apply (rule start.wp_suspend_held [OF assms(1)])
   apply (simp_all add: finish_error_def wp_throw wp_ret ok err split: option.split)
  done

lemma wp_start_failure:
  fixes request n
  defines "r \<equiv> \<lparr>ref_id = ssr_session_id request, ref_object = n\<rparr>"
  assumes "is_exception x"
  shows "wp (start_guarantee K request) (start_rely (ssr_session_id request)) (start_end r)
    (thenP (update (\<lambda>h. Inr (h\<lparr>sessions := um_erase (ssr_session_id request) (sessions h)\<rparr>)))
        (case x of
           Finish_error_yield_none status \<Rightarrow> finish_with_error status
         | _ \<Rightarrow> finish_with_error (unexpected x)) h) h0"
proof -
  have "wp (start_guarantee K request) (start_rely (ssr_session_id request)) (start_end r)
    (finish_with_error status (h\<lparr>sessions := um_erase (ssr_session_id request) (sessions h)\<rparr>)) h0" for status
    by (simp add: finish_with_error_def wp_bindP wp_suspend wp_ret start_guarantee_def start_end_def)
  then show ?thesis by (simp add: wp_thenP wp_update split: handler_exn.split)
qed

lemma wp_start_locked:
  fixes request n
  defines "r \<equiv> \<lparr>ref_id = ssr_session_id request, ref_object = n\<rparr>"
  assumes h: "start.holds request n (started_from request n reason None) h"
    and w: "um_find (sessions_waiting_checkin h) (ssr_session_id request) = None"
    and c: "check_start_request request (get_proto_session n request) = Inr ()"
    and ok: "\<And>h' s. deref r h' = Inr s \<Longrightarrow> Q h' (Inr ()) h'"
    and err: "\<And>h1 h' x s. deref r h' = Inr s \<Longrightarrow> is_exception x \<Longrightarrow> Q h1 (Inl x) h'"
  shows "wp (start_guarantee K request) (start_rely (ssr_session_id request)) Q
    (thenP (trigger_and_wait_checkin \<lparr>actx_session = r, actx_self = self\<rparr>
        (spawn_server \<lparr>actx_session = r, actx_self = self\<rparr>))
      (try_catch (start_machine K \<lparr>actx_session = r, actx_self = self\<rparr> request) (shutdown_and_rethrow r)) h) h0"
proof -
  let ?actx = "\<lparr>actx_session = r, actx_self = self\<rparr>"
  have e: "Q h1 (Inl x) h'" if "start.holds request n s h'" "is_exception x" for h1 h' x s
    using that err by (auto simp: start.holds_def r_def)
  have shut: "wp (start_guarantee K request) (start_rely (ssr_session_id request)) Q (shutdown_and_rethrow r x h') h1"
    if "deref r h' = Inr s" "server_stub s = Some a" "is_exception x" for x h' h1 s a
    using that err
    by (simp add: shutdown_and_rethrow_def get_session_def wp_rules start_guarantee_def start_rely_def)
  have "wp (start_guarantee K request) (start_rely (ssr_session_id request)) Q
      (try_catch (start_machine K ?actx request) (shutdown_and_rethrow r) h') h1"
    if "start.holds request n (started_from request n reason (Some a)) h'" for h' h1 a
    unfolding wp_try_catch
    by (rule wp_start_machine [OF that c]) (simp_all add: r_def [symmetric] ok shut)
  moreover have "session_id (started_from request n reason None) = ssr_session_id request"
    by (simp add: get_proto_session_def)
  ultimately show ?thesis
    unfolding wp_thenP r_def
    by (intro start.wp_trigger_and_wait_checkin [OF h])
      (simp_all add: w e, rule wp_spawn_server [OF h], simp_all)
qed

text \<open>After the checks of the identifier the session is created and locked.\<close>

lemma start_session_enters:
  assumes "ssr_session_id request \<noteq> []" "um_find (sessions h) (ssr_session_id request) = None"
    and r: "r = \<lparr>ref_id = ssr_session_id request, ref_object = next_object h\<rparr>"
    and h1: "h1 = h\<lparr>sessions := um_assign (ssr_session_id request) (get_proto_session (next_object h) request) (sessions h),
      next_object := Suc (next_object h)\<rparr>"
    and S: "S = (get_proto_session (next_object h) request)\<lparr>session_lock := True,
      session_lock_reason := get_session_lock_reason ''StartSession'' peer\<rparr>"
  shows "StartSession_body K self peer request h = scope_proc
      (bindP (get_session r) (\<lambda>s. thenP (liftH (check_start_request request s))
         (thenP (trigger_and_wait_checkin \<lparr>actx_session = r, actx_self = self\<rparr>
                   (spawn_server \<lparr>actx_session = r, actx_self = self\<rparr>))
           (try_catch (start_machine K \<lparr>actx_session = r, actx_self = self\<rparr> request) (shutdown_and_rethrow r))))
         (assign_session r S h1))
      (lock_destructor Session_lock r)"
proof -
  let ?s = "get_proto_session (next_object h) request"
  have obj: "session_object ?s = next_object h" "\<not> session_lock ?s" by (simp_all add: get_proto_session_def)
  have d1: "deref r h1 = Inr ?s" by (simp add: r h1 deref_Inr_iff obj)
  show ?thesis
    using assms(1,2) d1 obj S [symmetric] unfolding r
    by (simp add: StartSession_body_def Let_def bindP_def thenP_def find_session_eq create_session_def
        with_auto_lock_def lock_acquire_def get_session_def gets_def set_session_def update_def write_session_def
        on_scope_exit_def h1 [symmetric])
qed

section \<open>Properties\<close>

text \<open>
  Claim C6. A \<open>StartSession\<close> request for a new session identifier, whatever the machine server
  replies: whenever the handler reports success, the session exists, is locked, has the
  requested epoch index, input count, deadlines and cycle limits, every increment is positive
  and within its maximum, all five memory ranges are valid and described, and its only epoch
  is empty, active and well formed, with a machine hash of the right size; whenever it reports
  an error, the session no longer exists. The handler always ends normally, unlocking the
  session it announced; no exception escapes it and it never calls through a null stub.
\<close>

theorem start_session_outcome:
  assumes "ssr_session_id request \<noteq> []" "um_find (sessions h) (ssr_session_id request) = None"
    and "um_find (sessions_waiting_checkin h) (ssr_session_id request) = None"
  shows "wp (start_guarantee K request) (start_rely (ssr_session_id request))
    (start_end \<lparr>ref_id = ssr_session_id request, ref_object = next_object h\<rparr>)
    (StartSession_handler K self True peer request h) h"
proof -
  let ?n = "next_object h" and ?s = "get_proto_session (next_object h) request"
  let ?r = "\<lparr>ref_id = ssr_session_id request, ref_object = ?n\<rparr>"
  let ?reason = "get_session_lock_reason ''StartSession'' peer"
  define h1 where "h1 = h\<lparr>sessions := um_assign (ssr_session_id request) ?s (sessions h), next_object := Suc ?n\<rparr>"
  define S where "S = ?s\<lparr>session_lock := True, session_lock_reason := ?reason\<rparr>"
  define h2 where "h2 = assign_session ?r S h1"
  have obj: "session_object ?s = ?n" "\<not> session_lock ?s" "server_stub ?s = None" by (simp_all add: get_proto_session_def)
  have S: "started_from request ?n ?reason None = S" by (simp add: get_proto_session_def S_def)
  have d2: "deref ?r h2 = Inr S" by (simp add: h2_def S_def obj)
  have w2: "um_find (sessions_waiting_checkin h2) (ssr_session_id request) = None"
    using assms(3) by (simp add: h2_def h1_def assign_session_def)
  note enter = start_session_enters [OF assms(1,2) refl h1_def S_def, of K self, folded h2_def]
  have check: "check_start_request request S = check_start_request request ?s"
    by (simp add: check_start_request_def S_def)
  have fail: "wp (start_guarantee K request) (start_rely (ssr_session_id request)) (start_end ?r)
      (thenP (update (\<lambda>h. Inr (h\<lparr>sessions := um_erase (ssr_session_id request) (sessions h)\<rparr>)))
        (case x of Finish_error_yield_none status \<Rightarrow> finish_with_error status
         | _ \<Rightarrow> finish_with_error (unexpected x)) h'') h1'" if "is_exception x" for x h'' h1'
    using wp_start_failure [OF that] .
  have h2: "start.holds request ?n (started_from request ?n ?reason None) h2"
    unfolding S using start.holdsI [OF d2] .
  have lock: "lock_destructor Session_lock ?r h' = Inr (assign_session ?r (s\<lparr>session_lock := False\<rparr>) h')"
    if "deref ?r h' = Inr s" for h' s using that by (simp add: lock_destructor_def write_session_def)
  show ?thesis
    unfolding StartSession_handler_def
    apply (simp add: wp_try_catch enter wp_scope_proc wp_run_destructor wp_bindP get_session_def wp_gets d2
        wp_thenP wp_liftH check)
    apply (cases "check_start_request request ?s")
     apply (simp add: lock [OF d2] check_start_request_Inl fail)
    apply (simp add: wp_thenP [symmetric])
    apply (rule wp_start_locked [OF h2 w2])
      apply (auto simp: lock fail start_end_def)
    done
qed

definition sample_start_request :: start_session_request where
  "sample_start_request = \<lparr>ssr_session_id = ''t'', ssr_machine_directory = ''dir'', ssr_active_epoch_index = 7,
     ssr_processed_input_count = 3,
     ssr_server_deadline = Some \<lparr>dl_checkin = 5000, dl_advance_state = 60000, dl_advance_state_increment = 1000,
       dl_inspect_state = 60000, dl_inspect_state_increment = 1000, dl_machine = 1000, dl_store = 1000, dl_fast = 100\<rparr>,
     ssr_server_cycles = Some \<lparr>max_advance_state = 1000, advance_state_increment = 10, max_inspect_state = 1000,
       inspect_state_increment = 10\<rparr>\<rparr>"

theorem start_session_outcome_witness:
  "um_find (sessions sample_context) ''t'' = None \<and>
   wp (start_guarantee sample_digest sample_start_request) (start_rely ''t'') (start_end \<lparr>ref_id = ''t'', ref_object = 1\<rparr>)
     (StartSession_handler sample_digest 0 True ''peer'' sample_start_request sample_context) sample_context"
proof -
  have "ssr_session_id sample_start_request = ''t''" "um_find (sessions sample_context) ''t'' = None"
      "um_find (sessions_waiting_checkin sample_context) ''t'' = None" "next_object sample_context = 1"
    by (simp_all add: sample_start_request_def sample_context_def um_find_def)
  then show ?thesis
    using start_session_outcome [of sample_start_request sample_context sample_digest 0 "''peer''"] by simp
qed

text \<open>
  A \<open>StartSession\<close> request with an empty identifier or the identifier of an existing
  session is refused at once with the state unchanged: the existing session is not touched.
\<close>

theorem start_session_refused:
  "StartSession_handler K self True peer (request\<lparr>ssr_session_id := []\<rparr>) h =
     Suspend h (Finish_with_error (grpc_error INVALID_ARGUMENT ''session id is empty'')) (\<lambda>_ h'. Done h' (Inr ())) \<and>
   (ssr_session_id request \<noteq> [] \<and> um_find (sessions h) (ssr_session_id request) = Some s \<longrightarrow>
     StartSession_handler K self True peer request h =
     Suspend h (Finish_with_error (grpc_error ALREADY_EXISTS ''session id is taken'')) (\<lambda>_ h'. Done h' (Inr ())))"
  by (simp add: StartSession_handler_def try_catch_def StartSession_body_def Let_def finish_with_error_def bindP_def
      suspend_def ret_def find_session_eq)

theorem start_session_refused_witness:
  "StartSession_handler sample_digest 0 True ''peer'' (sample_start_request\<lparr>ssr_session_id := ''s''\<rparr>) sample_context =
     Suspend sample_context (Finish_with_error (grpc_error ALREADY_EXISTS ''session id is taken''))
       (\<lambda>_ h'. Done h' (Inr ()))"
  using start_session_refused [of sample_digest 0 "''peer''" "sample_start_request\<lparr>ssr_session_id := ''s''\<rparr>" sample_context
      sample_session] sample_context_session(1)
  by simp

text \<open>
  Claim C31. A check-in is accepted exactly when its session is waiting for one and exists. Then
  the address of the machine server is recorded, the check-in context is settled as successful,
  the deadline alarm is cancelled, the check-in is acknowledged, and only then is the coroutine
  that waited resumed; otherwise the state is unchanged.
\<close>

theorem checkin_correct:
  "Checkin_handler True request h =
    (let sid = cir_session_id request in
     case (um_find (sessions_waiting_checkin h) sid, um_find (sessions h) sid) of
       (Some cctx, Some s) \<Rightarrow>
         Suspend (h\<lparr>sessions := um_assign sid (s\<lparr>session_server_address := cir_address request\<rparr>) (sessions h),
                    sessions_waiting_checkin := um_assign sid (cctx\<lparr>cc_status := Some True\<rparr>) (sessions_waiting_checkin h)\<rparr>)
           (Cancel_alarm sid) (\<lambda>_ h1. Suspend h1 (Finish Void_response)
             (\<lambda>_ h2. Suspend h2 (Resume_coroutine (cc_coroutine cctx)) (\<lambda>_ h3. Done h3 (Inr ()))))
     | (Some cctx, None) \<Rightarrow> Suspend h (Finish_with_error (grpc_error INVALID_ARGUMENT
           (''could not find an actual session with id '' @ sid))) (\<lambda>_ h'. Done h' (Inr ()))
     | (None, _) \<Rightarrow> Suspend h (Finish_with_error (grpc_error INVALID_ARGUMENT
           (''check-in with wrong session id '' @ sid))) (\<lambda>_ h'. Done h' (Inr ())))"
proof -
  have w: "deref \<lparr>ref_id = i, ref_object = session_object s\<rparr> h = Inr s" if "um_find (sessions h) i = Some s" for i s
    using that by (simp add: deref_Inr_iff)
  have "assign_session \<lparr>ref_id = i, ref_object = n\<rparr> s h = h\<lparr>sessions := um_assign i s (sessions h)\<rparr>" for i n s
    by (simp add: assign_session_def)
  then show ?thesis
    by (auto simp: Checkin_handler_def report_exceptions_def try_catch_def exec Let_def find_session_eq
        finish_with_error_def finish_def suspend_def write_session_def w split: option.split)
qed

end
