(* ===== verification/Quiet.thy ===== *)
theory Quiet
  imports Ownership Input_Correctness Start_Session
begin

text \<open>
  The functions that talk to the machine server change next to nothing of the shared state:
  the stub of their session and the table of check-ins. This theory states which part of the
  context they may touch and proves it for each of them, without any assumption on what other
  coroutines do at the yields.
\<close>

section \<open>Changes to one session\<close>

text \<open>Only the session \<open>r\<close> refers to changes, as \<open>sim\<close> allows; no session comes or goes.\<close>

definition touches :: "(session_type \<Rightarrow> session_type \<Rightarrow> bool) \<Rightarrow> session_ref \<Rightarrow> handler_context \<Rightarrow> handler_context \<Rightarrow> bool" where
  "touches sim r h h' \<longleftrightarrow>
     next_object h' = next_object h \<and> (um_valid (sessions h) \<longrightarrow> um_valid (sessions h')) \<and>
     (\<forall>sid. sid \<noteq> ref_id r \<longrightarrow> um_find (sessions h') sid = um_find (sessions h) sid) \<and>
     (case deref r h of
        Inl _ \<Rightarrow> um_find (sessions h') (ref_id r) = um_find (sessions h) (ref_id r)
      | Inr s \<Rightarrow> \<exists>s'. deref r h' = Inr s' \<and> sim s s')"

text \<open>Every yield but the reply of \<open>FinishEpoch\<close>, which carries an obligation.\<close>

definition plain :: "yield_point \<Rightarrow> bool" where
  "plain y \<longleftrightarrow> (\<forall>response. y \<noteq> Finish (Finish_epoch response))"

text \<open>Exceptions: \<open>taints r\<close> excludes \<open>finish_error_yield_none\<close>; neither taints another session.\<close>

definition fails :: "session_ref \<Rightarrow> handler_exn \<Rightarrow> bool" where
  "fails r x \<longleftrightarrow> (\<forall>t st. x = Taint_session t st \<longrightarrow> t = r)"

definition taints :: "session_ref \<Rightarrow> handler_exn \<Rightarrow> bool" where
  "taints r x \<longleftrightarrow> fails r x \<and> (\<forall>st. x \<noteq> Finish_error_yield_none st)"

lemma exn_simps [simp]:
  "fails r (Finish_error_yield_none st)" "fails r (Taint_session t st) \<longleftrightarrow> t = r" "fails r (Std_exception c)"
  "fails r Exit_process" "fails r Out_of_fuel"
  "\<not> taints r (Finish_error_yield_none st)" "taints r (Taint_session t st) \<longleftrightarrow> t = r" "taints r (Std_exception c)"
  "taints r Exit_process" "taints r Out_of_fuel"
  by (simp_all add: fails_def taints_def)

lemma taints_fails: "taints r x \<Longrightarrow> fails r x"
  by (simp add: taints_def)

lemma plain_simps [simp]:
  "plain (Machine_call a q d)" "plain (Finish_with_error st)" "plain (Wait_checkin i)" "plain (Wait_alarm n)"
  "plain Wait_resume" "plain Clock_now" "plain (Spawn_process c)" "plain (Create_stub a)" "plain (Shutdown_sync a n)"
  "plain (Start_deadline i n)" "plain (Cancel_alarm i)" "plain (Resume_coroutine co)"
  "plain (Finish Void_response)" "plain (Finish (Version_response v))" "plain (Finish (Status_response ids))"
  "plain (Finish (Session_status ss))" "plain (Finish (Epoch_status es))" "plain (Finish (Start_session cfg))"
  "plain (Finish (Inspect_state i'))" "plain (Finish (Health_check hs))"
  by (simp_all add: plain_def)

locale session_change =
  fixes sim :: "session_type \<Rightarrow> session_type \<Rightarrow> bool"
  assumes sim_refl: "sim s s" and sim_trans: "sim s s' \<Longrightarrow> sim s' s'' \<Longrightarrow> sim s s''"
    and sim_stub: "sim s (s\<lparr>server_stub := stub\<rparr>)"
begin

lemma touches_refl: "touches sim r h h"
  by (auto simp: touches_def sim_refl split: sum.split)

lemma touches_trans:
  assumes "touches sim r h h'" "touches sim r h' h''"
  shows "touches sim r h h''"
proof (cases "deref r h")
  case (Inl x)
  then have "deref r h' = Inl x" using assms(1) by (simp add: touches_def deref_def)
  then show ?thesis using assms Inl by (simp add: touches_def)
next
  case (Inr s)
  then obtain s' where "deref r h' = Inr s'" "sim s s'" using assms(1) by (auto simp: touches_def)
  then show ?thesis using assms Inr by (auto simp: touches_def intro: sim_trans)
qed

end

sublocale session_change < change "touches sim r" for r
  by unfold_locales (rule touches_refl, rule touches_trans)

context session_change
begin

abbreviation quiet :: "session_ref \<Rightarrow> (handler_exn \<Rightarrow> bool) \<Rightarrow> ('a \<Rightarrow> bool) \<Rightarrow> 'a handler \<Rightarrow> bool" where
  "quiet r \<equiv> modest (touches sim r) plain"

lemma deref_exn: "deref r h = Inl x \<Longrightarrow> \<not> is_exception x"
  by (auto simp: deref_def dangling_def split: option.splits if_splits)

lemma deref_epoch_exn: "deref_epoch r i h = Inl x \<Longrightarrow> \<not> is_exception x"
  by (auto simp: deref_epoch_def dangling_def split: option.splits sum.splits dest: deref_exn)

lemma quiet_get_session: "quiet r X (\<lambda>_. True) (get_session r)"
  unfolding get_session_def by (rule modest_gets) (auto dest: deref_exn)

lemma quiet_get_epoch: "quiet r X (\<lambda>_. True) (get_epoch r i)"
  unfolding get_epoch_def by (rule modest_gets) (auto dest: deref_epoch_exn)

lemma write_touches:
  assumes "write_session r f h = Inr h'" "\<And>s. sim s (f s) \<and> session_object (f s) = session_object s"
  shows "touches sim r h h'"
proof -
  obtain s where s: "deref r h = Inr s" "h' = assign_session r (f s) h"
    using assms(1) by (auto simp: write_session_def split: sum.splits)
  have obj: "session_object (f s) = ref_object r" "sim s (f s)"
    using assms(2) [of s] s(1) by (simp_all add: deref_Inr_iff)
  have "um_valid (sessions h) \<longrightarrow> um_valid (sessions h')" "next_object h' = next_object h"
    using s(2) um.valid_assign by (auto simp: assign_session_def)
  then show ?thesis using s obj by (simp add: touches_def)
qed

lemma write_session_exn: "write_session r f h = Inl x \<Longrightarrow> \<not> is_exception x"
  by (auto simp: write_session_def split: sum.splits dest: deref_exn)

lemma quiet_set_session:
  "(\<And>s. sim s (f s) \<and> session_object (f s) = session_object s) \<Longrightarrow> quiet r X (\<lambda>_. True) (set_session r f)"
  unfolding set_session_def by (rule modest_update) (auto intro: write_touches dest: write_session_exn)

lemma quiet_poke: "(\<And>h. sessions (f h) = sessions h \<and> next_object (f h) = next_object h) \<Longrightarrow>
    quiet r X (\<lambda>_. True) (update (\<lambda>h. Inr (f h)))"
  by (rule modest_update)
    (auto simp: touches_def deref_def sim_refl split: sum.split option.split if_split)

lemma quiet_peek: "quiet r X (\<lambda>_. True) (gets (\<lambda>h. Inr (f h)))"
  by (rule modest_gets) auto

lemma quiet_bind: "quiet r X (\<lambda>_. True) m \<Longrightarrow> (\<And>v. quiet r X V (f v)) \<Longrightarrow> quiet r X V (bindP m f)"
  by (rule modest_bind)

lemma quiet_seq: "quiet r X (\<lambda>_. True) m \<Longrightarrow> quiet r X V n \<Longrightarrow> quiet r X V (thenP m n)"
  by (rule modest_seq)

lemma quiet_yield: "plain y \<Longrightarrow> quiet r X (\<lambda>_. True) (suspend y)"
  by (rule modest_suspend) simp_all

lemma quiet_fails: "quiet r (taints r) V m \<Longrightarrow> quiet r (fails r) V m"
  by (erule modest_weaken) (simp_all add: taints_fails)

lemma quiet_any: "quiet r X V m \<Longrightarrow> quiet r X (\<lambda>_. True) m"
  by (erule modest_weaken) simp_all

section \<open>The machine server\<close>

lemma quiet_call: "actx_session actx = r \<Longrightarrow> quiet r X (\<lambda>_. True) (machine_call actx deadline request)"
  unfolding machine_call_def
  by (auto intro!: quiet_bind quiet_get_session modest_option modest_throw quiet_yield)

lemma quiet_status:
  "t = r \<Longrightarrow> quiet r (taints r) (\<lambda>_. True) (CHECK_STATUS_OR_TAINT st t d)"
  "quiet r (fails r) (\<lambda>_. True) (CHECK_STATUS_OR_FAIL st d)"
  "actx_session actx = r \<Longrightarrow> quiet r (taints r) V (taint actx code m)"
  "quiet r (fails r) V (finish_error code m)"
  unfolding CHECK_STATUS_OR_TAINT_def CHECK_STATUS_OR_FAIL_def taint_def finish_error_def
  by (auto intro!: modest_if modest_throw modest_ret)

lemmas quiet_steps = modest_if modest_option quiet_bind quiet_seq quiet_call quiet_get_session quiet_get_epoch
  quiet_status quiet_yield quiet_peek modest_ret

lemma quiet_simple_calls:
  assumes "actx_session actx = r"
  shows "quiet r (taints r) (\<lambda>_. True) (snapshot actx)" "quiet r (taints r) (\<lambda>_. True) (rollback actx)"
    "quiet r (taints r) (\<lambda>_. True) (reset_iflags_y actx)"
    "quiet r (taints r) (\<lambda>_. True) (set_htif_fromhost actx v)"
    "quiet r (taints r) (\<lambda>_. True) (get_htif_fromhost actx)"
    "quiet r (taints r) (\<lambda>_. True) (replace_memory_range actx rng)"
    "quiet r (taints r) (\<lambda>_. True) (write_memory_range actx data rng)"
    "quiet r (taints r) (\<lambda>_. True) (write_evm_abi_string actx data rng)"
    "quiet r (taints r) (\<lambda>_. True) (read_memory actx address len)"
    "quiet r (taints r) (\<lambda>_. True) (check_htif_yield_manual actx name w)"
  unfolding snapshot_def rollback_def reset_iflags_y_def set_htif_fromhost_def get_htif_fromhost_def
    replace_memory_range_def write_memory_range_def write_evm_abi_string_def read_memory_def
    check_htif_yield_manual_def Let_def
  by (auto simp: assms intro!: quiet_steps)

lemmas quiet_calls = quiet_steps quiet_simple_calls

lemma quiet_decode:
  "t = r \<Longrightarrow> quiet r (taints r) (\<lambda>_. True) (liftH (get_payload_length t data))"
  "t = r \<Longrightarrow> quiet r (taints r) (\<lambda>_. True) (liftH (get_evm_address t data))"
  "t = r \<Longrightarrow> quiet r (taints r) (\<lambda>_. True) (liftH (get_hash t data))"
  by (rule modest_lift; auto simp: get_payload_length_def get_evm_address_def get_hash_def Let_def split: if_splits)+

lemma quiet_sequences:
  assumes "actx_session actx = r"
  shows "quiet r (taints r) (\<lambda>_. True) (clear_memory_ranges actx)" "quiet r (taints r) (\<lambda>_. True) (clear_rx_buffer actx)"
    "quiet r (taints r) (\<lambda>_. True) (check_htif_yield_ack_data actx w)"
    "quiet r (taints r) (\<lambda>_. True) (set_htif_yield_ack_data actx w)"
    "quiet r (taints r) (\<lambda>_. True) (read_memory_range actx rng)"
    "quiet r (taints r) (\<lambda>_. True) (get_root_hash actx)"
    "quiet r (taints r) proof_wf (get_proof actx address log2_size)"
proof -
  show "quiet r (taints r) (\<lambda>_. True) (clear_memory_ranges actx)" "quiet r (taints r) (\<lambda>_. True) (clear_rx_buffer actx)"
    unfolding clear_memory_ranges_def clear_rx_buffer_def by (rule modest_loop, auto simp: assms intro!: quiet_calls)+
  show "quiet r (taints r) (\<lambda>_. True) (check_htif_yield_ack_data actx w)"
    "quiet r (taints r) (\<lambda>_. True) (set_htif_yield_ack_data actx w)"
    "quiet r (taints r) (\<lambda>_. True) (read_memory_range actx rng)"
    unfolding check_htif_yield_ack_data_def set_htif_yield_ack_data_def read_memory_range_def Let_def
    by (auto simp: assms intro!: quiet_calls)
  show "quiet r (taints r) (\<lambda>_. True) (get_root_hash actx)"
    unfolding get_root_hash_def
    by (auto simp: assms lift_res_def split: sum.splits intro!: quiet_calls modest_lift)
  have "quiet r (taints r) proof_wf (liftH (lift_res (get_proto_merkle_tree_proof p)))" for p
    using accepted_proof_wf [of p] by (intro modest_lift) (auto simp: lift_res_def split: sum.splits)
  then show "quiet r (taints r) proof_wf (get_proof actx address log2_size)"
    unfolding get_proof_def by (auto simp: assms intro!: quiet_calls)
qed

lemma quiet_outputs:
  assumes "actx_session actx = r"
  shows "quiet r (taints r) (\<lambda>_. True) (read_voucher actx)" "quiet r (taints r) (\<lambda>_. True) (read_notice actx)"
    "quiet r (taints r) (\<lambda>_. True) (read_report actx)" "quiet r (taints r) (\<lambda>_. True) (read_exception actx)"
  unfolding read_voucher_def read_notice_def read_report_def read_exception_def split_def
    read_voucher_address_and_payload_data_length_def read_tx_payload_data_length_def
    read_voucher_payload_data_def read_tx_payload_data_def Let_def
  by (auto simp: assms intro!: quiet_calls quiet_decode)

lemma quiet_run_increments:
  "actx_session actx = r \<Longrightarrow> quiet r (taints r) (\<lambda>_. True) (run_increments fuel actx inc mx start dinc mdl limit)"
proof (induction fuel arbitrary: limit)
  case 0
  then show ?case by (simp add: modest_throw)
next
  case (Suc fuel)
  then show ?case unfolding run_increments.simps Let_def by (auto intro!: quiet_calls)
qed

lemma quiet_run_loop:
  assumes "actx_session actx = r" "\<And>reason out. quiet r (taints r) (\<lambda>_. True) (read_output actx reason out)"
  shows "quiet r (taints r) (\<lambda>_. True) (run_loop rounds fuel read_output actx lim out)"
proof (induction rounds arbitrary: out)
  case 0
  then show ?case by (simp add: modest_throw)
next
  case (Suc rounds)
  show ?case
    unfolding run_loop.simps run_step_def run_machine_def Let_def
    by (rule quiet_bind [OF quiet_run_increments [OF assms(1)]])
      (auto simp: assms intro!: quiet_steps quiet_outputs Suc.IH)
qed

lemma quiet_read_outputs:
  assumes "actx_session actx = r"
  shows "quiet r (taints r) (\<lambda>_. True) (read_advance_output actx reason out)"
    "quiet r (taints r) (\<lambda>_. True) (read_inspect_output actx reason out)"
  unfolding read_advance_output_def read_inspect_output_def by (auto simp: assms intro!: quiet_steps quiet_outputs)

text \<open>The outputs of an input get verified hashes.\<close>

lemma quiet_attach_hash:
  assumes "actx_session actx = r" "\<And>k out. acc (put k out) = Some k"
    and outs: "length outs = n" "\<forall>j < m. verified_output K (acc (outs ! j))" "m < n"
  shows "quiet r (taints r) (\<lambda>outs. length outs = n \<and> (\<forall>j < Suc m. verified_output K (acc (outs ! j))))
    (attach_hash K actx rng hashes put m outs)"
proof -
  have hash: "quiet r (taints r) (\<lambda>k. length k = hash_size) (liftH (get_hash r data))" for data
    by (rule modest_lift) (auto simp: get_hash_def hash_size_def split: if_splits)
  have slice: "quiet r (taints r) (\<lambda>q. proof_wf q \<and> proof_verify K q = Inr True \<and> mtp_log2_target_size q = LOG2_KECCAK_SIZE)
      (liftH (lift_res (slice K p t LOG2_KECCAK_SIZE)))" if "proof_wf p" for p t
    using slice_outcome [OF that, of K t LOG2_KECCAK_SIZE] by (intro modest_lift) auto
  show ?thesis
    unfolding attach_hash_def assms(1)
    by (rule modest_bind [OF hash], rule modest_bind [OF quiet_sequences(7) [OF assms(1)]], rule quiet_bind [OF quiet_get_session],
        rule modest_bind [OF slice], assumption, rule modest_ret)
      (use outs in \<open>auto simp: assms(2) nth_list_update less_Suc_eq verified_output_def\<close>)
qed

lemma quiet_attach_hashes:
  assumes "actx_session actx = r" "\<And>k out. acc (put k out) = Some k"
  shows "quiet r (taints r) (\<lambda>outs. \<forall>out \<in> set outs. verified_output K (acc out))
    (for_each (attach_hash K actx rng hashes put) [0..<length outs] outs)"
proof -
  let ?I = "\<lambda>m os. length os = length outs \<and> (\<forall>j < m. verified_output K (acc (os ! j)))"
  have "quiet r (taints r) (?I (length outs)) (for_each (attach_hash K actx rng hashes put) [0..<length outs] outs)"
    by (rule modest_loop_upt) (use assms quiet_attach_hash [where acc = acc and put = put] in auto)
  then show ?thesis by (rule modest_weaken) (auto simp: in_set_conv_nth)
qed

lemma quiet_check_server_stub: "quiet r (fails r) (\<lambda>_. True) (check_server_stub r)"
  unfolding check_server_stub_def by (auto intro!: quiet_steps quiet_set_session sim_stub)

lemma quiet_trigger_and_wait_checkin:
  assumes "actx_session actx = r" "quiet r (fails r) (\<lambda>_. True) trigger"
  shows "quiet r (fails r) (\<lambda>_. True) (trigger_and_wait_checkin actx trigger)"
  unfolding trigger_and_wait_checkin_def assms(1)
  by (auto simp: assms(1) intro!: quiet_steps quiet_poke assms(2) quiet_check_server_stub modest_throw quiet_fails [OF quiet_status(3)])

lemma quiet_start_checks:
  assumes "actx_session actx = r"
  shows "quiet r (fails r) (\<lambda>_. True) (check_server_version actx)"
    "quiet r (fails r) (\<lambda>_. True) (check_server_machine actx directory)"
    "quiet r (fails r) (\<lambda>_. True) (get_initial_config actx)"
    "quiet r (fails r) (\<lambda>_. True) (check_is_yielded actx)"
    "quiet r (fails r) (\<lambda>_. True) (shutdown_server actx)"
    "quiet r (fails r) (\<lambda>_. True) (store actx directory)"
    "quiet r (fails r) (\<lambda>_. True) (spawn_server actx)"
  unfolding check_server_version_def check_server_machine_def get_initial_config_def check_is_yielded_def
    get_current_mcycle_def shutdown_server_def store_def spawn_server_def check_yield_reason_accepted_def Let_def
  by (auto simp: assms intro!: quiet_steps quiet_fails [OF quiet_simple_calls(10)])

end

end
