(* ===== verification/Shared_State.thy ===== *)
theory Shared_State
  imports Quiet
begin

text \<open>
  The state all coroutines share: its invariant, how one segment of a coroutine may change it,
  and what a coroutine that owns a session may rely on. A session is owned by the coroutine
  that starts it, until its first epoch exists, and by the coroutine that processes its
  inputs, while the processing lock is set.
\<close>

section \<open>The invariant\<close>

text \<open>Results and waiting inputs carry consecutive numbers that meet at the input count.\<close>

definition numbered :: "session_type \<Rightarrow> epoch_type \<Rightarrow> bool" where
  "numbered s e \<longleftrightarrow>
     (\<forall>j < length (processed_inputs e).
        input_index (processed_inputs e ! j) = processed_input_count s - of_nat (length (processed_inputs e) - j)) \<and>
     (\<forall>j < length (pending_inputs e).
        input_index_field (in_metadata (pending_inputs e ! j)) = processed_input_count s + of_nat j)"

text \<open>
  A finished epoch has trees that match its results, verifiable outputs and no waiting input.
  The active epoch has the same trees unless the session is tainted or an input is being
  processed.
\<close>

definition epoch_inv :: "digest \<Rightarrow> session_type \<Rightarrow> u64 \<Rightarrow> epoch_type \<Rightarrow> bool" where
  "epoch_inv K s i e \<longleftrightarrow>
     (if i = active_epoch_index s
      then numbered s e \<and>
        (\<not> tainted s \<and> (processing_lock s \<longrightarrow> pending_inputs e = []) \<longrightarrow> epoch_ok K e \<and> outputs_ok K e)
      else epoch_ok K e \<and> outputs_ok K e \<and> pending_inputs e = [])"

text \<open>A session without epochs is being started, under its lock.\<close>

definition session_inv :: "digest \<Rightarrow> session_type \<Rightarrow> bool" where
  "session_inv K s \<longleftrightarrow>
     (if epochs s = [] then session_lock s \<and> \<not> processing_lock s
      else session_ok s \<and> (\<forall>i e. sm_find (epochs s) i = Some e \<longrightarrow> epoch_inv K s i e))"

definition server_inv :: "digest \<Rightarrow> handler_context \<Rightarrow> bool" where
  "server_inv K h \<longleftrightarrow> um_valid (sessions h) \<and>
     (\<forall>sid s. um_find (sessions h) sid = Some s \<longrightarrow>
        session_id s = sid \<and> session_object s < next_object h \<and> session_inv K s)"

lemma server_inv_deref:
  "server_inv K h \<Longrightarrow> deref r h = Inr s \<Longrightarrow>
     session_inv K s \<and> session_id s = ref_id r \<and> session_object s = ref_object r \<and> ref_object r < next_object h"
  by (fastforce simp: server_inv_def deref_Inr_iff)

lemma session_inv_valid: "session_inv K s \<Longrightarrow> sm_valid (epochs s)"
  by (auto simp: session_inv_def session_ok_def sm_valid_def split: if_splits)

section \<open>Changes over time\<close>

text \<open>A result without the proofs within the epoch, which \<open>FinishEpoch\<close> refreshes.\<close>

definition result_of ::
  "processed_input_type \<Rightarrow> u64 \<times> u64 \<times> hash_type \<times> completion_status \<times> processed_data \<times> report_type list" where
  "result_of p = (input_index p, epoch_input_index p, pi_machine_hash p, pi_status p, processed p, pi_reports p)"

definition results where "results e = map result_of (processed_inputs e)"

text \<open>Equal up to the pending query.\<close>

definition same_epoch :: "epoch_type \<Rightarrow> epoch_type \<Rightarrow> bool" where
  "same_epoch e e' \<longleftrightarrow> e'\<lparr>pending_query := None\<rparr> = e\<lparr>pending_query := None\<rparr>"

lemma same_epochD:
  "same_epoch e e' \<Longrightarrow> epoch_index e' = epoch_index e \<and> state e' = state e \<and>
     most_recent_machine_hash e' = most_recent_machine_hash e \<and> vouchers_tree e' = vouchers_tree e \<and>
     notices_tree e' = notices_tree e \<and> processed_inputs e' = processed_inputs e \<and> pending_inputs e' = pending_inputs e"
  by (cases e; cases e') (simp add: same_epoch_def)

lemma same_epoch_simps [simp]: "same_epoch e e" "same_epoch e (e\<lparr>pending_query := q\<rparr>)"
  by (simp_all add: same_epoch_def)

lemma same_epoch_trans: "same_epoch e e' \<Longrightarrow> same_epoch e' e'' \<Longrightarrow> same_epoch e e''"
  by (simp add: same_epoch_def)

lemma same_epoch_ok:
  assumes "same_epoch e e'"
  shows "epoch_ok K e' = epoch_ok K e" "outputs_ok K e' = outputs_ok K e" "numbered s e' = numbered s e"
  using same_epochD [OF assms] by (simp_all add: epoch_ok_def outputs_ok_def numbered_def)

text \<open>Results are only appended, and a finished epoch does not change any more.\<close>

definition epoch_advances :: "epoch_type \<Rightarrow> epoch_type \<Rightarrow> bool" where
  "epoch_advances e e' \<longleftrightarrow> epoch_index e' = epoch_index e \<and> (\<exists>rest. results e' = results e @ rest) \<and>
     (state e = epoch_finished \<longrightarrow> same_epoch e e')"

text \<open>
  The limits of a session are fixed and a taint is permanent. Once the first epoch exists,
  the memory ranges are fixed too, the active index grows, and an epoch is only removed when
  it is not active.
\<close>

definition session_advances :: "session_type \<Rightarrow> session_type \<Rightarrow> bool" where
  "session_advances s s' \<longleftrightarrow>
     session_id s' = session_id s \<and> server_cycles s' = server_cycles s \<and> server_deadline s' = server_deadline s \<and>
     (tainted s \<longrightarrow> tainted s') \<and>
     (epochs s \<noteq> [] \<longrightarrow> epochs s' \<noteq> [] \<and> memory_range s' = memory_range s \<and>
        active_epoch_index s \<le> active_epoch_index s' \<and>
        (\<forall>i \<le> active_epoch_index s.
           (case sm_find (epochs s) i of
              None \<Rightarrow> sm_find (epochs s') i = None
            | Some e \<Rightarrow>
              (case sm_find (epochs s') i of
                 None \<Rightarrow> i < active_epoch_index s'
               | Some e' \<Rightarrow> epoch_advances e e'))))"

text \<open>More inputs waiting, and another query.\<close>

definition queued :: "epoch_type \<Rightarrow> epoch_type \<Rightarrow> bool" where
  "queued e e' \<longleftrightarrow>
     e'\<lparr>pending_inputs := [], pending_query := None\<rparr> = e\<lparr>pending_inputs := [], pending_query := None\<rparr> \<and>
     (\<exists>xs. pending_inputs e' = pending_inputs e @ xs)"

lemma queuedD:
  "queued e e' \<Longrightarrow> epoch_index e' = epoch_index e \<and> state e' = state e \<and>
     most_recent_machine_hash e' = most_recent_machine_hash e \<and> vouchers_tree e' = vouchers_tree e \<and>
     notices_tree e' = notices_tree e \<and> processed_inputs e' = processed_inputs e"
  by (cases e; cases e') (simp add: queued_def)

lemma queued_ok: "queued e e' \<Longrightarrow> epoch_ok K e' = epoch_ok K e \<and> outputs_ok K e' = outputs_ok K e"
  by (simp add: queuedD epoch_ok_def outputs_ok_def)

text \<open>An epoch without waiting inputs may also be finished, with the same results.\<close>

definition held_epoch :: "digest \<Rightarrow> epoch_type \<Rightarrow> epoch_type \<Rightarrow> bool" where
  "held_epoch K e e' \<longleftrightarrow> queued e e' \<or>
     pending_inputs e = [] \<and> pending_inputs e' = [] \<and> state e' = epoch_finished \<and> epoch_ok K e' \<and> outputs_ok K e' \<and>
     results e' = results e \<and> most_recent_machine_hash e' = most_recent_machine_hash e"

lemma queued_results: "queued e e' \<Longrightarrow> results e' = results e"
  by (simp add: results_def queuedD)

lemma held_epoch_results:
  "held_epoch K e e' \<Longrightarrow> results e' = results e \<and> most_recent_machine_hash e' = most_recent_machine_hash e"
  using queued_results [of e e'] queuedD [of e e'] by (auto simp: held_epoch_def)

text \<open>Equal up to the server address.\<close>

definition readdressed :: "session_type \<Rightarrow> session_type \<Rightarrow> bool" where
  "readdressed s s' \<longleftrightarrow> s'\<lparr>session_server_address := []\<rparr> = s\<lparr>session_server_address := []\<rparr>"

lemma readdressedD:
  "readdressed s s' \<Longrightarrow> session_object s' = session_object s \<and> session_id s' = session_id s \<and>
     session_lock s' = session_lock s \<and> processing_lock s' = processing_lock s \<and> tainted s' = tainted s \<and>
     server_stub s' = server_stub s \<and> current_mcycle s' = current_mcycle s \<and> memory_range s' = memory_range s \<and>
     active_epoch_index s' = active_epoch_index s \<and> processed_input_count s' = processed_input_count s \<and>
     epochs s' = epochs s \<and> server_deadline s' = server_deadline s \<and> server_cycles s' = server_cycles s"
  by (cases s; cases s') (simp add: readdressed_def)

lemma readdressed_simps [simp]: "readdressed s s" "readdressed s (s\<lparr>session_server_address := a\<rparr>)"
  by (simp_all add: readdressed_def)

lemma readdressed_trans: "readdressed s s' \<Longrightarrow> readdressed s' s'' \<Longrightarrow> readdressed s s''"
  by (simp add: readdressed_def)

text \<open>
  A session is protected while it is started and while its inputs are processed. This is what
  happens to it when someone else owns it: inputs are queued, epochs without waiting inputs
  are finished or deleted, and new epochs are in order.
\<close>

definition protected :: "session_type \<Rightarrow> bool" where
  "protected s \<longleftrightarrow> epochs s = [] \<or> processing_lock s \<and> session_ok s"

definition held :: "digest \<Rightarrow> session_type \<Rightarrow> session_type \<Rightarrow> bool" where
  "held K s s' \<longleftrightarrow>
     (epochs s = [] \<longrightarrow> readdressed s s') \<and>
     (epochs s \<noteq> [] \<and> protected s \<longrightarrow>
        processing_lock s' \<and> session_ok s' \<and>
        processed_input_count s' = processed_input_count s \<and> current_mcycle s' = current_mcycle s \<and>
        (\<forall>i \<le> active_epoch_index s. \<forall>e. sm_find (epochs s) i = Some e \<longrightarrow>
           (case sm_find (epochs s') i of
              None \<Rightarrow> pending_inputs e = []
            | Some e' \<Rightarrow> held_epoch K e e')) \<and>
        (\<forall>i e'. active_epoch_index s < i \<longrightarrow> sm_find (epochs s') i = Some e' \<longrightarrow> epoch_ok K e' \<and> outputs_ok K e'))"

lemma epoch_advances_same: "same_epoch e e' \<Longrightarrow> epoch_advances e e'"
  by (simp add: epoch_advances_def results_def same_epochD)

lemma epoch_advances_refl [simp]: "epoch_advances e e"
  by (simp add: epoch_advances_same)

lemma epoch_advances_trans:
  assumes "epoch_advances e e'" "epoch_advances e' e''"
  shows "epoch_advances e e''"
  using assms same_epochD [of e e'] by (auto simp: epoch_advances_def intro: same_epoch_trans)

lemma session_advances_refl [simp]: "session_advances s s"
  by (auto simp: session_advances_def split: option.split)

lemma session_advances_trans:
  assumes "session_advances s s'" "session_advances s' s''"
  shows "session_advances s s''"
proof -
  have "case sm_find (epochs s) i of None \<Rightarrow> sm_find (epochs s'') i = None
      | Some e \<Rightarrow> (case sm_find (epochs s'') i of None \<Rightarrow> i < active_epoch_index s'' | Some e' \<Rightarrow> epoch_advances e e')"
    if "epochs s \<noteq> []" "i \<le> active_epoch_index s" for i
  proof -
    have le: "epochs s' \<noteq> []" "active_epoch_index s \<le> active_epoch_index s'" "active_epoch_index s' \<le> active_epoch_index s''"
      using assms that by (auto simp: session_advances_def)
    then have i: "i \<le> active_epoch_index s'" using that(2) by simp
    have "case sm_find (epochs s) i of None \<Rightarrow> sm_find (epochs s') i = None
      | Some e \<Rightarrow> (case sm_find (epochs s') i of None \<Rightarrow> i < active_epoch_index s' | Some e' \<Rightarrow> epoch_advances e e')"
      using assms(1) that by (simp add: session_advances_def)
    moreover have "case sm_find (epochs s') i of None \<Rightarrow> sm_find (epochs s'') i = None
      | Some e \<Rightarrow> (case sm_find (epochs s'') i of None \<Rightarrow> i < active_epoch_index s'' | Some e' \<Rightarrow> epoch_advances e e')"
      using assms(2) le i by (simp add: session_advances_def)
    ultimately show ?thesis
      using le by (auto split: option.splits intro: epoch_advances_trans)
  qed
  then show ?thesis using assms unfolding session_advances_def by (auto intro: order_trans)
qed

lemma queued_same: "same_epoch e e' \<Longrightarrow> queued e e'"
  by (cases e; cases e') (simp add: queued_def same_epoch_def)

lemma queued_refl [simp]: "queued e e"
  by (simp add: queued_same)

lemma queued_trans: "queued e e' \<Longrightarrow> queued e' e'' \<Longrightarrow> queued e e''"
  by (auto simp: queued_def)

lemma queued_pending: "queued e e' \<Longrightarrow> pending_inputs e' = [] \<Longrightarrow> pending_inputs e = []"
  by (auto simp: queued_def)

lemma held_epoch_trans:
  assumes "held_epoch K e e'" "held_epoch K e' e''" "epoch_advances e' e''"
  shows "held_epoch K e e''"
proof (cases "queued e e'")
  case True
  then show ?thesis
    using assms(2) queued_trans [of e e' e''] queued_pending [of e e'] held_epoch_results [OF assms(1)] by (auto simp: held_epoch_def)
next
  case False
  then have e': "pending_inputs e = []" "pending_inputs e' = []" "state e' = epoch_finished" "epoch_ok K e'" "outputs_ok K e'"
    using assms(1) by (auto simp: held_epoch_def)
  then have "same_epoch e' e''" using assms(3) by (simp add: epoch_advances_def)
  then show ?thesis
    using e' held_epoch_results [OF assms(1)] same_epochD [of e' e''] same_epoch_ok [of e' e''] by (simp add: held_epoch_def results_def)
qed

lemma held_epoch_ok: "held_epoch K e e' \<Longrightarrow> epoch_ok K e \<and> outputs_ok K e \<Longrightarrow> epoch_ok K e' \<and> outputs_ok K e'"
  using queued_ok [of e e'] by (auto simp: held_epoch_def)

lemma held_epoch_refl [simp]: "held_epoch K e e"
  by (simp add: held_epoch_def)

lemma held_refl [simp]: "held K s s"
proof -
  have "\<not> active_epoch_index s < i" if "session_ok s" "sm_find (epochs s) i = Some e" for i e
    using that by (auto simp: session_ok_def not_less)
  then show ?thesis by (auto simp: held_def protected_def split: option.split)
qed

text \<open>What both relations say about an epoch of a protected session.\<close>

lemma held_find:
  assumes "held K s s'" "session_advances s s'" "protected s" "epochs s \<noteq> []" "i \<le> active_epoch_index s"
  shows "sm_find (epochs s) i = None \<Longrightarrow> sm_find (epochs s') i = None"
    and "sm_find (epochs s) i = Some e \<Longrightarrow> sm_find (epochs s') i = None \<Longrightarrow> pending_inputs e = []"
    and "sm_find (epochs s) i = Some e \<Longrightarrow> sm_find (epochs s') i = Some e' \<Longrightarrow> held_epoch K e e' \<and> epoch_advances e e'"
proof -
  have "case sm_find (epochs s) i of None \<Rightarrow> sm_find (epochs s') i = None
      | Some e \<Rightarrow> (case sm_find (epochs s') i of None \<Rightarrow> i < active_epoch_index s' | Some e' \<Rightarrow> epoch_advances e e')"
    using assms by (simp add: session_advances_def)
  moreover have "\<forall>e. sm_find (epochs s) i = Some e \<longrightarrow>
      (case sm_find (epochs s') i of None \<Rightarrow> pending_inputs e = [] | Some e' \<Rightarrow> held_epoch K e e')"
    using assms by (simp add: held_def)
  ultimately show "sm_find (epochs s) i = None \<Longrightarrow> sm_find (epochs s') i = None"
    "sm_find (epochs s) i = Some e \<Longrightarrow> sm_find (epochs s') i = None \<Longrightarrow> pending_inputs e = []"
    "sm_find (epochs s) i = Some e \<Longrightarrow> sm_find (epochs s') i = Some e' \<Longrightarrow> held_epoch K e e' \<and> epoch_advances e e'"
    by auto
qed

lemma heldI:
  assumes "epochs s \<noteq> []" "session_ok s'" "processing_lock s' = processing_lock s"
    "processed_input_count s' = processed_input_count s" "current_mcycle s' = current_mcycle s"
    "\<And>i e. sm_find (epochs s) i = Some e \<Longrightarrow>
       (case sm_find (epochs s') i of None \<Rightarrow> pending_inputs e = [] | Some e' \<Rightarrow> held_epoch K e e')"
    "\<And>i e'. active_epoch_index s < i \<Longrightarrow> sm_find (epochs s') i = Some e' \<Longrightarrow> epoch_ok K e' \<and> outputs_ok K e'"
  shows "held K s s'"
  using assms unfolding held_def protected_def by auto

lemma session_ok_beyond: "session_ok s \<Longrightarrow> active_epoch_index s < i \<Longrightarrow> sm_find (epochs s) i = None"
  by (cases "sm_find (epochs s) i") (auto simp: session_ok_def not_less dest: leD)

lemma held_trans:
  assumes "held K s s'" "held K s' s''" "session_advances s s'" "session_advances s' s''"
  shows "held K s s''"
proof (cases "epochs s = [] \<or> \<not> protected s")
  case True
  then show ?thesis
    using assms(1,2) readdressedD [of s s'] by (auto simp: held_def intro: readdressed_trans)
next
  case False
  then have s: "epochs s \<noteq> []" "protected s" by simp_all
  then have s': "epochs s' \<noteq> []" "protected s'" "active_epoch_index s \<le> active_epoch_index s'"
    using assms(1,3) by (auto simp: held_def protected_def session_advances_def)
  note f1 = held_find [OF assms(1,3) s(2,1)] and f2 = held_find [OF assms(2,4) s'(2,1)]
  have "case sm_find (epochs s'') i of None \<Rightarrow> pending_inputs e = [] | Some e' \<Rightarrow> held_epoch K e e'"
    if i: "i \<le> active_epoch_index s" "sm_find (epochs s) i = Some e" for i e
  proof -
    have i': "i \<le> active_epoch_index s'" using i(1) s'(3) by simp
    show ?thesis
    proof (cases "sm_find (epochs s') i")
      case None
      then show ?thesis using f1(2) [OF i] f2(1) [OF i'] by simp
    next
      case (Some e')
      have h1: "held_epoch K e e'" using f1(3) [OF i Some] by simp
      then have "pending_inputs e' = [] \<Longrightarrow> pending_inputs e = []"
        by (auto simp: held_epoch_def dest: queued_pending)
      then show ?thesis
        using h1 f2(2,3) [OF i' Some] by (auto split: option.split intro: held_epoch_trans)
    qed
  qed
  moreover have "epoch_ok K e'' \<and> outputs_ok K e''"
    if i: "active_epoch_index s < i" "sm_find (epochs s'') i = Some e''" for i e''
  proof (cases "i \<le> active_epoch_index s'")
    case False
    then have "active_epoch_index s' < i" by simp
    then show ?thesis using assms(2) s' i(2) by (simp add: held_def)
  next
    case True
    then obtain e' where e': "sm_find (epochs s') i = Some e'" using f2(1) [OF True] i(2) by (cases "sm_find (epochs s') i") auto
    then have "epoch_ok K e' \<and> outputs_ok K e'" using assms(1) s i(1) by (auto simp: held_def)
    then show ?thesis using f2(3) [OF True e' i(2)] held_epoch_ok by blast
  qed
  ultimately show ?thesis using assms(1,2) s s' unfolding held_def by auto
qed

text \<open>Between two contexts; the sessions in \<open>P\<close> belong to someone else.\<close>

definition evolves :: "digest \<Rightarrow> (session_ref \<Rightarrow> bool) \<Rightarrow> handler_context \<Rightarrow> handler_context \<Rightarrow> bool" where
  "evolves K P h h' \<longleftrightarrow> next_object h \<le> next_object h' \<and>
     (\<forall>r s'. deref r h' = Inr s' \<longrightarrow> ref_object r < next_object h \<longrightarrow>
        (\<exists>s. deref r h = Inr s \<and> session_advances s s' \<and> (P r \<longrightarrow> held K s s')))"

lemma evolves_refl [simp]: "evolves K P h h"
  by (simp add: evolves_def)

lemma evolves_trans:
  assumes "evolves K P h h'" "evolves K P h' h''"
  shows "evolves K P h h''"
  unfolding evolves_def
proof (intro conjI allI impI)
  show "next_object h \<le> next_object h''" using assms by (simp add: evolves_def)
  fix r s'' assume s'': "deref r h'' = Inr s''" "ref_object r < next_object h"
  then have "ref_object r < next_object h'" using assms(1) by (simp add: evolves_def)
  then obtain s' where s': "deref r h' = Inr s'" "session_advances s' s''" "P r \<longrightarrow> held K s' s''"
    using assms(2) s''(1) by (auto simp: evolves_def)
  obtain s where s: "deref r h = Inr s" "session_advances s s'" "P r \<longrightarrow> held K s s'"
    using assms(1) s'(1) s''(2) by (auto simp: evolves_def)
  show "\<exists>s. deref r h = Inr s \<and> session_advances s s'' \<and> (P r \<longrightarrow> held K s s'')"
    using s s' session_advances_trans held_trans by blast
qed

lemma evolves_weaken: "evolves K P h h' \<Longrightarrow> (\<And>r. Q r \<Longrightarrow> P r) \<Longrightarrow> evolves K Q h h'"
  by (fastforce simp: evolves_def)

section \<open>Ownership\<close>

lemma held_protected: "held K s s' \<Longrightarrow> session_advances s s' \<Longrightarrow> protected s \<Longrightarrow> protected s'"
  using readdressedD [of s s'] by (cases "epochs s = []") (simp_all add: held_def protected_def)

text \<open>A session that is owned, if it still exists, is protected.\<close>

definition owned :: "session_ref \<Rightarrow> handler_context \<Rightarrow> bool" where
  "owned r h \<longleftrightarrow> ref_object r < next_object h \<and> (\<forall>s. deref r h = Inr s \<longrightarrow> protected s)"

text \<open>A session can be taken in a segment if it is new, or was not protected at its start.\<close>

definition free :: "session_ref \<Rightarrow> handler_context \<Rightarrow> bool" where
  "free r h \<longleftrightarrow> next_object h \<le> ref_object r \<or> (\<exists>s. deref r h = Inr s \<and> \<not> protected s)"

text \<open>A reply of \<open>FinishEpoch\<close> is built from an epoch that satisfied its invariant when it was finished.\<close>

definition certified :: "digest \<Rightarrow> yield_point \<Rightarrow> bool" where
  "certified K y \<longleftrightarrow> (\<forall>response. y = Finish (Finish_epoch response) \<longrightarrow>
     (\<exists>e. epoch_ok K e \<and> outputs_ok K e \<and> set_proto_finish_epoch_response (fst (finish_epoch e)) = Inr response))"

lemma plain_certified: "plain y \<Longrightarrow> certified K y"
  by (simp add: plain_def certified_def)

definition rely :: "digest \<Rightarrow> session_ref set \<Rightarrow> handler_context \<Rightarrow> handler_context \<Rightarrow> bool" where
  "rely K g h h' \<longleftrightarrow> server_inv K h' \<and> evolves K (\<lambda>r. r \<in> g) h h'"

definition guarantee ::
  "digest \<Rightarrow> session_ref set \<Rightarrow> handler_context \<Rightarrow> yield_point \<Rightarrow> session_ref set \<Rightarrow> handler_context \<Rightarrow> bool" where
  "guarantee K g h0 y g' h \<longleftrightarrow> server_inv K h \<and> evolves K (\<lambda>r. r \<notin> g) h0 h \<and>
     (\<forall>r \<in> g'. owned r h \<and> (r \<in> g \<or> free r h0)) \<and> certified K y"

text \<open>The segments of other coroutines respect what a coroutine owns, and ownership stays exclusive.\<close>

lemma guarantee_rely:
  assumes "guarantee K g h0 y g' h" "f \<inter> g = {}"
  shows "rely K f h0 h"
  using assms unfolding guarantee_def rely_def by (auto intro: evolves_weaken)

lemma owned_kept:
  assumes "rely K g h h'" "r \<in> g" "owned r h"
  shows "owned r h'"
proof -
  have "protected s'" if s': "deref r h' = Inr s'" for s'
  proof -
    obtain s where "deref r h = Inr s" "session_advances s s'" "held K s s'"
      using assms s' unfolding rely_def evolves_def owned_def by blast
    then show ?thesis using held_protected assms(3) by (auto simp: owned_def)
  qed
  moreover have "ref_object r < next_object h'" using assms by (auto simp: rely_def evolves_def owned_def)
  ultimately show ?thesis by (simp add: owned_def)
qed

lemma owned_not_free: "owned r h \<Longrightarrow> free r h \<Longrightarrow> False"
  by (auto simp: owned_def free_def)

lemma guarantee_exclusive:
  assumes "guarantee K g h0 y g' h" "f \<inter> g = {}" "\<forall>r \<in> f. owned r h0"
  shows "f \<inter> g' = {}"
  using assms owned_not_free by (fastforce simp: guarantee_def)

lemma rely_trans: "rely K g h h' \<Longrightarrow> rely K g h' h'' \<Longrightarrow> rely K g h h''"
  unfolding rely_def by (blast intro: evolves_trans)

lemma rely_refl: "server_inv K h \<Longrightarrow> rely K g h h"
  by (simp add: rely_def)

end
