(* ===== verification/Store_Window.thy ===== *)
theory Store_Window
  imports Shared_State Advance_Correctness
begin

text \<open>
  The interleaving that the invariant of the shared state does not survive: \<open>FinishEpoch\<close> yields
  while the machine is stored, and an \<open>AdvanceState\<close> that ends meanwhile clears its lock.
\<close>

section \<open>An \<open>AdvanceState\<close> that waits for a query\<close>

text \<open>
  The rest of \<open>AdvanceState\<close> once the query it waited for is answered: the loop over the queue,
  then the destructors of its two locks.
\<close>

definition advance_after_query ::
  "nat \<Rightarrow> nat \<Rightarrow> digest \<Rightarrow> coroutine \<Rightarrow> id_type \<Rightarrow> session_ref \<Rightarrow> u64 \<Rightarrow> unit handler" where
  "advance_after_query n fuel K self sid r i =
     try_catch
       (on_scope_exit (lock_destructor Session_lock r)
         (on_scope_exit (lock_destructor Processing_lock r)
           (process_inputs_loop n fuel K \<lparr>actx_session = r, actx_self = self\<rparr> i)))
       (AdvanceState_catch K self sid)"

text \<open>This is the continuation with which it waits, in the middle of a round of the loop.\<close>

lemma advance_waits_for_query:
  assumes "deref r h = Inr s" "sm_find (epochs s) i = Some e" "pending_query e = Some q" "q_coroutine q = Some c"
  shows "\<exists>h1. try_catch
       (on_scope_exit (lock_destructor Session_lock r)
         (on_scope_exit (lock_destructor Processing_lock r)
           (thenP (resume_pending_query r i self) (process_inputs_loop n fuel K \<lparr>actx_session = r, actx_self = self\<rparr> i))))
       (AdvanceState_catch K self sid) h =
     Suspend h1 Wait_resume (\<lambda>_. advance_after_query n fuel K self sid r i)"
proof -
  have "deref r (h\<lparr>completion_queue := cs\<rparr>) = Inr s" for cs using assms(1) by (simp add: deref_Inr_iff)
  then show ?thesis
    using assms
    by (auto simp: advance_after_query_def try_catch_def on_scope_exit_def resume_pending_query_def exec deref_epoch_def
        enqueue_completion_queue_def set_query_def get_query_def suspend_def write_epoch_def write_session_def fun_eq_iff)
qed

text \<open>With nothing left in the queue it clears both locks, whoever holds them.\<close>

lemma advance_after_query_ends:
  assumes "deref r h = Inr s" "sm_find (epochs s) i = Some e" "pending_inputs e = []" "0 < n"
  shows "advance_after_query n fuel K self sid r i h =
    Done (assign_session r (s\<lparr>processing_lock := False, session_lock := False\<rparr>) h) (Inr ())"
proof -
  have "session_object s = ref_object r" using assms(1) by (simp add: deref_Inr_iff)
  then show ?thesis
    using assms
    by (cases n) (simp_all add: advance_after_query_def try_catch_def on_scope_exit_def exec deref_epoch_def run_destructor_def
        lock_destructor_def write_session_def)
qed

text \<open>
  If the epoch was finished and deleted while it waited, the loop looks at the queue of an epoch that
  is gone.
\<close>

lemma advance_after_query_deleted:
  assumes "deref r h = Inr s" "sm_find (epochs s) i = None" "0 < n"
  shows "advance_after_query n fuel K self sid r i h = Done h (Inl dangling)"
  using assms
  by (cases n) (simp_all add: advance_after_query_def try_catch_def on_scope_exit_def exec deref_epoch_def run_destructor_def
      dangling_def)

section \<open>\<open>FinishEpoch\<close> with a storage directory\<close>

text \<open>What it does when the machine is stored.\<close>

definition after_store :: "digest \<Rightarrow> session_ref \<Rightarrow> u64 \<Rightarrow> wake \<Rightarrow> unit handler" where
  "after_store K r i w =
     report_exceptions
       (on_scope_exit (lock_destructor Session_lock r)
         (thenP (CHECK_STATUS_OR_FAIL (call_status w) ''store'')
           (bindP (close_epoch K r i) (\<lambda>response. finish (Finish_epoch response)))))"

lemma finish_epoch_stores:
  assumes "um_find (sessions h) sid = Some s" "\<not> session_lock s" "\<not> tainted s"
    and r: "r = \<lparr>ref_id = sid, ref_object = session_object s\<rparr>"
    and "active_epoch_index s \<noteq> - 1" "server_stub s = Some address"
    and "sm_find (epochs s) (active_epoch_index s) = Some e" "pending_inputs e = []" "state e = epoch_active"
    and "request = \<lparr>fer_session_id = sid, fer_active_epoch_index = active_epoch_index s,
           fer_processed_input_count_within_epoch = of_nat (length (processed_inputs e)), fer_storage_directory = dir\<rparr>" "dir \<noteq> []"
  shows "FinishEpoch_handler K self True peer request h =
    Suspend (entered ''FinishEpoch'' peer r s h) (Machine_call address (M_Store dir) (dl_store (server_deadline s)))
      (after_store K r (active_epoch_index s))"
proof -
  let ?h = "entered ''FinishEpoch'' peer r s h"
  have d0: "deref r h = Inr s" using assms(1,4) by (simp add: deref_Inr_iff)
  have d: "deref r ?h = Inr (s\<lparr>session_lock := True, session_lock_reason := get_session_lock_reason ''FinishEpoch'' peer\<rparr>)"
    using deref_entered [OF assms(1,4)] .
  have checks: "check_not_tainted p r ?h = Done ?h (Inr ())" "check_epoch_can_finish request r ?h = Done ?h (Inr ())" for p
    using d assms by (auto simp: check_not_tainted_def check_epoch_can_finish_def exec)
  show ?thesis
    using enter_session_runs [where pre = check_epoch_overflow, OF assms(1,2,4)
        check_epoch_overflow_passes [OF d0 assms(5)], of "''FinishEpoch''" peer] checks d assms(6,10,11)
    by (simp add: FinishEpoch_handler_def report_exceptions_def try_catch_def bindP_def thenP_def store_def machine_call_def
        suspend_def get_session_def gets_def after_store_def on_scope_exit_def fun_eq_iff)
qed

text \<open>It finishes the active epoch as it finds it, waiting inputs included.\<close>

lemma after_store_finishes:
  assumes "deref r h = Inr s" "session_ok s" "active_epoch_index s \<noteq> - 1" "is_ok (call_status w)"
    and "sm_find (epochs s) (active_epoch_index s) = Some e" "epoch_ok K e" "outputs_hashed e"
  shows "\<exists>h' s' response. after_store K r (active_epoch_index s) w h = Suspend h' (Finish (Finish_epoch response)) (\<lambda>_ h'. left r h') \<and>
    deref r h' = Inr s' \<and> active_epoch_index s' = active_epoch_index s + 1 \<and>
    sm_find (epochs s') (active_epoch_index s) = Some (fst (finish_epoch e)) \<and>
    state (fst (finish_epoch e)) = epoch_finished \<and> pending_inputs (fst (finish_epoch e)) = pending_inputs e"
proof -
  obtain h' s' response where c: "close_epoch K r (active_epoch_index s) h = Done h' (Inr response)" "h' = assign_session r s' h"
      "active_epoch_index s' = active_epoch_index s + 1" "session_object s' = session_object s"
      "sm_find (epochs s') (active_epoch_index s) = Some (fst (finish_epoch e))"
    using close_epoch_correct [OF assms(1-3,5-7)] by blast
  have "deref r h' = Inr s'" using c(2,4) assms(1) by (simp add: deref_Inr_iff)
  moreover have "state (fst (finish_epoch e)) = epoch_finished" "pending_inputs (fst (finish_epoch e)) = pending_inputs e"
    using finish_epoch_ok [OF assms(6)] by auto
  moreover have "after_store K r (active_epoch_index s) w h = Suspend h' (Finish (Finish_epoch response)) (\<lambda>_ h'. left r h')"
    using assms(4) c(1)
    by (simp add: after_store_def report_exceptions_def try_catch_def on_scope_exit_def bindP_def thenP_def CHECK_STATUS_OR_FAIL_def
        ret_def scope_finish catch_left)
  ultimately show ?thesis using c by blast
qed

lemma finished_without_waiting:
  assumes "server_inv K h" "deref r h = Inr s" "sm_find (epochs s) i = Some e" "i \<noteq> active_epoch_index s"
  shows "pending_inputs e = []"
proof -
  have "epoch_inv K s i e" using server_inv_deref [OF assms(1,2)] assms(3) by (auto simp: session_inv_def split: if_splits)
  then show ?thesis using assms(4) by (simp add: epoch_inv_def)
qed

section \<open>Claims\<close>

text \<open>
  Claim C40. A \<open>FinishEpoch\<close> that stores the machine can finish an epoch whose last input was
  accepted but never processed. After its checks it yields until the machine is stored, protected by
  the session lock alone. An \<open>AdvanceState\<close> that had waited for a query ends meanwhile: it finds its
  queue empty and its destructors clear both locks of the session. The next \<open>AdvanceState\<close> is
  acknowledged. \<open>FinishEpoch\<close> does not look at the epoch again and finishes it with that input in its
  queue, so that the invariant of the shared state is lost.
\<close>

theorem finish_epoch_store_window:
  assumes "um_find (sessions h) sid = Some s" "\<not> session_lock s" "\<not> tainted s"
    and "r = \<lparr>ref_id = sid, ref_object = session_object s\<rparr>"
    and "session_ok s" "active_epoch_index s \<noteq> - 1" "server_stub s = Some address"
    and "sm_find (epochs s) (active_epoch_index s) = Some e" "pending_inputs e = []" "epoch_ok K e" "outputs_hashed e"
    and "request = \<lparr>fer_session_id = sid, fer_active_epoch_index = active_epoch_index s,
           fer_processed_input_count_within_epoch = of_nat (length (processed_inputs e)), fer_storage_directory = dir\<rparr>" "dir \<noteq> []"
    and "asr_session_id arrival = sid" "acceptable_input arrival s e = Some input" "0 < n" "is_ok (call_status w)"
  shows "\<exists>h1 k h2 h3 k3 h4 k4 response s4 fin.
    FinishEpoch_handler K self True peer request h =
      Suspend h1 (Machine_call address (M_Store dir) (dl_store (server_deadline s))) k \<and>
    advance_after_query n fuel K self2 sid r (active_epoch_index s) h1 = Done h2 (Inr ()) \<and>
    AdvanceState_handler fuel K self3 True peer3 arrival h2 = Suspend h3 (Finish Void_response) k3 \<and>
    k w h3 = Suspend h4 (Finish (Finish_epoch response)) k4 \<and>
    deref r h4 = Inr s4 \<and> sm_find (epochs s4) (active_epoch_index s) = Some fin \<and>
    state fin = epoch_finished \<and> pending_inputs fin = [input] \<and> \<not> server_inv K h4"
proof -
  let ?a = "active_epoch_index s"
  let ?h1 = "entered ''FinishEpoch'' peer r s h"
  let ?s1 = "s\<lparr>session_lock := True, session_lock_reason := get_session_lock_reason ''FinishEpoch'' peer\<rparr>"
  let ?s2 = "?s1\<lparr>processing_lock := False, session_lock := False\<rparr>" and ?h2 = "assign_session r (?s1\<lparr>processing_lock := False, session_lock := False\<rparr>) ?h1"
  let ?h3 = "entered ''AdvanceState'' peer3 r (add_input input ?s2 e) ?h2" and ?e = "e\<lparr>pending_inputs := [input]\<rparr>"
  let ?s3 = "(add_input input ?s2 e)\<lparr>session_lock := True, session_lock_reason := get_session_lock_reason ''AdvanceState'' peer3\<rparr>"
  have active: "state e = epoch_active" using assms(5,8) by (auto simp: session_ok_def)
  note stores = finish_epoch_stores [OF assms(1-4,6-9) active assms(12,13), of K self peer]
  have d1: "deref r ?h1 = Inr ?s1" using deref_entered [OF assms(1,4)] .
  have ends: "advance_after_query n fuel K self2 sid r ?a ?h1 = Done ?h2 (Inr ())"
    using advance_after_query_ends [OF d1 _ assms(9,16)] assms(8) by simp
  have accepted: "acceptable_input arrival ?s2 e = Some input" using assms(15) by (simp add: acceptable_input_def)
  have s2: "um_find (sessions ?h2) (asr_session_id arrival) = Some ?s2" using assms(4,14) by (simp add: assign_session_def)
  have accepts: "\<exists>k3. AdvanceState_handler fuel K self3 True peer3 arrival ?h2 = Suspend ?h3 (Finish Void_response) k3"
    using advance_state_runs [OF s2 _ _ _ _ accepted, where r = r] assms(4,6,8,14) by simp
  have d3: "deref r ?h3 = Inr ?s3" using assms(4) by (simp add: entered_def add_input_def)
  have valid: "sm_valid (epochs s)" using assms(5) by (simp add: session_ok_def)
  have find3: "sm_find (epochs ?s3) j = (if j = ?a then Some ?e else sm_find (epochs s) j)" for j
    using valid assms(9) by (simp add: add_input_def sm_find_assign)
  have ok3: "session_ok ?s3"
    using assms(5,8) active valid find3 sm_valid_assign [OF valid] by (auto simp: session_ok_def add_input_def split: if_splits)
  have e3: "epoch_ok K ?e" "outputs_hashed ?e" using assms(10,11) by (simp_all add: epoch_ok_def outputs_hashed_def)
  have a3: "active_epoch_index ?s3 = ?a" by (simp add: add_input_def)
  obtain h4 s4 response where f: "after_store K r ?a w ?h3 = Suspend h4 (Finish (Finish_epoch response)) (\<lambda>_ h'. left r h')"
      "deref r h4 = Inr s4" "active_epoch_index s4 = ?a + 1" "sm_find (epochs s4) ?a = Some (fst (finish_epoch ?e))"
      "state (fst (finish_epoch ?e)) = epoch_finished" "pending_inputs (fst (finish_epoch ?e)) = [input]"
    using after_store_finishes [OF d3 ok3 _ assms(17) _ e3] find3 assms(6) a3 by auto
  have "?a \<noteq> active_epoch_index s4" using f(3) by simp
  then have "\<not> server_inv K h4" using finished_without_waiting [OF _ f(2,4)] f(6) by auto
  then show ?thesis using stores ends accepts f by blast
qed

theorem finish_epoch_store_window_witness:
  "\<exists>h1 k h2 h3 k3 h4 k4 response s4 fin input.
    FinishEpoch_handler sample_digest 0 True ''peer''
      \<lparr>fer_session_id = ''s'', fer_active_epoch_index = 4, fer_processed_input_count_within_epoch = 1,
       fer_storage_directory = ''/tmp/store''\<rparr> (window_context None) =
      Suspend h1 (Machine_call ''localhost:1'' (M_Store ''/tmp/store'') 1000) k \<and>
    advance_after_query 5 5 sample_digest 1 ''s'' sample_ref 4 h1 = Done h2 (Inr ()) \<and>
    AdvanceState_handler 5 sample_digest 2 True ''peer'' (sample_request (processed_input_count sample_session)) h2 =
      Suspend h3 (Finish Void_response) k3 \<and>
    k ok_wake h3 = Suspend h4 (Finish (Finish_epoch response)) k4 \<and>
    deref sample_ref h4 = Inr s4 \<and> sm_find (epochs s4) 4 = Some fin \<and> pending_inputs fin = [input] \<and>
    \<not> server_inv sample_digest h4"
proof -
  let ?req = "sample_request (processed_input_count sample_session)"
  let ?fer = "\<lparr>fer_session_id = ''s'', fer_active_epoch_index = active_epoch_index (window_session None),
      fer_processed_input_count_within_epoch = of_nat (length (processed_inputs (window_epoch None))), fer_storage_directory = ''/tmp/store''\<rparr>"
  note w = window [of None]
  obtain input where input: "acceptable_input ?req (window_session None) (window_epoch None) = Some input"
    using sample_request_accepted w by blast
  have s: "session_ok (window_session None)" "active_epoch_index (window_session None) \<noteq> - 1"
      "server_stub (window_session None) = Some ''localhost:1''" "dl_store (server_deadline (window_session None)) = 1000"
      "sm_find (epochs (window_session None)) (active_epoch_index (window_session None)) = Some (window_epoch None)"
    using w sample_epoch_ok(5,6)
    by (simp_all add: session_ok_def window_session_def window_epoch_def sample_session_def sm_valid_def sm_find_def)
  have e: "epoch_ok sample_digest (window_epoch None)" "outputs_hashed (window_epoch None)"
      "processed_inputs (window_epoch None) = [sample_input]"
    using sample_epoch_ok outputs_ok_hashed [OF sample_epoch_ok(2)] by (simp_all add: window_epoch_def epoch_ok_def outputs_hashed_def)
  have other: "''/tmp/store'' \<noteq> []" "asr_session_id ?req = ''s''" "(0::nat) < 5" "is_ok (call_status ok_wake)"
    by (simp_all add: sample_request_def ok_wake_def is_ok_def status_ok_def)
  from finish_epoch_store_window [OF w(1,3,11,13) s(1-3,5) w(8) e(1,2) refl other(1,2) input other(3,4), of 0 "''peer''" 5 1 2 "''peer''"]
  show ?thesis unfolding s(4) w(4) e(3) by auto
qed

end
