(* ===== verification/Handler_Logic.thy ===== *)
theory Handler_Logic
  imports Shared_State
begin

text \<open>
  The rules for handlers on the shared state: what a coroutine may do to a session it does not
  own, and the assertion such a coroutine keeps from one yield to the next.
\<close>

section \<open>Writing through a reference\<close>

lemma touches_assign:
  assumes "deref r h = Inr s" "session_object s' = session_object s" "sim s s'"
  shows "touches sim r h (assign_session r s' h)"
proof -
  have "session_object s' = ref_object r" using assms(1,2) by (simp add: deref_Inr_iff)
  moreover have "um_valid (sessions h) \<longrightarrow> um_valid (sessions (assign_session r s' h))"
    using um.valid_assign by (auto simp: assign_session_def)
  moreover have "next_object (assign_session r s' h) = next_object h" by (simp add: assign_session_def)
  ultimately show ?thesis using assms by (simp add: touches_def)
qed

lemma touches_other:
  assumes "touches sim r h h'" "t \<noteq> r"
  shows "deref t h' = Inr s \<longleftrightarrow> deref t h = Inr s"
proof (cases "ref_id t = ref_id r")
  case False
  then show ?thesis using assms(1) by (simp add: touches_def deref_Inr_iff)
next
  case True
  then have o: "ref_object t \<noteq> ref_object r" using assms(2) by auto
  show ?thesis
  proof (cases "deref r h")
    case (Inl x)
    then show ?thesis using assms(1) True by (simp add: touches_def deref_Inr_iff)
  next
    case (Inr s0)
    then obtain s1 where "deref r h' = Inr s1" using assms(1) by (auto simp: touches_def)
    then show ?thesis using Inr True o by (auto simp: deref_Inr_iff)
  qed
qed

lemma touches_present:
  "touches sim r h h' \<Longrightarrow> deref r h' = Inr s' \<Longrightarrow> \<exists>s. deref r h = Inr s \<and> sim s s'"
  by (auto simp: touches_def deref_Inr_iff split: sum.splits) (auto simp: deref_def split: option.splits if_splits)

lemma evolves_touches:
  assumes "evolves K P h0 h" "touches sim r h h'"
    and "\<And>s s'. deref r h = Inr s \<Longrightarrow> sim s s' \<Longrightarrow> session_advances s s'"
    and "\<And>s0 s s'. P r \<Longrightarrow> ref_object r < next_object h0 \<Longrightarrow> deref r h0 = Inr s0 \<Longrightarrow> deref r h = Inr s \<Longrightarrow> sim s s' \<Longrightarrow>
       session_advances s0 s \<Longrightarrow> held K s0 s \<Longrightarrow> held K s0 s'"
  shows "evolves K P h0 h'"
  unfolding evolves_def
proof (intro conjI allI impI)
  show "next_object h0 \<le> next_object h'" using assms(1,2) by (simp add: evolves_def touches_def)
  fix t s' assume s': "deref t h' = Inr s'" "ref_object t < next_object h0"
  show "\<exists>s. deref t h0 = Inr s \<and> session_advances s s' \<and> (P t \<longrightarrow> held K s s')"
  proof (cases "t = r")
    case False
    then show ?thesis using assms(1) s' touches_other [OF assms(2) False] by (simp add: evolves_def)
  next
    case True
    then obtain s where s: "deref r h = Inr s" "sim s s'" using touches_present [OF assms(2)] s'(1) by auto
    then obtain s0 where "deref r h0 = Inr s0" "session_advances s0 s" "P r \<longrightarrow> held K s0 s"
      using assms(1) s'(2) True unfolding evolves_def by blast
    then show ?thesis using assms(3,4) s s'(2) True session_advances_trans by blast
  qed
qed

lemma server_inv_touches:
  assumes "server_inv K h" "touches sim r h h'"
    and "\<And>s s'. deref r h = Inr s \<Longrightarrow> sim s s' \<Longrightarrow> session_inv K s \<Longrightarrow> session_inv K s' \<and> session_id s' = session_id s"
  shows "server_inv K h'"
proof -
  have n: "um_valid (sessions h')" "next_object h' = next_object h"
    using assms(1,2) by (simp_all add: server_inv_def touches_def)
  have "session_id s' = sid \<and> session_object s' < next_object h' \<and> session_inv K s'"
    if s': "um_find (sessions h') sid = Some s'" for sid s'
  proof (cases "\<lparr>ref_id = sid, ref_object = session_object s'\<rparr> = r")
    case False
    let ?t = "\<lparr>ref_id = sid, ref_object = session_object s'\<rparr>"
    have "deref ?t h' = Inr s'" using s' by (simp add: deref_Inr_iff)
    then have "deref ?t h = Inr s'" using touches_other [OF assms(2) False, of s'] by simp
    then show ?thesis using server_inv_deref [OF assms(1), of ?t s'] n(2) by simp
  next
    case True
    then have r: "sid = ref_id r" "session_object s' = ref_object r" by auto
    then have "deref r h' = Inr s'" using s' by (simp add: deref_Inr_iff)
    then obtain s where s: "deref r h = Inr s" "sim s s'" using touches_present [OF assms(2)] by blast
    then show ?thesis using server_inv_deref [OF assms(1) s(1)] assms(3) [OF s] n(2) r by simp
  qed
  then show ?thesis using n(1) by (simp add: server_inv_def)
qed

section \<open>Legal changes\<close>

text \<open>A change anyone may make to an established session, whoever owns it.\<close>

definition legal :: "digest \<Rightarrow> session_type \<Rightarrow> session_type \<Rightarrow> bool" where
  "legal K s s' \<longleftrightarrow> (session_inv K s \<and> epochs s \<noteq> [] \<longrightarrow>
     session_advances s s' \<and> held K s s' \<and> session_inv K s' \<and> session_id s' = session_id s)"

lemma legal_refl: "legal K s s"
  by (simp add: legal_def)

lemma legal_trans:
  assumes "legal K s s'" "legal K s' s''"
  shows "legal K s s''"
  unfolding legal_def
proof
  assume s: "session_inv K s \<and> epochs s \<noteq> []"
  then have 1: "session_advances s s'" "held K s s'" "session_inv K s'" "session_id s' = session_id s"
    using assms(1) by (auto simp: legal_def)
  then have "epochs s' \<noteq> []" using s by (simp add: session_advances_def)
  then have 2: "session_advances s' s''" "held K s' s''" "session_inv K s''" "session_id s'' = session_id s'"
    using assms(2) 1 by (auto simp: legal_def)
  show "session_advances s s'' \<and> held K s s'' \<and> session_inv K s'' \<and> session_id s'' = session_id s"
    using 1 2 session_advances_trans held_trans by metis
qed

text \<open>Epochs that differ in their pending queries only.\<close>

definition requeried :: "(u64, epoch_type) std_map \<Rightarrow> (u64, epoch_type) std_map \<Rightarrow> bool" where
  "requeried m m' \<longleftrightarrow> (sm_valid m \<longrightarrow> sm_valid m' \<and> (\<forall>i. rel_option same_epoch (sm_find m i) (sm_find m' i)))"

lemma requeried_refl [simp]: "requeried m m"
  by (simp add: requeried_def option.rel_refl)

lemma requeried_trans:
  assumes "requeried m m'" "requeried m' m''"
  shows "requeried m m''"
proof -
  have "rel_option same_epoch a c" if "rel_option same_epoch a b" "rel_option same_epoch b c" for a b c
    using that by (cases a; cases b; cases c) (auto intro: same_epoch_trans)
  then show ?thesis using assms unfolding requeried_def by blast
qed

lemma requeried_assign:
  assumes "sm_find m i = Some e" "same_epoch e e'"
  shows "requeried m (sm_assign i e' m)"
  using assms by (auto simp: requeried_def sm_valid_assign sm_find_assign option.rel_refl)

lemma requeried_find:
  assumes "requeried m m'" "sm_valid m"
  shows "sm_find m i = None \<Longrightarrow> sm_find m' i = None"
    and "sm_find m i = Some e \<Longrightarrow> \<exists>e'. sm_find m' i = Some e' \<and> same_epoch e e'"
    and "sm_find m' i = Some e' \<Longrightarrow> \<exists>e. sm_find m i = Some e \<and> same_epoch e e'"
  using assms by (auto simp: requeried_def option_rel_Some1 option_rel_Some2 dest!: spec [of _ i])

lemma sm_find_Cons: "sm_find ((k, e) # m) k = Some e"
  by (simp add: sm_find_def)

lemma requeried_nonempty:
  assumes "requeried m m'" "sm_valid m" "m \<noteq> []"
  shows "m' \<noteq> []"
proof -
  obtain k e l where "m = (k, e) # l" using assms(3) by (cases m) auto
  then show ?thesis using requeried_find(2) [OF assms(1,2), of k e] sm_find_Cons by (auto simp: sm_find_def)
qed

lemma numbered_cong: "processed_input_count s' = processed_input_count s \<Longrightarrow> numbered s' e = numbered s e"
  by (simp add: numbered_def)

text \<open>Locks, taints, stubs, addresses and queries may change.\<close>

lemma legal_fields:
  assumes "processing_lock s' = processing_lock s" "processed_input_count s' = processed_input_count s"
    "current_mcycle s' = current_mcycle s" "memory_range s' = memory_range s" "session_id s' = session_id s"
    "active_epoch_index s' = active_epoch_index s" "server_cycles s' = server_cycles s"
    "server_deadline s' = server_deadline s" "tainted s \<longrightarrow> tainted s'" "requeried (epochs s) (epochs s')"
  shows "legal K s s'"
  unfolding legal_def
proof
  assume s: "session_inv K s \<and> epochs s \<noteq> []"
  then have ok: "session_ok s" "\<And>i e. sm_find (epochs s) i = Some e \<Longrightarrow> epoch_inv K s i e" and v: "sm_valid (epochs s)"
    by (auto simp: session_inv_def session_inv_valid split: if_splits)
  note find = requeried_find [OF assms(10) v]
  have ne: "epochs s' \<noteq> []" using requeried_nonempty assms(10) v s by blast
  have v': "sm_valid (epochs s')" using assms(10) v by (simp add: requeried_def)
  have "case sm_find (epochs s) i of None \<Rightarrow> sm_find (epochs s') i = None
      | Some e \<Rightarrow> (case sm_find (epochs s') i of None \<Rightarrow> i < active_epoch_index s' | Some e' \<Rightarrow> epoch_advances e e')" for i
    using find(1) [of i] find(2) [of i] by (auto split: option.split intro: epoch_advances_same)
  then have adv: "session_advances s s'" using assms ne by (simp add: session_advances_def)
  have "\<exists>e. sm_find (epochs s') (active_epoch_index s') = Some e"
    using ok(1) find(2) [of "active_epoch_index s"] assms(6) by (auto simp: session_ok_def)
  moreover have "epoch_index e' = i \<and> i \<le> active_epoch_index s' \<and> (state e' = epoch_active) = (i = active_epoch_index s')"
    if e': "sm_find (epochs s') i = Some e'" for i e'
  proof -
    obtain e where "sm_find (epochs s) i = Some e" "same_epoch e e'" using find(3) [OF e'] by blast
    then show ?thesis using ok(1) assms(6) same_epochD [of e e'] by (simp add: session_ok_def)
  qed
  ultimately have ok': "session_ok s'" using v' by (simp add: session_ok_def)
  have beyond: "sm_find (epochs s') i = None" if "active_epoch_index s < i" for i
    using session_ok_beyond [OF ok(1) that] find(1) by blast
  have same: "case sm_find (epochs s') i of None \<Rightarrow> pending_inputs e = [] | Some e' \<Rightarrow> held_epoch K e e'"
    if "sm_find (epochs s) i = Some e" for i e
    using find(2) [OF that] by (auto simp: held_epoch_def intro: queued_same)
  have held: "held K s s'"
    by (rule heldI) (use s assms ok' same beyond in \<open>auto simp del: split_paired_All\<close>)
  have "epoch_inv K s' i e'" if e': "sm_find (epochs s') i = Some e'" for i e'
  proof -
    obtain e where "sm_find (epochs s) i = Some e" "same_epoch e e'" using find(3) [OF e'] by blast
    then show ?thesis
      using ok(2) [of i e] assms(1,2,6,9) numbered_cong [of s' s] same_epochD [of e e'] same_epoch_ok [of e e']
      by (auto simp: epoch_inv_def split: if_splits)
  qed
  then show "session_advances s s' \<and> held K s s' \<and> session_inv K s' \<and> session_id s' = session_id s"
    using ne adv held ok' assms(5) by (simp add: session_inv_def)
qed

interpretation legal: session_change "legal K" for K
  by unfold_locales (rule legal_refl, erule (1) legal_trans, rule legal_fields, simp_all)

text \<open>Nothing changes but stubs, addresses, queries, taints and the session lock.\<close>

definition similar :: "session_type \<Rightarrow> session_type \<Rightarrow> bool" where
  "similar s s' \<longleftrightarrow> processing_lock s' = processing_lock s \<and> processed_input_count s' = processed_input_count s \<and>
     current_mcycle s' = current_mcycle s \<and> memory_range s' = memory_range s \<and> session_id s' = session_id s \<and>
     active_epoch_index s' = active_epoch_index s \<and> server_cycles s' = server_cycles s \<and>
     server_deadline s' = server_deadline s \<and> (tainted s \<longrightarrow> tainted s') \<and> requeried (epochs s) (epochs s')"

interpretation similar: session_change similar
  by unfold_locales (auto simp: similar_def intro: requeried_trans)

lemma similar_legal: "similar s s' \<Longrightarrow> legal K s s'"
  unfolding similar_def by (rule legal_fields) simp_all

lemma similar_touches: "touches similar r h h' \<Longrightarrow> touches (legal K) r h h'"
  using similar_legal by (fastforce simp: touches_def split: sum.splits)

lemma similar_quiet: "similar.quiet r X V m \<Longrightarrow> legal.quiet K r X V m"
  by (erule modest_weaken) (simp_all add: similar_touches)

section \<open>Coroutines that own nothing\<close>

definition established :: "session_ref \<Rightarrow> handler_context \<Rightarrow> bool" where
  "established r h \<longleftrightarrow> ref_object r < next_object h \<and> (\<forall>s. deref r h = Inr s \<longrightarrow> epochs s \<noteq> [])"

text \<open>The state is in order at this point of the segment.\<close>

definition orderly :: "digest \<Rightarrow> session_ref set \<Rightarrow> handler_context \<Rightarrow> handler_context \<Rightarrow> bool" where
  "orderly K g h0 h \<longleftrightarrow> server_inv K h \<and> evolves K (\<lambda>t. t \<notin> g) h0 h"

text \<open>A coroutine that works on an established session without owning it.\<close>

definition guest :: "digest \<Rightarrow> session_ref \<Rightarrow> session_ref set \<Rightarrow> handler_context \<Rightarrow> handler_context \<Rightarrow> bool" where
  "guest K r g h0 h \<longleftrightarrow> orderly K g h0 h \<and> established r h \<and>
     (r \<in> g \<or> next_object h0 \<le> ref_object r \<or> established r h0)"

text \<open>The start of a coroutine.\<close>

definition fresh :: "digest \<Rightarrow> session_ref set \<Rightarrow> handler_context \<Rightarrow> handler_context \<Rightarrow> bool" where
  "fresh K g h0 h \<longleftrightarrow> g = {} \<and> h0 = h \<and> server_inv K h"

lemma established_evolves: "established r h \<Longrightarrow> evolves K P h h' \<Longrightarrow> established r h'"
  unfolding established_def evolves_def session_advances_def by (meson order_less_le_trans)

lemma fresh_orderly: "fresh K g h0 h \<Longrightarrow> orderly K g h0 h"
  by (simp add: fresh_def orderly_def)

lemma guest_orderly: "guest K r g h0 h \<Longrightarrow> orderly K g h0 h"
  by (simp add: guest_def)

interpretation sys: ownership "guarantee K" "rely K" for K .

lemma orderly_yields:
  assumes "orderly K g h0 h" "certified K y"
  shows "guarantee K g h0 y {} h" "rely K {} h h' \<Longrightarrow> orderly K {} h' h'"
  using assms by (simp_all add: orderly_def guarantee_def rely_def)

lemma guest_change:
  assumes "guest K r g h0 h" "touches (legal K) r h h'"
  shows "guest K r g h0 h'"
proof -
  have inv: "server_inv K h" and ev: "evolves K (\<lambda>t. t \<notin> g) h0 h" and est: "established r h"
    using assms(1) by (auto simp: guest_def orderly_def)
  have legal: "session_advances s s' \<and> held K s s' \<and> session_inv K s' \<and> session_id s' = session_id s"
    if "deref r h = Inr s" "legal K s s'" for s s'
    using that server_inv_deref [OF inv] est by (auto simp: legal_def established_def)
  have "server_inv K h'" by (rule server_inv_touches [OF inv assms(2)]) (use legal in blast)
  moreover have "evolves K (\<lambda>t. t \<notin> g) h0 h'"
  proof (rule evolves_touches [OF ev assms(2)])
    fix s0 s s' assume "r \<notin> g" "ref_object r < next_object h0" "deref r h0 = Inr s0" "deref r h = Inr s" "legal K s s'"
      "session_advances s0 s" "held K s0 s"
    then show "held K s0 s'" using legal [of s s'] held_trans by blast
  qed (use legal in blast)
  moreover have "established r h'"
    unfolding established_def
  proof (intro conjI allI impI)
    show "ref_object r < next_object h'" using est assms(2) by (simp add: established_def touches_def)
    fix s' assume "deref r h' = Inr s'"
    then obtain s where "deref r h = Inr s" "legal K s s'" using touches_present [OF assms(2)] by blast
    then show "epochs s' \<noteq> []" using legal [of s s'] est by (auto simp: established_def session_advances_def)
  qed
  ultimately show ?thesis using assms(1) by (simp add: guest_def orderly_def)
qed

lemma guest_resumed:
  assumes "guest K r g h0 h" "rely K g' h h'"
  shows "guest K r g' h' h'"
  using assms established_evolves [of r h] by (auto simp: guest_def orderly_def rely_def)

lemma guest_yields:
  assumes "guest K r g h0 h" "certified K y"
  shows "\<exists>g'. guarantee K g h0 y g' h \<and> (\<forall>h'. rely K g' h h' \<longrightarrow> guest K r g' h' h')"
  using orderly_yields(1) [OF guest_orderly [OF assms(1)] assms(2)] guest_resumed [OF assms(1)] by blast

lemma guest_triple:
  assumes "legal.quiet K r X V m" "\<And>x g h0 h. X x \<Longrightarrow> guest K r g h0 h \<Longrightarrow> E x g h0 h"
  shows "sys.triple K (guest K r) m (\<lambda>v g h0 h. guest K r g h0 h \<and> V v) E"
  using assms(1)
proof (rule sys.modest_triple)
  show "guest K r g h0 h'" if "guest K r g h0 h" "touches (legal K) r h h'" for g h0 h h'
    using that by (rule guest_change)
  show "\<exists>g'. guarantee K g h0 y g' h \<and> (\<forall>h'. rely K g' h h' \<longrightarrow> guest K r g' h' h')"
    if "guest K r g h0 h" "plain y" for g h0 h y
    using that by (intro guest_yields plain_certified)
qed (rule assms(2))

text \<open>Replies.\<close>

lemma orderly_reply:
  assumes "certified K y"
  shows "sys.triple K (orderly K) (bindP (suspend y) (\<lambda>_. ret ())) (\<lambda>_. orderly K) E"
proof (rule sys.bind [where M = "\<lambda>_. orderly K"], rule sys.yields)
  fix g h0 h assume "orderly K g h0 h"
  then show "\<exists>g'. guarantee K g h0 y g' h \<and> (\<forall>v h'. rely K g' h h' \<longrightarrow> orderly K g' h' h')"
    using orderly_yields [OF _ assms] by blast
qed (simp add: sys.return)

lemma orderly_finish_with_error: "sys.triple K (orderly K) (finish_with_error st) (\<lambda>_. orderly K) E"
  unfolding finish_with_error_def by (rule orderly_reply) (simp add: plain_certified)

lemma orderly_report:
  assumes "sys.triple K P body (\<lambda>_. orderly K) (\<lambda>_. orderly K)"
  shows "sys.triple K P (report_exceptions body) (\<lambda>_. orderly K) E"
  unfolding report_exceptions_def
  by (rule sys.catches [OF assms]) (auto split: handler_exn.split intro: orderly_finish_with_error)

section \<open>Entering a session\<close>

lemma quiet_lock [simp]:
  "legal.quiet K r X (\<lambda>_. True) (set_session r (set_lock Session_lock b))"
  "legal.quiet K r X (\<lambda>_. True) (set_session r (\<lambda>s. s\<lparr>session_lock_reason := reason\<rparr>))"
  by (auto intro!: legal.quiet_set_session legal_fields)

lemma lock_destructor_change:
  "lock_destructor Session_lock r h = Inr h' \<Longrightarrow> touches (legal K) r h h'"
  unfolding lock_destructor_def by (rule legal.write_touches) (auto intro!: legal_fields)

lemma lock_destructor_exn: "lock_destructor m r h = Inl z \<Longrightarrow> \<not> is_exception z"
  unfolding lock_destructor_def by (rule legal.write_session_exn)

text \<open>An unlocked session is established, by the invariant.\<close>

lemma unlocked_guest:
  assumes "fresh K g h0 h" "deref r h = Inr s" "\<not> session_lock s"
  shows "guest K r g h0 h"
  using assms server_inv_deref [of K h r s]
  by (auto simp: fresh_def guest_def orderly_def established_def session_inv_def split: if_splits)

text \<open>A fact about the session that locking does not change.\<close>

definition guest_with :: "digest \<Rightarrow> (session_type \<Rightarrow> bool) \<Rightarrow> session_ref \<Rightarrow> session_ref set \<Rightarrow> handler_context \<Rightarrow> handler_context \<Rightarrow> bool" where
  "guest_with K F r g h0 h \<longleftrightarrow> guest K r g h0 h \<and> (\<forall>s. deref r h = Inr s \<longrightarrow> F s)"

lemma guest_with_write:
  assumes "\<And>s. F s \<Longrightarrow> F (f s)" "\<And>s. legal K s (f s) \<and> session_object (f s) = session_object s"
  shows "sys.triple K (guest_with K F r) (set_session r f) (\<lambda>_. guest_with K F r) E"
  unfolding set_session_def
proof (rule sys.write_state)
  fix g h0 h h' assume P: "guest_with K F r g h0 h" and w: "write_session r f h = Inr h'"
  obtain s where s: "deref r h = Inr s" "h' = assign_session r (f s) h"
    using w by (auto simp: write_session_def split: sum.splits)
  have "deref r h' = Inr (f s)" using s assms(2) by (simp add: deref_Inr_iff)
  moreover have "guest K r g h0 h'"
    using P guest_change legal.write_touches [OF w assms(2)] by (auto simp: guest_with_def)
  ultimately show "guest_with K F r g h0 h'" using P s(1) assms(1) by (simp add: guest_with_def)
qed (auto dest: legal.write_session_exn)

lemma lock_session_triple:
  assumes body: "sys.triple K (guest_with K F r) body (\<lambda>_. guest K r) E'"
    and leave: "\<And>x g h0 h h'. E' x g h0 h \<Longrightarrow> is_exception x \<Longrightarrow> lock_destructor Session_lock r h = Inr h' \<Longrightarrow> E x g h0 h'"
    and refuse: "\<And>st g h0 h. orderly K g h0 h \<Longrightarrow> E (Finish_error_yield_none st) g h0 h"
    and F: "\<And>s b. F s \<Longrightarrow> F (s\<lparr>session_lock := b\<rparr>)" "\<And>s reason. F s \<Longrightarrow> F (s\<lparr>session_lock_reason := reason\<rparr>)"
  shows "sys.triple K (\<lambda>g h0 h. fresh K g h0 h \<and> (\<forall>s. deref r h = Inr s \<longrightarrow> F s)) (lock_session rpc peer r body) (\<lambda>_. orderly K) E"
    (is "sys.triple K ?start _ _ _")
proof -
  let ?P = "\<lambda>s g h0 h. ?start g h0 h \<and> deref r h = Inr s"
  let ?scope = "on_scope_exit (lock_destructor Session_lock r)
    (thenP (set_session r (\<lambda>s. s\<lparr>session_lock_reason := get_session_lock_reason rpc peer\<rparr>)) body)"
  have "sys.triple K (guest_with K F r) ?scope (\<lambda>_. orderly K) E"
  proof (rule sys.leaves, rule sys.seq [OF guest_with_write body])
    show "orderly K g h0 h'" if "guest K r g h0 h" "lock_destructor Session_lock r h = Inr h'" for g h0 h h'
      using that guest_change lock_destructor_change guest_orderly by blast
  qed (auto intro: F legal_fields leave dest: lock_destructor_exn)
  then have scope: "sys.triple K (?P s) (thenP (lock_acquire Session_lock r name) ?scope) (\<lambda>_. orderly K) E"
    if "\<not> session_lock s" for s name
  proof (rule sys.seq [rotated])
    have "sys.triple K (\<lambda>g h0 h. ?P v g h0 h \<and> v = s) (if lock_value Session_lock v then throw x
        else set_session r (set_lock Session_lock True)) (\<lambda>_. guest_with K F r) E" for x v
    proof (rule sys.given [where A = "v = s"])
      assume "v = s"
      then show ?thesis using that
        by (auto intro!: sys.weaken_pre [OF guest_with_write] unlocked_guest F legal_fields simp: guest_with_def)
    qed simp
    then have "sys.triple K (?P s) (bindP (get_session r) (\<lambda>s. if lock_value Session_lock s then throw x
        else set_session r (set_lock Session_lock True))) (\<lambda>_. guest_with K F r) E" for x
      unfolding get_session_def
      by (rule sys.bind [OF sys.read_state, rotated -1]) (auto dest: legal.deref_exn)
    then show "sys.triple K (?P s) (lock_acquire Session_lock r name) (\<lambda>_. guest_with K F r) E"
      by (simp add: lock_acquire_def)
  qed
  show ?thesis
    unfolding lock_session_def with_auto_lock_def Let_def get_session_def
    apply (rule sys.bind [OF sys.read_state [where Q = ?P]], simp)
     apply (drule legal.deref_exn, simp)
    apply (rule sys.cases_if, rule sys.raise, rule refuse, rule fresh_orderly, simp)
    apply (rule scope, assumption)
    done
qed

text \<open>A check before locking reads the state and may refuse.\<close>

definition only_checks :: "(session_type \<Rightarrow> bool) \<Rightarrow> session_ref \<Rightarrow> unit handler \<Rightarrow> bool" where
  "only_checks F r m \<longleftrightarrow> (\<forall>h. \<exists>res. m h = Done h res \<and>
     (case res of
        Inl x \<Rightarrow> is_exception x \<longrightarrow> (\<exists>st. x = Finish_error_yield_none st)
      | Inr _ \<Rightarrow> \<forall>s. deref r h = Inr s \<longrightarrow> F s))"

lemma only_checks_nothing: "only_checks (\<lambda>_. True) r (ret ())"
  by (simp add: only_checks_def ret_def)

lemma only_checks_overflow: "only_checks (\<lambda>s. active_epoch_index s \<noteq> - 1) r (check_epoch_overflow r)"
  unfolding only_checks_def
proof
  fix h
  show "\<exists>res. check_epoch_overflow r h = Done h res \<and>
     (case res of Inl x \<Rightarrow> is_exception x \<longrightarrow> (\<exists>st. x = Finish_error_yield_none st)
      | Inr _ \<Rightarrow> \<forall>s. deref r h = Inr s \<longrightarrow> active_epoch_index s \<noteq> - 1)"
    by (cases "deref r h")
      (auto simp: check_epoch_overflow_def get_session_def bindP_def gets_def finish_error_def throw_def ret_def
        dest: legal.deref_exn)
qed

lemma enter_session_triple:
  assumes pre: "\<And>r. only_checks F r (pre r)"
    and body: "\<And>r. ref_id r = sid \<Longrightarrow> sys.triple K (guest_with K F r) (body r) (\<lambda>_. guest K r) (E' r)"
    and leave: "\<And>r x g h0 h h'. ref_id r = sid \<Longrightarrow> E' r x g h0 h \<Longrightarrow> is_exception x \<Longrightarrow>
       lock_destructor Session_lock r h = Inr h' \<Longrightarrow> E x g h0 h'"
    and refuse: "\<And>st g h0 h. orderly K g h0 h \<Longrightarrow> E (Finish_error_yield_none st) g h0 h"
    and F: "\<And>s b. F s \<Longrightarrow> F (s\<lparr>session_lock := b\<rparr>)" "\<And>s reason. F s \<Longrightarrow> F (s\<lparr>session_lock_reason := reason\<rparr>)"
  shows "sys.triple K (fresh K) (enter_session rpc peer sid msg pre body) (\<lambda>_. orderly K) E"
proof -
  let ?start = "\<lambda>r g h0 h. fresh K g h0 h \<and> (\<forall>s. deref r h = Inr s \<longrightarrow> F s)"
  have check: "sys.triple K (fresh K) (pre r) (\<lambda>_. ?start r) E" for r
  proof (rule sys.segment)
    fix g h0 h assume P: "fresh K g h0 h"
    obtain res where "pre r h = Done h res" "case res of Inl x \<Rightarrow> is_exception x \<longrightarrow> (\<exists>st. x = Finish_error_yield_none st)
        | Inr _ \<Rightarrow> \<forall>s. deref r h = Inr s \<longrightarrow> F s"
      using pre [of r] by (auto simp: only_checks_def)
    then show "\<exists>h' res. pre r h = Done h' res \<and> sys.outcome (\<lambda>_. ?start r) E g h0 res h'"
      using refuse [OF fresh_orderly [OF P]] P by (auto simp: sys.outcome_def split: sum.splits)
  qed
  have "sys.triple K (fresh K) (find_session sid) (\<lambda>it g h0 h. fresh K g h0 h \<and> (\<forall>r. it = Some r \<longrightarrow> ref_id r = sid)) E"
    unfolding find_session_def by (rule sys.read_state) (auto split: option.splits)
  then show ?thesis
    unfolding enter_session_def
  proof (rule sys.bind)
    fix it
    show "sys.triple K (\<lambda>g h0 h. fresh K g h0 h \<and> (\<forall>r. it = Some r \<longrightarrow> ref_id r = sid))
       (case it of None \<Rightarrow> finish_error INVALID_ARGUMENT msg
        | Some r \<Rightarrow> thenP (pre r) (lock_session rpc peer r (body r))) (\<lambda>_. orderly K) E"
    proof (cases it)
      case None
      then show ?thesis by (auto simp: finish_error_def intro!: sys.raise refuse fresh_orderly)
    next
      case (Some r)
      show ?thesis
        unfolding Some option.case
      proof (rule sys.given [where A = "ref_id r = sid"])
        assume r: "ref_id r = sid"
        show "sys.triple K (\<lambda>g h0 h. fresh K g h0 h \<and> (\<forall>t. Some r = Some t \<longrightarrow> ref_id t = sid))
            (thenP (pre r) (lock_session rpc peer r (body r))) (\<lambda>_. orderly K) E"
        proof (rule sys.weaken_pre, rule sys.seq [OF check])
          show "sys.triple K (?start r) (lock_session rpc peer r (body r)) (\<lambda>_. orderly K) E"
            by (rule lock_session_triple [OF body [OF r]]) (erule leave [OF r] refuse F | assumption)+
        qed simp
      qed simp
    qed
  qed
qed

text \<open>The handlers that report exceptions to the client and do not own their session.\<close>

lemma reporting_handler:
  assumes "\<And>r. only_checks F r (pre r)"
    and "\<And>r. ref_id r = sid \<Longrightarrow> sys.triple K (guest_with K F r) (body r) (\<lambda>_. guest K r) (\<lambda>_. guest K r)"
    and "\<And>s b. F s \<Longrightarrow> F (s\<lparr>session_lock := b\<rparr>)" "\<And>s reason. F s \<Longrightarrow> F (s\<lparr>session_lock_reason := reason\<rparr>)"
  shows "sys.triple K (fresh K) (report_exceptions (enter_session rpc peer sid msg pre body)) (\<lambda>_. orderly K) E"
proof (rule orderly_report, rule enter_session_triple [OF assms(1,2)])
  show "orderly K g h0 h'" if "guest K r g h0 h" "lock_destructor Session_lock r h = Inr h'" for r g h0 h h'
    using that guest_change lock_destructor_change guest_orderly by blast
qed (rule assms(3,4) | assumption)+

lemma reporting_quiet_handler:
  assumes "\<And>r. ref_id r = sid \<Longrightarrow> legal.quiet K r (\<lambda>_. True) (\<lambda>_. True) (body r)"
  shows "sys.triple K (fresh K) (report_exceptions (enter_session rpc peer sid msg (\<lambda>_. ret ()) body)) (\<lambda>_. orderly K) E"
proof (rule reporting_handler [OF only_checks_nothing])
  fix r :: session_ref assume "ref_id r = sid"
  from guest_triple [OF assms [OF this], where E = "\<lambda>_. guest K r"]
  show "sys.triple K (guest_with K (\<lambda>_. True) r) (body r) (\<lambda>_. guest K r) (\<lambda>_. guest K r)"
    by (rule sys.conseq) (simp_all add: guest_with_def)
qed simp_all

end
