(* ===== verification/Server.thy ===== *)
theory Server
  imports Start_Session Inspect_Correctness
begin

text \<open>
  The server around the handlers: the RPCs it accepts, the loop that resumes coroutines as the
  completion queue returns them, the start of the process and its shutdown
  (\<open>main\<close>, \<open>build_manager\<close>, \<open>replace_port\<close> and \<open>stringval\<close> of \<^verbatim>\<open>src/src/server-manager.cpp\<close>).
\<close>

section \<open>RPCs\<close>

text \<open>One constructor for each kind of handler \<open>main\<close> creates.\<close>

datatype rpc_request =
    GetVersion
  | StartSession start_session_request
  | AdvanceState advance_state_request
  | GetStatus
  | GetSessionStatus id_type
  | GetEpochStatus epoch_status_request
  | InspectState inspect_state_request
  | FinishEpoch finish_epoch_request
  | DeleteEpoch delete_epoch_request
  | EndSession id_type
  | Checkin checkin_request
  | Health_Check string
  | Health_Watch

text \<open>
  The coroutine for a request: \<open>self\<close> is its number, \<open>ok\<close> the flag the queue returned with the
  request, \<open>peer\<close> the client.
\<close>

primrec handler_of ::
  "nat \<Rightarrow> digest \<Rightarrow> coroutine \<Rightarrow> bool \<Rightarrow> string \<Rightarrow> rpc_request \<Rightarrow> unit handler" where
  "handler_of fuel K self ok peer GetVersion = GetVersion_handler ok"
| "handler_of fuel K self ok peer (StartSession req) = StartSession_handler K self ok peer req"
| "handler_of fuel K self ok peer (AdvanceState req) = AdvanceState_handler fuel K self ok peer req"
| "handler_of fuel K self ok peer GetStatus = GetStatus_handler ok"
| "handler_of fuel K self ok peer (GetSessionStatus sid) = GetSessionStatus_handler ok peer sid"
| "handler_of fuel K self ok peer (GetEpochStatus req) = GetEpochStatus_handler ok peer req"
| "handler_of fuel K self ok peer (InspectState req) = InspectState_handler fuel self ok peer req"
| "handler_of fuel K self ok peer (FinishEpoch req) = FinishEpoch_handler K self ok peer req"
| "handler_of fuel K self ok peer (DeleteEpoch req) = DeleteEpoch_handler ok peer req"
| "handler_of fuel K self ok peer (EndSession sid) = EndSession_handler K self ok peer sid"
| "handler_of fuel K self ok peer (Checkin req) = Checkin_handler ok req"
| "handler_of fuel K self ok peer (Health_Check service) = Health_Check_handler ok service"
| "handler_of fuel K self ok peer Health_Watch = Health_Watch_handler ok"

section \<open>The dispatch loop\<close>

text \<open>
  The coroutines that wait, each at its yield point with its continuation; \<open>None\<close> marks one that
  cannot be resumed: it is running, or it finished while another coroutine had resumed it and
  nobody deletes it.
\<close>

type_synonym running = "(handler_context, yield_point, wake, unit) proc"

record server =
  srv_context :: handler_context
  srv_coroutines :: "(coroutine, (yield_point \<times> (wake \<Rightarrow> handler_context \<Rightarrow> running)) option) unordered_map"
  srv_next :: coroutine

definition park :: "coroutine \<Rightarrow> running \<Rightarrow> server \<Rightarrow> server" where
  "park c p srv =
     (case p of
        Suspend h y k \<Rightarrow> srv\<lparr>srv_context := h, srv_coroutines := um_assign c (Some (y, k)) (srv_coroutines srv)\<rparr>
      | Done h res \<Rightarrow> srv\<lparr>srv_context := h, srv_coroutines := um_assign c None (srv_coroutines srv)\<rparr>)"

text \<open>
  Calls that return at once are answered by \<open>answers\<close>, the outside world during this segment.
  Starting a check-in deadline creates its coroutine, which sets its alarm and yields.
\<close>

definition start_deadline :: "id_type \<Rightarrow> u64 \<Rightarrow> server \<Rightarrow> server" where
  "start_deadline sid deadline srv =
     (park (srv_next srv) (CheckinDeadline_handler sid deadline (srv_context srv)) srv)\<lparr>srv_next := srv_next srv + 1\<rparr>"

primrec run_calls_at_once :: "(yield_point \<Rightarrow> wake) \<Rightarrow> running \<Rightarrow> server \<Rightarrow> running \<times> server" where
  "run_calls_at_once answers (Done h res) srv = (Done h res, srv)"
| "run_calls_at_once answers (Suspend h y k) srv =
     (if \<not> atomic_point y then (Suspend h y k, srv)
      else
        run_calls_at_once answers (k (answers y) h)
          (case y of Start_deadline sid deadline \<Rightarrow> start_deadline sid deadline (srv\<lparr>srv_context := h\<rparr>) | _ \<Rightarrow> srv))"

text \<open>
  A segment of a coroutine, up to its next yield. Resuming another coroutine runs a segment of
  that one first; a coroutine that was deleted, or is finished, cannot be resumed. The handlers
  catch their own exceptions, so that what leaves a resumed coroutine ends the process.
\<close>

primrec run_segment :: "(yield_point \<Rightarrow> wake) \<Rightarrow> running \<Rightarrow> server \<Rightarrow> running \<times> server" where
  "run_segment answers (Done h res) srv = (Done h res, srv)"
| "run_segment answers (Suspend h y k) srv =
     (case y of
        Resume_coroutine c \<Rightarrow>
          (case um_find (srv_coroutines srv) c of
             Some (Some (y', k')) \<Rightarrow>
               (case run_calls_at_once answers (k' (answers y) h) srv of
                  (Done h' (Inl x), srv') \<Rightarrow> (Done h' (Inl x), srv')
                | (p, srv') \<Rightarrow>
                    let srv'' = park c p srv' in run_segment answers (k (answers y) (srv_context srv'')) srv'')
           | _ \<Rightarrow> (Done h (Inl dangling), srv))
      | _ \<Rightarrow>
        if \<not> atomic_point y then (Suspend h y k, srv)
        else
          run_segment answers (k (answers y) h)
            (case y of Start_deadline sid deadline \<Rightarrow> start_deadline sid deadline (srv\<lparr>srv_context := h\<rparr>) | _ \<Rightarrow> srv))"

text \<open>
  The process runs, has exited, or has crashed. An exception that leaves a coroutine reaches
  \<open>main\<close>, which returns 1.
\<close>

datatype process = Running server | Exited nat handler_context | Crashed | Diverged

definition settle :: "coroutine \<Rightarrow> running \<times> server \<Rightarrow> process" where
  "settle c result =
     (case result of
        (Suspend h y k, srv) \<Rightarrow> Running (park c (Suspend h y k) srv)
      | (Done h (Inr _), srv) \<Rightarrow>
          Running (srv\<lparr>srv_context := h, srv_coroutines := um_erase c (srv_coroutines srv)\<rparr>)
      | (Done h (Inl x), srv) \<Rightarrow>
          if is_exception x \<or> x = Exit_process then Exited 1 h else if x = Out_of_fuel then Diverged else Crashed)"

text \<open>
  What the queue returns. A request arrives at the coroutine that accepts requests of its kind,
  which first creates the next such coroutine, so that requests of every kind keep arriving;
  here the coroutine gets its number when its request arrives.
\<close>

datatype queue_event =
    Arrived bool string rpc_request
  | Returned coroutine wake
  | Queue_shutdown

definition shutdown :: "handler_context \<Rightarrow> handler_context" where
  "shutdown h = h\<lparr>terminated := terminated h @ um_keys (sessions h)\<rparr>"

definition dispatch ::
  "nat \<Rightarrow> digest \<Rightarrow> (yield_point \<Rightarrow> wake) \<Rightarrow> queue_event \<Rightarrow> server \<Rightarrow> process" where
  "dispatch fuel K answers event srv =
     (case event of
        Arrived ok peer req \<Rightarrow>
          let c = srv_next srv in
          settle c (run_segment answers (handler_of fuel K c ok peer req (srv_context srv)) (srv\<lparr>srv_next := c + 1\<rparr>))
      | Returned c w \<Rightarrow>
          let h = (srv_context srv)\<lparr>completion_queue := remove1 c (completion_queue (srv_context srv))\<rparr> in
          (case um_find (srv_coroutines srv) c of
             Some (Some (y, k)) \<Rightarrow>
               settle c (run_segment answers (k w h) (srv\<lparr>srv_coroutines := um_assign c None (srv_coroutines srv)\<rparr>))
           | Some None \<Rightarrow> Running (srv\<lparr>srv_context := h, srv_coroutines := um_erase c (srv_coroutines srv)\<rparr>)
           | None \<Rightarrow> Crashed)
      | Queue_shutdown \<Rightarrow> Exited 0 (shutdown (srv_context srv)))"

primrec dispatch_loop :: "nat \<Rightarrow> digest \<Rightarrow> (queue_event \<times> (yield_point \<Rightarrow> wake)) list \<Rightarrow> server \<Rightarrow> process" where
  "dispatch_loop fuel K [] srv = Running srv"
| "dispatch_loop fuel K (e # es) srv =
     (case dispatch fuel K (snd e) (fst e) srv of
        Running srv' \<Rightarrow> dispatch_loop fuel K es srv'
      | stopped \<Rightarrow> stopped)"

section \<open>Starting and stopping\<close>

text \<open>\<^verbatim>\<open>std::to_string(int)\<close>\<close>

definition int_to_string :: "int \<Rightarrow> string" where
  "int_to_string i = (if i < 0 then CHR ''-'' # nat_to_string (nat (- i)) else nat_to_string (nat i))"

definition has_prefix :: "string \<Rightarrow> string \<Rightarrow> bool" where
  "has_prefix pre str \<longleftrightarrow> take (length pre) str = pre"

text \<open>The text before the last colon, if there is a colon.\<close>

primrec before_last_colon :: "string \<Rightarrow> string option" where
  "before_last_colon [] = None"
| "before_last_colon (c # cs) =
     (case before_last_colon cs of
        Some host \<Rightarrow> Some (c # host)
      | None \<Rightarrow> if c = CHR '':'' then Some [] else None)"

definition replace_port :: "string \<Rightarrow> int \<Rightarrow> string" where
  "replace_port address port =
     (if has_prefix ''unix:'' address then address
      else
        case before_last_colon address of
          Some host \<Rightarrow> host @ '':'' @ int_to_string port
        | None \<Rightarrow> address @ '':'' @ int_to_string port)"

definition stringval :: "string \<Rightarrow> string \<Rightarrow> string option" where
  "stringval pre str = (if has_prefix pre str then Some (drop (length pre) str) else None)"

text \<open>The loop over the arguments; \<open>Inl 0\<close> is the exit of \<^verbatim>\<open>--version\<close> and \<^verbatim>\<open>--help\<close>.\<close>

primrec parse_args :: "string list \<Rightarrow> string option \<times> string \<Rightarrow> nat + string option \<times> string" where
  "parse_args [] addresses = Inr addresses"
| "parse_args (arg # args) addresses =
     (case stringval ''--manager-address='' arg of
        Some v \<Rightarrow> parse_args args (Some v, snd addresses)
      | None \<Rightarrow>
        (case stringval ''--server-address='' arg of
           Some v \<Rightarrow> parse_args args (fst addresses, v)
         | None \<Rightarrow>
           if arg = ''--version'' \<or> arg = ''--help'' then Inl 0
           else parse_args args (fst addresses, arg)))"

text \<open>
  What the process finds outside: the search path and the file system, the names of the three
  generated services, the port the server was bound to and whether it started.
\<close>

record environment =
  found_path :: string
  path_exists :: "string \<Rightarrow> bool"
  service_names :: "string list"
  bound_port :: int
  server_started :: bool

definition new_handler_context :: handler_context where
  "new_handler_context = \<lparr>remote_cartesi_machine_path = [], manager_address = [], machine_server_address = [],
     sessions = [], sessions_waiting_checkin = [], service_health = [], completion_queue = [], next_object = 0,
     terminated = []\<rparr>"

text \<open>\<^verbatim>\<open>insert\<close> keeps an entry that is already there.\<close>

definition um_insert :: "'k \<Rightarrow> 'v \<Rightarrow> ('k, 'v) unordered_map \<Rightarrow> ('k, 'v) unordered_map" where
  "um_insert k v m = (if um_find m k = None then um_assign k v m else m)"

definition build_manager :: "environment \<Rightarrow> string \<Rightarrow> handler_context \<Rightarrow> bool \<times> handler_context" where
  "build_manager env address h =
     (server_started env,
      h\<lparr>service_health := fold (\<lambda>name. um_insert name SERVING) ([] # service_names env) (service_health h),
        manager_address := replace_port address (bound_port env)\<rparr>)"

definition machine_path :: "environment \<Rightarrow> string option" where
  "machine_path env =
     (if path_exists env (found_path env) then Some (found_path env)
      else if path_exists env ''/usr/bin/remote-cartesi-machine'' then Some ''/usr/bin/remote-cartesi-machine''
      else None)"

text \<open>\<open>main\<close> up to the dispatch loop: the server, or the exit status.\<close>

definition start_server :: "environment \<Rightarrow> string list \<Rightarrow> nat + server" where
  "start_server env argv =
     (if argv = [] then Inl 1
      else
        case parse_args (tl argv) (None, ''localhost:0'') of
          Inl status \<Rightarrow> Inl status
        | Inr (None, _) \<Rightarrow> Inl 1
        | Inr (Some manager, server) \<Rightarrow>
          (case machine_path env of
             None \<Rightarrow> Inl 1
           | Some path \<Rightarrow>
             let (started, h) = build_manager env manager (new_handler_context\<lparr>remote_cartesi_machine_path := path,
                                  manager_address := manager, machine_server_address := server\<rparr>) in
             if \<not> started then Inl 1
             else Inr \<lparr>srv_context = h, srv_coroutines = [], srv_next = 0\<rparr>))"

section \<open>Requests for one session\<close>

text \<open>The session a request works on; the others work on none, or on one that is not there yet.\<close>

fun rpc_session :: "rpc_request \<Rightarrow> id_type option" where
  "rpc_session (AdvanceState req) = Some (asr_session_id req)"
| "rpc_session (GetSessionStatus sid) = Some sid"
| "rpc_session (GetEpochStatus req) = Some (esr_session_id req)"
| "rpc_session (InspectState req) = Some (isr_session_id req)"
| "rpc_session (FinishEpoch req) = Some (fer_session_id req)"
| "rpc_session (DeleteEpoch req) = Some (der_session_id req)"
| "rpc_session (EndSession sid) = Some sid"
| "rpc_session _ = None"

text \<open>An answer that changes nothing.\<close>

definition refuses :: "unit handler \<Rightarrow> handler_context \<Rightarrow> status_code set \<Rightarrow> bool" where
  "refuses m h codes \<longleftrightarrow> (\<exists>st. error_code st \<in> codes \<and> m h = Suspend h (Finish_with_error st) (\<lambda>_ h'. Done h' (Inr ())))"

lemma check_epoch_overflow_cases:
  "deref r h = Inr s \<Longrightarrow> check_epoch_overflow r h =
     (if active_epoch_index s = - 1
      then Done h (Inl (Finish_error_yield_none (grpc_error OUT_OF_RANGE ''active epoch index will overflow'')))
      else Done h (Inr ()))"
  by (simp add: check_epoch_overflow_def exec)

lemma refusal_reported:
  assumes "body h = Done h (Inl (Finish_error_yield_none st))" "error_code st \<in> codes"
  shows "refuses (report_exceptions body) h codes" "refuses (try_catch body (AdvanceState_catch K self sid)) h codes"
    "refuses (try_catch body (InspectState_catch sid)) h codes"
  using assms
  by (simp_all add: refuses_def report_finish_error try_catch_def AdvanceState_catch_def InspectState_catch_def
      finish_with_error_def exec suspend_def)

lemma handlers_refuse:
  assumes req: "rpc_session req = Some sid"
    and enter: "\<And>rpc msg pre body. pre \<in> {check_epoch_overflow, \<lambda>_. ret ()} \<Longrightarrow>
      \<exists>st. error_code st \<in> codes \<and> enter_session rpc peer sid msg pre body h = Done h (Inl (Finish_error_yield_none st))"
  shows "refuses (handler_of fuel K self True peer req) h codes"
proof -
  have refused: "refuses (report_exceptions (enter_session rpc peer sid msg pre body)) h codes"
    "refuses (try_catch (enter_session rpc peer sid msg pre body) (AdvanceState_catch K self sid)) h codes"
    "refuses (try_catch (enter_session rpc peer sid msg pre body) (InspectState_catch sid)) h codes"
    if pre: "pre \<in> {check_epoch_overflow, \<lambda>_. ret ()}" for rpc msg pre body
  proof -
    obtain st where "enter_session rpc peer sid msg pre body h = Done h (Inl (Finish_error_yield_none st))" "error_code st \<in> codes"
      using enter [OF pre, of rpc msg body] by blast
    then show "refuses (report_exceptions (enter_session rpc peer sid msg pre body)) h codes"
      "refuses (try_catch (enter_session rpc peer sid msg pre body) (AdvanceState_catch K self sid)) h codes"
      "refuses (try_catch (enter_session rpc peer sid msg pre body) (InspectState_catch sid)) h codes"
      by (rule refusal_reported)+
  qed
  have "check_epoch_overflow \<in> {check_epoch_overflow, \<lambda>_. ret ()}" "(\<lambda>_. ret ()) \<in> {check_epoch_overflow, \<lambda>_. ret ()}"
    by simp_all
  note this [THEN refused(1)] this(1) [THEN refused(2)] this(2) [THEN refused(3)]
  with req show ?thesis
    by (cases req) (simp_all add: AdvanceState_handler_def GetSessionStatus_handler_def GetEpochStatus_handler_def
      InspectState_handler_def FinishEpoch_handler_def DeleteEpoch_handler_def EndSession_handler_def)
qed

lemma opening_refuses:
  assumes "pre \<in> {check_epoch_overflow, \<lambda>_. ret ()}"
  shows "um_find (sessions h) sid = None \<Longrightarrow> \<exists>st. error_code st \<in> {INVALID_ARGUMENT} \<and>
      enter_session rpc peer sid msg pre body h = Done h (Inl (Finish_error_yield_none st))"
    and "um_find (sessions h) sid = Some s \<Longrightarrow> session_lock s \<Longrightarrow> \<exists>st. error_code st \<in> {ABORTED, OUT_OF_RANGE} \<and>
      enter_session rpc peer sid msg pre body h = Done h (Inl (Finish_error_yield_none st))"
proof -
  show "\<exists>st. error_code st \<in> {INVALID_ARGUMENT} \<and>
      enter_session rpc peer sid msg pre body h = Done h (Inl (Finish_error_yield_none st))" if "um_find (sessions h) sid = None"
    using enter_unknown_session [OF that, of rpc peer msg pre body] by force
  show "\<exists>st. error_code st \<in> {ABORTED, OUT_OF_RANGE} \<and>
      enter_session rpc peer sid msg pre body h = Done h (Inl (Finish_error_yield_none st))"
    if s: "um_find (sessions h) sid = Some s" "session_lock s"
  proof -
    let ?r = "\<lparr>ref_id = sid, ref_object = session_object s\<rparr>"
    have "deref ?r h = Inr s" using s by (simp add: deref_Inr_iff)
    then consider "pre ?r h = Done h (Inr ())"
      | "pre ?r h = Done h (Inl (Finish_error_yield_none (grpc_error OUT_OF_RANGE ''active epoch index will overflow'')))"
      using assms check_epoch_overflow_cases [of ?r h s] by (cases "active_epoch_index s = - 1") (auto simp: ret_def)
    then show ?thesis
    proof cases
      case 1
      then show ?thesis
        using enter_locked_session [where pre = pre, OF s, of rpc peer msg body] by (auto simp: concurrent_call_def)
    next
      case 2
      then show ?thesis using enter_failed_check [where pre = pre, OF s(1) 2, of rpc peer msg body] by auto
    qed
  qed
qed

lemma requests_refused:
  assumes "rpc_session req = Some sid"
  shows "um_find (sessions h) sid = None \<Longrightarrow> refuses (handler_of fuel K self True peer req) h {INVALID_ARGUMENT}"
    and "um_find (sessions h) sid = Some s \<Longrightarrow> session_lock s \<Longrightarrow>
      refuses (handler_of fuel K self True peer req) h {ABORTED, OUT_OF_RANGE}"
  by (rule handlers_refuse [OF assms], erule opening_refuses(1), assumption)
    (rule handlers_refuse [OF assms], erule opening_refuses(2) [where s = s])

section \<open>Claims\<close>

text \<open>
  Claim C13. Sessions are exclusive. Whatever request for a session arrives while another handler
  has it locked, the client gets an \<open>ABORTED\<close> error, or \<open>OUT_OF_RANGE\<close> when the epoch index is
  exhausted, and a request for an unknown session gets \<open>INVALID_ARGUMENT\<close>; in both cases nothing
  of the state changes and the handler ends when its reply has been sent.
\<close>

theorem session_requests_refused:
  assumes "rpc_session req = Some sid"
  shows "(um_find (sessions h) sid = None \<longrightarrow> refuses (handler_of fuel K self True peer req) h {INVALID_ARGUMENT}) \<and>
    (\<forall>s. um_find (sessions h) sid = Some s \<and> session_lock s \<longrightarrow>
       refuses (handler_of fuel K self True peer req) h {ABORTED, OUT_OF_RANGE})"
  using requests_refused [OF assms] by blast

theorem session_requests_refused_witness:
  "refuses (handler_of 5 sample_digest 3 True ''peer'' (EndSession ''none'')) sample_context {INVALID_ARGUMENT} \<and>
   refuses (handler_of 5 sample_digest 3 True ''peer'' (EndSession ''s''))
     (entered ''InspectState'' ''other'' sample_ref sample_session sample_context) {ABORTED, OUT_OF_RANGE}"
proof
  have "rpc_session (EndSession sid) = Some sid" for sid by simp
  note refused = session_requests_refused [OF this]
  show "refuses (handler_of 5 sample_digest 3 True ''peer'' (EndSession ''none'')) sample_context {INVALID_ARGUMENT}"
    using refused [of sample_context "''none''" 5 sample_digest 3 "''peer''"] by (simp add: sample_context_def um_find_def)
  have "um_find (sessions (entered ''InspectState'' ''other'' sample_ref sample_session sample_context)) ''s'' =
      Some (sample_session\<lparr>session_lock := True, session_lock_reason := get_session_lock_reason ''InspectState'' ''other''\<rparr>)"
    by (simp add: entered_def sample_ref_def)
  then show "refuses (handler_of 5 sample_digest 3 True ''peer'' (EndSession ''s''))
     (entered ''InspectState'' ''other'' sample_ref sample_session sample_context) {ABORTED, OUT_OF_RANGE}"
    using refused [of "entered ''InspectState'' ''other'' sample_ref sample_session sample_context" "''s''" 5 sample_digest 3 "''peer''"]
    by (simp del: handler_of.simps)
qed

text \<open>
  Claim C35. Under load: while every session is locked, any number of requests for sessions,
  known or unknown, are taken from the queue without the process ending and without a change of
  the state the handlers share; each of them leaves one coroutine waiting for its error reply to
  be sent, and those that waited before still wait.
\<close>

theorem locked_sessions_under_load:
  assumes "\<forall>sid s. um_find (sessions (srv_context srv)) sid = Some s \<longrightarrow> session_lock s"
    and "\<forall>(p, req, a) \<in> set reqs. rpc_session req \<noteq> None"
  shows "\<exists>srv'. dispatch_loop fuel K (map (\<lambda>(p, req, a). (Arrived True p req, a)) reqs) srv = Running srv' \<and>
     srv_context srv' = srv_context srv \<and> srv_next srv' = srv_next srv + length reqs \<and>
     (\<forall>c. if srv_next srv \<le> c \<and> c < srv_next srv'
        then \<exists>st k. um_find (srv_coroutines srv') c = Some (Some (Finish_with_error st, k)) \<and> \<not> is_ok st
        else um_find (srv_coroutines srv') c = um_find (srv_coroutines srv) c)"
  using assms
proof (induction reqs arbitrary: srv)
  case Nil
  then show ?case by auto
next
  case (Cons x reqs)
  obtain p req a where x: "x = (p, req, a)" by (cases x)
  obtain sid where sid: "rpc_session req = Some sid" using Cons.prems(2) x by auto
  let ?c = "srv_next srv" and ?h = "srv_context srv"
  have "refuses (handler_of fuel K ?c True p req) ?h {INVALID_ARGUMENT, ABORTED, OUT_OF_RANGE}"
    using requests_refused [OF sid, where h = ?h and fuel = fuel and K = K and self = ?c and peer = p] Cons.prems(1)
    by (cases "um_find (sessions ?h) sid") (fastforce simp: refuses_def)+
  then obtain st where st: "handler_of fuel K ?c True p req ?h = Suspend ?h (Finish_with_error st) (\<lambda>_ h'. Done h' (Inr ()))"
      "\<not> is_ok st"
    by (auto simp: refuses_def is_ok_def)
  let ?srv = "srv\<lparr>srv_next := ?c + 1, srv_context := ?h,
      srv_coroutines := um_assign ?c (Some (Finish_with_error st, \<lambda>_ h'. Done h' (Inr ()))) (srv_coroutines srv)\<rparr>"
  have step: "dispatch fuel K a (Arrived True p req) srv = Running ?srv"
    using st(1) by (simp add: dispatch_def settle_def park_def Let_def)
  have "\<forall>sid s. um_find (sessions (srv_context ?srv)) sid = Some s \<longrightarrow> session_lock s" "\<forall>(p, req, a) \<in> set reqs. rpc_session req \<noteq> None"
    using Cons.prems by simp_all
  note IH = Cons.IH [OF this]
  obtain srv' where srv': "dispatch_loop fuel K (map (\<lambda>(p, req, a). (Arrived True p req, a)) reqs) ?srv = Running srv'"
      "srv_context srv' = ?h" "srv_next srv' = ?c + 1 + length reqs"
      "\<forall>c. if ?c + 1 \<le> c \<and> c < srv_next srv'
        then \<exists>st k. um_find (srv_coroutines srv') c = Some (Some (Finish_with_error st, k)) \<and> \<not> is_ok st
        else um_find (srv_coroutines srv') c = um_find (srv_coroutines ?srv) c"
    using IH by auto
  have "if ?c \<le> c \<and> c < srv_next srv'
      then \<exists>st k. um_find (srv_coroutines srv') c = Some (Some (Finish_with_error st, k)) \<and> \<not> is_ok st
      else um_find (srv_coroutines srv') c = um_find (srv_coroutines srv) c" for c
    using srv'(3) srv'(4) [rule_format, of c] st(2) by (cases "c = ?c") (auto split: if_splits)
  moreover have "dispatch_loop fuel K (map (\<lambda>(p, req, a). (Arrived True p req, a)) (x # reqs)) srv = Running srv'"
    using srv'(1) x step by simp
  moreover have "srv_next srv' = ?c + length (x # reqs)" using srv'(3) by simp
  ultimately show ?case using srv'(2) by blast
qed

theorem locked_sessions_under_load_witness:
  "\<exists>srv'. dispatch_loop 5 sample_digest [(Arrived True ''a'' (EndSession ''s''), \<lambda>_. ok_wake),
        (Arrived True ''b'' (GetSessionStatus ''s''), \<lambda>_. ok_wake)]
      \<lparr>srv_context = entered ''InspectState'' ''other'' sample_ref sample_session sample_context, srv_coroutines = [], srv_next = 0\<rparr> =
    Running srv' \<and> srv_next srv' = 2"
proof -
  let ?srv = "\<lparr>srv_context = entered ''InspectState'' ''other'' sample_ref sample_session sample_context,
      srv_coroutines = [], srv_next = 0\<rparr>"
  have locked: "\<forall>sid s. um_find (sessions (srv_context ?srv)) sid = Some s \<longrightarrow> session_lock s"
  proof -
    have "um_find (sessions sample_context) i = (if i = ''s'' then Some sample_session else None)" for i
      by (simp add: sample_context_def um_find_def)
    then show ?thesis by (auto simp: entered_def sample_ref_def split: if_splits)
  qed
  let ?reqs = "[(''a'', EndSession ''s'', \<lambda>_ :: yield_point. ok_wake), (''b'', GetSessionStatus ''s'', \<lambda>_. ok_wake)]"
  have "\<forall>(p, req, a) \<in> set ?reqs. rpc_session req \<noteq> None" by simp
  from locked_sessions_under_load [of ?srv ?reqs 5 sample_digest, OF locked this]
  obtain srv' where "dispatch_loop 5 sample_digest (map (\<lambda>(p, req, a). (Arrived True p req, a)) ?reqs) ?srv = Running srv'"
      "srv_next srv' = srv_next ?srv + length ?reqs" by blast
  then show ?thesis by (intro exI [of _ srv'] conjI) (simp_all only: list.map prod.case, simp)
qed

text \<open>Strings around the last colon.\<close>

lemma before_last_colon_None: "before_last_colon s = None \<longleftrightarrow> CHR '':'' \<notin> set s"
  by (induction s) (auto split: option.splits)

lemma before_last_colon_Some:
  "before_last_colon s = Some host \<Longrightarrow> \<exists>port. s = host @ '':'' @ port \<and> CHR '':'' \<notin> set port"
proof (induction s arbitrary: host)
  case (Cons c s)
  show ?case
  proof (cases "before_last_colon s")
    case None
    then show ?thesis using Cons.prems before_last_colon_None [of s] by (auto split: if_splits)
  next
    case (Some h)
    then show ?thesis using Cons.prems Cons.IH [OF Some] by auto
  qed
qed simp

text \<open>
  The address the manager announces to the machine servers: the address it was given,
  with the port it was bound to after the last colon. A Unix address is left alone, an address
  without a colon gets the port appended, otherwise exactly the text after the last colon is
  replaced.
\<close>

lemma replace_port_correct:
  "if has_prefix ''unix:'' address then replace_port address port = address
   else \<exists>host. replace_port address port = host @ '':'' @ int_to_string port \<and>
     (address = host \<and> CHR '':'' \<notin> set address \<or> (\<exists>old. address = host @ '':'' @ old \<and> CHR '':'' \<notin> set old))"
  using before_last_colon_Some [of address] before_last_colon_None [of address]
  by (cases "before_last_colon address") (auto simp: replace_port_def)

text \<open>What an argument that is not a manager address says about the server address.\<close>

definition server_address_of :: "string \<Rightarrow> string" where
  "server_address_of arg = (case stringval ''--server-address='' arg of Some v \<Rightarrow> v | None \<Rightarrow> arg)"

text \<open>
  The command line. If it asks for the version or for help nothing is started.
  Otherwise the manager address is the last one given with \<^verbatim>\<open>--manager-address=\<close>, and there is none
  exactly when no argument gives one; the server address is the last argument that is not a
  manager address, without its \<^verbatim>\<open>--server-address=\<close> if it has that prefix, or the default.
\<close>

lemma parse_args_correct:
  assumes "''--version'' \<notin> set args" "''--help'' \<notin> set args"
  shows "parse_args args (m, s) =
     Inr (last (m # filter (\<lambda>v. v \<noteq> None) (map (stringval ''--manager-address='') args)),
          last (s # map server_address_of (filter (\<lambda>arg. stringval ''--manager-address='' arg = None) args)))"
  using assms
proof (induction args arbitrary: m s)
  case (Cons arg args)
  then show ?case
    by (cases "stringval ''--manager-address='' arg"; cases "stringval ''--server-address='' arg")
      (auto simp: server_address_of_def)
qed simp

text \<open>
  Starting the server. The process reaches its dispatch loop exactly when the arguments
  give a manager address and do not ask for the version or for help, a machine server executable
  exists and the gRPC server starts. It then has no sessions and no coroutines, reports itself
  and each of its services as serving and any other service as unknown, and announces the
  address with the port it was bound to. Every other start ends with status 0 or 1.
\<close>

theorem start_server_correct:
  "case start_server env argv of
     Inl status \<Rightarrow> status \<le> 1 \<and>
       (argv = [] \<or> machine_path env = None \<or> \<not> server_started env \<or> (\<forall>a s. parse_args (tl argv) (None, ''localhost:0'') \<noteq> Inr (Some a, s)))
   | Inr srv \<Rightarrow> \<exists>a s path. parse_args (tl argv) (None, ''localhost:0'') = Inr (Some a, s) \<and> machine_path env = Some path \<and>
       server_started env \<and> srv_coroutines srv = [] \<and> sessions (srv_context srv) = [] \<and>
       manager_address (srv_context srv) = replace_port a (bound_port env) \<and>
       machine_server_address (srv_context srv) = s \<and> remote_cartesi_machine_path (srv_context srv) = path \<and>
       (\<forall>name. um_find (service_health (srv_context srv)) name =
          (if name = [] \<or> name \<in> set (service_names env) then Some SERVING else None))"
proof -
  have health: "um_find (fold (\<lambda>name. um_insert name SERVING) names m) name =
      (if name \<in> set names \<and> um_find m name = None then Some SERVING else um_find m name)" for names m name
    by (induction names arbitrary: m) (auto simp: um_insert_def)
  have status: "status = 0" if "parse_args args p = Inl status" for args p status
    using that by (induction args arbitrary: p) (auto split: option.splits if_splits)
  show ?thesis
    by (auto simp: start_server_def build_manager_def new_handler_context_def health um_insert_def
        split: sum.splits option.splits if_splits dest!: status)
qed

definition sample_environment :: environment where
  "sample_environment = \<lparr>found_path = [], path_exists = (\<lambda>p. p = ''/usr/bin/remote-cartesi-machine''),
     service_names = [''Manager'', ''CheckIn'', ''Health''], bound_port = 5000, server_started = True\<rparr>"

theorem start_server_correct_witness:
  "\<exists>srv. start_server sample_environment [''server-manager'', ''--manager-address=h:0''] = Inr srv \<and>
     manager_address (srv_context srv) = replace_port ''h:0'' 5000 \<and> um_find (service_health (srv_context srv)) ''Manager'' = Some SERVING"
proof -
  have args: "parse_args (tl [''server-manager'', ''--manager-address=h:0'']) (None, ''localhost:0'') = Inr (Some ''h:0'', ''localhost:0'')"
    by (simp add: stringval_def has_prefix_def)
  have path: "machine_path sample_environment = Some ''/usr/bin/remote-cartesi-machine''" "server_started sample_environment"
    by (simp_all add: machine_path_def sample_environment_def)
  show ?thesis
  proof (cases "start_server sample_environment [''server-manager'', ''--manager-address=h:0'']")
    case (Inl status)
    then show ?thesis
      using start_server_correct [where env = sample_environment and argv = "[''server-manager'', ''--manager-address=h:0'']"] args path
      by (simp del: parse_args.simps)
  next
    case (Inr srv)
    then show ?thesis
      using start_server_correct [where env = sample_environment and argv = "[''server-manager'', ''--manager-address=h:0'']"] args path
      by (simp del: parse_args.simps) (auto simp: sample_environment_def)
  qed
qed

end
