(* ===== verification/Handler_Steps.thy ===== *)
theory Handler_Steps
  imports Handler_Logic Server
begin

text \<open>
  Every handler but \<open>AdvanceState\<close> and \<open>StartSession\<close> works without owning its session: the
  changes it makes are legal whoever owns it.
\<close>

section \<open>Changes of the epochs\<close>

lemma established_ok:
  assumes "session_inv K s" "epochs s \<noteq> []"
  shows "session_ok s" "sm_valid (epochs s)" "\<And>i e. sm_find (epochs s) i = Some e \<Longrightarrow> epoch_inv K s i e"
    "\<exists>e. sm_find (epochs s) (active_epoch_index s) = Some e"
    "\<And>i e. sm_find (epochs s) i = Some e \<Longrightarrow>
       epoch_index e = i \<and> i \<le> active_epoch_index s \<and> (state e = epoch_active \<longleftrightarrow> i = active_epoch_index s)"
  using assms by (auto simp: session_inv_def session_ok_def)

lemma sm_find_nonempty: "sm_find m k = Some v \<Longrightarrow> m \<noteq> []"
  by auto

lemma legal_erase:
  assumes "sm_find (epochs s) i = Some e" "i \<noteq> active_epoch_index s"
  shows "legal K s (s\<lparr>epochs := sm_erase i (epochs s)\<rparr>)"
  unfolding legal_def
proof
  let ?s = "s\<lparr>epochs := sm_erase i (epochs s)\<rparr>"
  assume s: "session_inv K s \<and> epochs s \<noteq> []"
  then have inv: "session_inv K s" "epochs s \<noteq> []" by simp_all
  note ok = established_ok [OF inv]
  obtain a where a: "sm_find (epochs s) (active_epoch_index s) = Some a" using ok(4) by blast
  have ne: "epochs ?s \<noteq> []" using a assms(2) by (intro sm_find_nonempty [of _ "active_epoch_index s" a]) simp
  have i: "i < active_epoch_index s" "pending_inputs e = []"
    using ok(3,5) [OF assms(1)] assms(2) by (auto simp: epoch_inv_def)
  have "session_advances s ?s"
    using ne i by (auto simp: session_advances_def split: option.split)
  moreover have ok': "session_ok ?s"
    using ok(1) assms(2) um.valid_erase sm.valid_erase by (auto simp: session_ok_def)
  moreover have "held K s ?s"
    by (rule heldI) (use inv(2) ok' i assms(1) session_ok_beyond [OF ok(1)] in \<open>auto split: option.split if_splits\<close>)
  moreover have "epoch_inv K ?s j x" if "sm_find (epochs ?s) j = Some x" for j x
    using that ok(3) [of j x] numbered_cong [of ?s s] by (auto simp: epoch_inv_def split: if_splits)
  ultimately show "session_advances s ?s \<and> held K s ?s \<and> session_inv K ?s \<and> session_id ?s = session_id s"
    using ne by (simp add: session_inv_def)
qed

lemma legal_enqueue:
  assumes "sm_find (epochs s) (active_epoch_index s) = Some e"
    "input_index_field (in_metadata x) = of_nat (length (pending_inputs e)) + processed_input_count s"
  shows "legal K s (s\<lparr>epochs := sm_assign (active_epoch_index s) (e\<lparr>pending_inputs := pending_inputs e @ [x]\<rparr>) (epochs s)\<rparr>)"
  unfolding legal_def
proof
  let ?e = "e\<lparr>pending_inputs := pending_inputs e @ [x]\<rparr>" and ?a = "active_epoch_index s"
  let ?s = "s\<lparr>epochs := sm_assign ?a ?e (epochs s)\<rparr>"
  assume s: "session_inv K s \<and> epochs s \<noteq> []"
  then have inv: "session_inv K s" "epochs s \<noteq> []" by simp_all
  note ok = established_ok [OF inv]
  have find: "sm_find (epochs ?s) j = (if j = ?a then Some ?e else sm_find (epochs s) j)" for j
    using ok(2) by (simp add: sm_find_assign)
  have ne: "epochs ?s \<noteq> []" using find by (intro sm_find_nonempty [of _ ?a ?e]) simp
  have q: "queued e ?e" "epoch_advances e ?e"
    using ok(5) [OF assms(1)] by (auto simp: queued_def epoch_advances_def results_def)
  have "session_advances s ?s"
    using ne inv(2) q(2) assms(1) find by (auto simp: session_advances_def split: option.split)
  moreover have ok': "session_ok ?s"
    using ok(1,2) find assms(1) by (auto simp: session_ok_def sm_valid_assign)
  moreover have "held K s ?s"
    by (rule heldI) (use inv(2) ok' q(1) assms(1) find session_ok_beyond [OF ok(1)] in
        \<open>auto simp: held_epoch_def split: option.split if_splits\<close>)
  moreover have "epoch_inv K ?s j y" if y: "sm_find (epochs ?s) j = Some y" for j y
  proof (cases "j = ?a")
    case True
    have e: "numbered s e" "\<not> tainted s \<Longrightarrow> \<not> processing_lock s \<Longrightarrow> epoch_ok K e \<and> outputs_ok K e"
      using ok(3) [OF assms(1)] by (auto simp: epoch_inv_def)
    have "numbered ?s ?e"
      using e(1) assms(2) by (auto simp: numbered_def nth_append less_Suc_eq add.commute)
    moreover have "y = ?e" using y True find [of j] by simp
    ultimately show ?thesis using e(2) True by (auto simp: epoch_inv_def epoch_ok_def outputs_ok_def)
  next
    case False
    then show ?thesis using y ok(3) [of j y] find [of j] numbered_cong [of ?s s] by (simp add: epoch_inv_def)
  qed
  ultimately show "session_advances s ?s \<and> held K s ?s \<and> session_inv K ?s \<and> session_id ?s = session_id s"
    using ne by (simp add: session_inv_def)
qed

text \<open>Finishing the active epoch and starting the next.\<close>

lemma finished_epoch:
  assumes "epoch_ok K e" "outputs_ok K e" "fin = fst (finish_epoch e)"
  shows "epoch_ok K fin" "outputs_ok K fin" "results fin = results e" "state fin = epoch_finished"
    "pending_inputs fin = pending_inputs e" "epoch_index fin = epoch_index e"
    "most_recent_machine_hash fin = most_recent_machine_hash e"
proof -
  obtain is' where f: "finish_epoch e = (e\<lparr>state := epoch_finished, processed_inputs := is'\<rparr>, Inr ())"
      "length is' = length (processed_inputs e)" "\<forall>k < length is'. refreshed K e k (processed_inputs e ! k) (is' ! k)"
    using finish_epoch_ok [OF assms(1)] by blast
  have same: "voucher_leaf (is' ! k) = voucher_leaf (processed_inputs e ! k) \<and>
      notice_leaf (is' ! k) = notice_leaf (processed_inputs e ! k) \<and>
      epoch_input_index (is' ! k) = epoch_input_index (processed_inputs e ! k) \<and>
      processed (is' ! k) = processed (processed_inputs e ! k) \<and> result_of (is' ! k) = result_of (processed_inputs e ! k)"
    if "k < length is'" for k
  proof -
    have r: "refreshed K e k (processed_inputs e ! k) (is' ! k)" using f(3) that by blast
    then obtain vp np where "is' ! k = (processed_inputs e ! k)\<lparr>voucher_hashes_in_epoch := vp, notice_hashes_in_epoch := np\<rparr>"
      by (auto simp: refreshed_def)
    then show ?thesis using refreshed_leaf [OF r] by (simp add: result_of_def)
  qed
  then have maps: "map voucher_leaf is' = map voucher_leaf (processed_inputs e)"
      "map notice_leaf is' = map notice_leaf (processed_inputs e)" "map result_of is' = map result_of (processed_inputs e)"
      "map processed is' = map processed (processed_inputs e)"
    using f(2) by (auto intro: nth_equalityI)
  show "epoch_ok K fin" using assms(1,3) f(1,2) maps same by (simp add: epoch_ok_def)
  have "(\<forall>i \<in> set is'. Q (processed i)) = (\<forall>i \<in> set (processed_inputs e). Q (processed i))" for Q
    using maps(4) by (metis (no_types, lifting) image_iff list.set_map)
  then show "outputs_ok K fin" using assms(2,3) f(1) unfolding outputs_ok_def by simp
  show "results fin = results e" "state fin = epoch_finished"
    "pending_inputs fin = pending_inputs e" "epoch_index fin = epoch_index e"
    "most_recent_machine_hash fin = most_recent_machine_hash e"
    using assms(3) f(1) maps(3) by (simp_all add: results_def)
qed

lemma legal_close:
  assumes e: "sm_find (epochs s) (active_epoch_index s) = Some e" "pending_inputs e = []" "epoch_ok K e" "outputs_ok K e"
    and s': "session_ok s'" "active_epoch_index s' = active_epoch_index s + 1" "active_epoch_index s \<noteq> - 1"
      "s' = s\<lparr>active_epoch_index := active_epoch_index s', epochs := epochs s'\<rparr>"
      "\<forall>j. j \<noteq> active_epoch_index s \<longrightarrow> j \<noteq> active_epoch_index s' \<longrightarrow> sm_find (epochs s') j = sm_find (epochs s) j"
      "sm_find (epochs s') (active_epoch_index s) = Some (fst (finish_epoch e))"
      "sm_find (epochs s') (active_epoch_index s') = Some e2" "epoch_ok K e2" "processed_inputs e2 = []" "pending_inputs e2 = []"
  shows "legal K s s'"
  unfolding legal_def
proof
  let ?a = "active_epoch_index s" and ?fin = "fst (finish_epoch e)"
  assume "session_inv K s \<and> epochs s \<noteq> []"
  then have inv: "session_inv K s" "epochs s \<noteq> []" by simp_all
  note ok = established_ok [OF inv]
  note fin = finished_epoch [OF e(3,4) refl]
  have lt: "?a < active_epoch_index s'" "\<And>j. j \<le> ?a \<Longrightarrow> j \<noteq> active_epoch_index s'"
    using u64_less_Suc [OF _ s'(3)] s'(2) by (auto simp: order_less_le)
  have same: "session_id s' = session_id s" "server_cycles s' = server_cycles s" "server_deadline s' = server_deadline s"
      "tainted s' = tainted s" "memory_range s' = memory_range s" "processing_lock s' = processing_lock s"
      "processed_input_count s' = processed_input_count s" "current_mcycle s' = current_mcycle s"
    by (subst s'(4), simp)+
  have ne: "epochs s' \<noteq> []" using s'(7) by (rule sm_find_nonempty)
  have adv: "epoch_advances e ?fin"
    using ok(5) [OF e(1)] fin by (simp add: epoch_advances_def)
  have other: "sm_find (epochs s') j = sm_find (epochs s) j" if "j \<le> ?a" "j \<noteq> ?a" for j
    using s'(5) lt(2) that by blast
  have "case sm_find (epochs s) i of None \<Rightarrow> sm_find (epochs s') i = None
      | Some e \<Rightarrow> (case sm_find (epochs s') i of None \<Rightarrow> i < active_epoch_index s' | Some e' \<Rightarrow> epoch_advances e e')"
    if "i \<le> ?a" for i
    using that other [of i] e(1) s'(6) adv by (cases "i = ?a") (auto split: option.split)
  then have adv': "session_advances s s'" using same ne lt(1) by (simp add: session_advances_def order.strict_implies_order)
  have "case sm_find (epochs s') i of None \<Rightarrow> pending_inputs x = [] | Some e' \<Rightarrow> held_epoch K x e'"
    if "i \<le> ?a" "sm_find (epochs s) i = Some x" for i x
    using that other [of i] e(1,2) s'(6) fin(1-5,7) by (cases "i = ?a") (auto simp: held_epoch_def)
  moreover have "epoch_ok K x \<and> outputs_ok K x" if "?a < i" "sm_find (epochs s') i = Some x" for i x
    using that s'(5,7-9) session_ok_beyond [OF ok(1), of i]
    by (cases "i = active_epoch_index s'") (auto simp: outputs_ok_def)
  ultimately have "held K s s'" using same inv s'(1) ok(5) by (intro heldI) auto
  moreover have "epoch_inv K s' i x" if x: "sm_find (epochs s') i = Some x" for i x
  proof -
    consider "i = active_epoch_index s'" | "i = ?a" | "i \<noteq> active_epoch_index s'" "i \<noteq> ?a" by blast
    then show ?thesis
    proof cases
      case 1
      then have "x = e2" using x s'(7) by simp
      then show ?thesis using 1 s'(8-10) by (auto simp: epoch_inv_def numbered_def outputs_ok_def)
    next
      case 2
      then have "x = ?fin" "i \<noteq> active_epoch_index s'" using x s'(6) lt(1) by auto
      then show ?thesis using fin e(2) by (simp add: epoch_inv_def)
    next
      case 3
      then have "sm_find (epochs s) i = Some x" using x s'(5) by simp
      then show ?thesis using 3 ok(3) by (auto simp: epoch_inv_def)
    qed
  qed
  ultimately show "session_advances s s' \<and> held K s s' \<and> session_inv K s' \<and> session_id s' = session_id s"
    using adv' ne same s'(1) by (simp add: session_inv_def)
qed

section \<open>The handlers\<close>

text \<open>Handlers that do not look at a session.\<close>

lemma orderly_finish: "plain (Finish response) \<Longrightarrow> sys.triple K (orderly K) (finish response) (\<lambda>_. orderly K) E"
  unfolding finish_def by (rule orderly_reply) (simp add: plain_certified)

lemma fresh_reply:
  "sys.triple K (orderly K) m (\<lambda>_. orderly K) E \<Longrightarrow> sys.triple K (fresh K) m (\<lambda>_. orderly K) E"
  by (erule sys.weaken_pre) (rule fresh_orderly)

lemma sessionless_handlers:
  "sys.triple K (fresh K) (GetVersion_handler ok) (\<lambda>_. orderly K) E"
  "sys.triple K (fresh K) (GetStatus_handler ok) (\<lambda>_. orderly K) E"
  "sys.triple K (fresh K) (Health_Check_handler ok service) (\<lambda>_. orderly K) E"
  "sys.triple K (fresh K) (Health_Watch_handler ok) (\<lambda>_. orderly K) E"
  unfolding GetVersion_handler_def GetStatus_handler_def Health_Check_handler_def Health_Watch_handler_def
  by (rule fresh_reply; auto intro!: sys.cases_if sys.return orderly_finish orderly_finish_with_error
      sys.bind [OF sys.read_state [where Q = "\<lambda>_. orderly K"]] split: option.split)+

lemma fresh_ignored: "sys.triple K (fresh K) (ret ()) (\<lambda>_. orderly K) E"
  by (rule sys.return) (rule fresh_orderly)

lemma quiet_finish: "plain (Finish response) \<Longrightarrow> legal.quiet K r X (\<lambda>_. True) (finish response)"
  unfolding finish_def by (intro legal.quiet_bind legal.quiet_yield legal.modest_ret) simp_all

lemma quiet_finish_error: "(\<And>st. X (Finish_error_yield_none st)) \<Longrightarrow> legal.quiet K r X V (finish_error code m)"
  unfolding finish_error_def by (rule legal.modest_throw) simp

lemma status_handlers:
  "sys.triple K (fresh K) (GetSessionStatus_handler ok peer sid) (\<lambda>_. orderly K) E"
  "sys.triple K (fresh K) (GetEpochStatus_handler ok peer esr) (\<lambda>_. orderly K) E"
  unfolding GetSessionStatus_handler_def GetEpochStatus_handler_def
  by (rule sys.cases_if, rule fresh_ignored, rule reporting_quiet_handler;
      auto intro!: legal.quiet_bind legal.quiet_get_session quiet_finish quiet_finish_error legal.modest_option)+

lemma delete_epoch_handler:
  "sys.triple K (fresh K) (DeleteEpoch_handler ok peer request) (\<lambda>_. orderly K) E"
  unfolding DeleteEpoch_handler_def
proof (rule sys.cases_if, rule fresh_ignored, rule reporting_quiet_handler, rule legal.modest_cases)
  let ?i = "der_epoch_index request"
  let ?m = "\<lambda>r. bindP (get_session r) (\<lambda>s. case sm_find (epochs s) ?i of
        None \<Rightarrow> finish_error INVALID_ARGUMENT ''unknown epoch index''
      | Some e \<Rightarrow>
        if state e = epoch_active \<or> active_epoch_index s = ?i then finish_error INVALID_ARGUMENT ''epoch is active''
        else thenP (set_session r (\<lambda>s. s\<lparr>epochs := sm_erase ?i (epochs s)\<rparr>)) (finish Void_response))"
  fix r h
  show "(\<exists>x. ?m r h = Done h (Inl x) \<and> (is_exception x \<longrightarrow> True)) \<or>
      (\<exists>h' n. ?m r h = n h' \<and> touches (legal K) r h h' \<and> legal.quiet K r (\<lambda>_. True) (\<lambda>_. True) n)"
  proof (cases "\<exists>s e. deref r h = Inr s \<and> sm_find (epochs s) ?i = Some e \<and> state e \<noteq> epoch_active \<and> ?i \<noteq> active_epoch_index s")
    case True
    then obtain s e where s: "deref r h = Inr s" "sm_find (epochs s) ?i = Some e" "state e \<noteq> epoch_active"
        "?i \<noteq> active_epoch_index s" by blast
    then have "?m r h = finish Void_response (assign_session r (s\<lparr>epochs := sm_erase ?i (epochs s)\<rparr>) h)"
      by (simp add: exec write_session_def)
    then show ?thesis
      using touches_assign [where sim = "legal K", OF s(1) _ legal_erase [OF s(2,4)]] quiet_finish [of Void_response]
      by (intro disjI2 exI [of _ "assign_session r (s\<lparr>epochs := sm_erase ?i (epochs s)\<rparr>) h"] exI [of _ "finish Void_response"])
        auto
  next
    case False
    then have "\<exists>x. ?m r h = Done h (Inl x)"
      by (cases "deref r h"; simp add: exec) (fastforce simp: exec split: option.split)
    then show ?thesis by simp
  qed
qed

text \<open>\<open>FinishEpoch\<close> without a storage directory: the checks and the change are one segment.\<close>

definition close_request :: "digest \<Rightarrow> coroutine \<Rightarrow> finish_epoch_request \<Rightarrow> session_ref \<Rightarrow> finish_epoch_response handler" where
  "close_request K self request r =
     thenP (check_not_tainted ''session was previously tainted ('' r)
     (thenP (check_epoch_can_finish request r)
     (thenP (if fer_storage_directory request \<noteq> []
             then store \<lparr>actx_session = r, actx_self = self\<rparr> (fer_storage_directory request)
             else ret ())
       (close_epoch K r (fer_active_epoch_index request))))"

lemma finish_epoch_cases:
  assumes P: "guest_with K (\<lambda>s. active_epoch_index s \<noteq> - 1) r g h0 h" and dir: "fer_storage_directory request = []"
    and d: "deref r h = Inr s"
  shows "(\<exists>st. \<not> is_ok st \<and> close_request K self request r h = Done h (Inl (Finish_error_yield_none st))) \<or>
    (\<exists>h' e response. close_request K self request r h = Done h' (Inr response) \<and> guest K r g h0 h' \<and>
       sm_find (epochs s) (fer_active_epoch_index request) = Some e \<and> epoch_ok K e \<and> outputs_ok K e \<and>
       set_proto_finish_epoch_response (fst (finish_epoch e)) = Inr response)"
proof -
  let ?i = "fer_active_epoch_index request"
  have guest: "guest K r g h0 h" and a: "active_epoch_index s \<noteq> - 1"
    using P d by (auto simp: guest_with_def)
  then have inv: "session_inv K s" "epochs s \<noteq> []"
    using server_inv_deref [OF _ d] d by (auto simp: guest_def orderly_def established_def)
  note ok = established_ok [OF inv]
  show ?thesis
  proof (cases "\<not> tainted s \<and> (\<exists>e. sm_find (epochs s) ?i = Some e \<and> state e = epoch_active \<and> pending_inputs e = [] \<and>
      of_nat (length (processed_inputs e)) = fer_processed_input_count_within_epoch request)")
    case True
    then obtain e where e: "sm_find (epochs s) ?i = Some e" "state e = epoch_active" "pending_inputs e = []"
        "of_nat (length (processed_inputs e)) = fer_processed_input_count_within_epoch request" by blast
    have i: "?i = active_epoch_index s" using ok(5) [OF e(1)] e(2) by simp
    have eok: "epoch_ok K e" "outputs_ok K e" using ok(3) [OF e(1)] i e(3) True by (auto simp: epoch_inv_def)
    obtain s' response where c: "close_epoch K r ?i h = Done (assign_session r s' h) (Inr response)"
        "session_object s' = session_object s" "legal K s s'"
        "set_proto_finish_epoch_response (fst (finish_epoch e)) = Inr response"
      using close_epoch_correct [OF d ok(1) a e(1) [unfolded i] eok(1) outputs_ok_hashed [OF eok(2)]] legal_close [OF e(1) [unfolded i] e(3) eok] a i
      by metis
    have "close_request K self request r h = Done (assign_session r s' h) (Inr response)"
      using True d e c(1) dir by (simp add: close_request_def check_not_tainted_def check_epoch_can_finish_def exec)
    moreover have "guest K r g h0 (assign_session r s' h)"
      by (rule guest_change [OF guest]) (rule touches_assign [where sim = "legal K", OF d c(2,3)])
    ultimately show ?thesis using eok c(4) e(1) by auto
  next
    case False
    have "\<exists>st. \<not> is_ok st \<and> close_request K self request r h = Done h (Inl (Finish_error_yield_none st))"
    proof (cases "tainted s")
      case True
      then show ?thesis using d by (simp add: close_request_def check_not_tainted_def exec is_ok_def)
    next
      case untainted: False
      then have "check_not_tainted p r h = Done h (Inr ())" for p using d by (simp add: check_not_tainted_def exec)
      moreover have "\<exists>st. \<not> is_ok st \<and> check_epoch_can_finish request r h = Done h (Inl (Finish_error_yield_none st))"
        using False untainted d by (auto simp: check_epoch_can_finish_def exec is_ok_def split: option.split)
      ultimately show ?thesis by (auto simp: close_request_def thenP_def bindP_def)
    qed
    then show ?thesis by blast
  qed
qed

lemma finish_epoch_segment:
  assumes P: "guest_with K (\<lambda>s. active_epoch_index s \<noteq> - 1) r g h0 h" and dir: "fer_storage_directory request = []"
  shows "\<exists>h' res. close_request K self request r h = Done h' res \<and>
    sys.outcome (\<lambda>response g h0 h. guest K r g h0 h \<and> certified K (Finish (Finish_epoch response))) (\<lambda>_. guest K r) g h0 res h'"
proof (cases "deref r h")
  case (Inl x)
  then show ?thesis using legal.deref_exn [OF Inl] by (simp add: close_request_def check_not_tainted_def exec)
next
  case (Inr s)
  from finish_epoch_cases [OF P dir Inr, of self] show ?thesis
    using P by (elim disjE exE conjE) (auto simp: guest_with_def certified_def)
qed

lemma guest_reply:
  "sys.triple K (\<lambda>g h0 h. guest K r g h0 h \<and> certified K (Finish response)) (finish response) (\<lambda>_. guest K r) E"
  unfolding finish_def
proof (rule sys.bind [where M = "\<lambda>_. guest K r"], rule sys.yields)
  fix g h0 h assume "guest K r g h0 h \<and> certified K (Finish response)"
  then show "\<exists>g'. guarantee K g h0 (Finish response) g' h \<and> (\<forall>v h'. rely K g' h h' \<longrightarrow> guest K r g' h' h')"
    using guest_yields by blast
qed (simp add: sys.return)

lemma finish_epoch_handler:
  assumes "fer_storage_directory request = []"
  shows "sys.triple K (fresh K) (FinishEpoch_handler K self ok peer request) (\<lambda>_. orderly K) E"
proof -
  have "sys.triple K (guest_with K (\<lambda>s. active_epoch_index s \<noteq> - 1) r)
      (bindP (close_request K self request r) (\<lambda>response. finish (Finish_epoch response))) (\<lambda>_. guest K r) (\<lambda>_. guest K r)" for r
    by (rule sys.bind [OF sys.segment guest_reply], rule finish_epoch_segment) (assumption | rule assms)+
  then show ?thesis
    unfolding FinishEpoch_handler_def
    by (intro sys.cases_if fresh_ignored reporting_handler [OF only_checks_overflow])
      (simp_all add: close_request_def thenP_def bindP_assoc)
qed

text \<open>\<open>EndSession\<close>: the active epoch exists, so looking at it inserts nothing.\<close>

lemma quiet_epoch_at:
  assumes "\<And>s. legal.quiet K r X V (f s)" "\<And>s. legal.quiet K r X V (f' s)"
  shows "legal.quiet K r X V (bindP (get_session r) (\<lambda>s.
    if b s then thenP (epoch_at K r (active_epoch_index s)) (f s) else f' s))" (is "legal.quiet K r X V ?m")
proof (rule legal.modest_cases)
  fix h
  show "(\<exists>x. ?m h = Done h (Inl x) \<and> (is_exception x \<longrightarrow> X x)) \<or>
      (\<exists>h' n. ?m h = n h' \<and> touches (legal K) r h h' \<and> legal.quiet K r X V n)"
  proof (cases "deref r h")
    case (Inl x)
    then show ?thesis using legal.deref_exn [OF Inl] by (simp add: exec)
  next
    case (Inr s)
    obtain e0 where e0: "default_epoch K = Inr e0" using default_epoch_Inr by blast
    let ?s = "s\<lparr>epochs := sm_assign (active_epoch_index s) e0 (epochs s)\<rparr>"
    let ?h = "if sm_find (epochs s) (active_epoch_index s) = None then assign_session r ?s h else h"
    have "legal K s ?s" if "sm_find (epochs s) (active_epoch_index s) = None"
      using that established_ok(4) [of K s] by (auto simp: legal_def)
    then have "touches (legal K) r h ?h"
      using touches_assign [where sim = "legal K" and s' = ?s, OF Inr] legal.touches_refl by simp
    moreover have "?m h = (if b s then f s ?h else f' s h)"
      using Inr e0 by (simp add: exec epoch_at_def write_session_def split: option.split)
    ultimately show ?thesis using legal.touches_refl assms by (metis (no_types, lifting))
  qed
qed

lemma orderly_erase:
  assumes "orderly K g h0 h"
  shows "orderly K g h0 (h\<lparr>sessions := um_erase sid (sessions h)\<rparr>)"
proof -
  have "deref t h = Inr s" if "deref t (h\<lparr>sessions := um_erase sid (sessions h)\<rparr>) = Inr s" for t s
    using that by (auto simp: deref_Inr_iff split: if_splits)
  then show ?thesis
    using assms um.valid_erase unfolding orderly_def server_inv_def evolves_def
    by (auto split: if_splits)
qed

lemma guest_erase:
  assumes "guest K r g h0 h"
  shows "guest K r g h0 (h\<lparr>sessions := um_erase sid (sessions h)\<rparr>)"
  using assms orderly_erase [of K g h0 h sid]
  by (auto simp: guest_def established_def deref_Inr_iff split: if_splits)

lemma end_session_handler:
  "sys.triple K (fresh K) (EndSession_handler K self ok peer sid) (\<lambda>_. orderly K) E"
  unfolding EndSession_handler_def
proof (rule sys.cases_if, rule fresh_ignored, rule reporting_handler [OF only_checks_nothing])
  fix r :: session_ref assume "ref_id r = sid"
  let ?checks = "\<lambda>s. if \<not> tainted s then thenP (epoch_at K r (active_epoch_index s))
       (bindP (get_epoch r (active_epoch_index s)) (\<lambda>e.
          if pending_inputs e \<noteq> [] then finish_error INVALID_ARGUMENT ''active epoch has pending inputs''
          else if processed_inputs e \<noteq> [] then finish_error INVALID_ARGUMENT ''active epoch has processed inputs''
          else ret ())) else ret ()"
  let ?erase = "thenP (update (\<lambda>h. Inr (h\<lparr>sessions := um_erase sid (sessions h)\<rparr>))) (finish Void_response)"
  have quiet: "sys.triple K (guest K r) m (\<lambda>_. guest K r) (\<lambda>_. guest K r)"
    if "legal.quiet K r (\<lambda>_. True) (\<lambda>_. True) m" for m :: "'x handler"
    using guest_triple [OF that] by (rule sys.conseq) auto
  have erase: "sys.triple K (guest K r) ?erase (\<lambda>_. guest K r) (\<lambda>_. guest K r)"
    by (rule sys.seq [OF sys.write_state quiet [OF quiet_finish]]) (auto intro: guest_erase)
  have checks: "legal.quiet K r (\<lambda>_. True) (\<lambda>_. True) (bindP (get_session r) ?checks)"
    by (rule quiet_epoch_at) (auto intro!: legal.quiet_steps quiet_finish_error)
  have leave: "sys.triple K (guest K r)
      (thenP (if tainted s then update (\<lambda>h. Inr (h\<lparr>terminated := terminated h @ [sid]\<rparr>)) else ret ()) ?erase)
      (\<lambda>_. guest K r) (\<lambda>_. guest K r)" for s
    by (rule sys.seq [OF quiet erase]) (auto intro: legal.modest_ret legal.quiet_poke)
  have stop: "sys.triple K (guest K r)
      (thenP (shutdown_server \<lparr>actx_session = r, actx_self = self\<rparr>)
        (bindP (get_session r) (\<lambda>s.
         thenP (if tainted s then update (\<lambda>h. Inr (h\<lparr>terminated := terminated h @ [sid]\<rparr>)) else ret ()) ?erase)))
      (\<lambda>_. guest K r) (\<lambda>_. guest K r)"
    by (rule sys.seq [OF quiet [OF modest_weaken [OF legal.quiet_start_checks(5)]]
          sys.bind [OF quiet [OF legal.quiet_get_session] leave]]) simp_all
  have "sys.triple K (guest K r)
     (thenP (bindP (get_session r) ?checks)
      (bindP (get_session r) (\<lambda>s.
          if processing_lock s then finish_error INTERNAL ''session is processing inputs!''
          else
            thenP (shutdown_server \<lparr>actx_session = r, actx_self = self\<rparr>)
            (bindP (get_session r) (\<lambda>s.
            thenP (if tainted s then update (\<lambda>h. Inr (h\<lparr>terminated := terminated h @ [sid]\<rparr>)) else ret ())
            ?erase))))) (\<lambda>_. guest K r) (\<lambda>_. guest K r)"
    by (rule sys.seq [OF quiet [OF checks] sys.bind [OF quiet [OF legal.quiet_get_session]
          sys.cases_if [OF quiet [OF quiet_finish_error] stop]]]) simp_all
  then have "sys.triple K (guest_with K (\<lambda>_. True) r)
     (thenP (bindP (get_session r) ?checks)
      (bindP (get_session r) (\<lambda>s.
          if processing_lock s then finish_error INTERNAL ''session is processing inputs!''
          else
            thenP (shutdown_server \<lparr>actx_session = r, actx_self = self\<rparr>)
            (bindP (get_session r) (\<lambda>s.
            thenP (if tainted s then update (\<lambda>h. Inr (h\<lparr>terminated := terminated h @ [sid]\<rparr>)) else ret ())
            ?erase))))) (\<lambda>_. guest K r) (\<lambda>_. guest K r)"
    by (rule sys.weaken_pre) (simp add: guest_with_def)
  then show "sys.triple K (guest_with K (\<lambda>_. True) r)
     (bindP (get_session r) (\<lambda>s. thenP (?checks s)
      (bindP (get_session r) (\<lambda>s.
          if processing_lock s then finish_error INTERNAL ''session is processing inputs!''
          else
            thenP (shutdown_server \<lparr>actx_session = r, actx_self = self\<rparr>)
            (bindP (get_session r) (\<lambda>s.
            thenP (if tainted s then update (\<lambda>h. Inr (h\<lparr>terminated := terminated h @ [sid]\<rparr>)) else ret ())
            ?erase)))))) (\<lambda>_. guest K r) (\<lambda>_. guest K r)"
    by (simp add: thenP_def bindP_assoc)
qed simp_all

text \<open>\<open>InspectState\<close> changes pending queries only.\<close>

lemma write_epoch_cases:
  "write_epoch r i f h = Inr h' \<Longrightarrow>
     \<exists>s e. deref r h = Inr s \<and> sm_find (epochs s) i = Some e \<and>
       h' = assign_session r (s\<lparr>epochs := sm_assign i (f e) (epochs s)\<rparr>) h"
  by (auto simp: write_epoch_def deref_epoch_def write_session_def split: sum.splits option.splits)

lemma write_epoch_exn: "write_epoch r i f h = Inl x \<Longrightarrow> \<not> is_exception x"
  by (auto simp: write_epoch_def split: sum.splits dest: legal.deref_epoch_exn legal.write_session_exn)

lemma similar_set_epoch:
  assumes "\<And>e. same_epoch e (f e)"
  shows "similar.quiet r X (\<lambda>_. True) (set_epoch r i f)"
proof -
  have "similar s (s\<lparr>epochs := sm_assign i (f e) (epochs s)\<rparr>)" if "sm_find (epochs s) i = Some e" for s e
    using requeried_assign [OF that assms] by (simp add: similar_def)
  then show ?thesis
    unfolding set_epoch_def
    by (intro similar.modest_update)
      (auto dest: write_epoch_exn dest!: write_epoch_cases intro!: touches_assign [where sim = similar])
qed

lemma similar_query:
  "similar.quiet r X (\<lambda>_. True) (get_query r i)" "similar.quiet r X (\<lambda>_. True) (set_query r i f)"
  unfolding set_query_def get_query_def
  by (auto simp: dangling_def intro!: similar.quiet_steps similar_set_epoch similar.modest_throw split: option.split)

lemmas quiet_set_epoch = similar_quiet [OF similar_set_epoch]
  and quiet_query = similar_query [THEN similar_quiet]

lemma similar_resume: "similar.quiet r X (\<lambda>_. True) (resume_pending_query r i self)"
  unfolding resume_pending_query_def enqueue_completion_queue_def
  by (auto intro!: similar.quiet_steps similar_query similar.modest_throw similar.quiet_poke)

lemma quiet_process_pending_query:
  "actx_session actx = r \<Longrightarrow> legal.quiet K r (fails r) (\<lambda>_. True) (process_pending_query fuel actx i)"
  unfolding process_pending_query_def Let_def
  by (auto intro!: legal.quiet_steps quiet_query legal.quiet_trigger_and_wait_checkin
      legal.quiet_fails [OF legal.quiet_sequences(2)] legal.quiet_fails [OF legal.quiet_sequences(4)]
      legal.quiet_fails [OF legal.quiet_run_loop] legal.quiet_read_outputs
      legal.quiet_fails [OF legal.quiet_simple_calls(1)] legal.quiet_fails [OF legal.quiet_simple_calls(2)]
      legal.quiet_fails [OF legal.quiet_simple_calls(3)] legal.quiet_fails [OF legal.quiet_simple_calls(8)])

lemma quiet_answer_query: "legal.quiet K r (fails r) (\<lambda>_. True) (answer_query fuel self r i)"
  unfolding answer_query_def check_not_tainted_def
  by (auto intro!: legal.quiet_steps quiet_query quiet_process_pending_query quiet_set_epoch quiet_finish)

lemma auto_resume_change: "auto_resume_destructor c h = Inr h' \<Longrightarrow> touches (legal K) r h h'"
  by (cases c) (auto simp: auto_resume_destructor_def touches_def deref_def legal_refl split: option.split sum.split)

lemma quiet_inspect_body: "legal.quiet K r (fails r) (\<lambda>_. True) (InspectState_body fuel self request r)"
  unfolding InspectState_body_def add_query_def check_not_tainted_def
  by (auto intro!: legal.quiet_steps quiet_query quiet_answer_query quiet_set_epoch legal.modest_scope
      dest: auto_resume_change) (simp add: auto_resume_destructor_def)

text \<open>The session that is tainted on failure is the one that was entered: its lock was just released.\<close>

definition failed_at :: "digest \<Rightarrow> id_type \<Rightarrow> handler_exn \<Rightarrow> session_ref set \<Rightarrow> handler_context \<Rightarrow> handler_context \<Rightarrow> bool" where
  "failed_at K sid x g h0 h \<longleftrightarrow> (\<exists>st. x = Finish_error_yield_none st) \<and> orderly K g h0 h \<or>
     (\<exists>r s. ref_id r = sid \<and> deref r h = Inr s \<and> fails r x \<and> guest K r g h0 h)"

lemma failed_at_leave:
  assumes "ref_id r = sid" "fails r x \<and> guest K r g h0 h" "lock_destructor Session_lock r h = Inr h'"
  shows "failed_at K sid x g h0 h'"
proof -
  have "guest K r g h0 h'" using assms(2,3) guest_change lock_destructor_change by blast
  moreover have "\<exists>s. deref r h' = Inr s"
    using assms(3) by (auto simp: lock_destructor_def write_session_def deref_Inr_iff split: sum.splits)
  ultimately show ?thesis using assms(1,2) by (auto simp: failed_at_def)
qed

lemma find_failed_session:
  assumes "\<And>r. ref_id r = sid \<Longrightarrow> sys.triple K (guest K r) (f (Some r)) Q E" "\<forall>st. x \<noteq> Finish_error_yield_none st"
  shows "sys.triple K (failed_at K sid x) (bindP (find_session sid) f) Q E"
  unfolding find_session_def
proof (rule sys.bind, rule sys.read_state [where Q = "\<lambda>it g h0 h. \<exists>r. it = Some r \<and> ref_id r = sid \<and> guest K r g h0 h"])
  fix it
  show "sys.triple K (\<lambda>g h0 h. \<exists>r. it = Some r \<and> ref_id r = sid \<and> guest K r g h0 h) (f it) Q E"
    by (cases it) (auto simp: sys.triple_def intro: assms(1) [unfolded sys.triple_def, rule_format])
next
  fix g h0 h it assume "failed_at K sid x g h0 h" and it: "Inr (case um_find (sessions h) sid of None \<Rightarrow> None
      | Some s \<Rightarrow> Some \<lparr>ref_id = sid, ref_object = session_object s\<rparr>) = (Inr it :: session_ref option hres)"
  then obtain r s where r: "ref_id r = sid" "deref r h = Inr s" "guest K r g h0 h"
    using assms(2) by (auto simp: failed_at_def)
  then have "it = Some \<lparr>ref_id = ref_id r, ref_object = ref_object r\<rparr>" using it by (simp add: deref_Inr_iff)
  then show "\<exists>r. it = Some r \<and> ref_id r = sid \<and> guest K r g h0 h" using r by (cases r) auto
qed simp

lemma taint_write: "legal.quiet K r X (\<lambda>_. True) (set_session r (\<lambda>s. s\<lparr>tainted := True, taint_status := st\<rparr>))"
  by (auto intro!: legal.quiet_set_session legal_fields)

lemma guest_quiet: "legal.quiet K r X V m \<Longrightarrow> (\<And>x g h0 h. X x \<Longrightarrow> guest K r g h0 h \<Longrightarrow> E x g h0 h) \<Longrightarrow>
    sys.triple K (guest K r) m (\<lambda>_. guest K r) E"
  by (rule sys.weaken_post [OF guest_triple [where X = X and V = V]]) auto

lemma inspect_catch:
  "sys.triple K (failed_at K sid x) (InspectState_catch sid x) (\<lambda>_. orderly K) E"
proof -
  have error: "sys.triple K (guest K r) (finish_with_error st) (\<lambda>_. orderly K) E" for r st
    by (rule sys.weaken_pre [OF orderly_finish_with_error]) (rule guest_orderly)
  have taint: "sys.triple K (guest K r) (thenP (set_session r (\<lambda>s. s\<lparr>tainted := True, taint_status := st\<rparr>))
      (finish_with_error st)) (\<lambda>_. orderly K) E" for r st
    by (rule sys.seq [OF guest_quiet [OF taint_write, where X = "\<lambda>_. False"] error]) simp
  have std: "sys.triple K (failed_at K sid x) (bindP (find_session sid) (\<lambda>it.
        thenP (case it of None \<Rightarrow> ret ()
               | Some r \<Rightarrow> set_session r (\<lambda>s. s\<lparr>tainted := True, taint_status := unexpected x\<rparr>))
          (finish_with_error (unexpected x)))) (\<lambda>_. orderly K) E" if "\<forall>st. x \<noteq> Finish_error_yield_none st"
    by (rule find_failed_session [OF _ that]) (simp add: taint)
  show ?thesis
  proof (cases x)
    case (Finish_error_yield_none st)
    then show ?thesis
      by (auto simp: InspectState_catch_def failed_at_def
          intro!: sys.weaken_pre [OF orderly_finish_with_error] dest: guest_orderly)
  next
    case (Taint_session t st)
    then show ?thesis
      by (auto simp: InspectState_catch_def failed_at_def intro!: sys.weaken_pre [OF taint])
  qed (use std in \<open>simp_all add: InspectState_catch_def cong: option.case_cong\<close>)
qed

lemma inspect_state_handler:
  "sys.triple K (fresh K) (InspectState_handler fuel self ok peer request) (\<lambda>_. orderly K) E"
  unfolding InspectState_handler_def
proof (rule sys.cases_if, rule fresh_ignored, rule sys.catches [OF _ inspect_catch])
  show "sys.triple K (fresh K) (enter_session ''InspectState'' peer (isr_session_id request) ''session id not found!''
      (\<lambda>_. ret ()) (InspectState_body fuel self request)) (\<lambda>_. orderly K) (failed_at K (isr_session_id request))"
  proof (rule enter_session_triple [OF only_checks_nothing])
    show "sys.triple K (guest_with K (\<lambda>_. True) r) (InspectState_body fuel self request r) (\<lambda>_. guest K r)
        (\<lambda>x g h0 h. fails r x \<and> guest K r g h0 h)" for r
      by (rule sys.weaken_pre [OF guest_quiet [OF quiet_inspect_body]]) (simp_all add: guest_with_def)
    show "failed_at K (isr_session_id request) x g h0 h'"
      if "ref_id r = isr_session_id request" "fails r x \<and> guest K r g h0 h" "lock_destructor Session_lock r h = Inr h'"
      for r x g h0 h h'
      using that by (rule failed_at_leave)
    show "failed_at K (isr_session_id request) (Finish_error_yield_none st) g h0 h" if "orderly K g h0 h" for st g h0 h
      using that by (simp add: failed_at_def)
  qed simp_all
qed

text \<open>\<open>Checkin\<close> writes the address of a session that another coroutine may be starting.\<close>

lemma orderly_readdress:
  assumes "orderly K g h0 h" "write_session r (\<lambda>s. s\<lparr>session_server_address := a\<rparr>) h = Inr h'"
  shows "orderly K g h0 h'"
proof -
  let ?sim = "\<lambda>s s'. s' = s\<lparr>session_server_address := a\<rparr>"
  obtain s where s: "deref r h = Inr s" "h' = assign_session r (s\<lparr>session_server_address := a\<rparr>) h"
    using assms(2) by (auto simp: write_session_def split: sum.splits)
  have t: "touches ?sim r h h'" unfolding s(2) using s(1) by (rule touches_assign) simp_all
  have legal: "legal K s (s\<lparr>session_server_address := a\<rparr>)" for s by (rule legal_fields) simp_all
  have change: "session_inv K (s\<lparr>session_server_address := a\<rparr>) \<and> session_advances s (s\<lparr>session_server_address := a\<rparr>) \<and>
      held K s (s\<lparr>session_server_address := a\<rparr>)" if "session_inv K s" for s
  proof (cases "epochs s = []")
    case True
    then show ?thesis using that by (simp add: session_inv_def session_advances_def held_def)
  next
    case False
    then show ?thesis using that legal [of s] by (simp add: legal_def)
  qed
  have inv: "server_inv K h" "session_inv K s"
    using assms(1) server_inv_deref [OF _ s(1)] by (auto simp: orderly_def)
  have "server_inv K h'"
    by (rule server_inv_touches [OF inv(1) t]) (use change in simp)
  moreover have "evolves K (\<lambda>t. t \<notin> g) h0 h'"
  proof (rule evolves_touches [OF _ t])
    show "evolves K (\<lambda>t. t \<notin> g) h0 h" using assms(1) by (simp add: orderly_def)
  qed (use s(1) change [OF inv(2)] held_trans in auto)
  ultimately show ?thesis by (simp add: orderly_def)
qed

lemma orderly_poke: "sessions h' = sessions h \<Longrightarrow> next_object h' = next_object h \<Longrightarrow> orderly K g h0 h \<Longrightarrow> orderly K g h0 h'"
  by (simp add: orderly_def server_inv_def evolves_def deref_def)

lemma orderly_suspend: "plain y \<Longrightarrow> sys.triple K (orderly K) (suspend y) (\<lambda>_. orderly K) E"
  by (rule sys.yields) (use orderly_yields [OF _ plain_certified] in blast)

lemma checkin_handler: "sys.triple K (fresh K) (Checkin_handler ok request) (\<lambda>_. orderly K) E"
proof -
  let ?sid = "cir_session_id request"
  have peek: "sys.triple K (orderly K) (gets (\<lambda>h. Inr (f h))) (\<lambda>_. orderly K) E" for f :: "handler_context \<Rightarrow> 'x" and E
    by (rule sys.read_state) auto
  have poke: "sys.triple K (orderly K) (update (\<lambda>h. Inr (h\<lparr>sessions_waiting_checkin := f h\<rparr>))) (\<lambda>_. orderly K) E" for f E
    by (rule sys.write_state) (auto intro: orderly_poke)
  have refuse: "sys.triple K (orderly K) (finish_error code m) (\<lambda>_. orderly K) (\<lambda>_. orderly K)" for code m
    by (simp add: finish_error_def sys.raise)
  have readdress: "sys.triple K (orderly K) (set_session r (\<lambda>s. s\<lparr>session_server_address := a\<rparr>)) (\<lambda>_. orderly K) E" for r a E
    unfolding set_session_def by (rule sys.write_state) (auto intro: orderly_readdress dest: legal.write_session_exn)
  have last: "sys.triple K (orderly K) (bindP (suspend (Resume_coroutine c)) (\<lambda>_. ret ())) (\<lambda>_. orderly K) E" for c E
    by (rule orderly_reply) (simp add: plain_certified)
  have found: "sys.triple K (orderly K)
     (thenP (set_session r (\<lambda>s. s\<lparr>session_server_address := cir_address request\<rparr>))
             (thenP (update (\<lambda>h. Inr (h\<lparr>sessions_waiting_checkin :=
                       um_assign ?sid (cctx\<lparr>cc_status := Some True\<rparr>) (sessions_waiting_checkin h)\<rparr>)))
             (bindP (suspend (Cancel_alarm ?sid)) (\<lambda>_.
             (thenP (finish Void_response)
             (bindP (suspend (Resume_coroutine (cc_coroutine cctx))) (\<lambda>_. ret ()))))))) (\<lambda>_. orderly K) E" for r cctx E
    by (rule sys.seq [OF readdress sys.seq [OF poke sys.bind [OF orderly_suspend sys.seq [OF orderly_finish last]]]]) simp_all
  show ?thesis
    unfolding Checkin_handler_def Let_def
  proof (rule sys.cases_if, rule fresh_ignored, rule orderly_report, rule fresh_reply, rule sys.bind [OF peek], rule sys.cases_option)
    fix waiting cctx
    show "sys.triple K (orderly K) (bindP (find_session ?sid) (\<lambda>it. case it of
             None \<Rightarrow> finish_error INVALID_ARGUMENT (''could not find an actual session with id '' @ ?sid)
           | Some r \<Rightarrow>
             thenP (set_session r (\<lambda>s. s\<lparr>session_server_address := cir_address request\<rparr>))
             (thenP (update (\<lambda>h. Inr (h\<lparr>sessions_waiting_checkin :=
                       um_assign ?sid (cctx\<lparr>cc_status := Some True\<rparr>) (sessions_waiting_checkin h)\<rparr>)))
             (bindP (suspend (Cancel_alarm ?sid)) (\<lambda>_.
             (thenP (finish Void_response)
             (bindP (suspend (Resume_coroutine (cc_coroutine cctx))) (\<lambda>_. ret ())))))))) (\<lambda>_. orderly K) (\<lambda>_. orderly K)"
      unfolding find_session_def by (rule sys.bind [OF peek sys.cases_option [OF refuse found]])
  qed (rule refuse)
qed

lemma checkin_deadline_handler: "sys.triple K (orderly K) (CheckinDeadline_handler sid deadline) (\<lambda>_. orderly K) E"
proof -
  have peek: "sys.triple K (orderly K) (gets (\<lambda>h. Inr (f h))) (\<lambda>_. orderly K) E" for f :: "handler_context \<Rightarrow> 'x" and E
    by (rule sys.read_state) auto
  have poke: "sys.triple K (orderly K) (update (\<lambda>h. Inr (h\<lparr>sessions_waiting_checkin := f h\<rparr>))) (\<lambda>_. orderly K) E" for f E
    by (rule sys.write_state) (auto intro: orderly_poke)
  have die: "sys.triple K (orderly K) (throw Exit_process) Q E" for Q :: "unit \<Rightarrow> _" by (rule sys.raise) simp
  have last: "sys.triple K (orderly K) (thenP (update (\<lambda>h. Inr (h\<lparr>sessions_waiting_checkin := f h\<rparr>)))
      (bindP (suspend (Resume_coroutine c)) (\<lambda>_. ret ()))) (\<lambda>_. orderly K) E" for c f E
    by (rule sys.seq [OF poke orderly_reply]) (simp add: plain_certified)
  show ?thesis
    unfolding CheckinDeadline_handler_def
    by (rule sys.bind [OF peek sys.cases_if [OF die sys.bind [OF orderly_suspend sys.cases_if [OF sys.return
          sys.bind [OF peek sys.cases_option [OF die last]]]]]]) simp_all
qed

end
