(* ===== verification/Server_Runs.thy ===== *)
theory Server_Runs
  imports Server
begin

text \<open>
  Runs of the server: the states it reaches when the completion queue returns events of a given
  kind, and that no exception leaves a coroutine in any of them, whatever clients request.
\<close>

section \<open>Reachable states\<close>

text \<open>
  The states after a successful start and any number of events that satisfy \<open>allowed\<close>, as long as
  the process runs: a run ends with the event that makes the process exit or crash.
\<close>

inductive reachable :: "(queue_event \<Rightarrow> bool) \<Rightarrow> nat \<Rightarrow> digest \<Rightarrow> server \<Rightarrow> bool" for allowed fuel K where
  started: "start_server env argv = Inr srv \<Longrightarrow> reachable allowed fuel K srv"
| dispatched: "reachable allowed fuel K srv \<Longrightarrow> allowed e \<Longrightarrow> dispatch fuel K answers e srv = Running srv' \<Longrightarrow>
    reachable allowed fuel K srv'"

lemma reachable_mono:
  assumes "reachable allowed fuel K srv" "\<And>e. allowed e \<Longrightarrow> allowed' e"
  shows "reachable allowed' fuel K srv"
  using assms(1) by induction (auto intro: reachable.intros assms(2))

lemma reachable_loop:
  assumes "reachable allowed fuel K srv" "\<forall>e \<in> set es. allowed (fst e)" "dispatch_loop fuel K es srv = Running srv'"
  shows "reachable allowed fuel K srv'"
  using assms
proof (induction es arbitrary: srv)
  case (Cons e es)
  then show ?case by (auto split: process.splits intro: reachable.dispatched)
qed simp

lemma start_server_initial:
  "start_server env argv = Inr srv \<Longrightarrow> sessions (srv_context srv) = [] \<and> srv_coroutines srv = []"
  by (auto simp: start_server_def build_manager_def new_handler_context_def split: if_splits sum.splits option.splits)

section \<open>Coroutines that no exception leaves\<close>

text \<open>However \<open>p\<close> is resumed, in whatever state, it does not end with an exception.\<close>

primrec no_exception :: "('s, 'y, 'v, 'a) proc \<Rightarrow> bool" where
  "no_exception (Done s r) \<longleftrightarrow> (\<forall>x. r = Inl x \<longrightarrow> \<not> is_exception x)"
| "no_exception (Suspend s y k) \<longleftrightarrow> (\<forall>v s'. no_exception (k v s'))"

abbreviation never_throws :: "('s, 'y, 'v, 'a) prog \<Rightarrow> bool" where
  "never_throws m \<equiv> \<forall>s. no_exception (m s)"

named_theorems quiet_rules \<open>programs that throw no exception\<close>

lemma no_exception_bind_proc: "no_exception p \<Longrightarrow> (\<And>a. never_throws (f a)) \<Longrightarrow> no_exception (bind_proc p f)"
  by (induction p rule: proc_induct) (auto split: sum.split)

lemma never_throws_bindP [quiet_rules]: "never_throws m \<Longrightarrow> (\<And>a. never_throws (f a)) \<Longrightarrow> never_throws (bindP m f)"
  by (simp add: bindP_def no_exception_bind_proc)

lemma never_throws_thenP [quiet_rules]: "never_throws m \<Longrightarrow> never_throws n \<Longrightarrow> never_throws (thenP m n)"
  by (simp add: thenP_def never_throws_bindP)

text \<open>A \<^verbatim>\<open>try\<close> block throws what its \<^verbatim>\<open>catch\<close> clauses throw.\<close>

lemma never_throws_try_catch [quiet_rules]:
  assumes "\<And>x. never_throws (f x)"
  shows "never_throws (try_catch m f)"
proof -
  have "no_exception (catch_proc p f)" for p
    using assms by (induction p rule: proc_induct) (auto split: sum.split)
  then show ?thesis by (simp add: try_catch_def)
qed

lemma never_throws_basic [quiet_rules]:
  "never_throws (ret a)" "never_throws (suspend y)" "(\<And>s x. f s = Inl x \<Longrightarrow> \<not> is_exception x) \<Longrightarrow> never_throws (gets f)"
  "(\<And>s x. g s = Inl x \<Longrightarrow> \<not> is_exception x) \<Longrightarrow> never_throws (update g)" "\<not> is_exception z \<Longrightarrow> never_throws (throw z)"
  by (auto simp: ret_def suspend_def gets_def update_def throw_def split: sum.split)

lemma never_throws_if [quiet_rules]: "never_throws m \<Longrightarrow> never_throws n \<Longrightarrow> never_throws (if b then m else n)"
  by simp

lemma never_throws_option [quiet_rules]:
  "never_throws m \<Longrightarrow> (\<And>a. never_throws (f a)) \<Longrightarrow> never_throws (case c of None \<Rightarrow> m | Some a \<Rightarrow> f a)"
  by (simp split: option.split)

text \<open>References fail only by dangling, which is no exception.\<close>

lemma write_session_failure: "write_session r f h = Inl x \<Longrightarrow> \<not> is_exception x"
  by (auto simp: write_session_def deref_failure split: sum.splits)

lemma deref_epoch_failure: "deref_epoch r i h = Inl x \<Longrightarrow> \<not> is_exception x"
  by (auto simp: deref_epoch_def dangling_def deref_failure split: sum.splits option.splits)

lemma write_epoch_failure: "write_epoch r i f h = Inl x \<Longrightarrow> \<not> is_exception x"
  by (auto simp: write_epoch_def deref_epoch_failure write_session_failure split: sum.splits)

lemma never_throws_references [quiet_rules]:
  "never_throws (get_session r)" "never_throws (set_session r f)" "never_throws (get_epoch r i)" "never_throws (set_epoch r i g)"
  "never_throws (find_session sid)" "never_throws (epoch_at K r i)"
proof -
  obtain e where e: "default_epoch K = Inr e" using default_epoch_Inr [of K] by blast
  show "never_throws (epoch_at K r i)"
    unfolding epoch_at_def
    by (rule never_throws_basic) (auto simp: e deref_failure write_session_failure split: sum.splits option.splits)
  show "never_throws (get_session r)" "never_throws (set_session r f)" "never_throws (get_epoch r i)" "never_throws (set_epoch r i g)"
    unfolding get_session_def set_session_def get_epoch_def set_epoch_def
    by (rule never_throws_basic, erule deref_failure write_session_failure deref_epoch_failure write_epoch_failure)+
  show "never_throws (find_session sid)" unfolding find_session_def by (rule never_throws_basic) simp
qed

lemma never_throws_finish [quiet_rules]: "never_throws (finish response)" "never_throws (finish_with_error status)"
  unfolding finish_def finish_with_error_def by (intro quiet_rules)+

section \<open>The handlers\<close>

lemma never_throws_report [quiet_rules]: "never_throws (report_exceptions body)"
proof -
  have "never_throws (case x of Finish_error_yield_none status \<Rightarrow> finish_with_error status | _ \<Rightarrow> finish_with_error (unexpected x))" for x
    by (cases x) (simp_all add: never_throws_finish)
  then show ?thesis unfolding report_exceptions_def by (rule never_throws_try_catch)
qed

lemma never_throws_query [quiet_rules]: "never_throws (get_query r i)" "never_throws (set_query r i f)"
proof -
  have "\<not> is_exception dangling" by (simp add: dangling_def)
  then show get: "never_throws (get_query r i)" unfolding get_query_def by (intro quiet_rules)
  show "never_throws (set_query r i f)" unfolding set_query_def by (intro quiet_rules get)
qed

lemma never_throws_resume [quiet_rules]: "never_throws (resume_pending_query r i self)"
proof -
  have "never_throws (enqueue_completion_queue c)" for c
    unfolding enqueue_completion_queue_def by (cases c) (simp_all add: throw_def update_def)
  then show ?thesis unfolding resume_pending_query_def by (intro quiet_rules)
qed

lemma never_throws_taint [quiet_rules]: "never_throws (taint_and_resume K self r status)"
  unfolding taint_and_resume_def by (intro quiet_rules)

lemma never_throws_catch [quiet_rules]:
  "never_throws (AdvanceState_catch K self sid x)" "never_throws (InspectState_catch sid x)"
  unfolding AdvanceState_catch_def InspectState_catch_def
  by (cases x; simp only: handler_exn.case; intro quiet_rules)+

lemma never_throws_start [quiet_rules]: "never_throws (StartSession_handler K self ok peer request)"
proof -
  have "never_throws (case x of Finish_error_yield_none status \<Rightarrow> finish_with_error status | _ \<Rightarrow> finish_with_error (unexpected x))" for x
    by (cases x) (simp_all add: never_throws_finish)
  then show ?thesis
    unfolding StartSession_handler_def by (intro never_throws_if never_throws_basic never_throws_try_catch never_throws_thenP; simp)
qed

lemma handlers_never_throw: "never_throws (handler_of fuel K self ok peer req)"
  by (cases req; simp only: handler_of.simps GetVersion_handler_def AdvanceState_handler_def GetStatus_handler_def
      GetSessionStatus_handler_def GetEpochStatus_handler_def InspectState_handler_def FinishEpoch_handler_def
      DeleteEpoch_handler_def EndSession_handler_def Checkin_handler_def Health_Check_handler_def Health_Watch_handler_def;
      intro quiet_rules; simp)

lemma deadline_never_throws: "never_throws (CheckinDeadline_handler sid deadline)"
  unfolding CheckinDeadline_handler_def by (intro quiet_rules; simp)

section \<open>The dispatch loop\<close>

definition all_quiet :: "server \<Rightarrow> bool" where
  "all_quiet srv \<longleftrightarrow> (\<forall>c y k. um_find (srv_coroutines srv) c = Some (Some (y, k)) \<longrightarrow> (\<forall>w h. no_exception (k w h)))"

lemma all_quiet_park:
  assumes "all_quiet srv" "no_exception p"
  shows "all_quiet (park c p srv)"
  using assms by (cases p) (auto simp: all_quiet_def park_def split: if_splits)

lemma all_quiet_fields [simp]: "all_quiet (srv\<lparr>srv_context := h\<rparr>) = all_quiet srv" "all_quiet (srv\<lparr>srv_next := n\<rparr>) = all_quiet srv"
  by (simp_all add: all_quiet_def)

lemma all_quiet_deadline: "all_quiet srv \<Longrightarrow> all_quiet (start_deadline sid deadline srv)"
  using all_quiet_park deadline_never_throws by (simp add: start_deadline_def)

lemma run_calls_at_once_quiet:
  assumes "no_exception p" "all_quiet srv" "run_calls_at_once answers p srv = (p', srv')"
  shows "no_exception p' \<and> all_quiet srv'"
  using assms
proof (induction p arbitrary: srv rule: proc_induct)
  case (Suspend h y k)
  show ?case
  proof (cases "atomic_point y")
    case True
    let ?srv = "case y of Start_deadline sid deadline \<Rightarrow> start_deadline sid deadline (srv\<lparr>srv_context := h\<rparr>) | _ \<Rightarrow> srv"
    have "all_quiet ?srv" using Suspend.prems(2) by (simp add: all_quiet_deadline split: yield_point.split)
    then show ?thesis using Suspend.IH [of "answers y" h ?srv] Suspend.prems(1,3) True by simp
  qed (use Suspend.prems in auto)
qed auto

lemma run_segment_quiet:
  assumes "no_exception p" "all_quiet srv" "run_segment answers p srv = (p', srv')"
  shows "no_exception p' \<and> all_quiet srv'"
  using assms
proof (induction p arbitrary: srv rule: proc_induct)
  case (Suspend h y k)
  have k: "no_exception (k v s)" for v s using Suspend.prems(1) by simp
  show ?case
  proof (cases "\<exists>c. y = Resume_coroutine c")
    case False
    let ?srv = "case y of Start_deadline sid deadline \<Rightarrow> start_deadline sid deadline (srv\<lparr>srv_context := h\<rparr>) | _ \<Rightarrow> srv"
    have "all_quiet ?srv" using Suspend.prems(2) by (simp add: all_quiet_deadline split: yield_point.split)
    moreover have "run_segment answers (Suspend h y k) srv =
        (if \<not> atomic_point y then (Suspend h y k, srv) else run_segment answers (k (answers y) h) ?srv)"
      using False by (cases y) simp_all
    ultimately show ?thesis using Suspend.IH [of "answers y" h ?srv] Suspend.prems k by (auto split: if_splits)
  next
    case True
    then obtain c where c: "y = Resume_coroutine c" by blast
    show ?thesis
    proof (cases "um_find (srv_coroutines srv) c")
      case None
      then show ?thesis using Suspend.prems c by (auto simp: dangling_def)
    next
      case entry: (Some en)
      show ?thesis
      proof (cases en)
        case None
        then show ?thesis using Suspend.prems c entry by (auto simp: dangling_def)
      next
        case (Some yk)
        obtain y' k' where yk: "yk = (y', k')" by (cases yk)
        obtain p1 srv1 where run: "run_calls_at_once answers (k' (answers y) h) srv = (p1, srv1)"
          by (cases "run_calls_at_once answers (k' (answers y) h) srv")
        have "no_exception (k' (answers y) h)" using Suspend.prems(2) entry Some yk by (auto simp: all_quiet_def)
        then have q: "no_exception p1" "all_quiet (park c p1 srv1)" "all_quiet srv1"
          using run_calls_at_once_quiet [OF _ Suspend.prems(2) run] all_quiet_park by auto
        show ?thesis
        proof (cases "\<exists>h' x. p1 = Done h' (Inl x)")
          case True
          then show ?thesis using Suspend.prems(3) c entry Some yk run q by auto
        next
          case False
          then have "run_segment answers (k (answers y) (srv_context (park c p1 srv1))) (park c p1 srv1) = (p', srv')"
            using Suspend.prems(3) c entry Some yk run by (cases p1) (auto simp: Let_def split: sum.splits)
          then show ?thesis using Suspend.IH k q(2) by blast
        qed
      qed
    qed
  qed
qed auto

lemma settle_quiet:
  assumes "no_exception p" "all_quiet srv" "settle c (run_segment answers p srv) = Running srv'"
  shows "all_quiet srv'"
proof -
  obtain p1 srv1 where run: "run_segment answers p srv = (p1, srv1)" by (cases "run_segment answers p srv")
  note q = run_segment_quiet [OF assms(1,2) run]
  have "all_quiet (srv1\<lparr>srv_context := h, srv_coroutines := um_erase c (srv_coroutines srv1)\<rparr>)" for h
    using q by (auto simp: all_quiet_def split: if_splits)
  then show ?thesis
    using assms(3) run q all_quiet_park by (auto simp: settle_def split: proc.splits sum.splits if_splits)
qed

lemma reachable_quiet: "reachable allowed fuel K srv \<Longrightarrow> all_quiet srv"
proof (induction rule: reachable.induct)
  case (started env argv srv)
  then show ?case using start_server_initial by (auto simp: all_quiet_def um_find_def)
next
  case (dispatched srv e answers srv')
  show ?case
  proof (cases e)
    case (Arrived ok peer req)
    then show ?thesis
      using dispatched.IH dispatched.hyps(3) settle_quiet handlers_never_throw
      by (simp add: dispatch_def Let_def del: handler_of.simps) (metis all_quiet_fields(2))
  next
    case (Returned c w)
    then obtain en where en: "um_find (srv_coroutines srv) c = Some en"
      using dispatched.hyps(3) by (auto simp: dispatch_def Let_def split: option.splits)
    have rest: "all_quiet (srv\<lparr>srv_coroutines := um_assign c None (srv_coroutines srv)\<rparr>)"
        "all_quiet (srv\<lparr>srv_context := h, srv_coroutines := um_erase c (srv_coroutines srv)\<rparr>)" for h
      using dispatched.IH by (auto simp: all_quiet_def split: if_splits)
    show ?thesis
    proof (cases en)
      case None
      then show ?thesis using Returned en rest(2) dispatched.hyps(3) by (auto simp: dispatch_def Let_def)
    next
      case (Some yk)
      obtain y k where yk: "yk = (y, k)" by (cases yk)
      have "no_exception (k w h)" for h using dispatched.IH en Some yk by (auto simp: all_quiet_def)
      from settle_quiet [OF this rest(1)] show ?thesis
        using Returned en Some yk dispatched.hyps(3) by (auto simp: dispatch_def Let_def)
    qed
  next
    case Queue_shutdown
    then show ?thesis using dispatched.hyps(3) by (simp add: dispatch_def)
  qed
qed

section \<open>A server with a session\<close>

text \<open>The state with the new session, locked.\<close>

definition begun :: "start_session_request \<Rightarrow> handler_context \<Rightarrow> handler_context" where
  "begun request h = h\<lparr>next_object := Suc (next_object h), sessions := um_assign (ssr_session_id request)
      ((get_proto_session (next_object h) request)\<lparr>session_lock := True\<rparr>) (sessions h)\<rparr>"

lemma create_and_lock:
  assumes "um_find (sessions h) (ssr_session_id request) = None"
    "r = \<lparr>ref_id = ssr_session_id request, ref_object = next_object h\<rparr>"
  shows "bindP (create_session request) (\<lambda>r. with_auto_lock Session_lock r name (body r)) h =
     on_scope_exit (lock_destructor Session_lock r) (body r) (begun request h)"
  using assms
  by (simp add: create_session_def with_auto_lock_def lock_acquire_def exec begun_def write_session_def
      assign_session_def deref_def get_proto_session_def)

text \<open>A server on which a session is being started.\<close>

definition started_server :: server where
  "started_server = \<lparr>srv_context = snd (build_manager sample_environment ''h:0''
      (new_handler_context\<lparr>remote_cartesi_machine_path := ''/usr/bin/remote-cartesi-machine'', manager_address := ''h:0'',
         machine_server_address := ''localhost:0''\<rparr>)), srv_coroutines = [], srv_next = 0\<rparr>"

lemma started_server: "reachable allowed fuel K started_server"
proof (rule reachable.started)
  have "parse_args (tl [''server-manager'', ''--manager-address=h:0'']) (None, ''localhost:0'') = Inr (Some ''h:0'', ''localhost:0'')"
    by (simp add: stringval_def has_prefix_def)
  moreover have "machine_path sample_environment = Some ''/usr/bin/remote-cartesi-machine''" "server_started sample_environment"
    by (simp_all add: machine_path_def sample_environment_def)
  ultimately show "start_server sample_environment [''server-manager'', ''--manager-address=h:0''] = Inr started_server"
    by (simp add: start_server_def started_server_def build_manager_def del: parse_args.simps)
qed

lemma started_session:
  "\<exists>srv s. dispatch fuel K (\<lambda>_. ok_wake) (Arrived True ''client'' (StartSession sample_start_request)) started_server = Running srv \<and>
     um_find (sessions (srv_context srv)) ''t'' = Some s \<and> session_object s = 0 \<and> next_object (srv_context srv) = 1"
proof -
  let ?h = "srv_context started_server" and ?req = sample_start_request
  let ?r = "\<lparr>ref_id = ''t'', ref_object = 0\<rparr> :: session_ref"
  have h: "sessions ?h = []" "sessions_waiting_checkin ?h = []" "next_object ?h = 0" "srv_next started_server = 0"
    by (simp_all add: started_server_def build_manager_def new_handler_context_def)
  have req: "ssr_session_id ?req = ''t''" by (simp add: sample_start_request_def)
  let ?s = "(get_proto_session 0 ?req)\<lparr>session_lock := True\<rparr>"
  have begun: "deref ?r (begun ?req ?h) = Inr ?s" "sessions_waiting_checkin (begun ?req ?h) = []"
    by (simp_all add: begun_def deref_Inr_iff req h get_proto_session_def)
  have limits: "check_start_request ?req (?s\<lparr>session_lock_reason := x\<rparr>) = Inr ()" for x
    by (simp add: check_start_request_def get_proto_session_def sample_start_request_def get_proto_deadline_config_def get_proto_cycles_config_def)
  have free: "um_find (sessions ?h) (ssr_session_id ?req) = None" by (simp add: h um_find_def)
  note create = create_and_lock [OF free refl, unfolded req h]
  have ids: "session_id ?s = ''t''" "session_object ?s = 0" by (simp_all add: get_proto_session_def req)
  have assign: "sessions_waiting_checkin (assign_session t s g) = sessions_waiting_checkin g" "next_object (assign_session t s g) = next_object g"
      "um_find (sessions (assign_session t s g)) (ref_id t) = Some s" for t s g
    by (simp_all add: assign_session_def)
  have next_object: "next_object (begun ?req ?h) = Suc 0" by (simp add: begun_def h)
  have empty: "um_find [] k = None" for k by (simp add: um_find_def)
  show ?thesis
    using begun limits ids h
    by (simp add: dispatch_def Let_def StartSession_handler_def StartSession_body_def try_catch_def req find_session_eq free
        create bindP_def [of "find_session _"])
      (simp add: on_scope_exit_def exec write_session_def trigger_and_wait_checkin_def spawn_server_def suspend_def empty
        ok_wake_def start_deadline_def CheckinDeadline_handler_def park_def settle_def assign next_object
        assign(3) [of ?r, unfolded session_ref.simps])
qed

lemma busy_server:
  assumes "\<And>req. allowed (Arrived True ''client'' (StartSession req))"
  shows "\<exists>srv s. reachable allowed fuel K srv \<and> um_find (sessions (srv_context srv)) ''t'' = Some s \<and> session_object s = 0 \<and>
     next_object (srv_context srv) = 1"
  using started_session reachable.dispatched [OF started_server] assms by metis

section \<open>Claims\<close>

definition catches_all :: "running \<times> server \<Rightarrow> bool" where
  "catches_all result = (case fst result of Done h (Inl x) \<Rightarrow> \<not> is_exception x | _ \<Rightarrow> True)"

lemma quiet_segment: "no_exception p \<Longrightarrow> all_quiet srv \<Longrightarrow> catches_all (run_segment answers p srv)"
  using run_segment_quiet [of p srv answers "fst (run_segment answers p srv)" "snd (run_segment answers p srv)"]
  by (auto simp: catches_all_def split: proc.split sum.split)

text \<open>
  Claim C15. No exception leaves a coroutine. In every state the server reaches, after whatever
  requests, a storing \<open>FinishEpoch\<close> included, whatever request arrives next and whatever the queue
  returns: a segment that ends in an error, also in a coroutine that another one resumed, has
  called \<^verbatim>\<open>exit\<close>, or ran into undefined behaviour or the bound on loops. The handlers of
  \<^verbatim>\<open>main\<close> for exceptions are not needed.
\<close>

theorem exceptions_stay_inside:
  assumes "reachable (\<lambda>_. True) fuel K srv"
  shows "catches_all (run_segment answers (handler_of fuel K (srv_next srv) ok peer req (srv_context srv))
      (srv\<lparr>srv_next := srv_next srv + 1\<rparr>)) \<and>
    (case um_find (srv_coroutines srv) c of
       Some (Some (y, k)) \<Rightarrow>
         catches_all (run_segment answers (k w ((srv_context srv)\<lparr>completion_queue := remove1 c (completion_queue (srv_context srv))\<rparr>))
           (srv\<lparr>srv_coroutines := um_assign c None (srv_coroutines srv)\<rparr>))
     | _ \<Rightarrow> True)"
proof
  have q: "all_quiet srv" using assms by (rule reachable_quiet)
  then show "catches_all (run_segment answers (handler_of fuel K (srv_next srv) ok peer req (srv_context srv))
      (srv\<lparr>srv_next := srv_next srv + 1\<rparr>))"
    using handlers_never_throw by (intro quiet_segment) simp_all
  have "all_quiet (srv\<lparr>srv_coroutines := um_assign c None (srv_coroutines srv)\<rparr>)"
    using q by (auto simp: all_quiet_def split: if_splits)
  moreover have "no_exception (k w h)" if "um_find (srv_coroutines srv) c = Some (Some (y, k))" for y k h
    using q that by (auto simp: all_quiet_def)
  ultimately show "case um_find (srv_coroutines srv) c of
       Some (Some (y, k)) \<Rightarrow>
         catches_all (run_segment answers (k w ((srv_context srv)\<lparr>completion_queue := remove1 c (completion_queue (srv_context srv))\<rparr>))
           (srv\<lparr>srv_coroutines := um_assign c None (srv_coroutines srv)\<rparr>))
     | _ \<Rightarrow> True"
    using quiet_segment by (simp split: option.split)
qed

theorem exceptions_stay_inside_witness:
  "\<exists>srv. reachable (\<lambda>_. True) 5 sample_digest srv \<and> um_find (sessions (srv_context srv)) ''t'' \<noteq> None \<and>
     catches_all (run_segment (\<lambda>_. ok_wake) (handler_of 5 sample_digest (srv_next srv) True ''client''
         (FinishEpoch \<lparr>fer_session_id = ''t'', fer_active_epoch_index = 0, fer_processed_input_count_within_epoch = 0,
            fer_storage_directory = ''/tmp/store''\<rparr>) (srv_context srv))
       (srv\<lparr>srv_next := srv_next srv + 1\<rparr>))"
proof -
  obtain srv s where srv: "reachable (\<lambda>_. True) 5 sample_digest srv" "um_find (sessions (srv_context srv)) ''t'' = Some s"
    using busy_server [where allowed = "\<lambda>_. True"] by blast
  from exceptions_stay_inside [OF srv(1), of "\<lambda>_. ok_wake" True "''client''"] srv show ?thesis by blast
qed

end
