(* ===== verification/Start_Steps.thy ===== *)
theory Start_Steps
  imports Handler_Steps Server_Runs
begin

text \<open>
  \<open>StartSession\<close> owns the session it creates until the first epoch exists.
\<close>

section \<open>The session under construction\<close>

text \<open>Nobody else sees more of it than the address.\<close>

definition building :: "session_type \<Rightarrow> session_type \<Rightarrow> bool" where
  "building s s' \<longleftrightarrow> session_id s' = session_id s \<and> server_cycles s' = server_cycles s \<and>
     server_deadline s' = server_deadline s \<and> (tainted s \<longrightarrow> tainted s') \<and> session_lock s' = session_lock s \<and>
     processing_lock s' = processing_lock s \<and> epochs s' = epochs s \<and> active_epoch_index s' = active_epoch_index s"

interpretation building: session_change building
  by unfold_locales (auto simp: building_def)

definition starting :: "digest \<Rightarrow> u64 \<Rightarrow> session_ref \<Rightarrow> session_ref set \<Rightarrow> handler_context \<Rightarrow> handler_context \<Rightarrow> bool" where
  "starting K a r g h0 h \<longleftrightarrow> orderly K g h0 h \<and> (r \<in> g \<or> next_object h0 \<le> ref_object r) \<and> g \<subseteq> {r} \<and>
     ref_object r < next_object h \<and> (\<forall>s. deref r h = Inr s \<longrightarrow> epochs s = [] \<and> active_epoch_index s = a)"

lemma starting_change:
  assumes P: "starting K a r g h0 h" and t: "touches building r h h'"
  shows "starting K a r g h0 h'"
proof -
  have inv: "server_inv K h" and ev: "evolves K (\<lambda>t. t \<notin> g) h0 h" using P by (auto simp: starting_def orderly_def)
  have s: "epochs s = [] \<and> active_epoch_index s = a" if "deref r h = Inr s" for s using P that by (simp add: starting_def)
  have "server_inv K h'"
    by (rule server_inv_touches [OF inv t]) (use s in \<open>auto simp: building_def session_inv_def\<close>)
  moreover have "evolves K (\<lambda>t. t \<notin> g) h0 h'"
    by (rule evolves_touches [OF ev t]) (use s P in \<open>auto simp: building_def session_advances_def starting_def\<close>)
  moreover have "epochs s' = [] \<and> active_epoch_index s' = a" if s': "deref r h' = Inr s'" for s'
    using touches_present [OF t s'] s by (auto simp: building_def)
  moreover have "next_object h' = next_object h" using t by (simp add: touches_def)
  ultimately show ?thesis using P by (simp add: starting_def orderly_def)
qed

lemma starting_yields:
  assumes P: "starting K a r g h0 h" and "certified K y"
  shows "\<exists>g'. guarantee K g h0 y g' h \<and> (\<forall>h'. rely K g' h h' \<longrightarrow> starting K a r g' h' h')"
proof (intro exI [of _ "{r}"] conjI allI impI)
  show "guarantee K g h0 y {r} h"
    using assms by (auto simp: guarantee_def starting_def orderly_def owned_def protected_def free_def)
  fix h' assume R: "rely K {r} h h'"
  have "epochs s' = [] \<and> active_epoch_index s' = a" if s': "deref r h' = Inr s'" for s'
  proof -
    obtain s where "deref r h = Inr s" "held K s s'"
      using R P s' unfolding rely_def evolves_def starting_def by blast
    moreover from this have "readdressed s s'" using P by (auto simp: held_def starting_def)
    ultimately show ?thesis using P readdressedD [of s s'] by (simp add: starting_def)
  qed
  then show "starting K a r {r} h' h'" using R P by (auto simp: starting_def orderly_def rely_def evolves_def)
qed

lemma starting_triple:
  assumes "building.quiet r X V m"
  shows "sys.triple K (starting K a r) m (\<lambda>v g h0 h. starting K a r g h0 h \<and> V v) (\<lambda>_. starting K a r)"
  using assms
proof (rule sys.modest_triple)
  show "starting K a r g h0 h'" if "starting K a r g h0 h" "touches building r h h'" for g h0 h h'
    using that by (rule starting_change)
  show "\<exists>g'. guarantee K g h0 y g' h \<and> (\<forall>h'. rely K g' h h' \<longrightarrow> starting K a r g' h' h')"
    if "starting K a r g h0 h" "plain y" for g h0 h y
    using that by (intro starting_yields plain_certified)
qed

lemma starting_quiet:
  "building.quiet r X V m \<Longrightarrow> sys.triple K (starting K a r) m (\<lambda>_. starting K a r) (\<lambda>_. starting K a r)"
  by (rule sys.weaken_post [OF starting_triple [where X = X and V = V]]) auto

section \<open>The first epoch\<close>

lemma first_epoch_inv:
  assumes "epochs s = []" "default_epoch K = Inr e0" "active_epoch_index s = a"
    "e = e0\<lparr>epoch_index := a, state := epoch_active, most_recent_machine_hash := x\<rparr>"
    "s' = s\<lparr>epochs := sm_assign a e (epochs s)\<rparr>"
  shows "session_inv K s'" "epochs s' \<noteq> []" "session_advances s s'"
proof -
  have f: "sm_find (epochs s') i = (if i = a then Some e else None)" for i
    using assms(1,5) by (simp add: sm_find_assign) (simp add: sm_find_def)
  have e: "epoch_ok K e" "processed_inputs e = []" "pending_inputs e = []" "epoch_index e = a" "state e = epoch_active"
    using assms(2,4) default_epoch_Inr [of K] by (auto simp: epoch_ok_def epoch_tree_def)
  show ne: "epochs s' \<noteq> []" using f [of a] by auto
  have "session_ok s'" using f e assms(1,3,5) by (auto simp: session_ok_def sm_valid_assign sm_valid_def split: if_splits)
  moreover have "epoch_inv K s' i x" if "sm_find (epochs s') i = Some x" for i x
    using that f [of i] e assms(3,5) by (auto simp: epoch_inv_def numbered_def outputs_ok_def split: if_splits)
  ultimately show "session_inv K s'" using ne by (simp add: session_inv_def)
  show "session_advances s s'" using assms(1,5) by (simp add: session_advances_def)
qed

lemma first_epoch_write:
  assumes P: "starting K a r g h0 h" and e: "default_epoch K = Inr e0"
      "e = e0\<lparr>epoch_index := a, state := epoch_active, most_recent_machine_hash := x\<rparr>"
    and w: "write_session r (\<lambda>s. s\<lparr>epochs := sm_assign a e (epochs s)\<rparr>) h = Inr h'"
  shows "guest K r g h0 h'"
proof -
  let ?f = "\<lambda>s. s\<lparr>epochs := sm_assign a e (epochs s)\<rparr>" and ?sim = "\<lambda>s s'. s' = s\<lparr>epochs := sm_assign a e (epochs s)\<rparr>"
  obtain s where s: "deref r h = Inr s" "h' = assign_session r (?f s) h"
    using w by (auto simp: write_session_def split: sum.splits)
  have inv: "server_inv K h" and ev: "evolves K (\<lambda>t. t \<notin> g) h0 h" and s0: "epochs s = []" "active_epoch_index s = a"
    using P s(1) by (auto simp: starting_def orderly_def)
  note new = first_epoch_inv [OF s0(1) e(1) s0(2) e(2) refl]
  have t: "touches ?sim r h h'" unfolding s(2) using s(1) by (rule touches_assign) simp_all
  have d: "deref r h' = Inr (?f s)" using s by (simp add: deref_Inr_iff)
  have "server_inv K h'" by (rule server_inv_touches [OF inv t]) (use s(1) new(1) in auto)
  moreover have "evolves K (\<lambda>t. t \<notin> g) h0 h'"
    by (rule evolves_touches [OF ev t]) (use s(1) new(3) P in \<open>auto simp: starting_def\<close>)
  moreover have "established r h'"
    using d new(2) P t by (auto simp: established_def starting_def touches_def)
  ultimately show ?thesis using P by (auto simp: guest_def orderly_def starting_def)
qed

lemma start_first_epoch_triple:
  assumes "actx_session actx = r"
  shows "sys.triple K (starting K a r) (start_first_epoch K actx) (\<lambda>_. guest K r) (\<lambda>_. starting K a r)"
proof -
  obtain e0 where e0: "default_epoch K = Inr e0" using default_epoch_Inr by blast
  let ?e = "\<lambda>s hash. e0\<lparr>epoch_index := active_epoch_index s, state := epoch_active, most_recent_machine_hash := hash\<rparr>"
  let ?set = "\<lambda>s hash. set_session r (\<lambda>t. t\<lparr>epochs := sm_assign (active_epoch_index s) (?e s hash) (epochs t)\<rparr>)"
  have set: "sys.triple K (starting K a r) (?set s hash) (\<lambda>_. guest K r) (\<lambda>_. starting K a r)"
    if "active_epoch_index s = a" for s hash
    unfolding set_session_def that
    by (rule sys.write_state) (auto intro: first_epoch_write [OF _ e0 refl] dest: legal.write_session_exn)
  have "sys.triple K (starting K a r) (bindP (get_session r) (\<lambda>s. bindP (get_root_hash actx) (?set s)))
      (\<lambda>_. guest K r) (\<lambda>_. starting K a r)"
    unfolding get_session_def
  proof (rule sys.bind [OF sys.read_state [where Q = "\<lambda>s g h0 h. starting K a r g h0 h \<and> active_epoch_index s = a"]])
    fix s
    show "sys.triple K (\<lambda>g h0 h. starting K a r g h0 h \<and> active_epoch_index s = a)
        (bindP (get_root_hash actx) (?set s)) (\<lambda>_. guest K r) (\<lambda>_. starting K a r)"
    proof (rule sys.given [where A = "active_epoch_index s = a"])
      assume a: "active_epoch_index s = a"
      show ?thesis
        by (rule sys.weaken_pre [OF sys.bind [OF starting_quiet [OF building.quiet_sequences(6) [OF assms]] set [OF a]]]) simp
    qed simp
  qed (auto simp: starting_def dest: legal.deref_exn)
  moreover have "(liftH (Inr e0) :: epoch_type handler) = ret e0" by (simp add: fun_eq_iff liftH_def ret_def)
  ultimately show ?thesis by (simp add: start_first_epoch_def assms e0 lift_res_def Let_def)
qed

section \<open>The handler\<close>

lemma quiet_building_checks:
  "building.quiet r (fails r) (\<lambda>_. True) (check_rollup_config r config)"
  "building.quiet r (fails r) (\<lambda>_. True) (set_session r (\<lambda>s. s\<lparr>current_mcycle := c\<rparr>))"
  "building.quiet r (fails r) (\<lambda>_. True) (set_session r (\<lambda>s. s\<lparr>session_lock_reason := reason\<rparr>))"
proof -
  have range: "building.quiet r (fails r) (\<lambda>_. True) (check_range r get put name cfg)" for get put name cfg
    unfolding check_range_def
    by (intro building.quiet_bind building.quiet_get_session building.quiet_set_session building.modest_lift)
      (auto simp: building_def check_memory_range_config_def Let_def split: if_splits)
  show "building.quiet r (fails r) (\<lambda>_. True) (check_rollup_config r config)"
    unfolding check_rollup_config_def by (auto intro!: building.quiet_steps range)
  show "building.quiet r (fails r) (\<lambda>_. True) (set_session r (\<lambda>s. s\<lparr>current_mcycle := c\<rparr>))"
    "building.quiet r (fails r) (\<lambda>_. True) (set_session r (\<lambda>s. s\<lparr>session_lock_reason := reason\<rparr>))"
    by (auto intro!: building.quiet_set_session simp: building_def)
qed

lemma start_machine_triple:
  assumes "actx_session actx = r"
  shows "sys.triple K (starting K a r) (start_machine K actx request) (\<lambda>_. guest K r) (\<lambda>_. starting K a r)"
proof -
  have reply: "sys.triple K (guest K r) (finish (Start_session config)) (\<lambda>_. guest K r) E" for config E
    by (rule sys.weaken_pre [OF guest_reply]) (simp add: plain_certified)
  have lift: "sys.triple K (starting K a r) (liftH x) (\<lambda>_. starting K a r) (\<lambda>_. starting K a r)" for x :: "'x hres"
    by (rule sys.lift) simp_all
  note q = starting_quiet building.quiet_start_checks [OF assms] quiet_building_checks
  show ?thesis
    unfolding start_machine_def Let_def assms
    by (rule sys.seq [OF starting_quiet [OF q(2)] sys.seq [OF starting_quiet [OF q(3)] sys.bind [OF starting_quiet [OF q(4)]
        sys.seq [OF lift sys.seq [OF starting_quiet [OF q(9)] sys.bind [OF starting_quiet [OF q(5)]
        sys.seq [OF starting_quiet [OF q(10)] sys.seq [OF start_first_epoch_triple [OF assms] reply]]]]]]]])
qed

lemma start_body_triple:
  assumes "actx_session actx = r"
  shows "sys.triple K (starting K a r)
     (thenP (set_session r (\<lambda>s. s\<lparr>session_lock_reason := reason\<rparr>))
       (bindP (get_session r) (\<lambda>s.
        thenP (liftH (check_start_request request s))
        (thenP (trigger_and_wait_checkin actx (spawn_server actx))
          (try_catch (start_machine K actx request) (shutdown_and_rethrow r))))))
     (\<lambda>_. guest K r) (\<lambda>_. starting K a r)"
proof -
  have rethrow: "sys.triple K (starting K a r) (shutdown_and_rethrow r x) (\<lambda>_. guest K r) (\<lambda>_. starting K a r)" for x
    unfolding shutdown_and_rethrow_def
    by (rule sys.bind [OF starting_quiet [OF building.quiet_get_session]], rule sys.cases_option, rule sys.raise, simp,
        rule sys.bind [OF starting_quiet [OF building.quiet_yield]]) (auto intro: sys.raise)
  have lift: "sys.triple K (starting K a r) (liftH x) (\<lambda>_. starting K a r) (\<lambda>_. starting K a r)" for x :: "unit hres"
    by (rule sys.lift) simp_all
  show ?thesis
    by (rule sys.seq [OF starting_quiet [OF quiet_building_checks(3)]], rule sys.bind [OF starting_quiet [OF building.quiet_get_session]],
        rule sys.seq [OF lift], rule sys.seq [OF starting_quiet [OF building.quiet_trigger_and_wait_checkin [OF assms]]],
        rule building.quiet_start_checks(7) [OF assms], rule sys.catches [OF start_machine_triple [OF assms] rethrow])
qed

text \<open>
  Creating the session and locking it is one step. When the start fails, the lock is released
  before the session is erased: in between, the session without epochs is unlocked.
\<close>

definition abandoned :: "digest \<Rightarrow> id_type \<Rightarrow> session_ref set \<Rightarrow> handler_context \<Rightarrow> handler_context \<Rightarrow> bool" where
  "abandoned K sid g h0 h \<longleftrightarrow> orderly K g h0 (h\<lparr>sessions := um_erase sid (sessions h)\<rparr>)"

lemma orderly_cong:
  assumes "orderly K g h0 h" "\<And>sid. um_find (sessions h') sid = um_find (sessions h) sid"
    "um_valid (sessions h')" "next_object h' = next_object h"
  shows "orderly K g h0 h'"
  using assms by (simp add: orderly_def server_inv_def evolves_def deref_def)

lemma abandoned_leave:
  assumes "starting K a r g h0 h" "lock_destructor Session_lock r h = Inr h'"
  shows "abandoned K (ref_id r) g h0 h'"
  unfolding abandoned_def
proof (rule orderly_cong [OF orderly_erase])
  show "orderly K g h0 h" using assms(1) by (simp add: starting_def)
  obtain s where s: "deref r h = Inr s" "h' = assign_session r (set_lock Session_lock False s) h"
    using assms(2) by (auto simp: lock_destructor_def write_session_def split: sum.splits)
  have "um_valid (sessions h)" using assms(1) by (simp add: starting_def orderly_def server_inv_def)
  then show "um_valid (sessions (h'\<lparr>sessions := um_erase (ref_id r) (sessions h')\<rparr>))"
    using s(2) by (simp add: assign_session_def um.valid_assign um.valid_erase)
  show "um_find (sessions (h'\<lparr>sessions := um_erase (ref_id r) (sessions h')\<rparr>)) sid =
      um_find (sessions (h\<lparr>sessions := um_erase (ref_id r) (sessions h)\<rparr>)) sid" for sid
    using s(2) by (simp add: assign_session_def)
  show "next_object (h'\<lparr>sessions := um_erase (ref_id r) (sessions h')\<rparr>) =
      next_object (h\<lparr>sessions := um_erase (ref_id r) (sessions h)\<rparr>)"
    using s(2) by (simp add: assign_session_def)
qed

lemma begun_starting:
  assumes "fresh K g h0 h" "um_find (sessions h) (ssr_session_id request) = None"
  shows "starting K (ssr_active_epoch_index request) \<lparr>ref_id = ssr_session_id request, ref_object = next_object h\<rparr> g h0 (begun request h)"
proof -
  have h: "g = {}" "h0 = h" "server_inv K h" using assms(1) by (simp_all add: fresh_def)
  have new: "session_inv K ((get_proto_session (next_object h) request)\<lparr>session_lock := True\<rparr>)"
    by (simp add: session_inv_def get_proto_session_def)
  have "server_inv K (begun request h)"
    using h(3) new um.valid_assign by (auto simp: server_inv_def begun_def get_proto_session_def less_SucI split: if_splits)
  moreover have "evolves K (\<lambda>t. True) h (begun request h)"
    by (auto simp: evolves_def begun_def deref_Inr_iff get_proto_session_def split: if_splits)
  ultimately show ?thesis
    using h by (simp add: starting_def orderly_def) (simp add: begun_def deref_Inr_iff get_proto_session_def)
qed

lemma start_session_handler:
  "sys.triple K (fresh K) (StartSession_handler K self ok peer request) (\<lambda>_. orderly K) E"
proof -
  let ?sid = "ssr_session_id request"
  let ?body = "\<lambda>r. thenP (set_session r (\<lambda>s. s\<lparr>session_lock_reason := get_session_lock_reason ''StartSession'' peer\<rparr>))
            (bindP (get_session r) (\<lambda>s.
            thenP (liftH (check_start_request request s))
            (thenP (trigger_and_wait_checkin \<lparr>actx_session = r, actx_self = self\<rparr> (spawn_server \<lparr>actx_session = r, actx_self = self\<rparr>))
              (try_catch (start_machine K \<lparr>actx_session = r, actx_self = self\<rparr> request) (shutdown_and_rethrow r)))))"
  have error: "sys.triple K (fresh K) (finish_with_error st) (\<lambda>_. orderly K) E" for st E
    by (rule fresh_reply) (rule orderly_finish_with_error)
  have scope: "sys.triple K (starting K a r) (on_scope_exit (lock_destructor Session_lock r) (?body r))
      (\<lambda>_. orderly K) (\<lambda>_. abandoned K (ref_id r))" for a r
    by (rule sys.leaves [OF start_body_triple])
      (auto intro: abandoned_leave guest_orderly guest_change lock_destructor_change dest: lock_destructor_exn)
  have create: "sys.triple K (\<lambda>g h0 h. fresh K g h0 h \<and> um_find (sessions h) ?sid = None)
      (bindP (create_session request) (\<lambda>r. with_auto_lock Session_lock r name (?body r))) (\<lambda>_. orderly K) (\<lambda>_. abandoned K ?sid)"
    for name
    unfolding sys.triple_def
  proof (intro allI impI)
    fix g h0 h assume P: "fresh K g h0 h \<and> um_find (sessions h) ?sid = None"
    let ?r = "\<lparr>ref_id = ?sid, ref_object = next_object h\<rparr>"
    have "starting K (ssr_active_epoch_index request) ?r g h0 (begun request h)" using P by (intro begun_starting) simp_all
    then show "wpo (guarantee K) (rely K) (sys.outcome (\<lambda>_. orderly K) (\<lambda>_. abandoned K ?sid))
        (bindP (create_session request) (\<lambda>r. with_auto_lock Session_lock r name (?body r)) h) g h0"
      using scope [of "ssr_active_epoch_index request" ?r] create_and_lock [where body = ?body and r = ?r and name = name and h = h and request = request] P
      by (simp add: sys.triple_def)
  qed
  have "sys.triple K (fresh K) (StartSession_body K self peer request) (\<lambda>_. orderly K) (\<lambda>_. abandoned K ?sid)"
    unfolding StartSession_body_def Let_def find_session_def
    apply (rule sys.cases_if, rule error)
    apply (rule sys.bind [OF sys.read_state [where Q = "\<lambda>it g h0 h. fresh K g h0 h \<and> (it = None \<longrightarrow> um_find (sessions h) ?sid = None)"]])
      apply (auto split: option.splits) [2]
    apply (rule sys.cases_if)
     apply (rule sys.weaken_pre [OF error], simp)
    apply (rule sys.weaken_pre [OF create], simp)
    done
  then show ?thesis
    unfolding StartSession_handler_def
  proof (intro sys.cases_if fresh_ignored, rule sys.catches)
    fix x
    have "sys.triple K (orderly K) (case x of Finish_error_yield_none status \<Rightarrow> finish_with_error status
        | _ \<Rightarrow> finish_with_error (unexpected x)) (\<lambda>_. orderly K) E"
      by (cases x) (simp_all add: orderly_finish_with_error)
    then show "sys.triple K (abandoned K ?sid)
       (thenP (update (\<lambda>h. Inr (h\<lparr>sessions := um_erase ?sid (sessions h)\<rparr>)))
        (case x of Finish_error_yield_none status \<Rightarrow> finish_with_error status
        | _ \<Rightarrow> finish_with_error (unexpected x))) (\<lambda>_. orderly K) E"
      by (rule sys.seq [rotated]) (auto intro: sys.write_state simp: abandoned_def)
  qed
qed

end
