(* ===== verification/Advance_Steps.thy ===== *)
theory Advance_Steps
  imports Handler_Steps Advance_Correctness
begin

text \<open>
  \<open>AdvanceState\<close> owns its session while it holds the processing lock. The rules here are for
  the functions it runs meanwhile; an assertion about the session may rely on the fact that
  other coroutines only queue inputs and finish or delete epochs that have none.
\<close>

section \<open>What processing adds to an epoch\<close>

text \<open>
  Where processing started: the results already there, the number of waiting inputs, the input count,
  machine hash and cycle.
\<close>

record base =
  b_old :: "processed_input_type list"
  b_waiting :: nat
  b_count :: u64
  b_hash :: hash_type
  b_mcycle :: u64

definition base_of :: "session_type \<Rightarrow> epoch_type \<Rightarrow> base" where
  "base_of s e = \<lparr>b_old = processed_inputs e, b_waiting = length (pending_inputs e), b_count = processed_input_count s,
     b_hash = most_recent_machine_hash e, b_mcycle = current_mcycle s\<rparr>"

text \<open>
  The epoch has kept its earlier results and gained the results \<open>new\<close>, in order and counted in the
  session; no input that was waiting got lost, each has a result or is waiting still. Results are
  compared without the proofs that \<open>FinishEpoch\<close> refreshes.
\<close>

definition grown_by :: "digest \<Rightarrow> base \<Rightarrow> session_type \<Rightarrow> epoch_type \<Rightarrow> processed_input_type list \<Rightarrow> bool" where
  "grown_by K b s e new \<longleftrightarrow>
     results e = map result_of (b_old b @ new) \<and> b_waiting b \<le> length new + length (pending_inputs e) \<and>
     results_from K (b_count b) (length (b_old b)) (b_hash b) new \<and>
     processed_input_count s = b_count b + of_nat (length new) \<and>
     most_recent_machine_hash e = last_hash (b_hash b) new \<and>
     ((\<forall>p \<in> set new. pi_status p \<noteq> accepted) \<longrightarrow> current_mcycle s = b_mcycle b)"

definition grown :: "digest \<Rightarrow> u64 \<Rightarrow> base \<Rightarrow> session_type \<Rightarrow> bool" where
  "grown K i b s \<longleftrightarrow> (\<forall>e. sm_find (epochs s) i = Some e \<longrightarrow> (\<exists>new. grown_by K b s e new))"

lemma grown_start: "sm_find (epochs s) i = Some e \<Longrightarrow> grown K i (base_of s e) s"
  by (auto simp: grown_def grown_by_def base_of_def results_def intro!: exI [of _ "[]"])

text \<open>Other coroutines do not add results.\<close>

lemma grown_held:
  assumes "held K s s'" "session_advances s s'" "protected s" "epochs s \<noteq> []" "i \<le> active_epoch_index s" "grown K i b s"
  shows "grown K i b s'"
  unfolding grown_def
proof (intro allI impI)
  fix e' assume e': "sm_find (epochs s') i = Some e'"
  note f = held_find [OF assms(1-5)]
  obtain e where e: "sm_find (epochs s) i = Some e" using f(1) e' by (cases "sm_find (epochs s) i") auto
  then obtain new where "grown_by K b s e new" using assms(6) by (auto simp: grown_def)
  moreover have "results e' = results e \<and> most_recent_machine_hash e' = most_recent_machine_hash e"
    using f(3) [OF e e'] held_epoch_results by blast
  moreover have "processed_input_count s' = processed_input_count s" "current_mcycle s' = current_mcycle s"
    using assms(1,3,4) by (simp_all add: held_def)
  moreover have "length (pending_inputs e) \<le> length (pending_inputs e')"
    using f(3) [OF e e'] by (auto simp: held_epoch_def queued_def)
  ultimately show "\<exists>new. grown_by K b s' e' new" unfolding grown_by_def by fastforce
qed

lemma grown_same:
  assumes "grown K i b s" "sm_valid (epochs s)" "sm_find (epochs s) i = Some e"
    and "processed_inputs e' = processed_inputs e" "most_recent_machine_hash e' = most_recent_machine_hash e"
      "pending_inputs e' = pending_inputs e"
  shows "grown K i b (s\<lparr>epochs := sm_assign i e' (epochs s)\<rparr>)"
  using assms by (auto simp: grown_def grown_by_def results_def sm_find_assign)

lemma grown_fields:
  assumes "grown K i b s" "epochs s' = epochs s" "processed_input_count s' = processed_input_count s"
    "current_mcycle s' = current_mcycle s"
  shows "grown K i b s'"
  using assms by (auto simp: grown_def grown_by_def)

section \<open>The owner of a session\<close>

definition owner :: "digest \<Rightarrow> session_ref \<Rightarrow> u64 \<Rightarrow> base \<Rightarrow> (session_type \<Rightarrow> bool) \<Rightarrow>
    session_ref set \<Rightarrow> handler_context \<Rightarrow> handler_context \<Rightarrow> bool" where
  "owner K r i b F g h0 h \<longleftrightarrow> guest K r g h0 h \<and> g \<subseteq> {r} \<and> (r \<in> g \<or> free r h0) \<and>
     (\<forall>s. deref r h = Inr s \<longrightarrow> processing_lock s \<and> i \<le> active_epoch_index s \<and> grown K i b s \<and> F s)"

text \<open>An assertion that survives the changes others make.\<close>

definition steady :: "digest \<Rightarrow> u64 \<Rightarrow> (session_type \<Rightarrow> bool) \<Rightarrow> bool" where
  "steady K i F \<longleftrightarrow> (\<forall>s s'. session_inv K s \<and> session_inv K s' \<and> epochs s \<noteq> [] \<and> protected s \<and>
     i \<le> active_epoch_index s \<and> session_advances s s' \<and> held K s s' \<and> F s \<longrightarrow> F s')"

lemma owner_session:
  assumes "owner K r i b F g h0 h" "deref r h = Inr s"
  shows "session_inv K s" "epochs s \<noteq> []" "processing_lock s" "i \<le> active_epoch_index s" "F s" "protected s" "grown K i b s"
  using assms server_inv_deref [of K h r s]
  by (auto simp: owner_def guest_def orderly_def established_def session_inv_def protected_def split: if_splits)

text \<open>The owner may make any change that keeps the invariant and the history.\<close>

lemma guest_owner_write:
  assumes "guest K r g h0 h" "r \<in> g \<or> free r h0" and s: "deref r h = Inr s"
    and s': "session_object s' = session_object s" "session_advances s s'" "session_inv K s'"
  shows "guest K r g h0 (assign_session r s' h)"
proof -
  let ?h = "assign_session r s' h" and ?sim = "\<lambda>t t'. t = s \<and> t' = s'"
  have t: "touches ?sim r h ?h" by (rule touches_assign [OF s s'(1)]) simp
  have inv: "server_inv K h" and ev: "evolves K (\<lambda>t. t \<notin> g) h0 h" and est: "established r h"
    using assms(1) by (auto simp: guest_def orderly_def)
  have ne: "epochs s' \<noteq> []" using s'(2) est s by (auto simp: session_advances_def established_def)
  have "server_inv K ?h" by (rule server_inv_touches [OF inv t]) (use s' in \<open>auto simp: session_advances_def\<close>)
  moreover have "evolves K (\<lambda>t. t \<notin> g) h0 ?h"
  proof (rule evolves_touches [OF ev t])
    fix s0 assume "r \<notin> g" "ref_object r < next_object h0" "deref r h0 = Inr s0"
    then have "\<not> protected s0" using assms(2) by (auto simp: free_def)
    then show "held K s0 t'" for t' by (auto simp: held_def protected_def)
  qed (use s'(2) in auto)
  moreover have "established r ?h"
    using est ne s s'(1) by (auto simp: established_def deref_Inr_iff assign_session_def)
  ultimately show ?thesis using assms(1) by (simp add: guest_def orderly_def)
qed

lemma owner_write:
  assumes P: "owner K r i b F g h0 h" and s: "deref r h = Inr s"
    and s': "session_object s' = session_object s" "session_advances s s'" "session_inv K s'" "processing_lock s'" "F' s'"
      "grown K i b s'"
  shows "owner K r i b F' g h0 (assign_session r s' h)"
proof -
  have "guest K r g h0 (assign_session r s' h)"
    using P s' by (intro guest_owner_write [OF _ _ s]) (auto simp: owner_def)
  moreover have "deref r (assign_session r s' h) = Inr s'" using s s'(1) by (simp add: deref_Inr_iff)
  moreover have "i \<le> active_epoch_index s'"
    using owner_session [OF P s] s'(2) by (auto simp: session_advances_def)
  ultimately show ?thesis using P s'(4-6) by (simp add: owner_def)
qed

lemma owner_mono: "owner K r i b F g h0 h \<Longrightarrow> (\<And>s. F s \<Longrightarrow> F' s) \<Longrightarrow> owner K r i b F' g h0 h"
  by (simp add: owner_def)

section \<open>Calls to the machine server\<close>

lemma owner_change:
  assumes P: "owner K r i b F g h0 h" and F: "steady K i F" and t: "touches similar r h h'"
  shows "owner K r i b F g h0 h'"
proof -
  have "guest K r g h0 h'" using P guest_change similar_touches [OF t] by (auto simp: owner_def)
  moreover have "processing_lock s' \<and> i \<le> active_epoch_index s' \<and> grown K i b s' \<and> F s'" if "deref r h' = Inr s'" for s'
  proof -
    obtain s where s: "deref r h = Inr s" "similar s s'" using touches_present [OF t \<open>deref r h' = Inr s'\<close>] by blast
    note o = owner_session [OF P s(1)]
    have l: "session_advances s s'" "held K s s'" "session_inv K s'"
      using similar_legal [OF s(2), of K] o(1,2) by (simp_all add: legal_def)
    then have "F s'" using F o unfolding steady_def by blast
    moreover have "grown K i b s'" using grown_held [OF l(2,1)] o by blast
    ultimately show ?thesis using o s(2) by (simp add: similar_def)
  qed
  ultimately show ?thesis using P by (simp add: owner_def)
qed

lemma owner_yields:
  assumes P: "owner K r i b F g h0 h" and F: "steady K i F" and "certified K y"
  shows "\<exists>g'. guarantee K g h0 y g' h \<and> (\<forall>h'. rely K g' h h' \<longrightarrow> owner K r i b F g' h' h')"
proof (intro exI [of _ "{r}"] conjI allI impI)
  have guest: "guest K r g h0 h" using P by (simp add: owner_def)
  have "owned r h"
    using guest owner_session(6) [OF P] by (auto simp: owned_def guest_def established_def)
  then show "guarantee K g h0 y {r} h"
    using P assms(3) guest by (auto simp: guarantee_def owner_def guest_def orderly_def)
  fix h' assume R: "rely K {r} h h'"
  have "processing_lock s' \<and> i \<le> active_epoch_index s' \<and> grown K i b s' \<and> F s'" if s': "deref r h' = Inr s'" for s'
  proof -
    obtain s where s: "deref r h = Inr s" "session_advances s s'" "held K s s'"
      using R guest s' unfolding rely_def evolves_def guest_def established_def by blast
    note o = owner_session [OF P s(1)]
    have "session_inv K s'" using R server_inv_deref s' by (auto simp: rely_def)
    then have "F s'" using F o s unfolding steady_def by blast
    moreover have "grown K i b s'" using grown_held [OF s(3,2)] o by blast
    ultimately show ?thesis using o s by (auto simp: held_def session_advances_def)
  qed
  then show "owner K r i b F {r} h' h'" using guest_resumed [OF guest R] by (simp add: owner_def)
qed

lemma owner_triple:
  assumes "similar.quiet r X V m" "steady K i F" "\<And>x g h0 h. X x \<Longrightarrow> owner K r i b F g h0 h \<Longrightarrow> E x g h0 h"
  shows "sys.triple K (owner K r i b F) m (\<lambda>v g h0 h. owner K r i b F g h0 h \<and> V v) E"
  using assms(1)
proof (rule sys.modest_triple)
  show "owner K r i b F g h0 h'" if "owner K r i b F g h0 h" "touches similar r h h'" for g h0 h h'
    using owner_change [OF that(1) assms(2) that(2)] .
  show "\<exists>g'. guarantee K g h0 y g' h \<and> (\<forall>h'. rely K g' h h' \<longrightarrow> owner K r i b F g' h' h')"
    if "owner K r i b F g h0 h" "plain y" for g h0 h y
    using owner_yields [OF that(1) assms(2) plain_certified [OF that(2)]] .
qed (rule assms(3))

lemma owner_quiet:
  assumes "similar.quiet r X V m" "steady K i F" "\<And>x g h0 h. X x \<Longrightarrow> owner K r i b F g h0 h \<Longrightarrow> E x g h0 h"
  shows "sys.triple K (owner K r i b F) m (\<lambda>_. owner K r i b F) E"
  by (rule sys.weaken_post [OF owner_triple [where X = X and V = V, OF assms]]) auto

section \<open>Assertions\<close>

text \<open>Between two inputs the trees match the results, unless the session is tainted.\<close>

definition settled :: "digest \<Rightarrow> u64 \<Rightarrow> session_type \<Rightarrow> bool" where
  "settled K i s \<longleftrightarrow> (\<forall>j e. sm_find (epochs s) j = Some e \<longrightarrow> (j = i \<longrightarrow> \<not> tainted s) \<longrightarrow> epoch_ok K e \<and> outputs_ok K e)"

text \<open>While an input is processed, the trees may have one leaf more.\<close>

definition at_work :: "digest \<Rightarrow> u64 \<Rightarrow> u64 \<Rightarrow> nat \<Rightarrow> hash_type list \<Rightarrow> hash_type list \<Rightarrow> session_type \<Rightarrow> bool" where
  "at_work K i c n vs ns s \<longleftrightarrow> processed_input_count s = c \<and>
     (\<exists>e. sm_find (epochs s) i = Some e \<and> pending_inputs e \<noteq> [] \<and> length (processed_inputs e) = n \<and>
        (\<not> tainted s \<longrightarrow> trees_ok K vs ns e \<and> outputs_ok K e \<and>
           (\<forall>k < n. epoch_input_index (processed_inputs e ! k) = of_nat k)))"

lemma steady_True: "steady K i (\<lambda>_. True)"
  by (simp add: steady_def)

lemma steady_settled: "steady K i (settled K i)"
  unfolding steady_def settled_def
proof (intro allI impI)
  fix s s' j e'
  assume A: "session_inv K s \<and> session_inv K s' \<and> epochs s \<noteq> [] \<and> protected s \<and> i \<le> active_epoch_index s \<and>
      session_advances s s' \<and> held K s s' \<and>
      (\<forall>j e. sm_find (epochs s) j = Some e \<longrightarrow> (j = i \<longrightarrow> \<not> tainted s) \<longrightarrow> epoch_ok K e \<and> outputs_ok K e)"
    and e': "sm_find (epochs s') j = Some e'" "j = i \<longrightarrow> \<not> tainted s'"
  have t: "\<not> tainted s' \<Longrightarrow> \<not> tainted s" using A by (auto simp: session_advances_def)
  show "epoch_ok K e' \<and> outputs_ok K e'"
  proof (cases "j \<le> active_epoch_index s")
    case False
    then have "active_epoch_index s < j" by simp
    then show ?thesis using A e'(1) by (simp add: held_def)
  next
    case True
    note f = held_find [OF _ _ _ _ True, of K s']
    obtain e where e: "sm_find (epochs s) j = Some e" using f(1) A e'(1) by (cases "sm_find (epochs s) j") auto
    then have "epoch_ok K e \<and> outputs_ok K e" using A e'(2) t by blast
    then show ?thesis using f(3) A e e'(1) held_epoch_ok by blast
  qed
qed

lemma steady_at_work: "steady K i (at_work K i c n vs ns)"
  unfolding steady_def
proof (intro allI impI)
  fix s s'
  assume A: "session_inv K s \<and> session_inv K s' \<and> epochs s \<noteq> [] \<and> protected s \<and> i \<le> active_epoch_index s \<and>
      session_advances s s' \<and> held K s s' \<and> at_work K i c n vs ns s"
  then obtain e where e: "sm_find (epochs s) i = Some e" "pending_inputs e \<noteq> []" "length (processed_inputs e) = n"
      "\<not> tainted s \<Longrightarrow> trees_ok K vs ns e \<and> outputs_ok K e \<and> (\<forall>k < n. epoch_input_index (processed_inputs e ! k) = of_nat k)"
      "processed_input_count s = c"
    unfolding at_work_def by blast
  note f = held_find [of K s s' i]
  obtain e' where e': "sm_find (epochs s') i = Some e'" using f(2) A e(1,2) by (cases "sm_find (epochs s') i") auto
  have "held_epoch K e e'" using f(3) A e(1) e' by blast
  then have q: "queued e e'" using e(2) by (simp add: held_epoch_def)
  then have "pending_inputs e' \<noteq> []" using e(2) queued_pending by blast
  moreover have "processed_input_count s' = c" "tainted s \<longrightarrow> tainted s'"
    using A e(5) by (auto simp: held_def session_advances_def)
  ultimately show "at_work K i c n vs ns s'"
    using e e' queuedD [OF q] unfolding at_work_def by (auto simp: trees_ok_def outputs_ok_def)
qed

lemma at_work_start:
  assumes "settled K i s" "sm_find (epochs s) i = Some e" "pending_inputs e \<noteq> []"
  shows "at_work K i (processed_input_count s) (length (processed_inputs e)) [] [] s"
  using assms unfolding at_work_def settled_def
  by (auto simp: trees_ok_def epoch_ok_def)

lemma at_work_settled:
  assumes "session_inv K s" "epochs s \<noteq> []" "at_work K i c n [] [] s"
  shows "settled K i s"
proof -
  obtain e where e: "sm_find (epochs s) i = Some e" "pending_inputs e \<noteq> []"
      "\<not> tainted s \<Longrightarrow> epoch_ok K e \<and> outputs_ok K e"
    using assms(3) unfolding at_work_def by (auto simp: trees_ok_def epoch_ok_def)
  note ok = established_ok [OF assms(1,2)]
  have i: "i = active_epoch_index s" using ok(3) [OF e(1)] e(2) by (auto simp: epoch_inv_def split: if_splits)
  show ?thesis
    unfolding settled_def
  proof (intro allI impI)
    fix j x assume "sm_find (epochs s) j = Some x" "j = i \<longrightarrow> \<not> tainted s"
    then show "epoch_ok K x \<and> outputs_ok K x"
      using e ok(3) [of j x] i by (cases "j = i") (auto simp: epoch_inv_def)
  qed
qed

section \<open>Appending a leaf\<close>

text \<open>A change of the epoch that keeps its results and its queue.\<close>

lemma work_on_epoch:
  assumes "session_inv K s" "epochs s \<noteq> []" "processing_lock s" "sm_find (epochs s) i = Some e" "pending_inputs e \<noteq> []"
    and e': "epoch_index e' = epoch_index e" "state e' = state e" "processed_inputs e' = processed_inputs e"
      "pending_inputs e' = pending_inputs e"
    and s': "s' = s\<lparr>epochs := sm_assign i e' (epochs s)\<rparr>"
  shows "session_inv K s'" "session_advances s s'"
proof -
  note ok = established_ok [OF assms(1,2)]
  have find: "sm_find (epochs s') j = (if j = i then Some e' else sm_find (epochs s) j)" for j
    using ok(2) s' by (simp add: sm_find_assign)
  have ne: "epochs s' \<noteq> []" using find [of i] by auto
  have i: "i = active_epoch_index s" using ok(3) [OF assms(4)] assms(5) by (auto simp: epoch_inv_def split: if_splits)
  have "epoch_inv K s' j x" if "sm_find (epochs s') j = Some x" for j x
    using that find [of j] ok(3) [of j] ok(3) [OF assms(4)] i e' assms(3,5) s'
    by (auto simp: epoch_inv_def numbered_def split: if_splits)
  moreover have "session_ok s'"
    using ok(1,2) find e' assms(4) s' by (auto simp: session_ok_def sm_valid_assign)
  ultimately show "session_inv K s'" using ne by (simp add: session_inv_def)
  have "epoch_advances e e'"
    using ok(5) [OF assms(4)] i e' by (simp add: epoch_advances_def results_def)
  then show "session_advances s s'"
    using ne find assms(4) s' by (auto simp: session_advances_def split: option.split)
qed

text \<open>After an exception the history is in order, and the trees too if the session is not going to be tainted.\<close>

definition stopped :: "digest \<Rightarrow> session_ref \<Rightarrow> u64 \<Rightarrow> base \<Rightarrow> handler_exn \<Rightarrow>
    session_ref set \<Rightarrow> handler_context \<Rightarrow> handler_context \<Rightarrow> bool" where
  "stopped K r i b x g h0 h \<longleftrightarrow> fails r x \<and>
     owner K r i b (\<lambda>s. (\<exists>st. x = Finish_error_yield_none st) \<longrightarrow> settled K i s) g h0 h"

lemma stopped_taints: "taints r x \<Longrightarrow> owner K r i b F g h0 h \<Longrightarrow> stopped K r i b x g h0 h"
  by (auto simp: stopped_def taints_def owner_def)

lemma stopped_fails: "fails r x \<Longrightarrow> owner K r i b (settled K i) g h0 h \<Longrightarrow> stopped K r i b x g h0 h"
  by (auto simp: stopped_def owner_def)

lemma push_leaf_triple:
  assumes F: "\<And>s. F s \<Longrightarrow> \<exists>e. sm_find (epochs s) i = Some e \<and> pending_inputs e \<noteq> [] \<and>
        (\<not> tainted s \<longrightarrow> epoch_tree K (leaves e) (get e) \<and> n = length (leaves e))"
    and F': "\<And>s e t. F s \<Longrightarrow> sm_valid (epochs s) \<Longrightarrow> sm_find (epochs s) i = Some e \<Longrightarrow>
        (\<not> tainted s \<Longrightarrow> epoch_tree K (leaves e @ [hash]) t) \<Longrightarrow> F' (s\<lparr>epochs := sm_assign i (put t e) (epochs s)\<rparr>)"
    and put: "\<And>t e. get (put t e) = t" "\<And>t e. epoch_index (put t e) = epoch_index e" "\<And>t e. state (put t e) = state e"
      "\<And>t e. processed_inputs (put t e) = processed_inputs e" "\<And>t e. pending_inputs (put t e) = pending_inputs e"
      "\<And>t e. most_recent_machine_hash (put t e) = most_recent_machine_hash e"
  shows "sys.triple K (owner K r i b F) (push_leaf K r i get put n hash) (\<lambda>_. owner K r i b F') (stopped K r i b)"
proof (rule sys.segment)
  fix g h0 h assume P: "owner K r i b F g h0 h"
  let ?res = "\<lambda>h' res. push_leaf K r i get put n hash h = Done h' res \<and>
      sys.outcome (\<lambda>_. owner K r i b F') (stopped K r i b) g h0 res h'"
  note run = push_leaf_def exec deref_epoch_def write_epoch_def write_session_def
  show "\<exists>h' res. ?res h' res"
  proof (cases "deref r h")
    case (Inl x)
    then show ?thesis using legal.deref_exn [OF Inl] by (simp add: run)
  next
    case (Inr s)
    note o = owner_session [OF P Inr]
    note ok = established_ok [OF o(1,2)]
    obtain e where e: "sm_find (epochs s) i = Some e" "pending_inputs e \<noteq> []"
        "\<not> tainted s \<Longrightarrow> epoch_tree K (leaves e) (get e) \<and> n = length (leaves e)"
      using F [OF o(5)] by blast
    show ?thesis
    proof (cases "cmt_push_back K hash (get e)")
      case x: (Inl x)
      then have "push_leaf K r i get put n hash h = Done h (Inl (Std_exception x))" using Inr e(1) by (simp add: run)
      then show ?thesis using stopped_taints [OF _ P, of "Std_exception x"] by simp
    next
      case t: (Inr t)
      let ?s = "s\<lparr>epochs := sm_assign i (put t e) (epochs s)\<rparr>"
      let ?h = "assign_session r ?s h"
      have obj: "session_object s = ref_object r" using Inr by (simp add: deref_Inr_iff)
      note new = work_on_epoch [OF o(1-3) e(1,2) put(2-5) refl]
      have tree: "epoch_tree K (leaves e @ [hash]) t" if "\<not> tainted s"
        using push_tree [of K "leaves e" "get e" hash] e(3) that t by auto
      have own: "owner K r i b F' g h0 ?h"
        by (rule owner_write [OF P Inr])
          (use new o(3,5) F' [OF o(5) ok(2) e(1) tree] grown_same [OF o(7) ok(2) e(1) put(4,6,5)] in simp_all)
      have h: "push_leaf K r i get put n hash h =
          liftH (lift_res (cmt_get_proof t (leaf_address (of_nat n)) LOG2_KECCAK_SIZE)) ?h"
        using Inr e(1) t obj ok(2) by (simp add: run put(1) sm_find_assign)
      show ?thesis
        using own stopped_taints [OF _ own] h
        by (cases "cmt_get_proof t (leaf_address (of_nat n)) LOG2_KECCAK_SIZE") (simp_all add: exec)
    qed
  qed
qed

lemma push_leaves:
  "sys.triple K (owner K r i b (at_work K i c n [] [])) (push_leaf K r i vouchers_tree (\<lambda>t e. e\<lparr>vouchers_tree := t\<rparr>) n v)
     (\<lambda>_. owner K r i b (at_work K i c n [v] [])) (stopped K r i b)"
  "sys.triple K (owner K r i b (at_work K i c n [v] [])) (push_leaf K r i notices_tree (\<lambda>t e. e\<lparr>notices_tree := t\<rparr>) n w)
     (\<lambda>_. owner K r i b (at_work K i c n [v] [w])) (stopped K r i b)"
proof -
  show "sys.triple K (owner K r i b (at_work K i c n [] [])) (push_leaf K r i vouchers_tree (\<lambda>t e. e\<lparr>vouchers_tree := t\<rparr>) n v)
     (\<lambda>_. owner K r i b (at_work K i c n [v] [])) (stopped K r i b)"
    by (rule push_leaf_triple [where leaves = "\<lambda>e. map voucher_leaf (processed_inputs e)"])
      (auto simp: at_work_def trees_ok_def outputs_ok_def sm_find_assign)
  show "sys.triple K (owner K r i b (at_work K i c n [v] [])) (push_leaf K r i notices_tree (\<lambda>t e. e\<lparr>notices_tree := t\<rparr>) n w)
     (\<lambda>_. owner K r i b (at_work K i c n [v] [w])) (stopped K r i b)"
    by (rule push_leaf_triple [where leaves = "\<lambda>e. map notice_leaf (processed_inputs e)"])
      (auto simp: at_work_def trees_ok_def outputs_ok_def sm_find_assign)
qed

section \<open>The result of an input\<close>

definition counted :: "u64 \<Rightarrow> hash_type \<Rightarrow> u64 \<Rightarrow> processed_input_type \<Rightarrow> session_type \<Rightarrow> epoch_type \<Rightarrow> session_type" where
  "counted i x m p s e = s\<lparr>current_mcycle := m, processed_input_count := processed_input_count s + 1,
     epochs := sm_assign i (e\<lparr>most_recent_machine_hash := x, processed_inputs := processed_inputs e @ [p],
       pending_inputs := tl (pending_inputs e)\<rparr>) (epochs s)\<rparr>"

lemma counted_simps [simp]:
  "active_epoch_index (counted i x m p s e) = active_epoch_index s" "tainted (counted i x m p s e) = tainted s"
  "processing_lock (counted i x m p s e) = processing_lock s" "session_object (counted i x m p s e) = session_object s"
  "processed_input_count (counted i x m p s e) = processed_input_count s + 1"
  "session_id (counted i x m p s e) = session_id s" "server_cycles (counted i x m p s e) = server_cycles s"
  "server_deadline (counted i x m p s e) = server_deadline s" "memory_range (counted i x m p s e) = memory_range s"
  by (simp_all add: counted_def)

lemma numbered_next:
  assumes "numbered s e" "pending_inputs e \<noteq> []" "input_index p = processed_input_count s"
    "processed_input_count s' = processed_input_count s + 1"
    "processed_inputs e' = processed_inputs e @ [p]" "pending_inputs e' = tl (pending_inputs e)"
  shows "numbered s' e'"
  unfolding numbered_def
proof (intro conjI allI impI)
  fix j assume j: "j < length (processed_inputs e')"
  let ?n = "length (processed_inputs e)"
  show "input_index (processed_inputs e' ! j) = processed_input_count s' - of_nat (length (processed_inputs e') - j)"
  proof (cases "j < ?n")
    case True
    then have "input_index (processed_inputs e ! j) = processed_input_count s - of_nat (?n - j)"
      using assms(1) by (simp add: numbered_def)
    moreover have "length (processed_inputs e') - j = Suc (?n - j)" using True assms(5) by simp
    ultimately show ?thesis using True assms(4,5) by (simp add: nth_append)
  next
    case False
    then have "j = ?n" using j assms(5) by simp
    then show ?thesis using assms(3-5) by (simp add: nth_append)
  qed
next
  fix j assume "j < length (pending_inputs e')"
  then have "Suc j < length (pending_inputs e)" using assms(6) by simp
  then have "input_index_field (in_metadata (pending_inputs e ! Suc j)) = processed_input_count s + of_nat (Suc j)"
    using assms(1) unfolding numbered_def by blast
  then show "input_index_field (in_metadata (pending_inputs e' ! j)) = processed_input_count s' + of_nat j"
    using assms(2,4,6) by (cases "pending_inputs e") (simp_all add: algebra_simps)
qed

lemma grown_next:
  assumes g: "grown K i b s" and e: "sm_valid (epochs s)" "sm_find (epochs s) i = Some e" "length (processed_inputs e) = n"
    and p: "input_index p = processed_input_count s" "epoch_input_index p = of_nat n" "result_ok K (most_recent_machine_hash e) p"
      "pi_status p \<noteq> accepted \<Longrightarrow> m = current_mcycle s"
  shows "grown K i b (counted i (pi_machine_hash p) m p s e)"
proof -
  obtain new where new: "grown_by K b s e new" using g e(2) by (auto simp: grown_def)
  then have "length (processed_inputs e) = length (b_old b @ new)"
    by (metis grown_by_def length_map results_def)
  then have n: "n = length (b_old b) + length new" using e(3) by simp
  let ?e = "e\<lparr>most_recent_machine_hash := pi_machine_hash p, processed_inputs := processed_inputs e @ [p],
       pending_inputs := tl (pending_inputs e)\<rparr>"
  have "grown_by K b (counted i (pi_machine_hash p) m p s e) ?e (new @ [p])"
    using new p n unfolding grown_by_def results_def counted_def by (simp add: results_from_snoc) linarith
  then show ?thesis using e(1) by (auto simp: grown_def counted_def sm_find_assign)
qed

lemma counted_owner:
  assumes P: "owner K r i b (at_work K i c n [voucher_leaf p] [notice_leaf p]) g h0 h" and s: "deref r h = Inr s"
    and e: "sm_find (epochs s) i = Some e"
    and p: "input_index p = c" "epoch_input_index p = of_nat n" "result_ok K (most_recent_machine_hash e) p"
      "pi_status p \<noteq> accepted \<Longrightarrow> m = current_mcycle s"
  shows "owner K r i b (settled K i) g h0 (assign_session r (counted i (pi_machine_hash p) m p s e) h)"
proof -
  let ?s = "counted i (pi_machine_hash p) m p s e"
  let ?e = "e\<lparr>most_recent_machine_hash := pi_machine_hash p, processed_inputs := processed_inputs e @ [p],
       pending_inputs := tl (pending_inputs e)\<rparr>"
  note o = owner_session [OF P s]
  note ok = established_ok [OF o(1,2)]
  have w: "pending_inputs e \<noteq> []" "length (processed_inputs e) = n" "processed_input_count s = c"
      "\<not> tainted s \<Longrightarrow> trees_ok K [voucher_leaf p] [notice_leaf p] e \<and> outputs_ok K e \<and>
         (\<forall>k < n. epoch_input_index (processed_inputs e ! k) = of_nat k)"
    using o(5) e by (auto simp: at_work_def)
  have find: "sm_find (epochs ?s) j = (if j = i then Some ?e else sm_find (epochs s) j)" for j
    using ok(2) by (simp add: sm_find_assign counted_def)
  have ne: "epochs ?s \<noteq> []" using find [of i] by auto
  have i: "i = active_epoch_index s" using ok(3) [OF e] w(1) by (auto simp: epoch_inv_def split: if_splits)
  have eok: "epoch_ok K ?e \<and> outputs_ok K ?e" if clean: "\<not> tainted s"
  proof
    have t: "trees_ok K [voucher_leaf p] [notice_leaf p] e" "outputs_ok K e" using w(4) [OF clean] by simp_all
    have "epoch_input_index ((processed_inputs e @ [p]) ! k) = of_nat k" if k: "k < Suc n" for k
    proof (cases "k < n")
      case False
      then have "k = length (processed_inputs e)" using k w(2) by simp
      then show ?thesis using p(2) w(2) by (simp add: nth_append)
    qed (use w(2) w(4) [OF clean] in \<open>simp add: nth_append\<close>)
    then show "epoch_ok K ?e" using t(1) w(2) by (simp add: epoch_ok_def trees_ok_def)
    show "outputs_ok K ?e" using t(2) p(3) by (auto simp: outputs_ok_def result_ok_def split: processed_data.splits)
  qed
  have num: "numbered ?s ?e"
  proof (rule numbered_next [of s e p])
    show "numbered s e" using ok(3) [OF e] i by (simp add: epoch_inv_def)
  qed (use w(1,3) p(1) in \<open>simp_all add: counted_def\<close>)
  have "epoch_inv K ?s j y" if "sm_find (epochs ?s) j = Some y" for j y
  proof (cases "j = i")
    case True
    then have "y = ?e" using that find by simp
    then show ?thesis using True i eok num by (simp add: epoch_inv_def)
  next
    case False
    then have "epoch_inv K s j y" using that find ok(3) by simp
    then show ?thesis using False i by (simp add: epoch_inv_def counted_def)
  qed
  moreover have "session_ok ?s"
    unfolding session_ok_def
  proof (intro conjI allI impI)
    show "sm_valid (epochs ?s)" using ok(2) by (simp add: counted_def sm_valid_assign)
    show "\<exists>e. sm_find (epochs ?s) (active_epoch_index ?s) = Some e" using find i by simp
    fix j y assume "sm_find (epochs ?s) j = Some y"
    then show "epoch_index y = j" "j \<le> active_epoch_index ?s" "(state y = epoch_active) = (j = active_epoch_index ?s)"
      using find ok(5) [of j] ok(5) [OF e] by (cases "j = i"; auto)+
  qed
  ultimately have inv: "session_inv K ?s" using ne by (simp add: session_inv_def)
  have "epoch_advances e ?e"
    using ok(5) [OF e] i by (simp add: epoch_advances_def results_def)
  then have adv: "session_advances s ?s"
    using ne find e by (auto simp: session_advances_def split: option.split)
  have "settled K i ?s"
    unfolding settled_def
  proof (intro allI impI)
    fix j y assume y: "sm_find (epochs ?s) j = Some y" "j = i \<longrightarrow> \<not> tainted ?s"
    then show "epoch_ok K y \<and> outputs_ok K y"
      using find eok ok(3) [of j y] i by (cases "j = i") (auto simp: epoch_inv_def counted_def)
  qed
  then show ?thesis
    using inv adv o(3) grown_next [OF o(7) ok(2) e w(2), of p m] p w(3) by (intro owner_write [OF P s]) simp_all
qed

text \<open>The result is recorded; counting it and removing the input completes the round.\<close>

definition popped :: "u64 \<Rightarrow> session_type \<Rightarrow> epoch_type \<Rightarrow> session_type" where
  "popped i s e = s\<lparr>processed_input_count := processed_input_count s + 1,
     epochs := sm_assign i (e\<lparr>pending_inputs := tl (pending_inputs e)\<rparr>) (epochs s)\<rparr>"

definition answered :: "digest \<Rightarrow> session_ref \<Rightarrow> u64 \<Rightarrow> base \<Rightarrow> session_ref set \<Rightarrow> handler_context \<Rightarrow> handler_context \<Rightarrow> bool" where
  "answered K r i b g h0 h \<longleftrightarrow> (\<forall>s e. deref r h = Inr s \<longrightarrow> sm_find (epochs s) i = Some e \<longrightarrow>
     owner K r i b (settled K i) g h0 (assign_session r (popped i s e) h))"

lemma count_triple:
  "sys.triple K (answered K r i b)
     (thenP (set_session r (\<lambda>s. s\<lparr>processed_input_count := processed_input_count s + 1\<rparr>))
        (set_epoch r i (\<lambda>e. e\<lparr>pending_inputs := tl (pending_inputs e)\<rparr>)))
     (\<lambda>_. owner K r i b (settled K i)) (stopped K r i b)"
    (is "sys.triple K _ ?m _ _")
proof (rule sys.segment)
  fix g h0 h assume P: "answered K r i b g h0 h"
  note run = exec write_session_def write_epoch_def deref_epoch_def
  show "\<exists>h' res. ?m h = Done h' res \<and> sys.outcome (\<lambda>_. owner K r i b (settled K i)) (stopped K r i b) g h0 res h'"
  proof (cases "deref r h")
    case (Inl x)
    then show ?thesis using legal.deref_exn [OF Inl] by (simp add: run)
  next
    case (Inr s)
    then have obj: "session_object s = ref_object r" by (simp add: deref_Inr_iff)
    show ?thesis
    proof (cases "sm_find (epochs s) i")
      case None
      then show ?thesis using Inr obj by (simp add: run dangling_def)
    next
      case (Some e)
      then have "?m h = Done (assign_session r (popped i s e) h) (Inr ())" using Inr obj by (simp add: run popped_def)
      then show ?thesis using P Inr Some by (simp add: answered_def)
    qed
  qed
qed

lemma recorded_answered:
  assumes "owner K r i b (at_work K i c n [voucher_leaf p] [notice_leaf p]) g h0 h" and s: "deref r h = Inr s"
    and e: "sm_find (epochs s) i = Some e"
    and "input_index p = c" "epoch_input_index p = of_nat n" "result_ok K (most_recent_machine_hash e) p"
      "pi_status p \<noteq> accepted \<Longrightarrow> m = current_mcycle s"
    and s': "s' = s\<lparr>epochs := sm_assign i (e\<lparr>most_recent_machine_hash := pi_machine_hash p, processed_inputs := processed_inputs e @ [p]\<rparr>) (epochs s),
       current_mcycle := m\<rparr>"
  shows "answered K r i b g h0 (assign_session r s' h)"
  unfolding answered_def
proof (intro allI impI)
  fix t f assume t: "deref r (assign_session r s' h) = Inr t" "sm_find (epochs t) i = Some f"
  have v: "sm_valid (epochs s)" using owner_session [OF assms(1) s] established_ok(2) by blast
  have "t = s'" using t(1) s s' by (simp add: deref_Inr_iff)
  moreover from this have "f = e\<lparr>most_recent_machine_hash := pi_machine_hash p, processed_inputs := processed_inputs e @ [p]\<rparr>"
    using t(2) v s' by (simp add: sm_find_assign)
  ultimately have "popped i t f = counted i (pi_machine_hash p) m p s e" using s' by (cases s) (simp add: popped_def counted_def)
  then show "owner K r i b (settled K i) g h0 (assign_session r (popped i t f) (assign_session r s' h))"
    using counted_owner [OF assms(1-7)] by simp
qed

section \<open>Processing one input\<close>

lemma call_triple:
  assumes "similar.quiet r (taints r) V m" "steady K i F"
  shows "sys.triple K (owner K r i b F) m (\<lambda>v g h0 h. owner K r i b F g h0 h \<and> V v) (stopped K r i b)"
  using assms by (rule owner_triple) (rule stopped_taints)

lemma call_quiet:
  assumes "similar.quiet r (taints r) V m" "steady K i F"
  shows "sys.triple K (owner K r i b F) m (\<lambda>_. owner K r i b F) (stopped K r i b)"
  using assms by (rule owner_quiet) (rule stopped_taints)

lemma taint_triple: "actx_session actx = r \<Longrightarrow> sys.triple K (owner K r i b F) (taint actx code m) Q (stopped K r i b)"
  by (auto simp: taint_def intro!: sys.raise intro: stopped_taints)

lemma record_outputs_triple:
  assumes actx: "actx_session actx = r" and F: "steady K i F" "\<And>v. steady K i (F' v)"
    and push: "\<And>v. sys.triple K (owner K r i b F) (push_leaf K r i get put n v) (\<lambda>_. owner K r i b (F' v)) (stopped K r i b)"
    and acc: "\<And>k out. acc (put_hash k out) = Some k"
  shows "sys.triple K (owner K r i b F) (record_outputs K actx i n rng get put disagree put_hash outs)
    (\<lambda>v g h0 h. owner K r i b (F' (mtp_target_hash (fst v))) g h0 h \<and> (\<forall>out \<in> set (snd (snd v)). verified_output K (acc out)))
    (stopped K r i b)"
  unfolding record_outputs_def Let_def actx
proof (rule sys.bind [OF call_quiet [OF similar.quiet_sequences(7) [OF actx] F(1)]], rule sys.bind [OF push],
    rule sys.bind [OF call_quiet [OF similar.quiet_sequences(5) [OF actx] F(2)]], rule sys.cases_if, rule taint_triple [OF actx])
  fix in_machine in_epoch hashes
  let ?F = "F' (mtp_target_hash in_machine)" and ?count = "unat (count_null_terminated_entries hashes KECCAK_SIZE)"
  assume "\<not> ?count \<noteq> length outs"
  then have count: "?count = length outs" by simp
  show "sys.triple K (owner K r i b ?F)
      (bindP (for_each (attach_hash K actx rng hashes put_hash) [0..<?count] outs) (\<lambda>outputs. ret (in_machine, in_epoch, outputs)))
      (\<lambda>v g h0 h. owner K r i b (F' (mtp_target_hash (fst v))) g h0 h \<and> (\<forall>out \<in> set (snd (snd v)). verified_output K (acc out)))
      (stopped K r i b)"
    unfolding count
    by (rule sys.bind [OF call_triple [OF similar.quiet_attach_hashes [where acc = acc and put = put_hash, OF actx acc] F(2)]])
      (rule sys.return, simp)
qed

lemma owner_epoch:
  assumes "owner K r i b (at_work K i c n vs ns) g h0 h" "deref r h = Inr s"
  shows "\<exists>e. sm_find (epochs s) i = Some e" "session_object s = ref_object r" "sm_valid (epochs s)"
  using owner_session [OF assms] established_ok(2) assms(2) by (auto simp: at_work_def deref_Inr_iff)

lemma accept_input_triple:
  assumes actx: "actx_session actx = r" and accepted: "ro_status out = accepted"
  shows "sys.triple K (owner K r i b (at_work K i c n [] [])) (accept_input K actx i c n out) (\<lambda>_. answered K r i b) (stopped K r i b)"
proof -
  let ?set = "\<lambda>v w x. thenP (set_epoch r i (\<lambda>e. e\<lparr>most_recent_machine_hash := x\<rparr>))
      (thenP (set_epoch r i (\<lambda>e. e\<lparr>processed_inputs := processed_inputs e @
                [accepted_result c n out v w (most_recent_machine_hash e)]\<rparr>))
        (set_session r (\<lambda>s. s\<lparr>current_mcycle := ro_mcycle out\<rparr>)))"
  have set: "sys.triple K (owner K r i b (at_work K i c n [mtp_target_hash (fst v)] [mtp_target_hash (fst w)])) (?set v w x)
      (\<lambda>_. answered K r i b) (stopped K r i b)"
    if out: "\<forall>u \<in> set (snd (snd v)). verified_output K (v_hash u)" "\<forall>u \<in> set (snd (snd w)). verified_output K (n_hash u)" for v w x
  proof (rule sys.segment)
    fix g h0 h assume P: "owner K r i b (at_work K i c n [mtp_target_hash (fst v)] [mtp_target_hash (fst w)]) g h0 h"
    let ?p = "accepted_result c n out v w x"
    have leaf: "voucher_leaf ?p = mtp_target_hash (fst v)" "notice_leaf ?p = mtp_target_hash (fst w)"
      by (simp_all add: voucher_leaf_def notice_leaf_def accepted_result_def)
    have p: "input_index ?p = c" "epoch_input_index ?p = of_nat n" "result_ok K a ?p" "pi_status ?p \<noteq> accepted \<Longrightarrow> m = m'"
        "pi_machine_hash ?p = x" for a m m'
      using out accepted by (auto simp: accepted_result_def result_ok_def output_hashes_ok_def)
    show "\<exists>h' res. ?set v w x h = Done h' res \<and> sys.outcome (\<lambda>_. answered K r i b) (stopped K r i b) g h0 res h'"
    proof (cases "deref r h")
      case (Inl x)
      then show ?thesis using legal.deref_exn [OF Inl] by (simp add: exec write_epoch_def deref_epoch_def)
    next
      case (Inr s)
      obtain e where e: "sm_find (epochs s) i = Some e" using owner_epoch [OF P Inr] by blast
      let ?s = "s\<lparr>epochs := sm_assign i (e\<lparr>most_recent_machine_hash := x, processed_inputs := processed_inputs e @ [?p]\<rparr>) (epochs s),
         current_mcycle := ro_mcycle out\<rparr>"
      have "?set v w x h = Done (assign_session r ?s h) (Inr ())"
        using Inr e owner_epoch(2,3) [OF P Inr]
        by (simp add: exec write_epoch_def deref_epoch_def write_session_def sm_find_assign)
      then show ?thesis
        using recorded_answered [where p = ?p and m = "ro_mcycle out", OF _ Inr e p(1-4) refl] P leaf p(5) by simp
    qed
  qed
  have root: "sys.triple K (owner K r i b (at_work K i c n [x] [y])) (get_root_hash actx)
      (\<lambda>_. owner K r i b (at_work K i c n [x] [y])) (stopped K r i b)" for x y
    by (rule call_quiet [OF similar.quiet_sequences(6) [OF actx] steady_at_work])
  let ?rest = "\<lambda>v. bindP (record_outputs K actx i n notice_hashes notices_tree (\<lambda>t e. e\<lparr>notices_tree := t\<rparr>)
               ''number notices yielded and non-zero notice hashes disagree''
               (\<lambda>k n. n\<lparr>n_hash := Some k\<rparr>) (ro_notices out)) (\<lambda>w. bindP (get_root_hash actx) (?set v w))"
  have notices: "sys.triple K (owner K r i b (at_work K i c n [mtp_target_hash (fst v)] [])) (?rest v) (\<lambda>_. answered K r i b) (stopped K r i b)"
    if v: "\<forall>u \<in> set (snd (snd v)). verified_output K (v_hash u)" for v
  proof (rule sys.bind [OF record_outputs_triple [where acc = n_hash and F' = "\<lambda>x. at_work K i c n [mtp_target_hash (fst v)] [x]",
          OF actx steady_at_work steady_at_work push_leaves(2)]])
    fix w
    show "sys.triple K (\<lambda>g h0 h. owner K r i b (at_work K i c n [mtp_target_hash (fst v)] [mtp_target_hash (fst w)]) g h0 h \<and>
        (\<forall>u \<in> set (snd (snd w)). verified_output K (n_hash u))) (bindP (get_root_hash actx) (?set v w))
        (\<lambda>_. answered K r i b) (stopped K r i b)"
    proof (rule sys.given [where A = "\<forall>u \<in> set (snd (snd w)). verified_output K (n_hash u)"])
      assume w: "\<forall>u \<in> set (snd (snd w)). verified_output K (n_hash u)"
      show ?thesis by (rule sys.weaken_pre [OF sys.bind [OF root set [OF v w]]]) simp
    qed simp
  qed simp
  show ?thesis
    unfolding accept_input_def Let_def actx
  proof (rule sys.bind [OF record_outputs_triple [where acc = v_hash and F' = "\<lambda>a. at_work K i c n [a] []",
          OF actx steady_at_work steady_at_work push_leaves(1)]])
    fix v
    show "sys.triple K (\<lambda>g h0 h. owner K r i b (at_work K i c n [mtp_target_hash (fst v)] []) g h0 h \<and>
        (\<forall>u \<in> set (snd (snd v)). verified_output K (v_hash u))) (?rest v) (\<lambda>_. answered K r i b) (stopped K r i b)"
    proof (rule sys.given [where A = "\<forall>u \<in> set (snd (snd v)). verified_output K (v_hash u)"])
      assume v: "\<forall>u \<in> set (snd (snd v)). verified_output K (v_hash u)"
      show ?thesis by (rule sys.weaken_pre [OF notices [OF v]]) simp
    qed simp
  qed simp
qed

lemma owner_settled: "owner K r i b (at_work K i c n [] []) g h0 h \<Longrightarrow> owner K r i b (settled K i) g h0 h"
proof -
  assume P: "owner K r i b (at_work K i c n [] []) g h0 h"
  then have "settled K i s" if "deref r h = Inr s" for s using owner_session [OF P that] at_work_settled by blast
  then show "owner K r i b (settled K i) g h0 h" using P by (simp add: owner_def)
qed

lemma checkin_triple:
  assumes "actx_session actx = r" "similar.quiet r (taints r) (\<lambda>_. True) trigger"
  shows "sys.triple K (owner K r i b (at_work K i c n [] [])) (trigger_and_wait_checkin actx trigger)
    (\<lambda>_. owner K r i b (at_work K i c n [] [])) (stopped K r i b)"
  by (rule owner_quiet [OF similar.quiet_trigger_and_wait_checkin [OF assms(1) similar.quiet_fails [OF assms(2)]] steady_at_work])
    (erule stopped_fails, erule owner_settled)

lemma skip_input_triple:
  assumes actx: "actx_session actx = r" and skipped: "ro_status out \<noteq> accepted"
  shows "sys.triple K (owner K r i b (at_work K i c n [] [])) (skip_input K actx i c n out) (\<lambda>_. answered K r i b) (stopped K r i b)"
proof -
  let ?F = "at_work K i c n [zero_hash] [zero_hash]"
  let ?put = "\<lambda>v w. set_epoch r i (\<lambda>e. e\<lparr>processed_inputs := processed_inputs e @
          [skipped_result c n out v w (most_recent_machine_hash e)]\<rparr>)"
  have put: "sys.triple K (owner K r i b ?F) (?put v w) (\<lambda>_. answered K r i b) (stopped K r i b)" for v w
  proof (rule sys.segment)
    fix g h0 h assume P: "owner K r i b ?F g h0 h"
    show "\<exists>h' res. ?put v w h = Done h' res \<and> sys.outcome (\<lambda>_. answered K r i b) (stopped K r i b) g h0 res h'"
    proof (cases "deref r h")
      case (Inl x)
      then show ?thesis using legal.deref_exn [OF Inl] by (simp add: exec write_epoch_def deref_epoch_def)
    next
      case (Inr s)
      obtain e where e: "sm_find (epochs s) i = Some e" using owner_epoch [OF P Inr] by blast
      let ?p = "skipped_result c n out v w (most_recent_machine_hash e)"
      have leaf: "voucher_leaf ?p = zero_hash" "notice_leaf ?p = zero_hash"
        by (simp_all add: voucher_leaf_def notice_leaf_def skipped_result_def)
      have p: "input_index ?p = c" "epoch_input_index ?p = of_nat n" "result_ok K (most_recent_machine_hash e) ?p"
          "pi_machine_hash ?p = most_recent_machine_hash e"
        using skipped by (simp_all add: skipped_result_def result_ok_def)
      let ?s = "s\<lparr>epochs := sm_assign i (e\<lparr>processed_inputs := processed_inputs e @ [?p]\<rparr>) (epochs s)\<rparr>"
      have "?put v w h = Done (assign_session r ?s h) (Inr ())"
        using Inr e by (simp add: exec write_epoch_def deref_epoch_def write_session_def)
      moreover have "answered K r i b g h0 (assign_session r ?s h)"
        by (rule recorded_answered [where p = ?p and m = "current_mcycle s", OF _ Inr e p(1-3)])
          (use P leaf p(4) in simp_all)
      ultimately show ?thesis by simp
    qed
  qed
  show ?thesis
    unfolding skip_input_def Let_def actx
    by (rule sys.seq [OF checkin_triple [OF actx similar.quiet_simple_calls(2) [OF actx]]],
        rule sys.bind [OF push_leaves(1)], rule sys.bind [OF push_leaves(2)],
        rule sys.bind [OF call_quiet [OF similar.quiet_sequences(6) [OF actx] steady_at_work]],
        rule sys.bind [OF call_quiet [OF similar.quiet_get_epoch steady_at_work]],
        rule sys.cases_if, rule taint_triple [OF actx], rule put)
qed

lemma quiet_run_input: "actx_session actx = r \<Longrightarrow> similar.quiet r (taints r) (\<lambda>_. True) (run_input fuel actx i n input mcycle)"
proof -
  assume actx: "actx_session actx = r"
  have size: "similar.quiet r (taints r) (\<lambda>_. True) (liftH (lift_res (cmt_size t)))" for t
    by (rule similar.modest_lift) (auto simp: lift_res_def split: sum.splits)
  have "similar.quiet r (taints r) (\<lambda>_. True) (check_tree_sizes actx i n)"
    unfolding check_tree_sizes_def by (auto simp: actx intro!: similar.quiet_steps size)
  then show ?thesis
    unfolding run_input_def
    by (auto simp: actx intro!: similar.quiet_calls similar.quiet_sequences similar.quiet_run_loop similar.quiet_read_outputs)
qed

text \<open>There is an input to process.\<close>

definition has_input :: "digest \<Rightarrow> u64 \<Rightarrow> session_type \<Rightarrow> bool" where
  "has_input K i s \<longleftrightarrow> settled K i s \<and> (\<exists>e. sm_find (epochs s) i = Some e \<and> pending_inputs e \<noteq> [])"

lemma process_input_triple:
  assumes actx: "actx_session actx = r"
  shows "sys.triple K (owner K r i b (has_input K i)) (process_input fuel K actx i) (\<lambda>_. owner K r i b (settled K i)) (stopped K r i b)"
proof -
  let ?W = "\<lambda>s e. owner K r i b (at_work K i (processed_input_count s) (length (processed_inputs e)) [] [])"
  have run: "sys.triple K (?W s e)
     (thenP (trigger_and_wait_checkin actx (snapshot actx))
      (bindP (get_session r) (\<lambda>t.
      bindP (if payload_fits (in_payload (hd (pending_inputs e))) t
             then run_input fuel actx i (length (processed_inputs e)) (hd (pending_inputs e)) (current_mcycle t)
             else ret ((new_outcome (current_mcycle t))\<lparr>ro_status := payload_length_limit_exceeded\<rparr>)) (\<lambda>out.
      thenP (if ro_status out = accepted
             then accept_input K actx i (processed_input_count s) (length (processed_inputs e)) out
             else skip_input K actx i (processed_input_count s) (length (processed_inputs e)) out)
      (thenP (set_session r (\<lambda>s. s\<lparr>processed_input_count := processed_input_count s + 1\<rparr>))
        (set_epoch r i (\<lambda>e. e\<lparr>pending_inputs := tl (pending_inputs e)\<rparr>)))))))
     (\<lambda>_. owner K r i b (settled K i)) (stopped K r i b)" for s e
    by (rule sys.seq [OF checkin_triple [OF actx similar.quiet_simple_calls(1) [OF actx]]],
        rule sys.bind [OF call_quiet [OF similar.quiet_get_session steady_at_work]],
        rule sys.bind [OF call_quiet [OF _ steady_at_work]],
        rule similar.modest_if, rule quiet_run_input [OF actx], rule similar.modest_ret, simp,
        rule sys.seq [OF _ count_triple], rule sys.cases_if,
        rule accept_input_triple [OF actx], assumption, rule skip_input_triple [OF actx], assumption)
  let ?Q = "\<lambda>s e g h0 h. owner K r i b (has_input K i) g h0 h \<and> deref r h = Inr s \<and> sm_find (epochs s) i = Some e"
  have start: "?W s e g h0 h" if "?Q s e g h0 h" for s e g h0 h
  proof -
    have P: "owner K r i b (has_input K i) g h0 h" "deref r h = Inr s" "sm_find (epochs s) i = Some e" using that by simp_all
    have "at_work K i (processed_input_count s) (length (processed_inputs e)) [] [] s"
      using owner_session(5) [OF P(1,2)] P(3) by (intro at_work_start) (auto simp: has_input_def)
    then show ?thesis using P by (simp add: owner_def)
  qed
  have read: "sys.triple K (owner K r i b (has_input K i)) (get_session r)
      (\<lambda>s g h0 h. owner K r i b (has_input K i) g h0 h \<and> deref r h = Inr s) (stopped K r i b)"
    unfolding get_session_def by (rule sys.read_state) (auto dest: legal.deref_exn)
  have epoch: "sys.triple K (\<lambda>g h0 h. owner K r i b (has_input K i) g h0 h \<and> deref r h = Inr s) (get_epoch r i) (?Q s) (stopped K r i b)" for s
    unfolding get_epoch_def
    by (rule sys.read_state) (auto simp: deref_epoch_def dangling_def split: option.splits)
  show ?thesis
    unfolding process_input_def Let_def actx
    by (rule sys.bind [OF read], rule sys.bind [OF epoch], rule sys.weaken_pre [OF run], rule start)
qed

section \<open>The loop\<close>

text \<open>No input is waiting, in an epoch that is still there.\<close>

definition drained :: "digest \<Rightarrow> u64 \<Rightarrow> session_type \<Rightarrow> bool" where
  "drained K i s \<longleftrightarrow> settled K i s \<and> (\<exists>e. sm_find (epochs s) i = Some e \<and> pending_inputs e = [])"

lemma process_inputs_loop_triple:
  assumes actx: "actx_session actx = r"
  shows "sys.triple K (owner K r i b (settled K i)) (process_inputs_loop n fuel K actx i) (\<lambda>_. owner K r i b (drained K i)) (stopped K r i b)"
proof (induction n)
  case 0
  show ?case unfolding process_inputs_loop.simps by (rule sys.raise) simp
next
  case (Suc n)
  let ?Q = "\<lambda>e g h0 h. if pending_inputs e = [] then owner K r i b (drained K i) g h0 h else owner K r i b (has_input K i) g h0 h"
  have read: "sys.triple K (owner K r i b (settled K i)) (get_epoch r i) ?Q (stopped K r i b)"
    unfolding get_epoch_def
  proof (rule sys.read_state)
    fix g h0 h e assume "owner K r i b (settled K i) g h0 h" "deref_epoch r i h = Inr e"
    then show "?Q e g h0 h" by (auto simp: deref_epoch_def owner_def has_input_def drained_def split: option.splits sum.splits)
  qed (auto dest: legal.deref_epoch_exn)
  have round: "sys.triple K (owner K r i b (has_input K i)) (thenP (process_input fuel K actx i)
      (thenP (resume_pending_query r i (actx_self actx)) (process_inputs_loop n fuel K actx i)))
      (\<lambda>_. owner K r i b (drained K i)) (stopped K r i b)"
    by (rule sys.seq [OF process_input_triple [OF actx]], rule sys.seq [OF call_quiet [OF similar_resume steady_settled] Suc])
  show ?case
    unfolding process_inputs_loop.simps actx
  proof (rule sys.bind [OF read], rule sys.cases_if)
    fix e
    show "sys.triple K (?Q e) (ret ()) (\<lambda>_. owner K r i b (drained K i)) (stopped K r i b)" if "pending_inputs e = []"
      using that by (intro sys.return) simp
    show "sys.triple K (?Q e) (thenP (process_input fuel K actx i)
        (thenP (resume_pending_query r i (actx_self actx)) (process_inputs_loop n fuel K actx i)))
        (\<lambda>_. owner K r i b (drained K i)) (stopped K r i b)" if "pending_inputs e \<noteq> []"
      using that by (intro sys.weaken_pre [OF round]) simp
  qed
qed

section \<open>Taking and leaving the processing lock\<close>

text \<open>Tainting the session puts the state in order.\<close>

definition recoverable :: "digest \<Rightarrow> session_ref \<Rightarrow> session_ref set \<Rightarrow> handler_context \<Rightarrow> handler_context \<Rightarrow> bool" where
  "recoverable K r g h0 h \<longleftrightarrow> (\<forall>s b st. deref r h = Inr s \<longrightarrow>
     guest K r g h0 (assign_session r (s\<lparr>session_lock := b, tainted := True, taint_status := st\<rparr>) h))"

definition failure :: "digest \<Rightarrow> session_ref \<Rightarrow> handler_exn \<Rightarrow> session_ref set \<Rightarrow> handler_context \<Rightarrow> handler_context \<Rightarrow> bool" where
  "failure K r x g h0 h \<longleftrightarrow> fails r x \<and> recoverable K r g h0 h \<and>
     ((\<exists>st. x = Finish_error_yield_none st) \<longrightarrow> guest K r g h0 h)"

lemma guest_recoverable: "guest K r g h0 h \<Longrightarrow> recoverable K r g h0 h"
  unfolding recoverable_def
proof (intro allI impI)
  fix s b st assume P: "guest K r g h0 h" and s: "deref r h = Inr s"
  let ?s = "s\<lparr>session_lock := b, tainted := True, taint_status := st\<rparr>"
  have "legal K s ?s" by (rule legal_fields) simp_all
  then have "touches (legal K) r h (assign_session r ?s h)"
    by (intro touches_assign [where sim = "legal K", OF s]) simp_all
  then show "guest K r g h0 (assign_session r ?s h)" using P guest_change by blast
qed

lemma guest_failure: "fails r x \<Longrightarrow> guest K r g h0 h \<Longrightarrow> failure K r x g h0 h"
  by (simp add: failure_def guest_recoverable)

text \<open>The invariant without the processing lock.\<close>

lemma released_inv:
  assumes "session_inv K s" "epochs s \<noteq> []" "settled K i s \<or> tainted s'"
    "epochs s' = epochs s" "active_epoch_index s' = active_epoch_index s" "processed_input_count s' = processed_input_count s"
    "tainted s \<longrightarrow> tainted s'"
  shows "session_inv K s'"
proof -
  note ok = established_ok [OF assms(1,2)]
  have "session_ok s'" using ok(1) assms(4,5) by (simp add: session_ok_def)
  moreover have "epoch_inv K s' j e" if "sm_find (epochs s') j = Some e" for j e
    using ok(3) [of j e] that assms(3-7) numbered_cong [OF assms(6)] by (auto simp: epoch_inv_def settled_def)
  ultimately show ?thesis using assms(2,4) by (simp add: session_inv_def)
qed

lemma fields_advance:
  assumes "session_inv K s" "epochs s \<noteq> []" "epochs s' = epochs s" "active_epoch_index s' = active_epoch_index s"
    "session_id s' = session_id s" "server_cycles s' = server_cycles s" "server_deadline s' = server_deadline s"
    "memory_range s' = memory_range s" "tainted s \<longrightarrow> tainted s'"
  shows "session_advances s s'"
  using assms by (auto simp: session_advances_def split: option.split)

lemma processing_destructor:
  assumes P: "owner K r i b F g h0 h" and d: "lock_destructor Processing_lock r h = Inr h'"
  shows "(\<And>s. F s \<Longrightarrow> settled K i s) \<Longrightarrow> guest K r g h0 h'" and "recoverable K r g h0 h'"
proof -
  obtain s where s: "deref r h = Inr s" "h' = assign_session r (s\<lparr>processing_lock := False\<rparr>) h"
    using d by (auto simp: lock_destructor_def write_session_def split: sum.splits)
  note o = owner_session [OF P s(1)]
  have g: "guest K r g h0 h" "r \<in> g \<or> free r h0" using P by (auto simp: owner_def)
  show "guest K r g h0 h'" if "\<And>s. F s \<Longrightarrow> settled K i s"
    unfolding s(2)
    by (rule guest_owner_write [OF g s(1)])
      (use o that in \<open>auto intro: fields_advance released_inv [of K s i]\<close>)
  show "recoverable K r g h0 h'"
    unfolding recoverable_def
  proof (intro allI impI)
    fix t b st assume "deref r h' = Inr t"
    then have t: "t = s\<lparr>processing_lock := False\<rparr>" using s by (simp add: deref_Inr_iff)
    have "guest K r g h0 (assign_session r (t\<lparr>session_lock := b, tainted := True, taint_status := st\<rparr>) h)"
      unfolding t by (rule guest_owner_write [OF g s(1)]) (use o in \<open>auto intro: fields_advance released_inv [of K s i]\<close>)
    then show "guest K r g h0 (assign_session r (t\<lparr>session_lock := b, tainted := True, taint_status := st\<rparr>) h')"
      using s(2) by simp
  qed
qed

lemma processing_left:
  assumes P: "owner K r i b F g h0 h" and d: "lock_destructor Processing_lock r h = Inr h'"
  shows "\<exists>s. deref r h' = Inr (s\<lparr>processing_lock := False\<rparr>) \<and> F s \<and> grown K i b (s\<lparr>processing_lock := False\<rparr>)"
proof -
  obtain s where s: "deref r h = Inr s" "h' = assign_session r (s\<lparr>processing_lock := False\<rparr>) h"
    using d by (auto simp: lock_destructor_def write_session_def split: sum.splits)
  note o = owner_session [OF P s(1)]
  have "grown K i b (s\<lparr>processing_lock := False\<rparr>)" by (rule grown_fields [OF o(7)]) simp_all
  moreover have "deref r h' = Inr (s\<lparr>processing_lock := False\<rparr>)" using s by (simp add: deref_Inr_iff)
  ultimately show ?thesis using o(5) by blast
qed

lemma stopped_destructor:
  assumes "stopped K r i b x g h0 h" "lock_destructor Processing_lock r h = Inr h'"
  shows "failure K r x g h0 h'"
  using assms processing_destructor [of K r i b "\<lambda>s. (\<exists>st. x = Finish_error_yield_none st) \<longrightarrow> settled K i s" g h0 h h']
  by (auto simp: stopped_def failure_def)

text \<open>A segment that entered the session without owning it, and has not changed the processing lock.\<close>

definition visiting :: "digest \<Rightarrow> session_ref \<Rightarrow> session_ref set \<Rightarrow> handler_context \<Rightarrow> handler_context \<Rightarrow> bool" where
  "visiting K r g h0 h \<longleftrightarrow> guest K r g h0 h \<and> g = {} \<and> (\<forall>s. deref r h = Inr s \<longrightarrow>
     (\<exists>s0. deref r h0 = Inr s0 \<and> epochs s0 \<noteq> [] \<and> processing_lock s0 = processing_lock s))"

lemma take_processing_lock:
  assumes P: "visiting K r g h0 h" and s: "deref r h = Inr s" "\<not> processing_lock s"
    and e: "sm_find (epochs s) i = Some e" "pending_inputs e \<noteq> []"
  shows "owner K r i (base_of s e) (settled K i) g h0 (assign_session r (s\<lparr>processing_lock := True\<rparr>) h)"
proof -
  let ?s = "s\<lparr>processing_lock := True\<rparr>"
  have guest: "guest K r g h0 h" "g = {}" using P by (auto simp: visiting_def)
  have inv: "session_inv K s" "epochs s \<noteq> []"
    using guest(1) server_inv_deref [OF _ s(1)] s(1) by (auto simp: guest_def orderly_def established_def)
  note ok = established_ok [OF inv]
  have i: "i = active_epoch_index s" using ok(3) [OF e(1)] e(2) by (auto simp: epoch_inv_def split: if_splits)
  have free: "free r h0" using P s by (auto simp: visiting_def free_def protected_def)
  have settled: "settled K i s"
    unfolding settled_def
  proof (intro allI impI)
    fix j x assume "sm_find (epochs s) j = Some x" "j = i \<longrightarrow> \<not> tainted s"
    then show "epoch_ok K x \<and> outputs_ok K x"
      using ok(3) [of j x] s(2) i by (cases "j = i") (simp_all add: epoch_inv_def)
  qed
  have "guest K r g h0 (assign_session r ?s h)"
  proof (rule guest_owner_write [OF guest(1) _ s(1)])
    show "session_advances s ?s" by (rule fields_advance [OF inv]) simp_all
    show "session_inv K ?s" by (rule released_inv [where i = i, OF inv]) (use settled in simp_all)
  qed (simp_all add: free)
  moreover have "deref r (assign_session r ?s h) = Inr ?s" using s(1) by (simp add: deref_Inr_iff)
  moreover have "settled K i ?s" using settled by (simp add: settled_def)
  moreover have "grown K i (base_of s e) ?s" by (rule grown_fields [OF grown_start [OF e(1)]]) simp_all
  ultimately show ?thesis using free guest(2) i by (simp add: owner_def)
qed

text \<open>How \<open>process_pending_inputs\<close> leaves the session, on return and with an exception.\<close>

definition inputs_done :: "digest \<Rightarrow> session_ref \<Rightarrow> u64 \<Rightarrow> base \<Rightarrow> handler_context \<Rightarrow> bool" where
  "inputs_done K r i b h \<longleftrightarrow> (\<exists>s e new. deref r h = Inr s \<and> \<not> processing_lock s \<and>
     sm_find (epochs s) i = Some e \<and> pending_inputs e = [] \<and> grown_by K b s e new \<and>
     (\<not> tainted s \<longrightarrow> epoch_ok K e \<and> outputs_ok K e))"

definition inputs_stopped :: "digest \<Rightarrow> session_ref \<Rightarrow> u64 \<Rightarrow> base \<Rightarrow> handler_context \<Rightarrow> bool" where
  "inputs_stopped K r i b h \<longleftrightarrow> (\<exists>s. deref r h = Inr s \<and> \<not> processing_lock s \<and> grown K i b s)"

lemma processing_done:
  assumes "owner K r i b (drained K i) g h0 h" "lock_destructor Processing_lock r h = Inr h'"
  shows "inputs_done K r i b h'"
proof -
  obtain s where s: "deref r h' = Inr (s\<lparr>processing_lock := False\<rparr>)" "drained K i s" "grown K i b (s\<lparr>processing_lock := False\<rparr>)"
    using processing_left [OF assms] by blast
  obtain e where e: "sm_find (epochs s) i = Some e" "pending_inputs e = []" "\<not> tainted s \<Longrightarrow> epoch_ok K e \<and> outputs_ok K e"
    using s(2) by (auto simp: drained_def settled_def)
  then obtain new where "grown_by K b (s\<lparr>processing_lock := False\<rparr>) e new" using s(3) by (auto simp: grown_def)
  then show ?thesis
    unfolding inputs_done_def using s(1) e
    by (intro exI [of _ "s\<lparr>processing_lock := False\<rparr>"] exI [of _ e] exI [of _ new]) simp
qed

lemma inputs_loop_locked:
  assumes actx: "actx_session actx = r"
  shows "sys.triple K (owner K r i b (settled K i))
      (on_scope_exit (lock_destructor Processing_lock r) (process_inputs_loop fuel fuel K actx i))
      (\<lambda>_ g h0 h. guest K r g h0 h \<and> inputs_done K r i b h) (\<lambda>x g h0 h. failure K r x g h0 h \<and> inputs_stopped K r i b h)"
proof (rule sys.leaves [OF process_inputs_loop_triple [OF actx]])
  fix g h0 h h' assume P: "owner K r i b (drained K i) g h0 h" and d: "lock_destructor Processing_lock r h = Inr h'"
  show "guest K r g h0 h' \<and> inputs_done K r i b h'"
    using processing_destructor(1) [OF P d] processing_done [OF P d] by (simp add: drained_def)
next
  fix x g h0 h h' assume P: "stopped K r i b x g h0 h" and d: "lock_destructor Processing_lock r h = Inr h'"
  have "inputs_stopped K r i b h'"
    using P processing_left [OF _ d] unfolding stopped_def inputs_stopped_def by fastforce
  then show "failure K r x g h0 h' \<and> inputs_stopped K r i b h'" using stopped_destructor [OF P d] by simp
qed (auto dest: lock_destructor_exn)

lemma process_pending_inputs_locked:
  assumes actx: "actx_session actx = r" and P: "visiting K r g h0 h"
    and s: "deref r h = Inr s" "\<not> processing_lock s" "sm_find (epochs s) i = Some e" "pending_inputs e \<noteq> []"
  shows "wpo (guarantee K) (rely K)
      (sys.outcome (\<lambda>_ g h0 h. guest K r g h0 h \<and> inputs_done K r i (base_of s e) h)
         (\<lambda>x g h0 h. failure K r x g h0 h \<and> inputs_stopped K r i (base_of s e) h))
      (process_pending_inputs fuel K actx i h) g h0"
proof -
  have "process_pending_inputs fuel K actx i h =
      on_scope_exit (lock_destructor Processing_lock r) (process_inputs_loop fuel fuel K actx i)
        (assign_session r (s\<lparr>processing_lock := True\<rparr>) h)"
    using s(1,2) by (simp add: process_pending_inputs_def actx with_auto_lock_def lock_acquire_def exec write_session_def)
  then show ?thesis
    using inputs_loop_locked [OF actx] take_processing_lock [OF P s] by (simp add: sys.triple_def)
qed

lemma process_pending_inputs_triple:
  assumes actx: "actx_session actx = r"
  shows "sys.triple K (\<lambda>g h0 h. visiting K r g h0 h \<and> (\<exists>s e. deref r h = Inr s \<and> sm_find (epochs s) i = Some e \<and> pending_inputs e \<noteq> []))
    (process_pending_inputs fuel K actx i) (\<lambda>_. guest K r) (failure K r)"
  unfolding sys.triple_def
proof (intro allI impI, elim conjE exE)
  fix g h0 h s e
  assume P: "visiting K r g h0 h" and s: "deref r h = Inr s" "sm_find (epochs s) i = Some e" "pending_inputs e \<noteq> []"
  show "wpo (guarantee K) (rely K) (sys.outcome (\<lambda>_. guest K r) (failure K r)) (process_pending_inputs fuel K actx i h) g h0"
  proof (cases "processing_lock s")
    case True
    then obtain code msg where "process_pending_inputs fuel K actx i h = Done h (Inl (Taint_session r (grpc_error code msg)))"
      using s(1) by (auto simp: process_pending_inputs_def actx exec taint_def)
    moreover have "failure K r (Taint_session r (grpc_error code msg)) g h0 h"
      by (rule guest_failure) (use P in \<open>auto simp: visiting_def\<close>)
    ultimately show ?thesis by simp
  next
    case False
    show ?thesis
      by (rule wpo_mono [OF process_pending_inputs_locked [OF actx P s(1) False s(2,3)]])
        (auto simp: sys.outcome_def split: sum.splits)
  qed
qed

section \<open>The handler\<close>

text \<open>Putting the input into the queue.\<close>

lemma enqueue_input_segment:
  assumes P: "guest K r g h0 h"
  shows "\<exists>h' res. enqueue_input request r h = Done h' res \<and> sys.outcome (\<lambda>_. guest K r) (failure K r) g h0 res h'"
proof (cases "deref r h")
  case (Inl x)
  then show ?thesis using legal.deref_exn [OF Inl] by (simp add: enqueue_input_def check_not_tainted_def exec)
next
  case (Inr s)
  have inv: "session_inv K s" "epochs s \<noteq> []"
    using P server_inv_deref [OF _ Inr] Inr by (auto simp: guest_def orderly_def established_def)
  obtain e where e: "sm_find (epochs s) (active_epoch_index s) = Some e" using established_ok(4) [OF inv] by blast
  show ?thesis
  proof (cases "acceptable_input request s e")
    case None
    from enqueue_refused [OF Inr e None] show ?thesis using guest_failure [OF _ P] by auto
  next
    case (Some input)
    then have "input_index_field (in_metadata input) = of_nat (length (pending_inputs e)) + processed_input_count s"
      by (auto simp: acceptable_input_def acceptable_metadata_def split: if_splits option.splits)
    then have "legal K s (add_input input s e)" unfolding add_input_def by (rule legal_enqueue [OF e])
    then have "touches (legal K) r h (assign_session r (add_input input s e) h)"
      by (intro touches_assign [where sim = "legal K", OF Inr]) (simp_all add: add_input_def)
    then show ?thesis using enqueue_accepted [OF Inr e Some] guest_change [OF P] by simp
  qed
qed

lemma visit_after_reply:
  "sys.triple K (guest K r) (finish Void_response) (\<lambda>_. visiting K r) E"
  unfolding finish_def
proof (rule sys.bind [where M = "\<lambda>_ g h0 h. guest K r g h0 h \<and> g = {} \<and> h0 = h"], rule sys.yields)
  fix g h0 h assume P: "guest K r g h0 h"
  show "\<exists>g'. guarantee K g h0 (Finish Void_response) g' h \<and>
      (\<forall>v h'. rely K g' h h' \<longrightarrow> guest K r g' h' h' \<and> g' = {} \<and> h' = h')"
    using orderly_yields(1) [OF guest_orderly [OF P] plain_certified] guest_resumed [OF P]
    by (intro exI [of _ "{}"]) auto
next
  show "sys.triple K (\<lambda>g h0 h. guest K r g h0 h \<and> g = {} \<and> h0 = h) (ret ()) (\<lambda>_. visiting K r) E"
    by (rule sys.return) (auto simp: visiting_def guest_def established_def)
qed

lemma visiting_write:
  assumes "\<And>s. processing_lock (f s) = processing_lock s" "\<And>s. legal K s (f s) \<and> session_object (f s) = session_object s"
  shows "sys.triple K (visiting K r) (set_session r f) (\<lambda>_. visiting K r) E"
  unfolding set_session_def
proof (rule sys.write_state)
  fix g h0 h h' assume P: "visiting K r g h0 h" and w: "write_session r f h = Inr h'"
  obtain s where s: "deref r h = Inr s" "h' = assign_session r (f s) h"
    using w by (auto simp: write_session_def split: sum.splits)
  have "deref r h' = Inr (f s)" using s assms(2) by (simp add: deref_Inr_iff)
  moreover have "guest K r g h0 h'"
    using P guest_change legal.write_touches [OF w assms(2)] by (auto simp: visiting_def)
  ultimately show "visiting K r g h0 h'" using P s(1) assms(1) by (auto simp: visiting_def)
qed (auto dest: legal.write_session_exn)

lemma release_triple:
  "sys.triple K (visiting K r) (lock_release Session_lock r name) (\<lambda>_. visiting K r) (failure K r)"
proof -
  have "sys.triple K (visiting K r) (get_session r) (\<lambda>_. visiting K r) (failure K r)"
    unfolding get_session_def by (rule sys.read_state) (auto dest: legal.deref_exn)
  moreover have "sys.triple K (visiting K r) (throw (Std_exception (Runtime_error m))) (\<lambda>_. visiting K r) (failure K r)" for m
    by (rule sys.raise, rule guest_failure) (auto simp: visiting_def)
  moreover have "sys.triple K (visiting K r) (set_session r (set_lock Session_lock False)) (\<lambda>_. visiting K r) (failure K r)"
    by (rule visiting_write) (auto intro: legal_fields)
  ultimately show ?thesis
    unfolding lock_release_def by (intro sys.bind [where M = "\<lambda>_. visiting K r"] sys.cases_if) simp_all
qed

lemma advance_body_triple:
  "sys.triple K (guest K r) (AdvanceState_body fuel K self request r) (\<lambda>_. guest K r) (failure K r)"
proof -
  have enqueue: "sys.triple K (guest K r) (enqueue_input request r) (\<lambda>_. guest K r) (failure K r)"
    by (rule sys.segment) (rule enqueue_input_segment)
  let ?Q = "\<lambda>i e g h0 h. visiting K r g h0 h \<and> (\<exists>s. deref r h = Inr s \<and> sm_find (epochs s) i = Some e)"
  have read: "sys.triple K (visiting K r) (get_epoch r i) (?Q i) (failure K r)" for i
    unfolding get_epoch_def
    by (rule sys.read_state) (auto simp: deref_epoch_def dangling_def dest: legal.deref_exn split: sum.splits option.splits)
  have process: "sys.triple K (?Q i e) (if length (pending_inputs e) = 1
      then process_pending_inputs fuel K \<lparr>actx_session = r, actx_self = self\<rparr> i else ret ()) (\<lambda>_. guest K r) (failure K r)" for i e
  proof (rule sys.cases_if)
    assume "length (pending_inputs e) = 1"
    then have "pending_inputs e \<noteq> []" by auto
    then show "sys.triple K (?Q i e) (process_pending_inputs fuel K \<lparr>actx_session = r, actx_self = self\<rparr> i) (\<lambda>_. guest K r) (failure K r)"
      by (intro sys.weaken_pre [OF process_pending_inputs_triple]) auto
  qed (rule sys.return, simp add: visiting_def)
  show ?thesis
    unfolding AdvanceState_body_def
    by (rule sys.bind [OF enqueue], rule sys.seq [OF visit_after_reply], rule sys.seq [OF release_triple],
        rule sys.bind [OF read process])
qed

text \<open>After the session lock is released as well, the catch clauses taint the session or report.\<close>

definition caught :: "digest \<Rightarrow> id_type \<Rightarrow> handler_exn \<Rightarrow> session_ref set \<Rightarrow> handler_context \<Rightarrow> handler_context \<Rightarrow> bool" where
  "caught K sid x g h0 h \<longleftrightarrow> (\<exists>st. x = Finish_error_yield_none st) \<and> orderly K g h0 h \<or>
     (\<forall>st. x \<noteq> Finish_error_yield_none st) \<and>
     (\<exists>r s. ref_id r = sid \<and> deref r h = Inr s \<and> fails r x \<and> recoverable K r g h0 h)"

lemma failure_caught:
  assumes "ref_id r = sid" "failure K r x g h0 h" "lock_destructor Session_lock r h = Inr h'"
  shows "caught K sid x g h0 h'"
proof -
  obtain s where s: "deref r h = Inr s" "h' = assign_session r (s\<lparr>session_lock := False\<rparr>) h"
    using assms(3) by (auto simp: lock_destructor_def write_session_def split: sum.splits)
  have d: "deref r h' = Inr (s\<lparr>session_lock := False\<rparr>)" using s by (simp add: deref_Inr_iff)
  show ?thesis
  proof (cases "\<exists>st. x = Finish_error_yield_none st")
    case True
    then have "guest K r g h0 h" using assms(2) by (simp add: failure_def)
    then have "orderly K g h0 h'" using guest_change lock_destructor_change [OF assms(3)] guest_orderly by blast
    then show ?thesis using True by (simp add: caught_def)
  next
    case False
    have "recoverable K r g h0 h'"
      using assms(2) s d by (simp add: failure_def recoverable_def)
    then show ?thesis using False d assms(1,2) by (auto simp: caught_def failure_def)
  qed
qed

lemma taint_and_resume_triple:
  "sys.triple K (recoverable K r) (taint_and_resume K self r st) (\<lambda>_. orderly K) E"
proof -
  have taint: "sys.triple K (recoverable K r) (set_session r (\<lambda>s. s\<lparr>tainted := True, taint_status := st\<rparr>)) (\<lambda>_. guest K r) E"
    unfolding set_session_def
  proof (rule sys.write_state)
    fix g h0 h h' assume P: "recoverable K r g h0 h" and w: "write_session r (\<lambda>s. s\<lparr>tainted := True, taint_status := st\<rparr>) h = Inr h'"
    obtain s where s: "deref r h = Inr s" "h' = assign_session r (s\<lparr>tainted := True, taint_status := st\<rparr>) h"
      using w by (auto simp: write_session_def split: sum.splits)
    have "guest K r g h0 (assign_session r (s\<lparr>session_lock := session_lock s, tainted := True, taint_status := st\<rparr>) h)"
      using P s(1) unfolding recoverable_def by blast
    then show "guest K r g h0 h'" using s(2) by simp
  qed (auto dest: legal.write_session_exn)
  have "legal.quiet K r (\<lambda>_. False) (\<lambda>_. True) (bindP (get_session r) (\<lambda>s. if True then
      thenP (epoch_at K r (active_epoch_index s)) (resume_pending_query r (active_epoch_index s) self) else ret ()))"
    by (rule quiet_epoch_at) (rule similar_quiet [OF similar_resume], rule legal.modest_ret, simp)
  then have "sys.triple K (guest K r) (bindP (get_session r) (\<lambda>s.
      thenP (epoch_at K r (active_epoch_index s)) (resume_pending_query r (active_epoch_index s) self))) (\<lambda>_. guest K r) E"
    by (intro guest_quiet) simp_all
  then show ?thesis
    unfolding taint_and_resume_def by (rule sys.weaken_post [OF sys.seq [OF taint]]) (rule guest_orderly)
qed

lemma advance_catch: "sys.triple K (caught K sid x) (AdvanceState_catch K self sid x) (\<lambda>_. orderly K) E"
proof (cases "\<exists>st. x = Finish_error_yield_none st")
  case True
  then show ?thesis
    by (auto simp: AdvanceState_catch_def caught_def intro!: sys.weaken_pre [OF orderly_finish_with_error])
next
  case False
  let ?find = "bindP (find_session sid) (\<lambda>it. case it of None \<Rightarrow> ret () | Some r \<Rightarrow> taint_and_resume K self r (unexpected x))"
  have find: "sys.triple K (caught K sid x) ?find (\<lambda>_. orderly K) E"
    unfolding find_session_def
  proof (rule sys.bind [OF sys.read_state [where Q = "\<lambda>it g h0 h. \<exists>r. it = Some r \<and> recoverable K r g h0 h"]])
    fix g h0 h it assume "caught K sid x g h0 h" and it: "Inr (case um_find (sessions h) sid of None \<Rightarrow> None
        | Some s \<Rightarrow> Some \<lparr>ref_id = sid, ref_object = session_object s\<rparr>) = (Inr it :: session_ref option hres)"
    then obtain r s where r: "ref_id r = sid" "deref r h = Inr s" "recoverable K r g h0 h"
      using False by (auto simp: caught_def)
    then have "it = Some \<lparr>ref_id = ref_id r, ref_object = ref_object r\<rparr>" using it by (simp add: deref_Inr_iff)
    then show "\<exists>r. it = Some r \<and> recoverable K r g h0 h" using r by (cases r) auto
  next
    fix it
    show "sys.triple K (\<lambda>g h0 h. \<exists>r. it = Some r \<and> recoverable K r g h0 h)
        (case it of None \<Rightarrow> ret () | Some r \<Rightarrow> taint_and_resume K self r (unexpected x)) (\<lambda>_. orderly K) E"
      by (cases it) (auto simp: sys.return intro!: sys.weaken_pre [OF taint_and_resume_triple])
  qed simp
  show ?thesis
  proof (cases x)
    case (Taint_session t st)
    have "sys.triple K (caught K sid x) (taint_and_resume K self t st) (\<lambda>_. orderly K) E"
      by (rule sys.weaken_pre [OF taint_and_resume_triple]) (auto simp: caught_def Taint_session)
    then show ?thesis by (simp add: AdvanceState_catch_def Taint_session)
  qed (use False find in \<open>auto simp: AdvanceState_catch_def cong: option.case_cong\<close>)
qed

lemma advance_state_handler:
  "sys.triple K (fresh K) (AdvanceState_handler fuel K self ok peer request) (\<lambda>_. orderly K) E"
  unfolding AdvanceState_handler_def
proof (rule sys.cases_if, rule fresh_ignored, rule sys.catches [OF _ advance_catch])
  let ?sid = "asr_session_id request"
  show "sys.triple K (fresh K) (enter_session ''AdvanceState'' peer ?sid ''session id not found!'' check_epoch_overflow
      (AdvanceState_body fuel K self request)) (\<lambda>_. orderly K) (caught K ?sid)"
  proof (rule enter_session_triple [OF only_checks_overflow])
    show "sys.triple K (guest_with K (\<lambda>s. active_epoch_index s \<noteq> - 1) r) (AdvanceState_body fuel K self request r)
        (\<lambda>_. guest K r) (failure K r)" for r
      by (rule sys.weaken_pre [OF advance_body_triple]) (simp add: guest_with_def)
    show "caught K ?sid x g h0 h'" if "ref_id r = ?sid" "failure K r x g h0 h" "lock_destructor Session_lock r h = Inr h'"
      for r x g h0 h h'
      using that by (rule failure_caught)
    show "caught K ?sid (Finish_error_yield_none st) g h0 h" if "orderly K g h0 h" for st g h0 h
      using that by (simp add: caught_def)
  qed simp_all
qed

section \<open>Properties\<close>

text \<open>
  Claim C3. Processing the pending inputs of an epoch, from any state that satisfies the server
  invariant, while other coroutines change the state within the relation \<open>rely\<close>: they may queue
  inputs, set and answer queries, finish the epoch or delete it when nothing is waiting, taint or end
  the session, replace or drop its stub. The handlers stay within that relation, \<open>FinishEpoch\<close> with a storage directory apart. At
  every yield point the invariant holds and no session of another coroutine is touched. When the
  function returns, the processing lock is free, no input is waiting in the epoch, and the epoch
  has kept its earlier results and gained new ones, at least one for every input that was waiting:
  numbered consecutively since genesis and within the epoch, counted in the session, accepted inputs with verified proofs of all outputs, skipped
  inputs without a change of the machine hash or, if all were skipped, of the cycle; unless the
  session is tainted the trees match the results. When it throws, it taints no other session, the
  lock is free and the results are in order too. Runs that end in undefined behaviour are not
  excluded: the epoch may be deleted, the session erased and its stub dropped between two inputs.
\<close>

theorem process_pending_inputs_correct:
  assumes "server_inv K h" "deref r h = Inr s" "\<not> processing_lock s" "sm_find (epochs s) i = Some e" "pending_inputs e \<noteq> []"
    and "actx_session actx = r"
  shows "wpo (guarantee K) (rely K)
     (\<lambda>g h0 res h'. case res of
        Inr _ \<Rightarrow> server_inv K h' \<and> inputs_done K r i (base_of s e) h'
      | Inl x \<Rightarrow> is_exception x \<longrightarrow> fails r x \<and> inputs_stopped K r i (base_of s e) h')
     (process_pending_inputs fuel K actx i h) {} h"
proof -
  have "epochs s \<noteq> []" using assms(4) by (rule sm_find_nonempty)
  then have "visiting K r {} h h"
    using assms(1,2) server_inv_deref [OF assms(1,2)] by (auto simp: visiting_def guest_def orderly_def established_def)
  from process_pending_inputs_locked [OF assms(6) this assms(2-5)] show ?thesis
    by (rule wpo_mono) (auto simp: sys.outcome_def guest_def orderly_def failure_def split: sum.splits)
qed

lemma busy_server_inv: "server_inv sample_digest busy_context"
proof -
  have e: "sm_find (epochs busy_session) j = (if j = 4 then Some busy_epoch else None)" for j
    by (simp add: busy_session_def sm_find_def)
  have b: "epoch_index busy_epoch = 4" "state busy_epoch = epoch_active" "processed_inputs busy_epoch = [sample_input]"
      "active_epoch_index busy_session = 4" "\<not> processing_lock busy_session" "epochs busy_session \<noteq> []"
      "processed_input_count busy_session = 1"
    by (simp_all add: busy_epoch_def busy_session_def sample_session_def sample_epoch_ok)
  have "numbered busy_session busy_epoch"
    unfolding numbered_def b by (simp add: b(7) sample_input_def) (simp add: busy_epoch_def)
  moreover have "session_ok busy_session"
    using e b busy_session(4) by (simp add: session_ok_def)
  ultimately have "session_inv sample_digest busy_session"
    using e b busy_epoch by (simp add: session_inv_def epoch_inv_def)
  then show ?thesis
    by (auto simp: server_inv_def busy_context_def um_find_def um_valid_def sample_context_def)
      (simp_all add: busy_session_def sample_session_def)
qed

theorem process_pending_inputs_correct_witness:
  "length (pending_inputs busy_epoch) = 1 \<and>
   wpo (guarantee sample_digest) (rely sample_digest)
     (\<lambda>g h0 res h'. case res of
        Inr _ \<Rightarrow> server_inv sample_digest h' \<and> inputs_done sample_digest sample_ref 4 (base_of busy_session busy_epoch) h'
      | Inl x \<Rightarrow> is_exception x \<longrightarrow> fails sample_ref x \<and> inputs_stopped sample_digest sample_ref 4 (base_of busy_session busy_epoch) h')
     (process_pending_inputs 5 sample_digest \<lparr>actx_session = sample_ref, actx_self = 0\<rparr> 4 busy_context) {} busy_context"
proof -
  have waiting: "length (pending_inputs busy_epoch) = 1" by (simp add: busy_epoch_def)
  then have "pending_inputs busy_epoch \<noteq> []" by auto
  from process_pending_inputs_correct [OF busy_server_inv busy_session(1,2,5) this] waiting show ?thesis by simp
qed

end
