(* ===== verification/System_Safety.thy ===== *)
theory System_Safety
  imports Start_Steps Advance_Steps
begin

text \<open>
  The rely-guarantee conditions of the handlers compose: as long as no request asks
  \<open>FinishEpoch\<close> to store the machine, the coroutines the dispatch loop interleaves keep the invariant
  of the shared state, and none interferes with a session another one owns. \<open>Store_Window\<close> shows
  how a storing \<open>FinishEpoch\<close> breaks it.
\<close>

section \<open>Handlers\<close>

text \<open>
  With a storage directory \<open>FinishEpoch\<close> yields between its checks and the change, and relies on
  its lock alone. An earlier \<open>AdvanceState\<close> whose destructor runs meanwhile clears that lock
  (see \<open>Store_Window\<close>), so that requests of that kind are left out.
\<close>

definition stores_nothing :: "rpc_request \<Rightarrow> bool" where
  "stores_nothing req \<longleftrightarrow> (\<forall>fer. req = FinishEpoch fer \<longrightarrow> fer_storage_directory fer = [])"

lemma handlers_sound:
  assumes "stores_nothing req"
  shows "sys.triple K (fresh K) (handler_of fuel K self ok peer req) (\<lambda>_. orderly K) E"
  using assms
  by (cases req)
    (simp_all add: stores_nothing_def sessionless_handlers status_handlers start_session_handler advance_state_handler
      inspect_state_handler finish_epoch_handler delete_epoch_handler end_session_handler checkin_handler)

text \<open>A coroutine in the middle of a segment that started in \<open>h0\<close> with ownership \<open>g\<close>.\<close>

abbreviation safe :: "digest \<Rightarrow> running \<Rightarrow> session_ref set \<Rightarrow> handler_context \<Rightarrow> bool" where
  "safe K p g h0 \<equiv> wpo (guarantee K) (rely K) (sys.outcome (\<lambda>_. orderly K) (\<lambda>_ _ _ _. False)) p g h0"

lemma handler_safe:
  assumes "stores_nothing req" "server_inv K h"
  shows "safe K (handler_of fuel K self ok peer req h) {} h"
  using handlers_sound [OF assms(1)] assms(2) by (simp add: sys.triple_def fresh_def)

section \<open>Coroutines that wait\<close>

type_synonym entry = "yield_point \<times> (wake \<Rightarrow> handler_context \<Rightarrow> running)"

definition resumable :: "digest \<Rightarrow> handler_context \<Rightarrow> entry \<Rightarrow> session_ref set \<Rightarrow> bool" where
  "resumable K h en g \<longleftrightarrow> certified K (fst en) \<and> (\<forall>r \<in> g. owned r h) \<and>
     (\<forall>v h'. rely K g h h' \<longrightarrow> safe K (snd en v h') g h')"

lemma resumable_kept: "resumable K h en g \<Longrightarrow> rely K g h h' \<Longrightarrow> resumable K h' en g"
  unfolding resumable_def using owned_kept rely_trans by blast

text \<open>
  The coroutine that runs owns \<open>g\<close>, the ones in \<open>T\<close> wait with what they own. The index
  \<open>None\<close> is for a coroutine that waits for another one it has resumed.
\<close>

definition team :: "digest \<Rightarrow> session_ref set \<Rightarrow> handler_context \<Rightarrow>
    (coroutine option \<Rightarrow> (entry \<times> session_ref set) option) \<Rightarrow> bool" where
  "team K g h T \<longleftrightarrow> server_inv K h \<and> (\<forall>r \<in> g. owned r h) \<and>
     (\<forall>i en f. T i = Some (en, f) \<longrightarrow> resumable K h en f \<and> f \<inter> g = {}) \<and>
     (\<forall>i j en f en' f'. i \<noteq> j \<longrightarrow> T i = Some (en, f) \<longrightarrow> T j = Some (en', f') \<longrightarrow> f \<inter> f' = {})"

lemma teamD:
  assumes "team K g h T"
  shows "server_inv K h" "\<And>r. r \<in> g \<Longrightarrow> owned r h"
    "\<And>i en f. T i = Some (en, f) \<Longrightarrow> resumable K h en f \<and> f \<inter> g = {}"
    "\<And>i j en f en' f'. i \<noteq> j \<Longrightarrow> T i = Some (en, f) \<Longrightarrow> T j = Some (en', f') \<Longrightarrow> f \<inter> f' = {}"
  by (rule assms [unfolded team_def, THEN conjunct1], rule assms [unfolded team_def, THEN conjunct2, THEN conjunct1, rule_format],
      assumption, rule assms [unfolded team_def, THEN conjunct2, THEN conjunct2, THEN conjunct1, rule_format], assumption,
      rule assms [unfolded team_def, THEN conjunct2, THEN conjunct2, THEN conjunct2, rule_format])

lemma teamI:
  assumes "server_inv K h" "\<And>r. r \<in> g \<Longrightarrow> owned r h"
    "\<And>i en f. T i = Some (en, f) \<Longrightarrow> resumable K h en f \<and> f \<inter> g = {}"
    "\<And>i j en f en' f'. i \<noteq> j \<Longrightarrow> T i = Some (en, f) \<Longrightarrow> T j = Some (en', f') \<Longrightarrow> f \<inter> f' = {}"
  shows "team K g h T"
  unfolding team_def
  by (intro conjI ballI allI impI)
    (rule assms(1) | erule assms(2) | erule assms(3) [THEN conjunct1] | erule assms(3) [THEN conjunct2] | rule assms(4), assumption+)+

text \<open>Adding a coroutine that owns nothing anyone else owns.\<close>

lemma team_hire:
  assumes T: "team K g h T" and "resumable K h en f" "f \<inter> g = {}" "\<And>j en' f'. j \<noteq> i \<Longrightarrow> T j = Some (en', f') \<Longrightarrow> f' \<inter> f = {}"
  shows "team K g h (T(i := Some (en, f)))"
proof (rule teamI)
  fix j en' f' assume "(T(i := Some (en, f))) j = Some (en', f')"
  then show "resumable K h en' f' \<and> f' \<inter> g = {}" using assms(2,3) teamD(3) [OF T, of j] by (cases "j = i") auto
next
  fix j j' en1 f1 en2 f2
  assume "j \<noteq> j'" "(T(i := Some (en, f))) j = Some (en1, f1)" "(T(i := Some (en, f))) j' = Some (en2, f2)"
  then show "f1 \<inter> f2 = {}"
    using assms(4) [of j'] assms(4) [of j] teamD(4) [OF T, of j j']
    by (cases "j = i"; cases "j' = i") (auto simp: Int_commute)
qed (use teamD(1,2) [OF T] in auto)

lemma team_advance:
  assumes T: "team K g h0 T" and y: "guarantee K g h0 y g' h"
  shows "team K g' h T"
proof (rule teamI)
  show "server_inv K h" "\<And>r. r \<in> g' \<Longrightarrow> owned r h" using y by (simp_all add: guarantee_def)
  fix i en f assume "T i = Some (en, f)"
  then have f: "resumable K h0 en f" "f \<inter> g = {}" using teamD(3) [OF T] by blast+
  then have "\<forall>r \<in> f. owned r h0" by (simp add: resumable_def)
  then show "resumable K h en f \<and> f \<inter> g' = {}"
    using resumable_kept [OF f(1) guarantee_rely [OF y f(2)]] guarantee_exclusive [OF y f(2)] by blast
qed (use teamD(4) [OF T] in blast)

lemma team_park:
  assumes T: "team K g h T" and "resumable K h en g"
  shows "team K {} h (T(i := Some (en, g)))"
proof (rule team_hire)
  show "team K {} h T" by (rule teamI) (use teamD [OF T] in auto)
  show "f' \<inter> g = {}" if "T j = Some (en', f')" for j en' f' using teamD(3) [OF T that] by blast
qed (use assms(2) in auto)

lemma team_drop:
  assumes T: "team K g h T"
  shows "team K g h (T(i := None))"
proof (rule teamI)
  fix j en f assume "(T(i := None)) j = Some (en, f)"
  then show "resumable K h en f \<and> f \<inter> g = {}" using teamD(3) [OF T, of j] by (cases "j = i") auto
next
  fix j j' en1 f1 en2 f2
  assume "j \<noteq> j'" "(T(i := None)) j = Some (en1, f1)" "(T(i := None)) j' = Some (en2, f2)"
  then show "f1 \<inter> f2 = {}" using teamD(4) [OF T, of j j'] by (cases "j = i"; cases "j' = i") auto
qed (use teamD(1,2) [OF T] in auto)

lemma team_resume:
  assumes T: "team K {} h T" and i: "T i = Some (en, g)"
  shows "team K g h (T(i := None))" "safe K (snd en v h) g h"
proof -
  have "server_inv K h" "resumable K h en g" using teamD(1,3) [OF T] i by auto
  then show "safe K (snd en v h) g h" using rely_refl by (auto simp: resumable_def)
  show "team K g h (T(i := None))"
  proof (rule teamI)
    show "server_inv K h" "\<And>r. r \<in> g \<Longrightarrow> owned r h" using teamD(1,3) [OF T] i by (auto simp: resumable_def)
    fix j en' f assume j: "(T(i := None)) j = Some (en', f)"
    then have "j \<noteq> i" "T j = Some (en', f)" by (auto split: if_splits)
    then show "resumable K h en' f \<and> f \<inter> g = {}"
      using teamD(3) [OF T, of j en' f] teamD(4) [OF T, of j i en' f en g] i by simp
  next
    fix j j' en1 f1 en2 f2
    assume "j \<noteq> j'" "(T(i := None)) j = Some (en1, f1)" "(T(i := None)) j' = Some (en2, f2)"
    then show "f1 \<inter> f2 = {}" using teamD(4) [OF T, of j j'] by (cases "j = i"; cases "j' = i") auto
  qed
qed

text \<open>The coroutines of the server, but those in \<open>X\<close>, are in the team.\<close>

definition staff :: "coroutine set \<Rightarrow> server \<Rightarrow> (coroutine option \<Rightarrow> (entry \<times> session_ref set) option) \<Rightarrow> bool" where
  "staff X srv T \<longleftrightarrow>
     (\<forall>c en. c \<notin> X \<longrightarrow> um_find (srv_coroutines srv) c = Some (Some en) \<longrightarrow> (\<exists>f. T (Some c) = Some (en, f))) \<and>
     (\<forall>c \<ge> srv_next srv. um_find (srv_coroutines srv) c = None)"

lemma guarantee_history: "guarantee K g h0 y g' h \<Longrightarrow> evolves K (\<lambda>_. False) h0 h"
  unfolding guarantee_def by (blast intro: evolves_weaken)

lemma suspended:
  assumes "safe K (Suspend h y k) g h0" "team K g h0 T"
  shows "\<exists>g'. team K g' h T \<and> resumable K h (y, k) g' \<and> evolves K (\<lambda>_. False) h0 h \<and> safe K (k v h) g' h"
proof -
  obtain g' where g': "guarantee K g h0 y g' h" "\<forall>v h'. rely K g' h h' \<longrightarrow> safe K (k v h') g' h'"
    using assms(1) by auto
  then have "server_inv K h" "resumable K h (y, k) g'" by (simp_all add: guarantee_def resumable_def)
  then show ?thesis using g' team_advance [OF assms(2) g'(1)] guarantee_history rely_refl by blast
qed

lemma finished:
  assumes "safe K (Done h (Inr u)) g h0" "team K g h0 T"
  shows "team K {} h T" "evolves K (\<lambda>_. False) h0 h"
proof -
  have "guarantee K g h0 Wait_resume {} h"
    using assms(1) by (intro orderly_yields(1)) (simp_all add: plain_certified)
  then show "team K {} h T" "evolves K (\<lambda>_. False) h0 h"
    using team_advance [OF assms(2)] guarantee_history by blast+
qed

section \<open>Calls that return at once\<close>

lemma start_deadline_sound:
  assumes "team K g h T" "staff X srv T" "srv_context srv = h"
  shows "\<exists>T'. team K g h T' \<and> staff X (start_deadline sid d srv) T' \<and> T' None = T None \<and>
     srv_next srv \<le> srv_next (start_deadline sid d srv)"
proof (cases "um_find (sessions_waiting_checkin h) sid")
  case None
  then have "CheckinDeadline_handler sid d h = Done h (Inl Exit_process)"
    by (simp add: CheckinDeadline_handler_def exec)
  then show ?thesis
    using assms by (intro exI [of _ T]) (auto simp: start_deadline_def park_def staff_def)
next
  case (Some w)
  then obtain k where k: "CheckinDeadline_handler sid d h = Suspend h (Wait_alarm d) k"
    by (simp add: CheckinDeadline_handler_def exec suspend_def)
  have inv: "server_inv K h" using assms(1) by (rule teamD)
  then have "safe K (CheckinDeadline_handler sid d h) {} h"
    using checkin_deadline_handler [of K sid d] by (simp add: sys.triple_def orderly_def)
  then obtain f where f: "guarantee K {} h (Wait_alarm d) f h" "\<forall>v h'. rely K f h h' \<longrightarrow> safe K (k v h') f h'"
    unfolding k by auto
  then have res: "resumable K h (Wait_alarm d, k) f" by (simp add: guarantee_def resumable_def)
  have disjoint: "f' \<inter> f = {}" if "\<forall>r \<in> f'. owned r h" for f'
    using guarantee_exclusive [OF f(1)] that by blast
  let ?T = "T(Some (srv_next srv) := Some ((Wait_alarm d, k), f))"
  have "team K g h ?T"
  proof (rule team_hire [OF assms(1) res])
    show "f \<inter> g = {}" using disjoint [of g] teamD(2) [OF assms(1)] by blast
    show "f' \<inter> f = {}" if "T j = Some (en', f')" for j en' f'
      using disjoint [of f'] teamD(3) [OF assms(1) that] by (auto simp: resumable_def)
  qed
  moreover have "staff X (start_deadline sid d srv) ?T"
    using assms(2,3) k by (auto simp: start_deadline_def park_def staff_def)
  ultimately show ?thesis by (intro exI [of _ ?T]) (simp add: start_deadline_def)
qed

definition progress ::
  "digest \<Rightarrow> coroutine set \<Rightarrow> handler_context \<Rightarrow> server \<Rightarrow> (entry \<times> session_ref set) option \<Rightarrow> running \<Rightarrow> server \<Rightarrow> bool" where
  "progress K X h0 srv outer p srv' \<longleftrightarrow> (\<exists>g h T. safe K p g h \<and> team K g h T \<and> staff X srv' T \<and> T None = outer \<and>
     evolves K (\<lambda>_. False) h0 h \<and> srv_next srv \<le> srv_next srv')"

lemma progress_now: "safe K p g h \<Longrightarrow> team K g h T \<Longrightarrow> staff X srv T \<Longrightarrow> progress K X h srv (T None) p srv"
  unfolding progress_def by (intro exI [of _ g] exI [of _ h] exI [of _ T]) simp

lemma progress_trans:
  assumes "progress K X h srv1 outer p srv'" "evolves K (\<lambda>_. False) h0 h" "srv_next srv \<le> srv_next srv1"
  shows "progress K X h0 srv outer p srv'"
proof -
  obtain g h1 T where "safe K p g h1" "team K g h1 T" "staff X srv' T" "T None = outer" "evolves K (\<lambda>_. False) h h1"
      "srv_next srv1 \<le> srv_next srv'"
    using assms(1) unfolding progress_def by blast
  then show ?thesis using assms(2,3) evolves_trans [of K _ h0 h h1] unfolding progress_def by (blast intro: order_trans)
qed

text \<open>The bookkeeping of a call that returns at once.\<close>

definition charged :: "yield_point \<Rightarrow> handler_context \<Rightarrow> server \<Rightarrow> server" where
  "charged y h srv = (case y of Start_deadline sid deadline \<Rightarrow> start_deadline sid deadline (srv\<lparr>srv_context := h\<rparr>) | _ \<Rightarrow> srv)"

lemma charged_sound:
  assumes "team K g h T" "staff X srv T"
  shows "\<exists>T'. team K g h T' \<and> staff X (charged y h srv) T' \<and> T' None = T None \<and> srv_next srv \<le> srv_next (charged y h srv)"
proof (cases "\<exists>sid d. y = Start_deadline sid d")
  case True
  have "staff X (srv\<lparr>srv_context := h\<rparr>) T" using assms(2) by (simp add: staff_def)
  then show ?thesis using True start_deadline_sound [OF assms(1)] by (fastforce simp: charged_def)
next
  case False
  then have "charged y h srv = srv" by (simp add: charged_def split: yield_point.split)
  then show ?thesis using assms by auto
qed

lemma run_calls_at_once_sound:
  assumes "safe K p g h0" "team K g h0 T" "staff X srv T" "run_calls_at_once answers p srv = (p', srv')"
  shows "progress K X h0 srv (T None) p' srv'"
  using assms
proof (induction p arbitrary: g h0 T srv rule: proc_induct)
  case (Done h r)
  then show ?case using progress_now by auto
next
  case (Suspend h y k)
  show ?case
  proof (cases "atomic_point y")
    case False
    then have "p' = Suspend h y k" "srv' = srv" using Suspend.prems(4) by simp_all
    then show ?thesis using progress_now [OF Suspend.prems(1-3)] by blast
  next
    case True
    obtain g' where g': "team K g' h T" "evolves K (\<lambda>_. False) h0 h" "safe K (k (answers y) h) g' h"
      using suspended [OF Suspend.prems(1,2)] by blast
    obtain T' where T': "team K g' h T'" "staff X (charged y h srv) T'" "T' None = T None"
        "srv_next srv \<le> srv_next (charged y h srv)"
      using charged_sound [OF g'(1) Suspend.prems(3)] by blast
    have "run_calls_at_once answers (k (answers y) h) (charged y h srv) = (p', srv')"
      using Suspend.prems(4) True by (simp add: charged_def)
    then have "progress K X h (charged y h srv) (T' None) p' srv'"
      using Suspend.IH [OF g'(3) T'(1,2)] by blast
    then show ?thesis using progress_trans g'(2) T'(3,4) by metis
  qed
qed

section \<open>Segments\<close>

lemma run_segment_other:
  "(\<forall>c. y \<noteq> Resume_coroutine c) \<Longrightarrow> run_segment answers (Suspend h y k) srv =
     (if \<not> atomic_point y then (Suspend h y k, srv) else run_segment answers (k (answers y) h) (charged y h srv))"
  by (cases y) (simp_all add: charged_def)

text \<open>
  Parking the coroutine that ran the segment; \<open>outer\<close> is the one that had resumed it, if any.
\<close>

lemma park_sound:
  assumes p: "progress K {c} h0 srv outer p srv'" and c: "c < srv_next srv" and ok: "\<And>h x. p \<noteq> Done h (Inl x)"
  shows "\<exists>T. team K {} (srv_context (park c p srv')) T \<and> staff {} (park c p srv') T \<and> T None = outer \<and>
    evolves K (\<lambda>_. False) h0 (srv_context (park c p srv')) \<and> srv_next srv \<le> srv_next (park c p srv')"
proof -
  obtain g h T where t: "safe K p g h" "team K g h T" "staff {c} srv' T" "T None = outer" "evolves K (\<lambda>_. False) h0 h"
      "srv_next srv \<le> srv_next srv'"
    using p unfolding progress_def by blast
  show ?thesis
  proof (cases p)
    case (Suspend h' y k)
    obtain g' where g': "team K g' h' T" "resumable K h' (y, k) g'" "evolves K (\<lambda>_. False) h h'"
      using suspended [OF t(1) [unfolded Suspend] t(2)] by blast
    let ?T = "T(Some c := Some ((y, k), g'))"
    have "team K {} h' ?T" using team_park [OF g'(1,2)] .
    moreover have "staff {} (park c p srv') ?T" using t(3,6) c by (auto simp: Suspend park_def staff_def)
    ultimately show ?thesis
      using t(4-6) evolves_trans [OF t(5) g'(3)] by (intro exI [of _ ?T]) (simp add: Suspend park_def)
  next
    case (Done h' r)
    then obtain u where u: "p = Done h' (Inr u)" using ok by (cases r) auto
    note f = finished [OF t(1) [unfolded u] t(2)]
    have "staff {} (park c p srv') T" using t(3,6) c by (auto simp: Done park_def staff_def)
    then show ?thesis
      using t(4-6) f evolves_trans [OF t(5) f(2)] by (intro exI [of _ T]) (simp add: Done park_def)
  qed
qed

lemma run_segment_sound:
  assumes "safe K p g h0" "team K g h0 T" "staff {} srv T" "run_segment answers p srv = (p', srv')"
  shows "(\<exists>h x. p' = Done h (Inl x) \<and> \<not> is_exception x) \<or> (\<exists>outer. progress K {} h0 srv outer p' srv')"
  using assms
proof (induction p arbitrary: g h0 T srv rule: proc_induct)
  case (Done h r)
  then have "p' = Done h r" "srv' = srv" by simp_all
  then show ?case using progress_now [OF Done.prems(1-3)] by blast
next
  case (Suspend h y k)
  obtain g' where g': "team K g' h T" "resumable K h (y, k) g'" "evolves K (\<lambda>_. False) h0 h" "safe K (k (answers y) h) g' h"
    using suspended [OF Suspend.prems(1,2)] by blast
  show ?case
  proof (cases "\<exists>c. y = Resume_coroutine c")
    case other: False
    then have step: "run_segment answers (Suspend h y k) srv =
        (if \<not> atomic_point y then (Suspend h y k, srv) else run_segment answers (k (answers y) h) (charged y h srv))"
      by (intro run_segment_other) simp
    show ?thesis
    proof (cases "atomic_point y")
      case False
      then have "p' = Suspend h y k" "srv' = srv" using Suspend.prems(4) step by simp_all
      then show ?thesis using progress_now [OF Suspend.prems(1-3)] by blast
    next
      case True
      obtain T' where T': "team K g' h T'" "staff {} (charged y h srv) T'" "srv_next srv \<le> srv_next (charged y h srv)"
        using charged_sound [OF g'(1) Suspend.prems(3)] by blast
      have "run_segment answers (k (answers y) h) (charged y h srv) = (p', srv')"
        using Suspend.prems(4) step True by simp
      from Suspend.IH [OF g'(4) T'(1,2) this] show ?thesis
        using progress_trans [OF _ g'(3) T'(3)] by blast
    qed
  next
    case True
    then obtain c where c: "y = Resume_coroutine c" by blast
    show ?thesis
    proof (cases "\<exists>en. um_find (srv_coroutines srv) c = Some (Some en)")
      case False
      then have "p' = Done h (Inl dangling)" using Suspend.prems(4) c by (auto split: option.splits)
      then show ?thesis by (simp add: dangling_def)
    next
      case True
      then obtain en where en: "um_find (srv_coroutines srv) c = Some (Some en)" by blast
      then obtain f where f: "T (Some c) = Some (en, f)" using Suspend.prems(3) unfolding staff_def by blast
      obtain p1 srv1 where run: "run_calls_at_once answers (snd en (answers y) h) srv = (p1, srv1)"
        by (cases "run_calls_at_once answers (snd en (answers y) h) srv")
      let ?T1 = "T(None := Some ((y, k), g'))"
      have T1: "team K {} h ?T1" "?T1 (Some c) = Some (en, f)" using team_park [OF g'(1,2)] f by simp_all
      note nested = team_resume(1) [OF T1] team_resume(2) [OF T1, of "answers y"]
      have st: "staff {c} srv (?T1(Some c := None))" using Suspend.prems(3) by (auto simp: staff_def)
      have "progress K {c} h srv ((?T1(Some c := None)) None) p1 srv1"
        using run_calls_at_once_sound [OF nested(2,1) st run] .
      then have prog: "progress K {c} h srv (Some ((y, k), g')) p1 srv1" by simp
      show ?thesis
      proof (cases "\<exists>h' x. p1 = Done h' (Inl x)")
        case True
        then obtain h' x where x: "p1 = Done h' (Inl x)" by blast
        then have "p' = Done h' (Inl x)" using Suspend.prems(4) c en run by (auto simp: split_def)
        moreover have "\<not> is_exception x" using prog x by (auto simp: progress_def)
        ultimately show ?thesis by simp
      next
        case False
        then have p1: "p1 \<noteq> Done h' (Inl x)" for h' x by blast
        have next_call: "run_segment answers (k (answers y) (srv_context (park c p1 srv1))) (park c p1 srv1) = (p', srv')"
          using Suspend.prems(4) c en run p1
          by (cases en; cases p1) (auto simp: Let_def split: sum.splits)
        have less: "c < srv_next srv"
          using en Suspend.prems(3) by (cases "c < srv_next srv") (auto simp: staff_def)
        obtain T2 where T2: "team K {} (srv_context (park c p1 srv1)) T2" "staff {} (park c p1 srv1) T2"
            "T2 None = Some ((y, k), g')" "evolves K (\<lambda>_. False) h (srv_context (park c p1 srv1))"
            "srv_next srv \<le> srv_next (park c p1 srv1)"
          using park_sound [OF prog less p1] by blast
        note outer = team_resume(1) [OF T2(1,3)] team_resume(2) [OF T2(1,3), of "answers y"]
        have "staff {} (park c p1 srv1) (T2(None := None))" using T2(2) by (simp add: staff_def)
        from Suspend.IH [OF outer(2) [unfolded snd_conv] outer(1) this next_call] show ?thesis
          using progress_trans [OF _ evolves_trans [OF g'(3) T2(4)] T2(5)] by blast
      qed
    qed
  qed
qed

section \<open>The dispatch loop\<close>

definition system_inv :: "digest \<Rightarrow> server \<Rightarrow> bool" where
  "system_inv K srv \<longleftrightarrow> (\<exists>T. team K {} (srv_context srv) T \<and> staff {} srv T)"

lemma system_inv_start:
  assumes "start_server env argv = Inr srv"
  shows "system_inv K srv"
proof -
  have "sessions (srv_context srv) = []" "srv_coroutines srv = []"
    using start_server_initial [OF assms] by simp_all
  then have "team K {} (srv_context srv) (\<lambda>_. None)" "staff {} srv (\<lambda>_. None)"
    by (auto simp: team_def staff_def server_inv_def um_find_def um_valid_def)
  then show ?thesis unfolding system_inv_def by blast
qed

lemma settle_sound:
  assumes "progress K {} h0 srv outer p srv'" "c < srv_next srv" "settle c (p, srv') = Running srv2"
  shows "system_inv K srv2 \<and> evolves K (\<lambda>_. False) h0 (srv_context srv2)"
proof -
  have ok: "p \<noteq> Done h (Inl x)" for h x
    using assms(3) by (auto simp: settle_def split: if_splits)
  have "progress K {c} h0 srv outer p srv'" using assms(1) unfolding progress_def staff_def by blast
  from park_sound [OF this assms(2) ok] obtain T where T: "team K {} (srv_context (park c p srv')) T" "staff {} (park c p srv') T"
      "evolves K (\<lambda>_. False) h0 (srv_context (park c p srv'))"
    by blast
  show ?thesis
  proof (cases p)
    case (Suspend h y k)
    then have "srv2 = park c p srv'" using assms(3) by (simp add: settle_def)
    then show ?thesis using T unfolding system_inv_def by blast
  next
    case (Done h r)
    then obtain u where u: "p = Done h (Inr u)" using ok by (cases r) auto
    then have srv2: "srv2 = srv'\<lparr>srv_context := h, srv_coroutines := um_erase c (srv_coroutines srv')\<rparr>"
      using assms(3) by (simp add: settle_def)
    have "staff {} srv2 T" using T(2) unfolding staff_def srv2 u park_def by (auto split: if_splits)
    moreover have "srv_context (park c p srv') = srv_context srv2" by (simp add: srv2 u park_def)
    ultimately show ?thesis using T unfolding system_inv_def by metis
  qed
qed

lemma team_poke:
  assumes T: "team K g h T" and h: "sessions h' = sessions h" "next_object h' = next_object h"
  shows "team K g h' T" "evolves K P h h'"
proof -
  have "deref r h' = deref r h" for r using h(1) by (simp add: deref_def)
  then show ev: "evolves K P h h'" for P using h(2) by (simp add: evolves_def)
  have rely: "rely K f h h'" for f
    using ev teamD(1) [OF T] h by (simp add: rely_def server_inv_def)
  show "team K g h' T"
  proof (rule teamI)
    show "server_inv K h'" using rely [of "{}"] by (simp add: rely_def)
    show "owned r h'" if "r \<in> g" for r using owned_kept [OF rely that teamD(2) [OF T that]] .
    show "resumable K h' en f \<and> f \<inter> g = {}" if "T i = Some (en, f)" for i en f
      using resumable_kept [OF _ rely] teamD(3) [OF T that] by blast
  qed (use teamD(4) [OF T] in blast)
qed

text \<open>Every event but the arrival of a \<open>FinishEpoch\<close> that stores the machine.\<close>

definition without_store :: "queue_event \<Rightarrow> bool" where
  "without_store e \<longleftrightarrow> (\<forall>ok peer req. e = Arrived ok peer req \<longrightarrow> stores_nothing req)"

lemma dispatch_sound:
  assumes "system_inv K srv" "without_store e" "dispatch fuel K answers e srv = Running srv2"
  shows "system_inv K srv2 \<and> evolves K (\<lambda>_. False) (srv_context srv) (srv_context srv2)"
proof -
  obtain T where T: "team K {} (srv_context srv) T" "staff {} srv T"
    using assms(1) unfolding system_inv_def by blast
  have settled: "system_inv K srv2 \<and> evolves K (\<lambda>_. False) h0 (srv_context srv2)"
    if run: "safe K p g h0" "team K g h0 T'" "staff {} srv1 T'" "c < srv_next srv1"
      and fin: "settle c (run_segment answers p srv1) = Running srv2" for p g h0 T' srv1 c
  proof -
    obtain p' srv' where r: "run_segment answers p srv1 = (p', srv')" by (cases "run_segment answers p srv1")
    have "p' \<noteq> Done h (Inl x)" for h x using fin r by (auto simp: settle_def split: if_splits)
    with run_segment_sound [OF run(1-3) r] obtain outer where "progress K {} h0 srv1 outer p' srv'" by blast
    then show ?thesis using settle_sound run(4) fin r by simp
  qed
  show ?thesis
  proof (cases e)
    case (Arrived ok peer req)
    let ?c = "srv_next srv" and ?h = "srv_context srv"
    have "safe K (handler_of fuel K ?c ok peer req ?h) {} ?h"
      using assms(2) Arrived teamD(1) [OF T(1)] by (intro handler_safe) (auto simp: without_store_def)
    moreover have "staff {} (srv\<lparr>srv_next := ?c + 1\<rparr>) T" using T(2) by (auto simp: staff_def)
    ultimately show ?thesis
      using settled [OF _ T(1), of _ "srv\<lparr>srv_next := ?c + 1\<rparr>" ?c] assms(3) Arrived
      by (simp add: dispatch_def Let_def)
  next
    case (Returned c w)
    let ?h = "(srv_context srv)\<lparr>completion_queue := remove1 c (completion_queue (srv_context srv))\<rparr>"
    have poke: "team K {} ?h T" "evolves K (\<lambda>_. False) (srv_context srv) ?h" using team_poke [OF T(1)] by simp_all
    show ?thesis
    proof (cases "um_find (srv_coroutines srv) c")
      case None
      then show ?thesis using assms(3) Returned by (simp add: dispatch_def Let_def)
    next
      case entry: (Some x)
      show ?thesis
      proof (cases x)
        case None
        then have "srv2 = srv\<lparr>srv_context := ?h, srv_coroutines := um_erase c (srv_coroutines srv)\<rparr>"
          using assms(3) Returned entry by (simp add: dispatch_def Let_def)
        moreover have "staff {} (srv\<lparr>srv_context := ?h, srv_coroutines := um_erase c (srv_coroutines srv)\<rparr>) T"
          using T(2) unfolding staff_def by (auto split: if_splits)
        ultimately show ?thesis using poke unfolding system_inv_def by auto
      next
        case (Some en)
        then have en: "um_find (srv_coroutines srv) c = Some (Some en)" using entry by simp
        then obtain f where f: "T (Some c) = Some (en, f)" using T(2) unfolding staff_def by blast
        note resumed = team_resume(1) [OF poke(1) f] team_resume(2) [OF poke(1) f, of w]
        let ?srv = "srv\<lparr>srv_coroutines := um_assign c None (srv_coroutines srv)\<rparr>"
        have less: "c < srv_next srv" using en T(2) by (cases "c < srv_next srv") (auto simp: staff_def)
        have "staff {} ?srv (T(Some c := None))" using T(2) less unfolding staff_def by auto
        then have "system_inv K srv2 \<and> evolves K (\<lambda>_. False) ?h (srv_context srv2)"
          using settled [OF resumed(2,1), of ?srv c] less assms(3) Returned en
          by (cases en) (simp add: dispatch_def Let_def)
        then show ?thesis using evolves_trans [OF poke(2)] by blast
      qed
    qed
  next
    case Queue_shutdown
    then show ?thesis using assms(3) by (simp add: dispatch_def)
  qed
qed

lemma dispatch_loop_sound:
  assumes "system_inv K srv" "\<forall>e \<in> set es. without_store (fst e)" "dispatch_loop fuel K es srv = Running srv2"
  shows "system_inv K srv2 \<and> evolves K (\<lambda>_. False) (srv_context srv) (srv_context srv2)"
  using assms
proof (induction es arbitrary: srv)
  case Nil
  then show ?case by simp
next
  case (Cons e es)
  obtain srv1 where srv1: "dispatch fuel K (snd e) (fst e) srv = Running srv1" "dispatch_loop fuel K es srv1 = Running srv2"
    using Cons.prems(3) by (auto split: process.splits)
  have step: "system_inv K srv1" "evolves K (\<lambda>_. False) (srv_context srv) (srv_context srv1)"
    using dispatch_sound [OF Cons.prems(1) _ srv1(1)] Cons.prems(2) by auto
  then show ?case using Cons.IH [OF step(1) _ srv1(2)] Cons.prems(2) evolves_trans [OF step(2)] by auto
qed

section \<open>Reachable states\<close>

lemma reachable_inv: "reachable without_store fuel K srv \<Longrightarrow> system_inv K srv"
  by (induction rule: reachable.induct) (auto intro: system_inv_start dest: dispatch_sound)

lemma reachable_context: "reachable without_store fuel K srv \<Longrightarrow> server_inv K (srv_context srv)"
  using reachable_inv teamD(1) unfolding system_inv_def by blast

text \<open>A \<open>FinishEpoch\<close> request on an invariant state.\<close>

lemma finish_epoch_replies:
  assumes inv: "server_inv K h" and dir: "fer_storage_directory req = []"
  shows "\<exists>h' y k. FinishEpoch_handler K self True peer req h = Suspend h' y k \<and>
    ((\<exists>st. \<not> is_ok st \<and> y = Finish_with_error st) \<or>
     (\<exists>s e response. um_find (sessions h) (fer_session_id req) = Some s \<and> sm_find (epochs s) (fer_active_epoch_index req) = Some e \<and>
        epoch_ok K e \<and> outputs_ok K e \<and> set_proto_finish_epoch_response (fst (finish_epoch e)) = Inr response \<and>
        y = Finish (Finish_epoch response)))"
proof -
  let ?sid = "fer_session_id req" and ?m = "FinishEpoch_handler K self True peer req"
  have refused: ?thesis if codes: "refuses ?m h codes" "OK \<notin> codes" for codes
  proof -
    obtain st where "error_code st \<in> codes" "?m h = Suspend h (Finish_with_error st) (\<lambda>_ h'. Done h' (Inr ()))"
      using codes(1) by (auto simp: refuses_def)
    then show ?thesis using codes(2) by (auto simp: is_ok_def)
  qed
  have req: "rpc_session (FinishEpoch req) = Some ?sid" by simp
  show ?thesis
  proof (cases "um_find (sessions h) ?sid")
    case None
    then show ?thesis using requests_refused(1) [OF req None, of 0 K self peer] refused by simp
  next
    case (Some s)
    let ?r = "\<lparr>ref_id = ?sid, ref_object = session_object s\<rparr>"
    have d: "deref ?r h = Inr s" using Some by (simp add: deref_Inr_iff)
    show ?thesis
    proof (cases "session_lock s \<or> active_epoch_index s = - 1")
      case True
      then consider "session_lock s" | "active_epoch_index s = - 1" by blast
      then show ?thesis
      proof cases
        case 1
        then show ?thesis using requests_refused(2) [OF req Some, of 0 K self peer] refused by simp
      next
        case 2
        let ?st = "grpc_error OUT_OF_RANGE ''active epoch index will overflow''"
        have "?m h = Suspend h (Finish_with_error ?st) (\<lambda>_ h'. Done h' (Inr ()))"
          using enter_failed_check [OF Some, of check_epoch_overflow] check_epoch_overflow_cases [OF d] 2
          by (simp add: FinishEpoch_handler_def report_finish_error)
        then show ?thesis by (auto simp: is_ok_def)
      qed
    next
      case False
      let ?h = "entered ''FinishEpoch'' peer ?r s h"
      let ?s = "s\<lparr>session_lock := True, session_lock_reason := get_session_lock_reason ''FinishEpoch'' peer\<rparr>"
      have pre: "check_epoch_overflow ?r h = Done h (Inr ())" using check_epoch_overflow_passes [OF d] False by simp
      have de: "deref ?r ?h = Inr ?s" using deref_entered [OF Some refl] .
      have "guest K ?r {} h h" using unlocked_guest [of K "{}" h h ?r s] inv d False by (simp add: fresh_def)
      moreover have "legal K s ?s" by (rule legal_fields) simp_all
      then have "touches (legal K) ?r h ?h" unfolding entered_def by (intro touches_assign [where sim = "legal K", OF d]) simp_all
      ultimately have "guest K ?r {} h ?h" using guest_change by blast
      then have "guest_with K (\<lambda>s. active_epoch_index s \<noteq> - 1) ?r {} h ?h" using de False by (simp add: guest_with_def)
      note cases = finish_epoch_cases [OF this dir de, of self]
      have m: "?m = report_exceptions (enter_session ''FinishEpoch'' peer ?sid ''session id not found'' check_epoch_overflow
          (\<lambda>r. bindP (close_request K self req r) (\<lambda>response. finish (Finish_epoch response))))"
        by (simp add: FinishEpoch_handler_def close_request_def thenP_def bindP_assoc)
      from cases show ?thesis
      proof (elim disjE exE conjE)
        fix st assume st: "\<not> is_ok st" "close_request K self req ?r ?h = Done ?h (Inl (Finish_error_yield_none st))"
        then have "?m h = Suspend (assign_session ?r (s\<lparr>session_lock_reason := get_session_lock_reason ''FinishEpoch'' peer\<rparr>) h)
            (Finish_with_error st) (\<lambda>_ h'. Done h' (Inr ()))"
          unfolding m using False by (intro report_refusal [where pre = check_epoch_overflow, OF Some _ refl pre]) (simp_all add: bindP_def)
        then show ?thesis using st(1) by blast
      next
        fix h' e response
        assume e: "close_request K self req ?r ?h = Done h' (Inr response)"
          "sm_find (epochs ?s) (fer_active_epoch_index req) = Some e" "epoch_ok K e" "outputs_ok K e"
          "set_proto_finish_epoch_response (fst (finish_epoch e)) = Inr response"
        have "?m h = Suspend h' (Finish (Finish_epoch response)) (\<lambda>_ h'. left ?r h')"
          unfolding m using enter_session_runs [where pre = check_epoch_overflow, OF Some _ refl pre] False e(1)
          by (simp add: report_exceptions_def try_catch_def bindP_def scope_finish catch_left)
        then show ?thesis using e(2-5) Some by auto
      qed
    qed
  qed
qed

section \<open>Claims\<close>

text \<open>
  Claim C1. As long as no client asks \<open>FinishEpoch\<close> to store the machine, the state the handlers
  share is consistent: in every state the running server reaches with requests that name no storage
  directory, however the handlers interleave and whatever else clients, machine servers and the
  clock do, up to an event that ends the process. Every session without epochs is being started
  under its lock; every other session has its active epoch under the active index and the finished
  ones below it. Finished epochs have trees that match their results, verifiable outputs and no
  waiting input. In the active epoch results and waiting inputs carry consecutive numbers that meet
  at the input count of the session, and the trees match the results unless the session is tainted
  or one of its inputs is being processed. With a storage directory this fails (see \<open>Store_Window\<close>).
\<close>

theorem reachable_server_inv:
  assumes "reachable without_store fuel K srv"
  shows "server_inv K (srv_context srv)"
  using assms by (rule reachable_context)

text \<open>
  Claim C2. In every state the running server reaches with requests that name no storage directory,
  a \<open>FinishEpoch\<close> request without a storage directory is answered in one step, without a crash.
  The answer is an error, or a response whose entries are, in order, those of the vouchers and then the
  notices of every accepted input of the epoch: each names its input, kind and position, carries the
  root of the hashes of its input with the recorded siblings that lead to it, and siblings that lead
  from the leaf of its input to the root of the epoch that the response carries.
\<close>

theorem finish_epoch_from_reachable:
  assumes "reachable without_store fuel K srv" "fer_storage_directory req = []"
  shows "\<exists>srv' y k. dispatch fuel K answers (Arrived True peer (FinishEpoch req)) srv = Running srv' \<and>
    um_find (srv_coroutines srv') (srv_next srv) = Some (Some (y, k)) \<and>
    ((\<exists>st. \<not> is_ok st \<and> y = Finish_with_error st) \<or>
     (\<exists>s e response. um_find (sessions (srv_context srv)) (fer_session_id req) = Some s \<and>
        sm_find (epochs s) (fer_active_epoch_index req) = Some e \<and> y = Finish (Finish_epoch response) \<and>
        cmt_get_root_hash (vouchers_tree e) = Inr (fe_vouchers_epoch_root_hash response) \<and>
        cmt_get_root_hash (notices_tree e) = Inr (fe_notices_epoch_root_hash response) \<and>
        fe_machine_hash response = most_recent_machine_hash e \<and>
        length (fe_proofs response) = sum_list (map output_count (processed_inputs e)) \<and>
        list_all2 (message_ok K (fst (finish_epoch e))) (epoch_outputs e) (fe_proofs response)))"
proof -
  let ?c = "srv_next srv"
  obtain h' y k where m: "FinishEpoch_handler K ?c True peer req (srv_context srv) = Suspend h' y k"
    and y: "(\<exists>st. \<not> is_ok st \<and> y = Finish_with_error st) \<or>
     (\<exists>s e response. um_find (sessions (srv_context srv)) (fer_session_id req) = Some s \<and>
        sm_find (epochs s) (fer_active_epoch_index req) = Some e \<and> epoch_ok K e \<and> outputs_ok K e \<and>
        set_proto_finish_epoch_response (fst (finish_epoch e)) = Inr response \<and> y = Finish (Finish_epoch response))"
    using finish_epoch_replies [OF reachable_context [OF assms(1)] assms(2)] by blast
  have "\<not> atomic_point y \<and> (\<forall>c. y \<noteq> Resume_coroutine c)" using y by auto
  then have "run_segment answers (Suspend h' y k) srv1 = (Suspend h' y k, srv1)" for srv1
    by (simp add: run_segment_other del: run_segment.simps)
  then have "dispatch fuel K answers (Arrived True peer (FinishEpoch req)) srv =
      Running (park ?c (Suspend h' y k) (srv\<lparr>srv_next := ?c + 1\<rparr>))"
    using m by (simp add: dispatch_def settle_def Let_def del: run_segment.simps)
  moreover have "um_find (srv_coroutines (park ?c (Suspend h' y k) (srv\<lparr>srv_next := ?c + 1\<rparr>))) ?c = Some (Some (y, k))"
    by (simp add: park_def)
  moreover have "(\<exists>st. \<not> is_ok st \<and> y = Finish_with_error st) \<or>
     (\<exists>s e response. um_find (sessions (srv_context srv)) (fer_session_id req) = Some s \<and>
        sm_find (epochs s) (fer_active_epoch_index req) = Some e \<and> y = Finish (Finish_epoch response) \<and>
        cmt_get_root_hash (vouchers_tree e) = Inr (fe_vouchers_epoch_root_hash response) \<and>
        cmt_get_root_hash (notices_tree e) = Inr (fe_notices_epoch_root_hash response) \<and>
        fe_machine_hash response = most_recent_machine_hash e \<and>
        length (fe_proofs response) = sum_list (map output_count (processed_inputs e)) \<and>
        list_all2 (message_ok K (fst (finish_epoch e))) (epoch_outputs e) (fe_proofs response))"
    using y
  proof (elim disjE exE conjE)
    fix s e response assume e: "epoch_ok K e" "outputs_ok K e" "set_proto_finish_epoch_response (fst (finish_epoch e)) = Inr response"
      and f: "um_find (sessions (srv_context srv)) (fer_session_id req) = Some s"
        "sm_find (epochs s) (fer_active_epoch_index req) = Some e" "y = Finish (Finish_epoch response)"
    show ?thesis using finish_response_ok [OF e(1,2) refl] e(3) f by auto
  qed auto
  ultimately show ?thesis by blast
qed

text \<open>
  Claim C14. What clients were told stays true, as long as no client asks \<open>FinishEpoch\<close> to store the
  machine. From one state of a run whose requests name no storage directory to a later one, a session
  that still exists keeps its cycle limits and deadlines, its memory ranges once it is started, and
  its taint; its active epoch index does not decrease; an epoch is removed only when it is no
  longer active; results are only appended, and a finished epoch does not change any more except
  for its pending query.
\<close>

theorem reachable_history:
  assumes "reachable without_store fuel K srv" "\<forall>e \<in> set es. without_store (fst e)" "dispatch_loop fuel K es srv = Running srv'"
    and "deref r (srv_context srv') = Inr s'" "ref_object r < next_object (srv_context srv)"
  shows "\<exists>s. deref r (srv_context srv) = Inr s \<and> session_advances s s'"
  using dispatch_loop_sound [OF reachable_inv [OF assms(1)] assms(2,3)] assms(4,5) unfolding evolves_def by blast

lemma busy_without_store:
  "\<exists>srv s. reachable without_store fuel K srv \<and> um_find (sessions (srv_context srv)) ''t'' = Some s \<and> session_object s = 0 \<and>
     next_object (srv_context srv) = 1"
  by (rule busy_server) (simp add: without_store_def stores_nothing_def)

theorem reachable_server_inv_witness:
  "\<exists>srv s. reachable without_store 5 sample_digest srv \<and> um_find (sessions (srv_context srv)) ''t'' = Some s \<and>
     server_inv sample_digest (srv_context srv)"
  using busy_without_store [of 5 sample_digest] reachable_server_inv [of 5 sample_digest] by blast

theorem finish_epoch_from_reachable_witness:
  "\<exists>srv srv' y k. reachable without_store 5 sample_digest srv \<and> um_find (sessions (srv_context srv)) ''t'' \<noteq> None \<and>
     dispatch 5 sample_digest (\<lambda>_. ok_wake) (Arrived True ''client'' (FinishEpoch
       \<lparr>fer_session_id = ''t'', fer_active_epoch_index = 7, fer_processed_input_count_within_epoch = 0,
        fer_storage_directory = []\<rparr>)) srv = Running srv' \<and>
     um_find (srv_coroutines srv') (srv_next srv) = Some (Some (y, k))"
proof -
  let ?req = "\<lparr>fer_session_id = ''t'', fer_active_epoch_index = 7, fer_processed_input_count_within_epoch = 0,
        fer_storage_directory = []\<rparr>"
  obtain srv s where srv: "reachable without_store 5 sample_digest srv" "um_find (sessions (srv_context srv)) ''t'' = Some s"
    using busy_without_store by blast
  have "fer_storage_directory ?req = []" by simp
  from finish_epoch_from_reachable [OF srv(1) this, of "\<lambda>_. ok_wake" "''client''"] srv show ?thesis by blast
qed

lemma status_request:
  "\<exists>srv'. dispatch fuel K answers (Arrived True ''client'' GetStatus) srv = Running srv' \<and> srv_context srv' = srv_context srv"
  by (simp add: dispatch_def Let_def GetStatus_handler_def exec finish_def suspend_def settle_def park_def)

theorem reachable_history_witness:
  "\<exists>srv srv' s s'. reachable without_store 5 sample_digest srv \<and>
     dispatch_loop 5 sample_digest [(Arrived True ''client'' GetStatus, \<lambda>_. ok_wake)] srv = Running srv' \<and>
     deref \<lparr>ref_id = ''t'', ref_object = 0\<rparr> (srv_context srv') = Inr s' \<and>
     deref \<lparr>ref_id = ''t'', ref_object = 0\<rparr> (srv_context srv) = Inr s \<and> session_advances s s'"
proof -
  let ?r = "\<lparr>ref_id = ''t'', ref_object = 0\<rparr> :: session_ref"
  let ?es = "[(Arrived True ''client'' GetStatus, \<lambda>_ :: yield_point. ok_wake)]"
  obtain srv s where srv: "reachable without_store 5 sample_digest srv" "um_find (sessions (srv_context srv)) ''t'' = Some s"
      "session_object s = 0" "next_object (srv_context srv) = 1"
    using busy_without_store by blast
  obtain srv' where srv': "dispatch 5 sample_digest (\<lambda>_. ok_wake) (Arrived True ''client'' GetStatus) srv = Running srv'"
      "srv_context srv' = srv_context srv"
    using status_request by blast
  have loop: "dispatch_loop 5 sample_digest ?es srv = Running srv'" using srv'(1) by simp
  have ok: "\<forall>e \<in> set ?es. without_store (fst e)" by (simp add: without_store_def stores_nothing_def)
  have d: "deref ?r (srv_context srv') = Inr s" "ref_object ?r < next_object (srv_context srv)"
    using srv srv'(2) by (simp_all add: deref_Inr_iff)
  from reachable_history [OF srv(1) ok loop d] show ?thesis using srv(1) loop d(1) by blast
qed

end
