(* ===== verification/Client_Verifier.thy ===== *)
theory Client_Verifier
  imports Epochs
begin

text \<open>
  The client that checks what the manager commits to (\<^verbatim>\<open>src/src/test-server-manager.cpp\<close>): from the
  outputs it expects it rebuilds the two Merkle trees of an epoch, and checks the roots and the
  validity proofs of a \<open>FinishEpoch\<close> response against them. The client's code is independent of
  the manager's \<open>finish_epoch\<close>; the theorems say when the two agree.
\<close>

unbundle bit_operations_syntax

section \<open>Assertions and expected outputs\<close>

text \<open>\<open>ASSERT\<close>; the position in the source that the macro appends to the message is left out.\<close>

definition assert_bool :: "bool \<Rightarrow> string \<Rightarrow> unit res" where
  "assert_bool v msg = (if \<not> v then Inl (Runtime_error msg) else Inr ())"

text \<open>
  The constants are hexadecimal. \<open>hex\<close> stands for the decoder of Crypto++ that
  \<open>hex_string_to_binary\<close> calls: it turns two digits into a byte.
\<close>

definition VOUCHER_KECCAK_1 :: string where
  "VOUCHER_KECCAK_1 = ''028c8a06ce878fcd02522f0ca3174f9e6fe7c9267750a0c45844e597e7cbab03''"

definition VOUCHER_KECCAK_2 :: string where
  "VOUCHER_KECCAK_2 = ''4af9ac1565a66632741c1cf848847920ae4ef6e7e96ef9fd5bae9fa316f5cb33''"

definition NOTICE_KECCAK_1 :: string where
  "NOTICE_KECCAK_1 = ''253f38cb583d6aba613e7f75bde205c74280bd321be826b93eb41a5404c1f508''"

definition NOTICE_KECCAK_2 :: string where
  "NOTICE_KECCAK_2 = ''8c35a8e6f7e96bf5b0f9200e6cf35db282e9de960e9e958c5d52b14a66af6c47''"

type_synonym hex_decoder = "string \<Rightarrow> bytes"

definition decodes_pairs :: "hex_decoder \<Rightarrow> bool" where
  "decodes_pairs hex \<longleftrightarrow>
     (\<forall>s. even (length s) \<and> set s \<subseteq> set ''0123456789abcdef'' \<longrightarrow> length (hex s) = length s div 2)"

definition get_voucher_keccak :: "hex_decoder \<Rightarrow> u64 \<Rightarrow> bytes" where
  "get_voucher_keccak hex index = hex (if index AND 1 \<noteq> 0 then VOUCHER_KECCAK_2 else VOUCHER_KECCAK_1)"

definition get_notice_keccak :: "hex_decoder \<Rightarrow> u64 \<Rightarrow> bytes" where
  "get_notice_keccak hex index = hex (if index AND 1 \<noteq> 0 then NOTICE_KECCAK_2 else NOTICE_KECCAK_1)"

section \<open>Hashing data\<close>

definition LOG2_WORD_SIZE :: int where "LOG2_WORD_SIZE = 3"
definition MEMORY_REGION_LENGTH :: u64 where "MEMORY_REGION_LENGTH = push_bit 20 2"

text \<open>\<^verbatim>\<open>63 - __builtin_clzll(v)\<close>\<close>

definition client_ilog2 :: "u64 \<Rightarrow> int" where
  "client_ilog2 v = 63 - int (leading_zeros 64 v)"

text \<open>The pointer is the rest of the data; reading past its end is undefined.\<close>

definition get_word_hash :: "digest \<Rightarrow> bytes \<Rightarrow> int \<Rightarrow> hash_type res" where
  "get_word_hash K word log2_word_size =
     (if length word < 2 ^ nat log2_word_size then Inl (Undefined_behaviour ''read past the end'')
      else Inr (data_hash K (take (2 ^ nat log2_word_size) word)))"

function get_leaf_hash :: "digest \<Rightarrow> bytes \<Rightarrow> int \<Rightarrow> int \<Rightarrow> hash_type res" where
  "get_leaf_hash K leaf_data log2_leaf_size log2_word_size =
     (if log2_leaf_size < log2_word_size then Inl (Assertion_failed ''log2_leaf_size >= log2_word_size'')
      else if log2_leaf_size > log2_word_size then
        bindR (get_leaf_hash K leaf_data (log2_leaf_size - 1) log2_word_size) (\<lambda>left.
        bindR (get_leaf_hash K (drop (2 ^ nat (log2_leaf_size - 1)) leaf_data) (log2_leaf_size - 1) log2_word_size)
          (\<lambda>right. Inr (concat_hash K left right)))
      else get_word_hash K leaf_data log2_word_size)"
  by pat_completeness auto
termination
  by (relation "measure (\<lambda>(K, leaf_data, log2_leaf_size, log2_word_size). nat (log2_leaf_size - log2_word_size))") auto

declare get_leaf_hash.simps [simp del]

text \<open>The loop of \<open>get_data_hash\<close>, which advances by one word.\<close>

function push_words :: "digest \<Rightarrow> bytes \<Rightarrow> complete_merkle_tree \<Rightarrow> complete_merkle_tree res" where
  "push_words K data tree =
     (if data = [] then Inr tree
      else bindR (get_leaf_hash K data 3 3) (\<lambda>leaf_hash.
           bindR (cmt_push_back K leaf_hash tree) (\<lambda>tree.
           push_words K (drop (2 ^ nat LOG2_WORD_SIZE) data) tree)))"
  by pat_completeness auto
termination
  by (relation "measure (\<lambda>(K, data, tree). length data)") (auto simp: LOG2_WORD_SIZE_def)

declare push_words.simps [simp del]

definition get_data_hash :: "digest \<Rightarrow> int \<Rightarrow> bytes \<Rightarrow> hash_type res" where
  "get_data_hash K log2_root_size data =
     bindR (new_complete_merkle_tree K log2_root_size LOG2_WORD_SIZE LOG2_WORD_SIZE) (\<lambda>tree.
     bindR (push_words K data tree) cmt_get_root_hash)"

definition get_voucher_keccak_hash :: "digest \<Rightarrow> hex_decoder \<Rightarrow> u64 \<Rightarrow> hash_type res" where
  "get_voucher_keccak_hash K hex index = get_data_hash K LOG2_KECCAK_SIZE (get_voucher_keccak hex index)"

definition get_notice_keccak_hash :: "digest \<Rightarrow> hex_decoder \<Rightarrow> u64 \<Rightarrow> hash_type res" where
  "get_notice_keccak_hash K hex index = get_data_hash K LOG2_KECCAK_SIZE (get_notice_keccak hex index)"

definition get_voucher_root_hash :: "digest \<Rightarrow> hex_decoder \<Rightarrow> u64 \<Rightarrow> u64 \<Rightarrow> hash_type res" where
  "get_voucher_root_hash K hex index count =
     get_data_hash K (client_ilog2 MEMORY_REGION_LENGTH) (concat (replicate (unat count) (get_voucher_keccak hex index)))"

definition get_notice_root_hash :: "digest \<Rightarrow> hex_decoder \<Rightarrow> u64 \<Rightarrow> u64 \<Rightarrow> hash_type res" where
  "get_notice_root_hash K hex index count =
     get_data_hash K (client_ilog2 MEMORY_REGION_LENGTH) (concat (replicate (unat count) (get_notice_keccak hex index)))"

section \<open>Rebuilding the trees\<close>

definition assemble_merkle_proof ::
  "int \<Rightarrow> hash_type \<Rightarrow> hash_type \<Rightarrow> proto_hash list \<Rightarrow> u64 \<Rightarrow> merkle_tree_proof res" where
  "assemble_merkle_proof log2_root_size target_hash root_hash siblings in_index =
     (if log2_root_size - int (length siblings) \<noteq> LOG2_KECCAK_SIZE
      then Inl (Invalid_argument ''wrong number of sibling hashes'')
      else bindR (new_merkle_tree_proof log2_root_size LOG2_KECCAK_SIZE) (\<lambda>p.
           bindR (for_range 0 (int (length siblings)) (\<lambda>i p.
             bindR (get_proto_hash (siblings ! nat i)) (\<lambda>h. set_sibling_hash h (LOG2_KECCAK_SIZE + i) p)) p) (\<lambda>p.
           Inr (set_root_hash root_hash (set_target_hash target_hash
             (set_target_address (push_bit (nat LOG2_KECCAK_SIZE) in_index) p))))))"

text \<open>
  Counting the outputs per input: the last index that was new, and the counts. The output kinds
  of the message type are the two of the source; the branch for any other is not represented.
\<close>

type_synonym output_counts = "u64 \<times> (u64, u64 \<times> u64) unordered_map"

definition count_output :: "output_proof \<Rightarrow> output_counts \<Rightarrow> output_counts res" where
  "count_output pr counts =
     (let k = input_index_within_epoch (op_validity pr);
          (in_index, outputs_per_input) =
            (if um_find (snd counts) k = None then (k, um_assign k (0, 0) (snd counts)) else counts)
      in case um_find outputs_per_input in_index of
           None \<Rightarrow> Inl (Out_of_range ''_Map_base::at'')
         | Some (voucher_count, notice_count) \<Rightarrow>
             (case op_output_enum pr of
                VOUCHER \<Rightarrow> Inr (in_index, um_assign in_index (voucher_count + 1, notice_count) outputs_per_input)
              | NOTICE \<Rightarrow> Inr (in_index, um_assign in_index (voucher_count, notice_count + 1) outputs_per_input)))"

type_synonym epoch_trees = "complete_merkle_tree \<times> complete_merkle_tree"

definition push_both :: "digest \<Rightarrow> hash_type \<Rightarrow> hash_type \<Rightarrow> epoch_trees \<Rightarrow> epoch_trees res" where
  "push_both K v n trees =
     bindR (cmt_push_back K v (fst trees)) (\<lambda>vouchers_tree.
     bindR (cmt_push_back K n (snd trees)) (\<lambda>notices_tree. Inr (vouchers_tree, notices_tree)))"

text \<open>One round of the loop that fills the trees.\<close>

definition push_outputs ::
  "digest \<Rightarrow> hex_decoder \<Rightarrow> (u64, u64 \<times> u64) unordered_map \<Rightarrow> int \<Rightarrow> epoch_trees \<Rightarrow> epoch_trees res" where
  "push_outputs K hex outputs_per_input i trees =
     (case um_find outputs_per_input (word_of_int i) of
        None \<Rightarrow> Inl (Out_of_range ''_Map_base::at'')
      | Some (voucher_count, notice_count) \<Rightarrow>
          bindR (get_voucher_root_hash K hex (word_of_int i) voucher_count) (\<lambda>voucher_root_hash.
          bindR (get_notice_root_hash K hex (word_of_int i) notice_count) (\<lambda>notice_root_hash.
          push_both K voucher_root_hash notice_root_hash trees)))"

definition assemble_output_epoch_trees ::
  "digest \<Rightarrow> hex_decoder \<Rightarrow> finish_epoch_response \<Rightarrow> u64 \<Rightarrow> bool \<Rightarrow> epoch_trees \<Rightarrow> epoch_trees res" where
  "assemble_output_epoch_trees K hex response input_count skipped trees =
     (if fe_proofs response = [] then
        bindR (if skipped then Inr zero_hash else get_data_hash K (client_ilog2 MEMORY_REGION_LENGTH) []) (\<lambda>hash.
        for_range 0 (uint input_count) (\<lambda>_. push_both K hash hash) trees)
      else
        bindR (foldR count_output (fe_proofs response) (0, [])) (\<lambda>(in_index, outputs_per_input).
        bindR (assert_bool (in_index = input_count - 1) ''input_index should match input_count - 1'') (\<lambda>_.
        for_range 0 (uint in_index + 1) (push_outputs K hex outputs_per_input) trees)))"

section \<open>Checking a response\<close>

definition context_epoch :: "bytes \<Rightarrow> u64 res" where
  "context_epoch context =
     (if length context < sizeof_uint64 then Inl (Undefined_behaviour ''read before the start'')
      else Inr (endian_load (drop (length context - sizeof_uint64) context)))"

text \<open>
  A hash message that is absent is an empty one. The validity message of a proof is always there, so
  that the assertion that it is has no counterpart here.
\<close>

definition check_proof_fields :: "finish_epoch_response \<Rightarrow> output_proof \<Rightarrow> u64 \<Rightarrow> unit res" where
  "check_proof_fields response pr epoch =
     (let validity = op_validity pr in
      bindR (assert_bool (op_context pr \<noteq> []) ''Proof should have a valid context'') (\<lambda>_.
      bindR (context_epoch (op_context pr)) (\<lambda>context.
      bindR (assert_bool (context = epoch) ''Proof context should match ABI encoded epoch index'') (\<lambda>_.
      bindR (assert_bool (op_output_index pr = output_index_within_input validity)
        ''Proof should have a valid output index'') (\<lambda>_.
      bindR (assert_bool (output_hashes_root_hash validity \<noteq> [])
        ''Validity proof should have a valid output hashes root hash'') (\<lambda>_.
      bindR (assert_bool (vouchers_epoch_root_hash validity \<noteq> [])
        ''Validity proof should have a valid vouchers epoch root hash'') (\<lambda>_.
      bindR (assert_bool (notices_epoch_root_hash validity \<noteq> [])
        ''Validity proof should have a valid notices epoch root hash'') (\<lambda>_.
      bindR (assert_bool (machine_state_hash validity \<noteq> [])
        ''Validity proof should have a valid machine state hash'') (\<lambda>_.
      bindR (assert_bool (output_hash_in_output_hashes_siblings validity \<noteq> [])
        ''Proof should have output hash in output hashes siblings'') (\<lambda>_.
      bindR (assert_bool (output_hashes_in_epoch_siblings validity \<noteq> [])
        ''Proof should have output in hashes epoch siblings'') (\<lambda>_.
      bindR (assert_bool (machine_state_hash validity = fe_machine_hash response)
        ''Validity proof machine state hash should should match the one in finish epoch response'') (\<lambda>_.
      bindR (assert_bool (vouchers_epoch_root_hash validity = fe_vouchers_epoch_root_hash response)
        ''Validity proof vouchers epoch root hash should should match the one in finish epoch response'') (\<lambda>_.
      assert_bool (notices_epoch_root_hash validity = fe_notices_epoch_root_hash response)
        ''Validity proof notices epoch root hash should should match the one in finish epoch response'')))))))))))))"

text \<open>
  The two branches of \<open>verify_proof\<close> are the same code on the tree, the expected hash and the
  root of one kind of output.
\<close>

definition verify_output ::
  "digest \<Rightarrow> complete_merkle_tree \<Rightarrow> hash_type res \<Rightarrow> proto_hash \<Rightarrow> hash_type \<Rightarrow> output_validity_proof \<Rightarrow> string \<Rightarrow> unit res" where
  "verify_output K tree expected_hash epoch_root output_hashes_root validity kind =
     (let index = input_index_within_epoch validity in
      bindR (get_node_hash tree (push_bit (nat LOG2_KECCAK_SIZE) index) LOG2_KECCAK_SIZE) (\<lambda>node.
      bindR (assert_bool (output_hashes_root = node)
        ''Received output hashes root hash should match the calculated one'') (\<lambda>_.
      bindR expected_hash (\<lambda>output_target_hash.
      bindR (assemble_merkle_proof (client_ilog2 MEMORY_REGION_LENGTH) output_target_hash output_hashes_root
               (output_hash_in_output_hashes_siblings validity) index) (\<lambda>p1.
      bindR (proof_verify K p1) (\<lambda>ok1.
      bindR (assert_bool ok1 (''OutputValidityProof output_hashes_root_hash and '' @
        ''output_hash_in_output_hashes_siblings verification failed'')) (\<lambda>_.
      bindR (get_proto_hash epoch_root) (\<lambda>output_epoch_root_hash.
      bindR (cmt_get_root_hash tree) (\<lambda>root.
      bindR (assert_bool (output_epoch_root_hash = root)
        (''Received '' @ kind @ '' epoch root hash should match the calculated one'')) (\<lambda>_.
      bindR (assemble_merkle_proof LOG2_ROOT_SIZE output_hashes_root output_epoch_root_hash
               (output_hashes_in_epoch_siblings validity) index) (\<lambda>p2.
      bindR (proof_verify K p2) (\<lambda>ok2.
      assert_bool ok2 (''OutputValidityProof '' @ kind @
        ''_epoch_root_hash and output_hashes_in_epoch_siblings verification failed'')))))))))))))"

definition verify_proof ::
  "digest \<Rightarrow> hex_decoder \<Rightarrow> finish_epoch_response \<Rightarrow> u64 \<Rightarrow> epoch_trees \<Rightarrow> output_proof \<Rightarrow> unit res" where
  "verify_proof K hex response epoch trees pr =
     (let validity = op_validity pr; index = input_index_within_epoch validity in
      bindR (check_proof_fields response pr epoch) (\<lambda>_.
      bindR (get_proto_hash (output_hashes_root_hash validity)) (\<lambda>output_hashes_root.
      case op_output_enum pr of
        VOUCHER \<Rightarrow> verify_output K (fst trees) (get_voucher_keccak_hash K hex index)
          (vouchers_epoch_root_hash validity) output_hashes_root validity ''vouchers''
      | NOTICE \<Rightarrow> verify_output K (snd trees) (get_notice_keccak_hash K hex index)
          (notices_epoch_root_hash validity) output_hashes_root validity ''notices'')))"

definition validate_finish_epoch_response ::
  "digest \<Rightarrow> hex_decoder \<Rightarrow> finish_epoch_response \<Rightarrow> u64 \<Rightarrow> u64 \<Rightarrow> bool \<Rightarrow> unit res" where
  "validate_finish_epoch_response K hex response epoch input_count skipped =
     bindR (assert_bool (fe_machine_hash response \<noteq> []) ''Finish epoch response should have a valid machine hash'') (\<lambda>_.
     bindR (assert_bool (fe_vouchers_epoch_root_hash response \<noteq> [])
       ''Finish epoch response should have a valid root hash for Merkle tree of voucher hashes memory ranges'') (\<lambda>_.
     bindR (assert_bool (fe_notices_epoch_root_hash response \<noteq> [])
       ''Finish epoch response should have a valid root hash for Merkle tree of notices hashes memory ranges'') (\<lambda>_.
     bindR (new_complete_merkle_tree K LOG2_ROOT_SIZE LOG2_KECCAK_SIZE LOG2_KECCAK_SIZE) (\<lambda>vouchers_tree.
     bindR (new_complete_merkle_tree K LOG2_ROOT_SIZE LOG2_KECCAK_SIZE LOG2_KECCAK_SIZE) (\<lambda>notices_tree.
     bindR (assemble_output_epoch_trees K hex response input_count skipped (vouchers_tree, notices_tree)) (\<lambda>trees.
     bindR (get_proto_hash (fe_vouchers_epoch_root_hash response)) (\<lambda>vouchers_root.
     bindR (cmt_get_root_hash (fst trees)) (\<lambda>root.
     bindR (assert_bool (vouchers_root = root) ''Received vouchers epoch root hash should match the calculated one'') (\<lambda>_.
     bindR (get_proto_hash (fe_notices_epoch_root_hash response)) (\<lambda>notices_root.
     bindR (cmt_get_root_hash (snd trees)) (\<lambda>root.
     bindR (assert_bool (notices_root = root) ''Received notices epoch root hash should match the calculated one'') (\<lambda>_.
     foldR (\<lambda>pr _. verify_proof K hex response epoch trees pr) (fe_proofs response) ()))))))))))))"

end
