(* ===== verification/Client_Driver.thy ===== *)
theory Client_Driver
  imports Server Client_Verifier
begin

text \<open>
  The client side of the RPCs (\<^verbatim>\<open>src/src/test-server-manager.cpp\<close>): the stub, the requests the client
  builds, its assertions, waiting for inputs to be processed and ending a session. A client
  program is a coroutine as the handlers are: it stops at a call and goes on with the reply. Its
  state is the static counter of \<open>new_session_id\<close>.
\<close>

unbundle bit_operations_syntax

section \<open>Calls\<close>

text \<open>
  What a call returns. The generated stub fills in a response of the method's own message type
  when the status is OK; a failed call leaves the response alone.
\<close>

record call_result =
  cr_status :: grpc_status
  cr_response :: "rpc_response option"

type_synonym 'a client = "(u64, rpc_request, call_result, 'a) prog"

definition client_get_version :: "call_result client" where
  "client_get_version = suspend GetVersion"

definition client_start_session :: "start_session_request \<Rightarrow> call_result client" where
  "client_start_session request = suspend (StartSession request)"

definition client_advance_state :: "advance_state_request \<Rightarrow> call_result client" where
  "client_advance_state request = suspend (AdvanceState request)"

definition client_get_session_status :: "id_type \<Rightarrow> call_result client" where
  "client_get_session_status request = suspend (GetSessionStatus request)"

definition client_get_epoch_status :: "epoch_status_request \<Rightarrow> call_result client" where
  "client_get_epoch_status request = suspend (GetEpochStatus request)"

definition client_inspect_state :: "inspect_state_request \<Rightarrow> call_result client" where
  "client_inspect_state request = suspend (InspectState request)"

definition client_finish_epoch :: "finish_epoch_request \<Rightarrow> call_result client" where
  "client_finish_epoch request = suspend (FinishEpoch request)"

definition client_delete_epoch :: "delete_epoch_request \<Rightarrow> call_result client" where
  "client_delete_epoch request = suspend (DeleteEpoch request)"

definition client_end_session :: "id_type \<Rightarrow> call_result client" where
  "client_end_session request = suspend (EndSession request)"

definition client_health_check :: "string \<Rightarrow> call_result client" where
  "client_health_check service = suspend (Health_Check service)"

text \<open>
  The responses the client reads after it has asserted that the status is OK. The other shapes
  do not arise with the generated stub.
\<close>

definition wrong_message :: handler_exn where
  "wrong_message = Std_exception (Undefined_behaviour ''response of another type'')"

definition version_of :: "call_result \<Rightarrow> version_response client" where
  "version_of r = (case cr_response r of Some (Version_response m) \<Rightarrow> ret m | _ \<Rightarrow> throw wrong_message)"

definition session_status_of :: "call_result \<Rightarrow> session_status_response client" where
  "session_status_of r = (case cr_response r of Some (Session_status m) \<Rightarrow> ret m | _ \<Rightarrow> throw wrong_message)"

definition epoch_status_of :: "call_result \<Rightarrow> epoch_status_response client" where
  "epoch_status_of r = (case cr_response r of Some (Epoch_status m) \<Rightarrow> ret m | _ \<Rightarrow> throw wrong_message)"

definition finish_epoch_of :: "call_result \<Rightarrow> finish_epoch_response client" where
  "finish_epoch_of r = (case cr_response r of Some (Finish_epoch m) \<Rightarrow> ret m | _ \<Rightarrow> throw wrong_message)"

definition health_of :: "call_result \<Rightarrow> serving_status client" where
  "health_of r = (case cr_response r of Some (Health_check m) \<Rightarrow> ret m | _ \<Rightarrow> throw wrong_message)"

section \<open>Assertions\<close>

text \<open>The numeric values of the status codes, for the messages.\<close>

fun code_number :: "status_code \<Rightarrow> nat" where
  "code_number OK = 0" | "code_number CANCELLED = 1" | "code_number UNKNOWN = 2" | "code_number INVALID_ARGUMENT = 3"
| "code_number DEADLINE_EXCEEDED = 4" | "code_number NOT_FOUND = 5" | "code_number ALREADY_EXISTS = 6"
| "code_number PERMISSION_DENIED = 7" | "code_number RESOURCE_EXHAUSTED = 8" | "code_number FAILED_PRECONDITION = 9"
| "code_number ABORTED = 10" | "code_number OUT_OF_RANGE = 11" | "code_number UNIMPLEMENTED = 12"
| "code_number INTERNAL = 13" | "code_number UNAVAILABLE = 14" | "code_number DATA_LOSS = 15"
| "code_number UNAUTHENTICATED = 16"

definition assert_status :: "grpc_status \<Rightarrow> string \<Rightarrow> bool \<Rightarrow> unit res" where
  "assert_status status rpcname expected =
     (if is_ok status \<noteq> expected then
        if expected then Inl (Runtime_error (''Call to '' @ rpcname @ '' failed. Code: '' @
          nat_to_string (code_number (error_code status)) @ '' Message: '' @ error_message status))
        else Inl (Runtime_error (''Call to '' @ rpcname @ '' succeeded when was expected to fail''))
      else Inr ())"

definition assert_status_code :: "grpc_status \<Rightarrow> string \<Rightarrow> status_code \<Rightarrow> unit res" where
  "assert_status_code status rpcname expected =
     (if error_code status \<noteq> expected then
        Inl (Runtime_error (rpcname @ '' was expected to fail with Code: '' @ nat_to_string (code_number expected) @
          '' but received '' @ nat_to_string (code_number (error_code status)) @ '' Message: '' @ error_message status))
      else Inr ())"

text \<open>The macros, in a client program.\<close>

definition check :: "'a res \<Rightarrow> 'a client" where
  "check m = liftH (lift_res m)"

abbreviation ASSERT :: "bool \<Rightarrow> string \<Rightarrow> unit client" where
  "ASSERT v msg \<equiv> check (assert_bool v msg)"

abbreviation ASSERT_STATUS :: "call_result \<Rightarrow> string \<Rightarrow> bool \<Rightarrow> unit client" where
  "ASSERT_STATUS r rpcname v \<equiv> check (assert_status (cr_status r) rpcname v)"

abbreviation ASSERT_STATUS_CODE :: "call_result \<Rightarrow> string \<Rightarrow> status_code \<Rightarrow> unit client" where
  "ASSERT_STATUS_CODE r rpcname v \<equiv> check (assert_status_code (cr_status r) rpcname v)"

section \<open>Requests\<close>

definition new_session_id :: "u64 client" where
  "new_session_id n = Done (n + 1) (Inr n)"

definition get_machine_directory :: "string \<Rightarrow> string \<Rightarrow> string" where
  "get_machine_directory storage_path machine =
     ''/tmp/server-manager-root'' @ ''/'' @ storage_path @ ''/'' @ machine"

definition valid_start_session_request :: "u64 \<Rightarrow> string \<Rightarrow> start_session_request" where
  "valid_start_session_request n name =
     \<lparr>ssr_session_id = ''test_session_request_id:'' @ u64_to_string n,
      ssr_machine_directory = get_machine_directory ''tests'' name,
      ssr_active_epoch_index = 0, ssr_processed_input_count = 0,
      ssr_server_deadline = Some \<lparr>dl_checkin = 1000 * 60, dl_advance_state = 1000 * 60 * 3,
        dl_advance_state_increment = 1000 * 10, dl_inspect_state = 1000 * 60 * 3,
        dl_inspect_state_increment = 1000 * 10, dl_machine = 1000 * 60, dl_store = 1000 * 60 * 3, dl_fast = 1000 * 5\<rparr>,
      ssr_server_cycles = Some \<lparr>max_advance_state = drop_bit 2 (- 1), advance_state_increment = push_bit 22 1,
        max_inspect_state = drop_bit 2 (- 1), inspect_state_increment = push_bit 22 1\<rparr>\<rparr>"

definition create_valid_start_session_request :: "string \<Rightarrow> start_session_request client" where
  "create_valid_start_session_request name = bindP new_session_id (\<lambda>n. ret (valid_start_session_request n name))"

definition INPUT_ADDRESS_1 :: string where
  "INPUT_ADDRESS_1 = ''fafafafafafafafafafafafafafafafafafafafa''"

definition INPUT_ADDRESS_2 :: string where
  "INPUT_ADDRESS_2 = ''babababababababababababababababababababa''"

definition VOUCHER_PAYLOAD_1 :: string where
  "VOUCHER_PAYLOAD_1 = ''6361727465736920726f6c6c7570206d616368696e65206d616e616765722020'' @
     ''6361727465736920726f6c6c7570206d616368696e65206d616e616765722020'' @
     ''6361727465736920726f6c6c7570206d616368696e65206d616e616765722020'' @
     ''6361727465736920726f6c6c7570206d616368696e65206d616e616765720000''"

definition VOUCHER_PAYLOAD_2 :: string where
  "VOUCHER_PAYLOAD_2 = ''4c6f72656d20697073756d20646f6c6f722073697420616d657420637261732e''"

definition get_voucher_address :: "hex_decoder \<Rightarrow> u64 \<Rightarrow> bytes" where
  "get_voucher_address hex index = hex (if index AND 1 \<noteq> 0 then INPUT_ADDRESS_2 else INPUT_ADDRESS_1)"

definition get_voucher_payload :: "hex_decoder \<Rightarrow> u64 \<Rightarrow> bytes" where
  "get_voucher_payload hex index = hex (if index AND 1 \<noteq> 0 then VOUCHER_PAYLOAD_2 else VOUCHER_PAYLOAD_1)"

definition get_report_payload :: "hex_decoder \<Rightarrow> u64 \<Rightarrow> bytes" where
  "get_report_payload hex index = hex (if index AND 1 \<noteq> 0 then VOUCHER_PAYLOAD_2 else VOUCHER_PAYLOAD_1)"

text \<open>\<open>now\<close> stands for \<^verbatim>\<open>std::time\<close>. The static block number is never changed.\<close>

definition init_valid_advance_state_request ::
  "hex_decoder \<Rightarrow> u64 \<Rightarrow> id_type \<Rightarrow> u64 \<Rightarrow> u64 \<Rightarrow> advance_state_request" where
  "init_valid_advance_state_request hex now sid epoch index =
     \<lparr>asr_session_id = sid, asr_active_epoch_index = epoch, asr_current_input_index = index,
      asr_input_metadata = Some \<lparr>pim_msg_sender = Some (get_voucher_address hex index), pim_block_number = 1,
        pim_timestamp = now, pim_epoch_index = 0, pim_input_index = index\<rparr>,
      asr_input_payload = get_voucher_payload hex index\<rparr>"

definition init_valid_inspect_state_request :: "hex_decoder \<Rightarrow> id_type \<Rightarrow> u64 \<Rightarrow> inspect_state_request" where
  "init_valid_inspect_state_request hex sid input =
     \<lparr>isr_session_id = sid, isr_query_payload = get_report_payload hex input\<rparr>"

definition init_valid_finish_epoch_request :: "id_type \<Rightarrow> u64 \<Rightarrow> u64 \<Rightarrow> string \<Rightarrow> finish_epoch_request" where
  "init_valid_finish_epoch_request sid epoch processed_input_count_within_epoch dir =
     \<lparr>fer_session_id = sid, fer_active_epoch_index = epoch,
      fer_processed_input_count_within_epoch = processed_input_count_within_epoch,
      fer_storage_directory = (if dir \<noteq> [] then dir else [])\<rparr>"

section \<open>Waiting for inputs and ending a session\<close>

definition WAITING_PENDING_INPUT_MAX_RETRIES :: int where
  "WAITING_PENDING_INPUT_MAX_RETRIES = 20"

text \<open>The result is what the client finally has in \<open>status_response\<close>.\<close>

function wait_pending_inputs_to_be_processed ::
  "epoch_status_request \<Rightarrow> bool \<Rightarrow> int \<Rightarrow> epoch_status_response client" where
  "wait_pending_inputs_to_be_processed request accept_tainted retries =
     bindP (client_get_epoch_status request) (\<lambda>r.
     thenP (ASSERT_STATUS r ''GetEpochStatus'' True)
     (bindP (epoch_status_of r) (\<lambda>status_response.
     thenP (ASSERT (accept_tainted \<or> es_taint_status status_response = None)
       (''tainted session was not expected: '' @
        (case es_taint_status status_response of Some t \<Rightarrow> error_message t | None \<Rightarrow> [])))
     (if accept_tainted \<and> es_taint_status status_response \<noteq> None then ret status_response
      else if es_pending_input_count status_response = 0 then ret status_response
      else if \<not> 0 < retries
      then check (Inl (Runtime_error ''wait_pending_inputs_to_be_processed max retries reached''))
      else wait_pending_inputs_to_be_processed request accept_tainted (retries - 1)))))"
  by pat_completeness auto
termination
  by (relation "measure (\<lambda>(request, accept_tainted, retries). nat retries)") auto

declare wait_pending_inputs_to_be_processed.simps [simp del]

text \<open>\<open>EndSession\<close> and the assertion that it succeeded.\<close>

definition end_session :: "id_type \<Rightarrow> unit client" where
  "end_session sid = bindP (client_end_session sid) (\<lambda>r. ASSERT_STATUS r ''EndSession'' True)"

text \<open>\<open>FinishEpoch\<close>, the assertion that it succeeded and the check of the response.\<close>

definition finish_and_validate ::
  "digest \<Rightarrow> hex_decoder \<Rightarrow> finish_epoch_request \<Rightarrow> u64 \<Rightarrow> u64 \<Rightarrow> bool \<Rightarrow> unit client" where
  "finish_and_validate K hex request epoch input_count skipped =
     bindP (client_finish_epoch request) (\<lambda>r.
     thenP (ASSERT_STATUS r ''FinishEpoch'' True)
     (bindP (finish_epoch_of r) (\<lambda>response.
      check (validate_finish_epoch_response K hex response epoch input_count skipped))))"

definition end_session_after_processing_pending_inputs ::
  "digest \<Rightarrow> hex_decoder \<Rightarrow> id_type \<Rightarrow> u64 \<Rightarrow> bool \<Rightarrow> bool \<Rightarrow> unit client" where
  "end_session_after_processing_pending_inputs K hex sid epoch accept_tainted skipped =
     bindP (wait_pending_inputs_to_be_processed \<lparr>esr_session_id = sid, esr_epoch_index = epoch\<rparr> accept_tainted
              WAITING_PENDING_INPUT_MAX_RETRIES) (\<lambda>status_response.
     thenP (if (\<not> accept_tainted \<and> es_taint_status status_response = None) \<and>
              es_state status_response \<noteq> epoch_finished \<and> es_processed_inputs status_response \<noteq> []
            then finish_and_validate K hex
              (init_valid_finish_epoch_request sid epoch (of_nat (length (es_processed_inputs status_response))) [])
              (es_epoch_index status_response) (of_nat (length (es_processed_inputs status_response))) skipped
            else ret ())
       (end_session sid))"

end
