(* ===== verification/Client_Hashes.thy ===== *)
theory Client_Hashes
  imports Client_Verifier
begin

text \<open>
  What the client of \<open>Client_Verifier\<close> computes for one memory region: \<open>get_data_hash\<close> is the root of
  the region's tree, the siblings of one of \<open>2 ^ m\<close> equal hashes at the start of a region lead to its
  root from each of their positions, and the proofs it assembles from siblings verify exactly when the path of the
  specification ends in the root.
\<close>

section \<open>Hashes of data\<close>

lemma length_keccaks:
  assumes "decodes_pairs hex"
  shows "length (get_voucher_keccak hex k) = 32" "length (get_notice_keccak hex k) = 32"
proof -
  have "length (hex s) = 32" if "s \<in> {VOUCHER_KECCAK_1, VOUCHER_KECCAK_2, NOTICE_KECCAK_1, NOTICE_KECCAK_2}" for s
  proof -
    have "length s = 64 \<and> set s \<subseteq> set ''0123456789abcdef''"
      using that by (auto simp: VOUCHER_KECCAK_1_def VOUCHER_KECCAK_2_def NOTICE_KECCAK_1_def NOTICE_KECCAK_2_def)
    then show ?thesis using assms [unfolded decodes_pairs_def, rule_format, of s] by simp
  qed
  then show "length (get_voucher_keccak hex k) = 32" "length (get_notice_keccak hex k) = 32"
    by (simp_all add: get_voucher_keccak_def get_notice_keccak_def)
qed

lemma region_size: "client_ilog2 MEMORY_REGION_LENGTH = 21"
  by code_simp

text \<open>The hashes of the words of the data, in order: the leaves of its tree.\<close>

definition word_hashes :: "digest \<Rightarrow> bytes \<Rightarrow> hash_type list" where
  "word_hashes K data = map (\<lambda>i. K (take 8 (drop (8 * i) data))) [0..<length data div 8]"

lemma length_word_hashes [simp]: "length (word_hashes K data) = length data div 8"
  by (simp add: word_hashes_def)

lemma word_hashes_step:
  assumes "8 \<le> length data"
  shows "word_hashes K data = K (take 8 data) # word_hashes K (drop 8 data)"
proof -
  obtain n where n: "length data div 8 = Suc n" using assms by (cases "length data div 8") auto
  then have "length (drop 8 data) div 8 = n" by simp
  then show ?thesis
    unfolding word_hashes_def n
    by (simp add: upt_conv_Cons map_Suc_upt [symmetric] comp_def add.commute [of 8] del: upt_Suc)
qed

lemma push_words_eq: "8 dvd length data \<Longrightarrow> push_words K data t = foldR (cmt_push_back K) (word_hashes K data) t"
proof (induction K data t rule: push_words.induct)
  case (1 K data t)
  show ?case
  proof (cases "data = []")
    case True
    then show ?thesis by (simp add: push_words.simps word_hashes_def)
  next
    case False
    then have long: "8 \<le> length data" using 1(2) by (simp add: dvd_imp_le)
    have leaf: "get_leaf_hash K data 3 3 = Inr (K (take 8 data))"
      using long by (simp add: get_leaf_hash.simps get_word_hash_def data_hash_eq)
    have "8 dvd length (drop 8 data)" using 1(2) long by simp
    with 1(1) [OF False] have IH: "push_words K (drop 8 data) t' = foldR (cmt_push_back K) (word_hashes K (drop 8 data)) t'"
      if "cmt_push_back K (K (take 8 data)) t = Inr t'" for t'
      using that by (simp add: LOG2_WORD_SIZE_def)
    show ?thesis
      using False leaf IH
      by (subst push_words.simps)
        (simp add: word_hashes_step [OF long] LOG2_WORD_SIZE_def bindR_def split: sum.split)
  qed
qed

abbreviation word_leaf :: "digest \<Rightarrow> bytes \<Rightarrow> nat \<Rightarrow> hash_type" where
  "word_leaf K data \<equiv> padded (word_hashes K data) (zero_word_hash K 3)"

lemma get_data_hash_eq:
  assumes "3 \<le> r" "r < 64" "8 dvd length data" "length data \<le> 2 ^ nat r"
  shows "get_data_hash K r data = Inr (tree_node K (word_leaf K data) (nat (r - 3)) 0)"
proof -
  obtain t where t: "new_complete_merkle_tree K r 3 3 = Inr t"
    using new_pristine_merkle_tree_Inr [of 3 r K] assms(1,2)
    by (auto simp: new_complete_merkle_tree_def check_log2_sizes_def)
  have cfg: "complete_config K r 3 3 [] t" using new_complete_config [OF t] .
  have "nat r = nat (r - 3) + 3" using assms(1) by simp
  then have "length data \<le> 2 ^ nat (r - 3) * 8" using assms(4) by (simp add: power_add)
  then have "length (word_hashes K data) \<le> 2 ^ nat (r - 3)" by simp
  then obtain t' where t': "foldR (cmt_push_back K) (word_hashes K data) t = Inr t'"
      "complete_config K r 3 3 (word_hashes K data) t'"
    using complete.push_all [OF cfg, of "word_hashes K data"] by auto
  then show ?thesis
    using t push_words_eq [OF assms(3)] complete.root_spec [OF t'(2)]
    by (simp add: get_data_hash_def LOG2_WORD_SIZE_def spec_root_def pristine_leaf_def)
qed

section \<open>Repeated outputs\<close>

lemma tree_node_levels: "tree_node K f (m + l) i = tree_node K (tree_node K f m) l i"
  by (induction l arbitrary: i) simp_all

text \<open>The nodes of the data that have the size of a hash.\<close>

definition hash_nodes :: "digest \<Rightarrow> bytes \<Rightarrow> nat \<Rightarrow> hash_type" where
  "hash_nodes K data = tree_node K (word_leaf K data) 2"

definition repeated :: "nat \<Rightarrow> bytes \<Rightarrow> bytes" where
  "repeated c w = concat (replicate c w)"

lemma length_repeated: "length (repeated c w) = c * length w"
  by (induction c) (simp_all add: repeated_def)

lemma drop_repeated: "j \<le> c \<Longrightarrow> drop (length w * j) (repeated c w) = repeated (c - j) w"
proof (induction j arbitrary: c)
  case 0
  then show ?case by simp
next
  case (Suc j)
  then obtain d where "c = Suc d" by (cases c) auto
  with Suc show ?case by (simp add: repeated_def)
qed

lemma word_leaf_repeated:
  assumes "length w = 32" "j < c" "m < 4"
  shows "word_leaf K (repeated c w) (4 * j + m) = word_leaf K w m"
proof -
  obtain d where d: "c - j = Suc d" using assms(2) by (cases "c - j") auto
  have "drop (8 * (4 * j + m)) (repeated c w) = drop (8 * m) (drop (length w * j) (repeated c w))"
    using assms(1) by (simp add: algebra_simps)
  also have "\<dots> = drop (8 * m) (w @ repeated d w)"
    using drop_repeated [of j c w] assms(2) d by (simp add: repeated_def)
  finally have "take 8 (drop (8 * (4 * j + m)) (repeated c w)) = take 8 (drop (8 * m) w)"
    using assms(1,3) by simp
  moreover have "4 * j + m < length (repeated c w) div 8" "m < length w div 8"
    using assms by (simp_all add: length_repeated)
  ultimately show ?thesis by (simp add: padded_def word_hashes_def)
qed

lemma hash_nodes_repeated:
  assumes "length w = 32" "j < c"
  shows "hash_nodes K (repeated c w) j = hash_nodes K w 0"
  using word_leaf_repeated [OF assms, of 0 K] word_leaf_repeated [OF assms, of 1 K]
    word_leaf_repeated [OF assms, of 2 K] word_leaf_repeated [OF assms, of 3 K]
  by (simp add: hash_nodes_def numeral_2_eq_2 numeral_3_eq_3 numeral_eq_Suc add.assoc)

text \<open>
  The siblings of position \<open>j\<close> also lead from position \<open>k\<close> to the root when both lie in the first
  \<open>2 ^ m\<close> positions and these hold the same hash.
\<close>

lemma uniform_climb:
  fixes j k :: nat
  assumes u: "\<And>i. i < 2 ^ m \<Longrightarrow> f i = u" and j: "j < 2 ^ m" and k: "k < 2 ^ m" and n: "m \<le> n"
  shows "climb K (\<lambda>l. odd (k div 2 ^ l)) (\<lambda>l. tree_node K f l (sibling_index (j div 2 ^ l))) 0 n u = tree_node K f n 0"
proof -
  let ?right = "\<lambda>l. odd (k div 2 ^ l)" and ?sib = "\<lambda>l. tree_node K f l (sibling_index (j div 2 ^ l))"
  have node: "tree_node K f l i = pristine_node K u l" if "i < 2 ^ (m - l)" "l \<le> m" for l i
  proof (rule tree_node_pristine)
    fix i' assume "i' < (i + 1) * 2 ^ l"
    also have "(i + 1) * 2 ^ l \<le> 2 ^ (m - l) * 2 ^ l" using that(1) by (intro mult_right_mono) auto
    also have "\<dots> = 2 ^ m" using that(2) by (simp flip: power_add)
    finally show "f i' = u" by (rule u)
  qed
  have low: "climb K ?right ?sib 0 l u = pristine_node K u l" if "l \<le> m" for l
    using that
  proof (induction l)
    case 0
    then show ?case by simp
  next
    case (Suc l)
    have half: "2 ^ (m - l) = 2 * (2 :: nat) ^ (m - Suc l)"
      using Suc.prems by (simp flip: power_Suc add: Suc_diff_Suc)
    have "j < 2 ^ (m - l) * 2 ^ l" using j Suc.prems by (simp flip: power_add)
    then have "j div 2 ^ l < 2 ^ (m - l)" by (simp add: less_mult_imp_div_less)
    then have "sibling_index (j div 2 ^ l) < 2 ^ (m - l)" using sibling_index_less half by simp
    then have "?sib l = pristine_node K u l" using node Suc.prems by simp
    with Suc show ?case by (simp add: climb_Suc_last path_step_def del: climb.simps)
  qed
  have zero: "k div 2 ^ l = 0 \<and> j div 2 ^ l = 0" if "m \<le> l" for l
  proof -
    have "(2 :: nat) ^ m \<le> 2 ^ l" using that by (simp add: power_increasing)
    then have "j < 2 ^ l" "k < 2 ^ l" using j k by linarith+
    then show ?thesis by simp
  qed
  have "climb K ?right ?sib 0 n u = climb K ?right ?sib m (n - m) (pristine_node K u m)"
    using climb_add [of K ?right ?sib 0 m "n - m" u] low [of m] n by simp
  also have "\<dots> = climb K (\<lambda>l. odd ((0 :: nat) div 2 ^ l)) (\<lambda>l. tree_node K f l (sibling_index (0 div 2 ^ l))) m (n - m) (tree_node K f m 0)"
    using zero node [of 0 m] by (simp del: climb.simps) (rule climb_cong, simp)
  also have "\<dots> = tree_node K f n 0"
    using tree.climb_levels [where base = 0 and l = m and K = K and f = f and a = 0 and n = "n - m"] n by simp
  finally show ?thesis .
qed

section \<open>Assembled proofs\<close>

lemma assemble_merkle_proof_verify:
  assumes r: "5 \<le> r" "r \<le> 64" and n: "length sibs = nat (r - 5)" and sizes: "\<forall>h \<in> set sibs. length h = hash_size"
    and index: "index < 2 ^ 32"
  shows "\<exists>p. assemble_merkle_proof r target root sibs (of_nat index) = Inr p \<and>
    proof_verify K p = Inr (walk_up K index sibs target = root)"
proof -
  let ?n = "length sibs"
  let ?body = "\<lambda>i p. bindR (get_proto_hash (sibs ! nat i)) (\<lambda>h. set_sibling_hash h (5 + i) p)"
  have rn: "r = 5 + int ?n" using r n by simp
  obtain p0 where p0: "new_merkle_tree_proof r 5 = Inr p0"
    using new_merkle_tree_proof_Inr [of r 5] r by auto
  let ?P = "\<lambda>i q. proof_wf q \<and> mtp_log2_root_size q = r \<and> mtp_log2_target_size q = 5 \<and>
    (\<forall>l < nat i. proof_sibling q (5 + l) = sibs ! l)"
  have "\<exists>q. for_range 0 (int ?n) ?body p0 = Inr q \<and> ?P (int ?n) q"
  proof (rule for_range_rule [where P = ?P])
    show "?P 0 p0" using p0 new_merkle_tree_proof_wf [OF p0] by (auto simp: new_merkle_tree_proof_def split: if_splits)
  next
    fix i q assume i: "0 \<le> i" "i < int ?n" and q: "?P i q"
    let ?q = "q\<lparr>mtp_sibling_hashes := (mtp_sibling_hashes q)[nat (r - 1 - (5 + i)) := sibs ! nat i]\<rparr>"
    have len: "length (mtp_sibling_hashes q) = ?n" using q rn by (auto simp: proof_wf_def)
    have "set_sibling_hash (sibs ! nat i) (5 + i) q = Inr ?q"
      using set_sibling_hash_Inr [of q "5 + i"] q i rn by simp
    moreover have "get_proto_hash (sibs ! nat i) = Inr (sibs ! nat i)"
      using sizes i by (simp add: get_proto_hash_def)
    moreover have "proof_sibling ?q (5 + l) = sibs ! l" if "l < nat (i + 1)" for l
    proof (cases "l = nat i")
      case True
      then show ?thesis using q i rn len by (simp add: proof_sibling_def)
    next
      case False
      then have "nat (r - 1 - int (5 + l)) \<noteq> nat (r - 1 - (5 + i))" using that i rn by auto
      then have "proof_sibling ?q (5 + l) = proof_sibling q (5 + l)" using q by (simp add: proof_sibling_def)
      then show ?thesis using q False that by simp
    qed
    ultimately show "\<exists>s'. ?body i q = Inr s' \<and> ?P (i + 1) s'" using q by simp
  qed simp
  then obtain q where q: "for_range 0 (int ?n) ?body p0 = Inr q" "proof_wf q" "mtp_log2_root_size q = r"
      "mtp_log2_target_size q = 5" "\<And>l. l < ?n \<Longrightarrow> proof_sibling q (5 + l) = sibs ! l"
    by auto
  let ?p = "set_root_hash root (set_target_hash target (set_target_address (push_bit 5 (of_nat index)) q))"
  have fields: "proof_wf ?p" "mtp_log2_root_size ?p = r" "mtp_log2_target_size ?p = 5" "mtp_target_hash ?p = target"
      "mtp_root_hash ?p = root" "proof_sibling ?p l = proof_sibling q l" "mtp_target_address ?p = push_bit 5 (of_nat index)" for l
    using q by (simp_all add: set_root_hash_def set_target_hash_def set_target_address_def proof_wf_def proof_sibling_def)
  have addr: "unat (mtp_target_address ?p) = index * 32"
    using unat_leaf_address [OF index] unfolding fields leaf_address_def LOG2_KECCAK_SIZE_def KECCAK_SIZE_def by simp
  have right: "proof_right ?p (5 + l) = odd (index div 2 ^ l)" for l
  proof -
    have "index * 32 div 2 ^ (5 + l) = index div 2 ^ l" by (simp only: power_add div_mult2_eq) simp
    then show ?thesis by (simp only: proof_right_iff addr)
  qed
  have "walk_up K index sibs target = climb K (\<lambda>l. proof_right ?p (5 + l)) (\<lambda>l. proof_sibling ?p (5 + l)) 0 ?n target"
    unfolding walk_up_def right fields by (rule climb_cong) (simp add: q(5))
  also have "\<dots> = climb K (proof_right ?p) (proof_sibling ?p) 5 ?n target"
    using climb_shift [of K "proof_right ?p" "proof_sibling ?p" 5 0 ?n target] by simp
  finally have "proof_verify K ?p = Inr (walk_up K index sibs target = root)"
    using proof_verify_eq [OF fields(1), of K] fields(2-5) n r(2) by simp
  moreover have "assemble_merkle_proof r target root sibs (of_nat index) = Inr ?p"
    using rn p0 q(1) by (simp add: assemble_merkle_proof_def LOG2_KECCAK_SIZE_def)
  ultimately show ?thesis by blast
qed

end
