(* ===== verification/Client_Trees.thy ===== *)
theory Client_Trees
  imports Client_Hashes
begin

text \<open>
  What the client computes for an epoch: the outputs it counts per input are those the manager
  reported, the trees it rebuilds have the roots of those outputs as leaves, and each proof in
  the response belongs to one output of one input.
\<close>

section \<open>Counting outputs\<close>

definition messages_of :: "output_enum \<Rightarrow> output_proof list \<Rightarrow> nat" where
  "messages_of kind ms = length (filter (\<lambda>m. op_output_enum m = kind) ms)"

lemma messages_of_simps [simp]:
  "messages_of kind [] = 0"
  "messages_of kind (m # ms) = (if op_output_enum m = kind then 1 else 0) + messages_of kind ms"
  "messages_of kind (ms @ ns) = messages_of kind ms + messages_of kind ns"
  by (simp_all add: messages_of_def)

lemma count_more:
  assumes "\<forall>m \<in> set ms. input_index_within_epoch (op_validity m) = k" "um_find M k = Some (a, b)"
  shows "foldR count_output ms (k, M) =
    Inr (k, um_assign k (a + of_nat (messages_of VOUCHER ms), b + of_nat (messages_of NOTICE ms)) M)"
  using assms
proof (induction ms arbitrary: a b M)
  case Nil
  then show ?case by (simp add: um_assign_triv)
next
  case (Cons m ms)
  let ?ab = "case op_output_enum m of VOUCHER \<Rightarrow> (a + 1, b) | NOTICE \<Rightarrow> (a, b + 1)"
  have "count_output m (k, M) = Inr (k, um_assign k ?ab M)"
    using Cons.prems by (simp add: count_output_def split: output_enum.split)
  with Cons.prems Cons.IH [of "um_assign k ?ab M" "fst ?ab" "snd ?ab"] show ?case
    by (simp add: add.assoc split: output_enum.splits)
qed

lemma count_block:
  assumes "\<forall>m \<in> set ms. input_index_within_epoch (op_validity m) = k" "um_find M k = None" "ms \<noteq> []"
  shows "foldR count_output ms (x, M) =
    Inr (k, um_assign k (of_nat (messages_of VOUCHER ms), of_nat (messages_of NOTICE ms)) M)"
proof -
  obtain m ms' where ms: "ms = m # ms'" using assms(3) by (cases ms) auto
  have "count_output m (x, M) = count_output m (k, um_assign k (0, 0) M)"
    using assms(1,2) ms by (simp add: count_output_def)
  then have "foldR count_output ms (x, M) = foldR count_output ms (k, um_assign k (0, 0) M)" by (simp add: ms)
  then show ?thesis using count_more [OF assms(1), of "um_assign k (0, 0) M" 0 0] by simp
qed

text \<open>
  The messages of a response come in blocks, one per input and in their order. The loop records
  the counts of the non-empty blocks and ends with the index of the last one.
\<close>

definition blocks :: "output_proof list list \<Rightarrow> bool" where
  "blocks mss \<longleftrightarrow> length mss \<le> epoch_capacity \<and>
     (\<forall>k < length mss. \<forall>m \<in> set (mss ! k). input_index_within_epoch (op_validity m) = of_nat k)"

definition block_counts :: "output_proof list \<Rightarrow> u64 \<times> u64" where
  "block_counts ms = (of_nat (messages_of VOUCHER ms), of_nat (messages_of NOTICE ms))"

lemma of_nat_index_eq: "j \<le> epoch_capacity \<Longrightarrow> k \<le> epoch_capacity \<Longrightarrow> (of_nat j :: u64) = of_nat k \<longleftrightarrow> j = k"
  by (simp add: word_of_nat_eq_iff take_bit_nat_eq_self)

lemma uint_index: "k \<le> epoch_capacity \<Longrightarrow> uint (of_nat k :: u64) = int k"
  by (simp add: unsigned_of_nat take_bit_nat_eq_self)

lemma count_blocks:
  assumes "blocks mss"
  shows "\<exists>x M. foldR count_output (concat mss) (0, []) = Inr (x, M) \<and>
    (\<forall>j \<le> epoch_capacity. um_find M (of_nat j) =
       (if j < length mss \<and> mss ! j \<noteq> [] then Some (block_counts (mss ! j)) else None)) \<and>
    (mss \<noteq> [] \<longrightarrow> last mss \<noteq> [] \<longrightarrow> x = of_nat (length mss - 1)) \<and>
    (concat mss \<noteq> [] \<longrightarrow> (\<exists>j < length mss. x = of_nat j \<and> mss ! j \<noteq> []))"
  using assms
proof (induction mss rule: rev_induct)
  case Nil
  then show ?case by simp
next
  case (snoc ms mss)
  have blocks: "blocks mss" using snoc.prems by (auto simp: blocks_def nth_append)
  obtain x M where IH: "foldR count_output (concat mss) (0, []) = Inr (x, M)"
      "\<And>j. j \<le> epoch_capacity \<Longrightarrow> um_find M (of_nat j) =
         (if j < length mss \<and> mss ! j \<noteq> [] then Some (block_counts (mss ! j)) else None)"
      "concat mss \<noteq> [] \<Longrightarrow> \<exists>j < length mss. x = of_nat j \<and> mss ! j \<noteq> []"
    using snoc.IH [OF blocks] by blast
  let ?k = "length mss"
  have k: "?k < epoch_capacity" using snoc.prems by (simp add: blocks_def)
  show ?case
  proof (cases "ms = []")
    case True
    have old: "(mss @ [ms]) ! j \<noteq> [] \<and> j < Suc ?k \<longleftrightarrow> j < ?k \<and> mss ! j \<noteq> []" for j
      using True by (auto simp: nth_append less_Suc_eq)
    show ?thesis using True IH old by (intro exI [of _ x] exI [of _ M]) (auto simp: nth_append)
  next
    case False
    have ids: "\<forall>m \<in> set ms. input_index_within_epoch (op_validity m) = of_nat ?k"
      using snoc.prems by (auto simp: blocks_def nth_append)
    have "um_find M (of_nat ?k) = None" using IH(2) [of ?k] k by simp
    then have "foldR count_output (concat (mss @ [ms])) (0, []) = Inr (of_nat ?k, um_assign (of_nat ?k) (block_counts ms) M)"
      using count_block [OF ids _ False, of M x] IH(1) by (simp add: foldR_append block_counts_def)
    moreover have "um_find (um_assign (of_nat ?k) (block_counts ms) M) (of_nat j) =
        (if j < length (mss @ [ms]) \<and> (mss @ [ms]) ! j \<noteq> [] then Some (block_counts ((mss @ [ms]) ! j)) else None)"
      if "j \<le> epoch_capacity" for j
      using IH(2) [OF that] of_nat_index_eq [OF that, of ?k] k False by (auto simp: nth_append less_Suc_eq)
    ultimately show ?thesis using False
      by (intro exI [of _ "of_nat ?k"] exI [of _ "um_assign (of_nat ?k) (block_counts ms) M"]) (auto simp: nth_append)
  qed
qed

section \<open>Rebuilt trees\<close>

definition epoch_trees_ok :: "digest \<Rightarrow> hash_type list \<Rightarrow> hash_type list \<Rightarrow> epoch_trees \<Rightarrow> bool" where
  "epoch_trees_ok K vs ns trees \<longleftrightarrow> epoch_tree K vs (fst trees) \<and> epoch_tree K ns (snd trees)"

lemma push_both_ok:
  assumes "epoch_trees_ok K vs ns t" "length vs < epoch_capacity" "length ns < epoch_capacity"
  shows "\<exists>t'. push_both K v n t = Inr t' \<and> epoch_trees_ok K (vs @ [v]) (ns @ [n]) t'"
proof -
  obtain tv where tv: "cmt_push_back K v (fst t) = Inr tv" "epoch_tree K (vs @ [v]) tv"
    using epoch_tree_push assms(1,2) unfolding epoch_trees_ok_def by blast
  obtain tn where "cmt_push_back K n (snd t) = Inr tn" "epoch_tree K (ns @ [n]) tn"
    using epoch_tree_push assms(1,3) unfolding epoch_trees_ok_def by blast
  with tv show ?thesis by (simp add: push_both_def epoch_trees_ok_def)
qed

text \<open>The leaves of the client for given numbers of outputs per input.\<close>

definition client_leaves :: "digest \<Rightarrow> hex_decoder \<Rightarrow> (nat \<Rightarrow> u64 \<times> u64) \<Rightarrow> (nat \<Rightarrow> hash_type) \<Rightarrow> (nat \<Rightarrow> hash_type) \<Rightarrow> nat \<Rightarrow> bool" where
  "client_leaves K hex counts vh nh n \<longleftrightarrow>
     (\<forall>k < n. get_voucher_root_hash K hex (of_nat k) (fst (counts k)) = Inr (vh k) \<and>
              get_notice_root_hash K hex (of_nat k) (snd (counts k)) = Inr (nh k))"

lemma build_trees:
  assumes "n \<le> epoch_capacity" "\<And>k. k < n \<Longrightarrow> um_find M (of_nat k) = Some (counts k)"
    and "client_leaves K hex counts vh nh n" "epoch_trees_ok K [] [] t"
  shows "\<exists>t'. for_range 0 (int n) (push_outputs K hex M) t = Inr t' \<and>
    epoch_trees_ok K (map vh [0..<n]) (map nh [0..<n]) t'"
proof -
  let ?P = "\<lambda>i t. epoch_trees_ok K (map vh [0..<nat i]) (map nh [0..<nat i]) t"
  have "\<exists>t'. for_range 0 (int n) (push_outputs K hex M) t = Inr t' \<and> ?P (int n) t'"
  proof (rule for_range_rule [where P = ?P])
    show "?P 0 t" using assms(4) by simp
  next
    fix i u assume i: "0 \<le> i" "i < int n" and u: "?P i u"
    obtain k where k: "i = int k" "k < n" using i by (metis nonneg_int_cases of_nat_less_iff)
    have "\<exists>t'. push_both K (vh k) (nh k) u = Inr t' \<and>
        epoch_trees_ok K (map vh [0..<k] @ [vh k]) (map nh [0..<k] @ [nh k]) t'"
      using u assms(1) k by (intro push_both_ok) simp_all
    then show "\<exists>t'. push_outputs K hex M i u = Inr t' \<and> ?P (i + 1) t'"
      using assms(2) [OF k(2)] assms(3) k by (simp add: push_outputs_def client_leaves_def split_beta nat_add_distrib)
  qed simp
  then show ?thesis by simp
qed

lemma assemble_trees:
  assumes "blocks mss" "fe_proofs response = concat mss" "mss \<noteq> []" "\<And>k. k < length mss \<Longrightarrow> mss ! k \<noteq> []"
    and leaves: "client_leaves K hex (\<lambda>k. block_counts (mss ! k)) vh nh (length mss)" and t: "epoch_trees_ok K [] [] t"
  shows "\<exists>t'. assemble_output_epoch_trees K hex response (of_nat (length mss)) skipped t = Inr t' \<and>
    epoch_trees_ok K (map vh [0..<length mss]) (map nh [0..<length mss]) t'"
proof -
  let ?n = "length mss"
  have n: "?n \<le> epoch_capacity" "0 < ?n" using assms(1,3) by (auto simp: blocks_def)
  have last: "last mss \<noteq> []" using assms(3,4) by (simp add: last_conv_nth)
  then have proofs: "fe_proofs response \<noteq> []" using assms(2,3) by auto
  obtain x M where M: "foldR count_output (concat mss) (0, []) = Inr (x, M)"
      "\<And>j. j \<le> epoch_capacity \<Longrightarrow> um_find M (of_nat j) =
         (if j < ?n \<and> mss ! j \<noteq> [] then Some (block_counts (mss ! j)) else None)"
      "x = of_nat (?n - 1)"
    using count_blocks [OF assms(1)] assms(3) last by blast
  have "um_find M (of_nat k) = Some (block_counts (mss ! k))" if "k < ?n" for k
    using M(2) [of k] n assms(4) that by simp
  from build_trees [OF n(1) this leaves t] obtain t' where
      t': "for_range 0 (int ?n) (push_outputs K hex M) t = Inr t'"
      "epoch_trees_ok K (map vh [0..<?n]) (map nh [0..<?n]) t'" by blast
  have "uint x = int (?n - 1)" unfolding M(3) using n by (intro uint_index) linarith
  then have "uint x + 1 = int ?n" using n(2) by linarith
  moreover have "x = of_nat ?n - 1" using M(3) n(2) by (simp add: of_nat_diff)
  ultimately have "assemble_output_epoch_trees K hex response (of_nat ?n) skipped t = Inr t'"
    unfolding assemble_output_epoch_trees_def if_not_P [OF proofs] using t'(1) M(1) assms(2)
    by (simp add: assert_bool_def)
  with t'(2) show ?thesis by blast
qed

text \<open>When rebuilding succeeds, every input had an output and the leaves are the client's.\<close>

lemma assemble_treesD:
  assumes "blocks mss" "fe_proofs response = concat mss" "concat mss \<noteq> []" "epoch_trees_ok K [] [] t"
    and asm: "assemble_output_epoch_trees K hex response (of_nat (length mss)) skipped t = Inr t'"
  shows "\<exists>vh nh. client_leaves K hex (\<lambda>k. block_counts (mss ! k)) vh nh (length mss) \<and>
    epoch_trees_ok K (map vh [0..<length mss]) (map nh [0..<length mss]) t'"
proof -
  let ?n = "length mss"
  have n: "?n \<le> epoch_capacity" using assms(1) by (simp add: blocks_def)
  have proofs: "fe_proofs response \<noteq> []" using assms(2,3) by simp
  obtain x M where M: "foldR count_output (concat mss) (0, []) = Inr (x, M)"
      "\<And>j. j \<le> epoch_capacity \<Longrightarrow> um_find M (of_nat j) =
         (if j < ?n \<and> mss ! j \<noteq> [] then Some (block_counts (mss ! j)) else None)"
      "\<exists>j < ?n. x = of_nat j \<and> mss ! j \<noteq> []"
    using count_blocks [OF assms(1)] assms(3) by blast
  then obtain j where j: "j < ?n" "x = of_nat j" by blast
  have loop: "x = of_nat ?n - 1" "for_range 0 (uint x + 1) (push_outputs K hex M) t = Inr t'"
    using asm M(1) assms(2) unfolding assemble_output_epoch_trees_def if_not_P [OF proofs]
    by (auto simp: assert_bool_def bindR_eq_Inr split: if_splits)
  have "(of_nat j :: u64) = of_nat (?n - 1)" using loop(1) j by (simp add: of_nat_diff)
  then have x: "x = of_nat (?n - 1)" using j(2) by simp
  have "uint x = int (?n - 1)" unfolding x using n by (intro uint_index) linarith
  then have bound: "uint x + 1 = int ?n" using j(1) by linarith
  define vh where "vh k = projr (get_voucher_root_hash K hex (of_nat k) (fst (block_counts (mss ! k))))" for k
  define nh where "nh k = projr (get_notice_root_hash K hex (of_nat k) (snd (block_counts (mss ! k))))" for k
  have step: "um_find M (of_nat k) = Some (block_counts (mss ! k)) \<and>
      get_voucher_root_hash K hex (of_nat k) (fst (block_counts (mss ! k))) = Inr (vh k) \<and>
      get_notice_root_hash K hex (of_nat k) (snd (block_counts (mss ! k))) = Inr (nh k)" if k: "k < ?n" for k
  proof -
    obtain u v where "push_outputs K hex M (int k) u = Inr v"
      using for_range_Inr_body [OF loop(2), of "int k"] k bound by auto
    then show ?thesis
      using M(2) [of k] k n
      by (auto simp: push_outputs_def vh_def nh_def bindR_eq_Inr split: option.splits if_splits)
  qed
  then have leaves: "client_leaves K hex (\<lambda>k. block_counts (mss ! k)) vh nh ?n" by (simp add: client_leaves_def)
  have "um_find M (of_nat k) = Some (block_counts (mss ! k))" if "k < ?n" for k using step [OF that] by blast
  from build_trees [OF n this leaves assms(4)] loop(2) bound leaves show ?thesis by auto
qed

section \<open>The messages of a response\<close>

lemma output_messages_nth:
  assumes "output_messages msg idx hs = Inr ms"
  shows "length ms = length hs \<and> (\<forall>j < length hs. msg (idx + of_nat j) (hs ! j) = Inr (ms ! j))"
  using assms
proof (induction hs arbitrary: idx ms)
  case Nil
  then show ?case by simp
next
  case (Cons h hs)
  then obtain m ms' where m: "msg idx h = Inr m" "output_messages msg (idx + 1) hs = Inr ms'" "ms = m # ms'"
    by (auto simp: bindR_eq_Inr)
  from Cons.IH [OF m(2)] m(1,3) show ?case by (auto simp: nth_Cons algebra_simps split: nat.split)
qed

lemma foldR_appends:
  assumes "foldR (\<lambda>x ps. bindR (f x) (\<lambda>ms. Inr (ps @ ms))) xs ps = Inr r"
  shows "\<exists>mss. length mss = length xs \<and> (\<forall>k < length xs. f (xs ! k) = Inr (mss ! k)) \<and> r = ps @ concat mss"
  using assms
proof (induction xs arbitrary: ps)
  case Nil
  then show ?case by (intro exI [of _ "[]"]) simp
next
  case (Cons x xs)
  then obtain ms where ms: "f x = Inr ms" "foldR (\<lambda>x ps. bindR (f x) (\<lambda>ms. Inr (ps @ ms))) xs (ps @ ms) = Inr r"
    by (auto simp: bindR_eq_Inr)
  obtain mss where "length mss = length xs" "\<forall>k < length xs. f (xs ! k) = Inr (mss ! k)" "r = (ps @ ms) @ concat mss"
    using Cons.IH [OF ms(2)] by blast
  with ms(1) show ?case by (intro exI [of _ "ms # mss"]) (auto simp: less_Suc_eq_0_disj)
qed

text \<open>What belongs to one kind of output, on the side of the manager and on that of the client.\<close>

definition tree_of :: "output_enum \<Rightarrow> epoch_type \<Rightarrow> complete_merkle_tree" where
  "tree_of kind e = (case kind of VOUCHER \<Rightarrow> vouchers_tree e | NOTICE \<Rightarrow> notices_tree e)"

definition leaf_of :: "output_enum \<Rightarrow> processed_input_type \<Rightarrow> hash_type" where
  "leaf_of kind i = (case kind of VOUCHER \<Rightarrow> voucher_leaf i | NOTICE \<Rightarrow> notice_leaf i)"

definition in_epoch_of :: "output_enum \<Rightarrow> processed_input_type \<Rightarrow> merkle_tree_proof" where
  "in_epoch_of kind i = (case kind of VOUCHER \<Rightarrow> voucher_hashes_in_epoch i | NOTICE \<Rightarrow> notice_hashes_in_epoch i)"

definition hashes_of :: "output_enum \<Rightarrow> processed_input_type \<Rightarrow> keccak_type option list" where
  "hashes_of kind i = (case processed i of
     Accepted_data d \<Rightarrow> (case kind of VOUCHER \<Rightarrow> map v_hash (vouchers d) | NOTICE \<Rightarrow> map n_hash (notices d))
   | Exception_data _ \<Rightarrow> [])"

definition keccak_of :: "hex_decoder \<Rightarrow> output_enum \<Rightarrow> nat \<Rightarrow> bytes" where
  "keccak_of hex kind k =
     (case kind of VOUCHER \<Rightarrow> get_voucher_keccak hex (of_nat k) | NOTICE \<Rightarrow> get_notice_keccak hex (of_nat k))"

lemma output_proof_message_fields:
  assumes "output_proof_message e i kind p j h = Inr m"
  shows "\<exists>kk. h = Some kk \<and> op_output_index m = j \<and> op_output_enum m = kind \<and> op_context m = abi_word (epoch_index e) \<and>
    input_index_within_epoch (op_validity m) = epoch_input_index i \<and> output_index_within_input (op_validity m) = j \<and>
    output_hashes_root_hash (op_validity m) = mtp_root_hash (keccak_in_hashes kk) \<and>
    cmt_get_root_hash (vouchers_tree e) = Inr (vouchers_epoch_root_hash (op_validity m)) \<and>
    cmt_get_root_hash (notices_tree e) = Inr (notices_epoch_root_hash (op_validity m)) \<and>
    machine_state_hash (op_validity m) = most_recent_machine_hash e \<and>
    proto_siblings (keccak_in_hashes kk) = Inr (output_hash_in_output_hashes_siblings (op_validity m)) \<and>
    proto_siblings p = Inr (output_hashes_in_epoch_siblings (op_validity m))"
  using assms
  by (auto simp: output_proof_message_def set_proto_output_validity_proof_def set_proto_hash_def bindR_eq_Inr
      get_abi_encoded_context_eq split: option.splits)

definition message_of :: "epoch_type \<Rightarrow> processed_input_type \<Rightarrow> output_proof \<Rightarrow> bool" where
  "message_of e i m \<longleftrightarrow> (\<exists>kind j. j < length (hashes_of kind i) \<and>
     output_proof_message e i kind (in_epoch_of kind i) (of_nat j) (hashes_of kind i ! j) = Inr m)"

lemma kind_messages:
  assumes "output_messages (output_proof_message e i kind (in_epoch_of kind i)) 0 (hashes_of kind i) = Inr ms"
  shows "(\<forall>m \<in> set ms. message_of e i m \<and> op_output_enum m = kind) \<and> length ms = length (hashes_of kind i)"
proof -
  note nth = output_messages_nth [OF assms]
  have "message_of e i m \<and> op_output_enum m = kind" if mem: "m \<in> set ms" for m
  proof -
    obtain j where j: "j < length ms" "m = ms ! j" using mem by (auto simp: in_set_conv_nth)
    have "output_proof_message e i kind (in_epoch_of kind i) (of_nat j) (hashes_of kind i ! j) = Inr m"
      using nth j by auto
    then show ?thesis using nth j output_proof_message_fields unfolding message_of_def by fastforce
  qed
  then show ?thesis using nth by simp
qed

lemma messages_of_kind: "\<forall>m \<in> set ms. op_output_enum m = kind \<Longrightarrow> messages_of k ms = (if k = kind then length ms else 0)"
  by (induction ms) auto

lemma input_messages_block:
  assumes "input_messages e i = Inr ms"
  shows "(\<forall>m \<in> set ms. message_of e i m) \<and> (\<forall>kind. messages_of kind ms = length (hashes_of kind i))"
proof (cases "processed i")
  case (Accepted_data d)
  have lists: "hashes_of VOUCHER i = map v_hash (vouchers d)" "hashes_of NOTICE i = map n_hash (notices d)"
      "in_epoch_of VOUCHER i = voucher_hashes_in_epoch i" "in_epoch_of NOTICE i = notice_hashes_in_epoch i"
    using Accepted_data by (simp_all add: hashes_of_def in_epoch_of_def)
  obtain vs ns where "output_messages (output_proof_message e i VOUCHER (in_epoch_of VOUCHER i)) 0 (hashes_of VOUCHER i) = Inr vs"
      "output_messages (output_proof_message e i NOTICE (in_epoch_of NOTICE i)) 0 (hashes_of NOTICE i) = Inr ns" "ms = vs @ ns"
    using assms Accepted_data unfolding lists by (auto simp: input_messages_def bindR_eq_Inr)
  note parts = kind_messages [OF this(1)] kind_messages [OF this(2)] this(3)
  have "messages_of kind ms = length (hashes_of kind i)" for kind
    using parts messages_of_kind [of vs VOUCHER kind] messages_of_kind [of ns NOTICE kind] by (cases kind) auto
  with parts show ?thesis by auto
next
  case (Exception_data x)
  then show ?thesis using assms by (simp add: input_messages_def hashes_of_def)
qed

lemma response_blocks:
  assumes ok: "epoch_ok K e" and r: "set_proto_finish_epoch_response (fst (finish_epoch e)) = Inr r"
    and e': "e' = fst (finish_epoch e)"
  shows "\<exists>mss. fe_proofs r = concat mss \<and> blocks mss \<and> length mss = length (processed_inputs e) \<and>
    e' = e\<lparr>state := epoch_finished, processed_inputs := processed_inputs e'\<rparr> \<and>
    (\<forall>k < length mss. refreshed K e k (processed_inputs e ! k) (processed_inputs e' ! k) \<and>
       (\<forall>m \<in> set (mss ! k). message_of e' (processed_inputs e' ! k) m) \<and>
       (\<forall>kind. messages_of kind (mss ! k) = length (hashes_of kind (processed_inputs e ! k))))"
proof -
  obtain is' where is': "finish_epoch e = (e\<lparr>state := epoch_finished, processed_inputs := is'\<rparr>, Inr ())"
      "length is' = length (processed_inputs e)"
      "\<And>k. k < length is' \<Longrightarrow> refreshed K e k (processed_inputs e ! k) (is' ! k)"
    using finish_epoch_ok [OF ok] by auto
  have fin: "e' = e\<lparr>state := epoch_finished, processed_inputs := is'\<rparr>" using is'(1) e' by simp
  then obtain mss where mss: "length mss = length is'" "\<And>k. k < length is' \<Longrightarrow> input_messages e' (is' ! k) = Inr (mss ! k)"
      "fe_proofs r = concat mss"
    using r e' foldR_appends [of "input_messages e'" is' "[]"]
    by (auto simp: set_proto_finish_epoch_response_def bindR_eq_Inr)
  have same: "hashes_of kind (is' ! k) = hashes_of kind (processed_inputs e ! k)" "epoch_input_index (is' ! k) = of_nat k"
    if "k < length is'" for k kind
    using refreshed_leaf [OF is'(3) [OF that]] ok that is'(2) by (simp_all add: hashes_of_def epoch_ok_def)
  have block: "(\<forall>m \<in> set (mss ! k). message_of e' (is' ! k) m) \<and>
      (\<forall>kind. messages_of kind (mss ! k) = length (hashes_of kind (is' ! k)))" if "k < length is'" for k
    using input_messages_block [OF mss(2) [OF that]] .
  have "length mss \<le> epoch_capacity"
    using epoch_tree_capacity ok mss(1) is'(2) unfolding epoch_ok_def by fastforce
  moreover have "input_index_within_epoch (op_validity m) = of_nat k" if "k < length mss" "m \<in> set (mss ! k)" for k m
    using block [of k] that mss(1) same(2) [of k] unfolding message_of_def
    by (metis output_proof_message_fields)
  ultimately have "blocks mss" by (simp add: blocks_def)
  then show ?thesis
    using mss(1,3) is'(2,3) block same(1) fin by (intro exI [of _ mss]) simp
qed

lemma response_nonempty:
  assumes "epoch_ok K e" "set_proto_finish_epoch_response (fst (finish_epoch e)) = Inr r"
    and "k < length (processed_inputs e)" "hashes_of kind (processed_inputs e ! k) \<noteq> []"
  shows "fe_proofs r \<noteq> []"
proof -
  obtain mss where mss: "fe_proofs r = concat mss" "length mss = length (processed_inputs e)"
      "messages_of kind (mss ! k) = length (hashes_of kind (processed_inputs e ! k))"
    using response_blocks [OF assms(1,2) refl] assms(3) by auto
  then have "mss ! k \<noteq> []" using assms(4) by auto
  then show ?thesis using mss(1,2) assms(3) by (metis concat_eq_Nil_conv nth_mem)
qed

section \<open>Proofs in the epoch trees\<close>

lemma finish_inputs_proofs:
  assumes "finish_inputs e is = (is', Inr ())"
  shows "length is' = length is \<and> (\<forall>k < length is. \<forall>kind.
    cmt_get_proof (tree_of kind e) (leaf_address (epoch_input_index (is ! k))) LOG2_KECCAK_SIZE = Inr (in_epoch_of kind (is' ! k)))"
  using assms
proof (induction "is" arbitrary: is')
  case Nil
  then show ?case by simp
next
  case (Cons i rest)
  then obtain vp np rest' where
      vp: "cmt_get_proof (vouchers_tree e) (leaf_address (epoch_input_index i)) LOG2_KECCAK_SIZE = Inr vp" and
      np: "cmt_get_proof (notices_tree e) (leaf_address (epoch_input_index i)) LOG2_KECCAK_SIZE = Inr np" and
      rest: "finish_inputs e rest = (rest', Inr ())"
        "is' = i\<lparr>voucher_hashes_in_epoch := vp, notice_hashes_in_epoch := np\<rparr> # rest'"
    by (auto simp: Let_def split: sum.splits prod.splits)
  have "cmt_get_proof (tree_of kind e) (leaf_address (epoch_input_index i)) LOG2_KECCAK_SIZE = Inr (in_epoch_of kind (is' ! 0))" for kind
    using vp np rest(2) by (simp add: tree_of_def in_epoch_of_def split: output_enum.split)
  then show ?case using Cons.IH [OF rest(1)] rest(2) by (auto simp: less_Suc_eq_0_disj)
qed

lemma length_nodes:
  assumes "keccak_256 K" "\<forall>h \<in> set leaves. length h = hash_size"
  shows "length (tree_node K (padded leaves (pristine_leaf K 5 5)) l i) = hash_size"
  using assms by (intro length_tree_node) (auto simp: padded_def pristine_leaf_def zero_word_hash_def keccak_256_def)

lemma epoch_siblings:
  assumes "keccak_256 K" "epoch_tree K leaves t" "\<forall>h \<in> set leaves. length h = hash_size" "k < length leaves"
    and p: "cmt_get_proof t (leaf_address (of_nat k)) LOG2_KECCAK_SIZE = Inr p"
  shows "\<exists>sibs. proto_siblings p = Inr sibs \<and> length sibs = 32 \<and> (\<forall>h \<in> set sibs. length h = hash_size) \<and>
    cmt_get_root_hash t = Inr (walk_up K k sibs (leaves ! k))"
proof -
  let ?a = "leaf_address (of_nat k)"
  have proof_ok: "leaf_proof K t k (leaves ! k) p" using epoch_tree_leaf_proof [OF assms(2,4)] p by auto
  obtain sibs where sibs: "proto_siblings p = Inr sibs" "walk_up K k sibs (leaves ! k) = mtp_root_hash p"
    using leaf_proof_walk [OF proof_ok] by blast
  have wf: "proof_wf p" "mtp_log2_target_size p = 5" "mtp_log2_root_size p = 37"
    using proof_ok by (simp_all add: leaf_proof_def LOG2_KECCAK_SIZE_def LOG2_ROOT_SIZE_def)
  have list: "sibs = map (\<lambda>l. proof_sibling p (5 + l)) [0..<32]" "length sibs = 32"
    using proto_siblings_Inr [OF wf(1)] wf sibs(1) by (simp_all add: proof_wf_def)
  have inv: "complete_inv K leaves t" and sizes: "cmt_log2_root_size t = 37" "cmt_log2_leaf_size t = 5"
      and leaf: "cmt_pristine_leaf K t = pristine_leaf K 5 5"
    using assms(2) complete_config_leaf [of K 37 5 5 leaves t]
    by (simp_all add: epoch_tree_def complete_config_def LOG2_ROOT_SIZE_def LOG2_KECCAK_SIZE_def)
  have a: "unat ?a = k * 32" "k < epoch_capacity"
    using unat_leaf_address [of k] assms(4) epoch_tree_capacity [OF assms(2)] by (simp_all add: KECCAK_SIZE_def LOG2_KECCAK_SIZE_def)
  have "proof_sibling p (5 + l) =
      tree_node K (padded leaves (pristine_leaf K 5 5)) l (sibling_index (unat ?a div 2 ^ (5 + l)))" if "l < 32" for l
    using get_proof_ok [OF inv, of 5 ?a] sizes leaf a p aligned_iff [of ?a 5] that by (auto simp: LOG2_KECCAK_SIZE_def)
  then have "\<forall>h \<in> set sibs. length h = hash_size" using length_nodes [OF assms(1,3)] by (auto simp: list(1))
  then show ?thesis using sibs list(2) proof_ok by (auto simp: leaf_proof_def)
qed

lemma epoch_tree_node:
  assumes "epoch_tree K leaves t" "k < length leaves"
  shows "get_node_hash t (leaf_address (of_nat k)) LOG2_KECCAK_SIZE = Inr (leaves ! k)"
proof -
  have "k < epoch_capacity" using assms epoch_tree_capacity by fastforce
  then have "unat (leaf_address (of_nat k)) div 2 ^ 5 = k" "k < 2 ^ 32"
    using unat_leaf_address [of k] by (simp_all add: KECCAK_SIZE_def LOG2_KECCAK_SIZE_def)
  then show ?thesis
    using get_node_hash_config [OF assms(1) [unfolded epoch_tree_def], of 5 "leaf_address (of_nat k)"] assms(2)
    by (simp add: LOG2_KECCAK_SIZE_def LOG2_ROOT_SIZE_def padded_def)
qed

end
