(* ===== verification/Client_Agreement.thy ===== *)
theory Client_Agreement
  imports Client_Trees
begin

text \<open>
  When the client of \<open>Client_Verifier\<close> accepts what the manager sends, what it knows when it does,
  and which correct responses it refuses.
\<close>

section \<open>Expected outputs\<close>

abbreviation region_root :: "digest \<Rightarrow> bytes \<Rightarrow> hash_type" where
  "region_root K data \<equiv> tree_node K (word_leaf K data) 18 0"

lemma region_root_eq: "region_root K data = tree_node K (hash_nodes K data) 16 0"
  using tree_node_levels [of K "word_leaf K data" 2 16 0] by (simp add: hash_nodes_def)

text \<open>The proof a machine gives for the hash at position \<open>j\<close> of a memory region with the given contents.\<close>

definition region_proof :: "digest \<Rightarrow> bytes \<Rightarrow> nat \<Rightarrow> merkle_tree_proof \<Rightarrow> bool" where
  "region_proof K data j p \<longleftrightarrow> proof_wf p \<and> mtp_log2_target_size p = 5 \<and> mtp_log2_root_size p = 21 \<and>
     mtp_root_hash p = region_root K data \<and>
     (\<forall>l < 16. proof_sibling p (5 + l) = tree_node K (hash_nodes K data) l (sibling_index (j div 2 ^ l)))"

text \<open>The outputs of input \<open>k\<close> are those the client expects, and the machine reported them truly.\<close>

definition expected_outputs :: "digest \<Rightarrow> hex_decoder \<Rightarrow> nat \<Rightarrow> processed_input_type \<Rightarrow> output_enum \<Rightarrow> bool" where
  "expected_outputs K hex k i kind \<longleftrightarrow>
     (let hs = hashes_of kind i; data = repeated (length hs) (keccak_of hex kind k) in
      length hs \<le> 2 ^ 16 \<and> leaf_of kind i = region_root K data \<and>
      (\<forall>j < length hs. \<exists>kk. hs ! j = Some kk \<and> region_proof K data j (keccak_in_hashes kk)))"

text \<open>
  The number of outputs the client can check for input \<open>k\<close>: it looks for every output at the
  position of the input.
\<close>

definition checkable :: "nat \<Rightarrow> nat \<Rightarrow> bool" where
  "checkable k c \<longleftrightarrow> c = 0 \<or> (\<exists>m. c = 2 ^ m \<and> k < c)"

lemma length_hash_nodes: "keccak_256 K \<Longrightarrow> length (hash_nodes K data i) = hash_size"
  by (simp add: hash_nodes_def numeral_2_eq_2 length_concat_hash)

lemma length_keccak_of: "decodes_pairs hex \<Longrightarrow> length (keccak_of hex kind k) = 32"
  by (simp add: keccak_of_def length_keccaks split: output_enum.split)

lemma client_root_hash:
  assumes "decodes_pairs hex" "c \<le> 2 ^ 16"
  shows "get_data_hash K (client_ilog2 MEMORY_REGION_LENGTH) (concat (replicate (unat (of_nat c :: u64)) (keccak_of hex kind k))) =
    Inr (region_root K (repeated c (keccak_of hex kind k)))"
proof -
  have "unat (of_nat c :: u64) = c" using assms(2) by (simp add: unat_of_nat take_bit_nat_eq_self)
  moreover have "length (repeated c (keccak_of hex kind k)) = c * 32" using assms(1) by (simp add: length_repeated length_keccak_of)
  ultimately show ?thesis
    using get_data_hash_eq [of 21 "repeated c (keccak_of hex kind k)" K] assms(2) by (simp add: region_size repeated_def)
qed

lemma client_keccak_hash:
  assumes "decodes_pairs hex"
  shows "get_data_hash K LOG2_KECCAK_SIZE (keccak_of hex kind k) = Inr (hash_nodes K (keccak_of hex kind k) 0)"
  using get_data_hash_eq [of 5 "keccak_of hex kind k" K] length_keccak_of [OF assms, of kind k]
  by (simp add: LOG2_KECCAK_SIZE_def hash_nodes_def)

lemma context_epoch_abi_word: "context_epoch (abi_word w) = Inr w"
  by (simp add: context_epoch_def abi_word_def sizeof_uint64_def)

lemma region_siblings:
  assumes "region_proof K data j p" "proto_siblings p = Inr sibs"
  shows "sibs = map (\<lambda>l. tree_node K (hash_nodes K data) l (sibling_index (j div 2 ^ l))) [0..<16]"
  using assms proto_siblings_Inr [of p] by (auto simp: region_proof_def proof_wf_def)

lemma length_region_siblings:
  assumes "keccak_256 K" "region_proof K data j p" "proto_siblings p = Inr sibs"
  shows "length sibs = 16" "\<forall>h \<in> set sibs. length h = hash_size"
  using region_siblings [OF assms(2,3)] length_tree_node [OF assms(1) length_hash_nodes [OF assms(1)]] by auto

text \<open>The siblings of an expected output lead to the root of its region from the position the client uses.\<close>

lemma expected_walk:
  assumes "keccak_256 K" "decodes_pairs hex" "expected_outputs K hex k i kind" "checkable k (length (hashes_of kind i))"
    and "j < length (hashes_of kind i)" "hashes_of kind i ! j = Some kk" "proto_siblings (keccak_in_hashes kk) = Inr sibs"
  shows "length sibs = 16 \<and> (\<forall>h \<in> set sibs. length h = hash_size) \<and> mtp_root_hash (keccak_in_hashes kk) = leaf_of kind i \<and>
    walk_up K k sibs (hash_nodes K (keccak_of hex kind k) 0) = leaf_of kind i"
proof -
  let ?c = "length (hashes_of kind i)" and ?w = "keccak_of hex kind k"
  let ?data = "repeated ?c ?w"
  have leaf: "leaf_of kind i = region_root K ?data" and c: "?c \<le> 2 ^ 16" and region: "region_proof K ?data j (keccak_in_hashes kk)"
    using assms(3,5,6) by (auto simp: expected_outputs_def Let_def)
  note sibs = region_siblings [OF region assms(7)] and sizes = length_region_siblings [OF assms(1) region assms(7)]
  obtain m where m: "?c = 2 ^ m" "k < 2 ^ m" using assms(4,5) by (auto simp: checkable_def)
  have "(2 :: nat) ^ m \<le> 2 ^ 16" using c m(1) by simp
  then have m16: "m \<le> 16" by (rule power_le_imp_le_exp [rotated]) simp
  have same: "hash_nodes K ?data i' = hash_nodes K ?w 0" if "i' < 2 ^ m" for i'
    using hash_nodes_repeated [OF length_keccak_of [OF assms(2)]] that m(1) by simp
  have "walk_up K k sibs (hash_nodes K ?w 0) = climb K (\<lambda>l. odd (k div 2 ^ l))
      (\<lambda>l. tree_node K (hash_nodes K ?data) l (sibling_index (j div 2 ^ l))) 0 16 (hash_nodes K ?w 0)"
    unfolding walk_up_def sibs by (simp del: upt_Suc) (rule climb_cong, simp)
  also have "\<dots> = region_root K ?data"
    unfolding region_root_eq using same m m16 assms(5) by (intro uniform_climb [of m]) simp_all
  finally show ?thesis using sizes leaf region by (simp add: region_proof_def)
qed

section \<open>Accepted responses\<close>

lemma verify_output_ok:
  assumes tree: "epoch_tree K leaves t" "k < length leaves" and index: "input_index_within_epoch v = of_nat k"
    and sibs1: "length (output_hash_in_output_hashes_siblings v) = 16"
      "\<forall>h \<in> set (output_hash_in_output_hashes_siblings v). length h = hash_size"
      "walk_up K k (output_hash_in_output_hashes_siblings v) u = leaves ! k"
    and sibs2: "length (output_hashes_in_epoch_siblings v) = 32"
      "\<forall>h \<in> set (output_hashes_in_epoch_siblings v). length h = hash_size"
      "walk_up K k (output_hashes_in_epoch_siblings v) (leaves ! k) = root"
    and root: "cmt_get_root_hash t = Inr root" "length root = hash_size"
  shows "verify_output K t (Inr u) root (leaves ! k) v kind = Inr ()"
proof -
  have k: "k < 2 ^ 32" using tree epoch_tree_capacity by fastforce
  obtain p1 where "assemble_merkle_proof 21 u (leaves ! k) (output_hash_in_output_hashes_siblings v) (of_nat k) = Inr p1"
      "proof_verify K p1 = Inr True"
    using assemble_merkle_proof_verify [OF _ _ _ sibs1(2) k, of 21 u "leaves ! k" K] sibs1 by auto
  moreover obtain p2 where "assemble_merkle_proof 37 (leaves ! k) root (output_hashes_in_epoch_siblings v) (of_nat k) = Inr p2"
      "proof_verify K p2 = Inr True"
    using assemble_merkle_proof_verify [OF _ _ _ sibs2(2) k, of 37 "leaves ! k" root K] sibs2 by auto
  ultimately show ?thesis
    using epoch_tree_node [OF tree] root
    by (simp add: verify_output_def index leaf_address_def [symmetric] assert_bool_def region_size get_proto_hash_def
        LOG2_ROOT_SIZE_def)
qed

lemma epoch_root:
  assumes "keccak_256 K" "epoch_tree K leaves t"
  shows "\<exists>root. cmt_get_root_hash t = Inr root \<and> length root = hash_size"
proof -
  have "length (tree_node K f (Suc l) i) = hash_size" for f l i
    using assms(1) by (simp add: length_concat_hash)
  from this [of _ 31] show ?thesis using epoch_tree_root [OF assms(2)] by (simp add: spec_root_def)
qed

lemma epoch_tree_same_root: "epoch_tree K leaves t \<Longrightarrow> epoch_tree K leaves t' \<Longrightarrow> cmt_get_root_hash t = cmt_get_root_hash t'"
  using epoch_tree_root by metis

lemma epoch_trees_leaves: "epoch_ok K e \<Longrightarrow> epoch_tree K (map (leaf_of kind) (processed_inputs e)) (tree_of kind e)"
  by (cases kind) (simp_all add: epoch_ok_def tree_of_def leaf_of_def [abs_def])

text \<open>
  The response agrees with the epoch in its roots and its machine hash.
\<close>

definition response_of :: "epoch_type \<Rightarrow> finish_epoch_response \<Rightarrow> bool" where
  "response_of e r \<longleftrightarrow> cmt_get_root_hash (vouchers_tree e) = Inr (fe_vouchers_epoch_root_hash r) \<and>
     cmt_get_root_hash (notices_tree e) = Inr (fe_notices_epoch_root_hash r) \<and> fe_machine_hash r = most_recent_machine_hash e"

lemma response_of_epoch: "set_proto_finish_epoch_response e = Inr r \<Longrightarrow> response_of e r"
  by (auto simp: set_proto_finish_epoch_response_def response_of_def bindR_eq_Inr set_proto_hash_def)

lemma verify_message:
  assumes K: "keccak_256 K" and hex: "decodes_pairs hex" and ok: "epoch_ok K e"
    and e': "e' = e\<lparr>state := epoch_finished, processed_inputs := processed_inputs e'\<rparr>"
    and k: "k < length (processed_inputs e)" "i = processed_inputs e ! k" "refreshed K e k i (processed_inputs e' ! k)"
    and proofs: "\<And>kind. cmt_get_proof (tree_of kind e) (leaf_address (of_nat k)) LOG2_KECCAK_SIZE =
      Inr (in_epoch_of kind (processed_inputs e' ! k))"
    and m: "message_of e' (processed_inputs e' ! k) m"
    and expected: "\<And>kind. expected_outputs K hex k i kind" "\<And>kind. checkable k (length (hashes_of kind i))"
    and sizes: "\<And>kind. \<forall>h \<in> set (map (leaf_of kind) (processed_inputs e)). length h = hash_size"
    and trees: "epoch_trees_ok K (map (leaf_of VOUCHER) (processed_inputs e)) (map (leaf_of NOTICE) (processed_inputs e)) trees"
    and r: "response_of e r" "fe_machine_hash r \<noteq> []"
  shows "verify_proof K hex r (epoch_index e) trees m = Inr ()"
proof -
  let ?leaves = "\<lambda>kind. map (leaf_of kind) (processed_inputs e)"
  have same: "hashes_of kind (processed_inputs e' ! k) = hashes_of kind i"
      "epoch_input_index (processed_inputs e' ! k) = of_nat k" for kind
    using refreshed_leaf [OF k(3)] ok k(1,2) by (simp_all add: hashes_of_def epoch_ok_def)
  obtain kind j where j: "j < length (hashes_of kind i)"
      "output_proof_message e' (processed_inputs e' ! k) kind (in_epoch_of kind (processed_inputs e' ! k)) (of_nat j)
         (hashes_of kind i ! j) = Inr m"
    using m same(1) unfolding message_of_def by auto
  let ?v = "op_validity m"
  obtain kk where kk: "hashes_of kind i ! j = Some kk" and fields: "op_output_index m = of_nat j" "op_output_enum m = kind"
      "op_context m = abi_word (epoch_index e)" "input_index_within_epoch ?v = of_nat k" "output_index_within_input ?v = of_nat j"
      "output_hashes_root_hash ?v = mtp_root_hash (keccak_in_hashes kk)"
      "vouchers_epoch_root_hash ?v = fe_vouchers_epoch_root_hash r" "notices_epoch_root_hash ?v = fe_notices_epoch_root_hash r"
      "machine_state_hash ?v = fe_machine_hash r"
      and sib1: "proto_siblings (keccak_in_hashes kk) = Inr (output_hash_in_output_hashes_siblings ?v)"
      and sib2: "proto_siblings (in_epoch_of kind (processed_inputs e' ! k)) = Inr (output_hashes_in_epoch_siblings ?v)"
    using output_proof_message_fields [OF j(2)] r(1) same(2) by (subst (asm) (1 2 3 4 5) e') (auto simp: response_of_def)
  note walk1 = expected_walk [OF K hex expected(1) expected(2) j(1) kk sib1]
  have leaf: "?leaves kind ! k = leaf_of kind i" "k < length (?leaves kind)" using k by simp_all
  obtain root where root: "cmt_get_root_hash (tree_of kind e) = Inr root" "length root = hash_size"
    using epoch_root [OF K epoch_trees_leaves [OF ok]] by blast
  have walk2: "length (output_hashes_in_epoch_siblings ?v) = 32" "\<forall>h \<in> set (output_hashes_in_epoch_siblings ?v). length h = hash_size"
      "walk_up K k (output_hashes_in_epoch_siblings ?v) (leaf_of kind i) = root"
    using epoch_siblings [OF K epoch_trees_leaves [OF ok] sizes leaf(2) proofs] sib2 root(1) leaf(1) by auto
  let ?t = "case kind of VOUCHER \<Rightarrow> fst trees | NOTICE \<Rightarrow> snd trees"
  have t: "epoch_tree K (?leaves kind) ?t" using trees by (cases kind) (simp_all add: epoch_trees_ok_def)
  have troot: "cmt_get_root_hash ?t = Inr root" using epoch_tree_same_root [OF t epoch_trees_leaves [OF ok]] root(1) by simp
  have checked: "verify_output K ?t (Inr (hash_nodes K (keccak_of hex kind k) 0)) root (leaf_of kind i) ?v s = Inr ()" for s
    using verify_output_ok [OF t leaf(2) fields(4) _ _ _ walk2(1,2) _ troot root(2)] walk1 walk2(3) leaf(1) by simp
  have nonempty: "fe_vouchers_epoch_root_hash r \<noteq> []" "fe_notices_epoch_root_hash r \<noteq> []"
    using epoch_root [OF K epoch_trees_leaves [OF ok, of VOUCHER]] epoch_root [OF K epoch_trees_leaves [OF ok, of NOTICE]] r(1)
    by (auto simp: response_of_def tree_of_def hash_size_def)
  have out: "mtp_root_hash (keccak_in_hashes kk) = leaf_of kind i" "length (leaf_of kind i) = hash_size"
    using walk1 sizes [of kind] leaf nth_mem [OF leaf(2)] by auto
  have "abi_word (epoch_index e) \<noteq> []" using length_abi_word [of "epoch_index e"] by fastforce
  moreover have "leaf_of kind i \<noteq> []" "output_hash_in_output_hashes_siblings ?v \<noteq> []" "output_hashes_in_epoch_siblings ?v \<noteq> []"
    using out(2) walk1 walk2(1) by (auto simp: hash_size_def)
  ultimately have "check_proof_fields r m (epoch_index e) = Inr ()"
    using nonempty r(2) by (simp add: check_proof_fields_def fields out(1) assert_bool_def context_epoch_abi_word)
  moreover have "root = (case kind of VOUCHER \<Rightarrow> fe_vouchers_epoch_root_hash r | NOTICE \<Rightarrow> fe_notices_epoch_root_hash r)"
    using root(1) r(1) by (cases kind) (simp_all add: response_of_def tree_of_def)
  ultimately show ?thesis
    using checked fields out client_keccak_hash [OF hex, of K kind k]
    by (cases kind) (simp_all add: verify_proof_def Let_def get_proto_hash_def get_voucher_keccak_hash_def
        get_notice_keccak_hash_def keccak_of_def)
qed

lemma client_leaves_expected:
  assumes "decodes_pairs hex" "\<And>k kind. k < n \<Longrightarrow> expected_outputs K hex k (is ! k) kind"
    and "\<And>k. k < n \<Longrightarrow> counts k = (of_nat (length (hashes_of VOUCHER (is ! k))), of_nat (length (hashes_of NOTICE (is ! k))))"
  shows "client_leaves K hex counts (\<lambda>k. leaf_of VOUCHER (is ! k)) (\<lambda>k. leaf_of NOTICE (is ! k)) n"
proof -
  have "get_data_hash K (client_ilog2 MEMORY_REGION_LENGTH)
      (concat (replicate (unat (of_nat (length (hashes_of kind (is ! k))) :: u64)) (keccak_of hex kind k))) = Inr (leaf_of kind (is ! k))"
    if "k < n" for k kind
    using client_root_hash [OF assms(1)] assms(2) [OF that, of kind] by (simp add: expected_outputs_def Let_def)
  from this [where kind = VOUCHER] this [where kind = NOTICE] show ?thesis
    using assms(3) by (simp add: client_leaves_def get_voucher_root_hash_def get_notice_root_hash_def keccak_of_def)
qed

lemma expected_outputs_hashed:
  assumes "\<And>k kind. k < length (processed_inputs e) \<Longrightarrow> expected_outputs K hex k (processed_inputs e ! k) kind"
  shows "outputs_hashed e"
proof -
  have "list_all output_hashed (hashes_of kind i)" if mem: "i \<in> set (processed_inputs e)" for i kind
  proof -
    obtain k where "k < length (processed_inputs e)" "i = processed_inputs e ! k" using mem by (auto simp: in_set_conv_nth)
    then show ?thesis
      using assms [of k kind]
      unfolding list_all_length output_hashed_def expected_outputs_def Let_def region_proof_def by blast
  qed
  note ok = this
  show ?thesis
    unfolding outputs_hashed_def
  proof
    fix i assume "i \<in> set (processed_inputs e)"
    from ok [OF this, of VOUCHER] ok [OF this, of NOTICE]
    show "case processed i of
       Accepted_data d \<Rightarrow> list_all output_hashed (map v_hash (vouchers d)) \<and> list_all output_hashed (map n_hash (notices d))
     | Exception_data _ \<Rightarrow> True"
      by (cases "processed i") (simp_all add: hashes_of_def)
  qed
qed

lemma foldR_unit: "(\<And>x. x \<in> set xs \<Longrightarrow> f x = Inr ()) \<Longrightarrow> foldR (\<lambda>x _. f x) xs () = Inr ()"
  by (induction xs) simp_all

lemma new_epoch_tree: "\<exists>t. new_complete_merkle_tree K LOG2_ROOT_SIZE LOG2_KECCAK_SIZE LOG2_KECCAK_SIZE = Inr t \<and> epoch_tree K [] t"
proof -
  obtain t where t: "new_complete_merkle_tree K LOG2_ROOT_SIZE LOG2_KECCAK_SIZE LOG2_KECCAK_SIZE = Inr t"
    using default_epoch_Inr [of K] by (auto simp: default_epoch_def bindR_eq_Inr)
  then show ?thesis using new_complete_config [OF t] by (simp add: epoch_tree_def)
qed

text \<open>The client accepts when the rebuilt trees have the roots of the epoch and every message passes.\<close>

lemma validate_accepts:
  assumes K: "keccak_256 K" and ok: "epoch_ok K e" and r: "response_of e r" "fe_machine_hash r \<noteq> []"
    and assemble: "\<And>t. epoch_trees_ok K [] [] t \<Longrightarrow> \<exists>trees. assemble_output_epoch_trees K hex r n skipped t = Inr trees \<and>
      epoch_trees_ok K (map (leaf_of VOUCHER) (processed_inputs e)) (map (leaf_of NOTICE) (processed_inputs e)) trees \<and>
      (\<forall>m \<in> set (fe_proofs r). verify_proof K hex r (epoch_index e) trees m = Inr ())"
  shows "validate_finish_epoch_response K hex r (epoch_index e) n skipped = Inr ()"
proof -
  obtain t where t: "new_complete_merkle_tree K LOG2_ROOT_SIZE LOG2_KECCAK_SIZE LOG2_KECCAK_SIZE = Inr t" "epoch_tree K [] t"
    using new_epoch_tree by blast
  obtain trees where trees: "assemble_output_epoch_trees K hex r n skipped (t, t) = Inr trees"
      "epoch_trees_ok K (map (leaf_of VOUCHER) (processed_inputs e)) (map (leaf_of NOTICE) (processed_inputs e)) trees"
      "\<forall>m \<in> set (fe_proofs r). verify_proof K hex r (epoch_index e) trees m = Inr ()"
    using assemble [of "(t, t)"] t(2) by (auto simp: epoch_trees_ok_def)
  have roots: "cmt_get_root_hash (fst trees) = Inr (fe_vouchers_epoch_root_hash r)"
      "cmt_get_root_hash (snd trees) = Inr (fe_notices_epoch_root_hash r)"
    using trees(2) r(1) epoch_tree_same_root [OF _ epoch_trees_leaves [OF ok, of VOUCHER]]
      epoch_tree_same_root [OF _ epoch_trees_leaves [OF ok, of NOTICE]]
    by (simp_all add: epoch_trees_ok_def response_of_def tree_of_def)
  have sizes: "length (fe_vouchers_epoch_root_hash r) = hash_size" "length (fe_notices_epoch_root_hash r) = hash_size"
    using epoch_root [OF K] trees(2) roots by (fastforce simp: epoch_trees_ok_def)+
  then have "fe_vouchers_epoch_root_hash r \<noteq> []" "fe_notices_epoch_root_hash r \<noteq> []" by (auto simp: hash_size_def)
  then show ?thesis
    using t(1) trees(1,3) roots sizes r(2) foldR_unit [of "fe_proofs r" "verify_proof K hex r (epoch_index e) trees"]
    by (simp add: validate_finish_epoch_response_def assert_bool_def get_proto_hash_def)
qed

lemma finish_epoch_proofs:
  assumes "epoch_ok K e" "k < length (processed_inputs e)"
  shows "cmt_get_proof (tree_of kind e) (leaf_address (of_nat k)) LOG2_KECCAK_SIZE =
    Inr (in_epoch_of kind (processed_inputs (fst (finish_epoch e)) ! k))"
proof -
  let ?is = "processed_inputs e" and ?is' = "processed_inputs (fst (finish_epoch e))"
  have fin: "finish_inputs (e\<lparr>state := epoch_finished\<rparr>) ?is = (?is', Inr ())"
    using finish_epoch_ok [OF assms(1)]
    by (cases "finish_inputs (e\<lparr>state := epoch_finished\<rparr>) ?is") (auto simp: finish_epoch_def dest: arg_cong [where f = snd])
  have "tree_of kind (e\<lparr>state := epoch_finished\<rparr>) = tree_of kind e" by (cases kind) (simp_all add: tree_of_def)
  moreover have "epoch_input_index (?is ! k) = of_nat k" using assms by (simp add: epoch_ok_def)
  moreover have "cmt_get_proof (tree_of kind (e\<lparr>state := epoch_finished\<rparr>)) (leaf_address (epoch_input_index (?is ! k)))
      LOG2_KECCAK_SIZE = Inr (in_epoch_of kind (?is' ! k))"
    using finish_inputs_proofs [OF fin] assms(2) by blast
  ultimately show ?thesis by simp
qed

lemma assemble_expected:
  assumes hex: "decodes_pairs hex" and mss: "fe_proofs r = concat mss" "blocks mss" "length mss = length is"
    and counts: "\<And>k kind. k < length is \<Longrightarrow> messages_of kind (mss ! k) = length (hashes_of kind (is ! k))"
    and exp: "\<And>k kind. k < length is \<Longrightarrow> expected_outputs K hex k (is ! k) kind"
    and some: "\<And>k. k < length is \<Longrightarrow> \<exists>kind. hashes_of kind (is ! k) \<noteq> []"
    and t: "epoch_trees_ok K [] [] t"
  shows "\<exists>trees. assemble_output_epoch_trees K hex r (of_nat (length is)) skipped t = Inr trees \<and>
    epoch_trees_ok K (map (leaf_of VOUCHER) is) (map (leaf_of NOTICE) is) trees"
proof (cases "mss = []")
  case True
  then have none: "fe_proofs r = []" "is = []" using mss(1,3) by simp_all
  have "\<exists>h. get_data_hash K (client_ilog2 MEMORY_REGION_LENGTH) [] = Inr h"
    using get_data_hash_eq [of 21 "[]" K] by (simp add: region_size)
  then show ?thesis using none t by (cases t) (auto simp: assemble_output_epoch_trees_def)
next
  case False
  have nonempty: "mss ! k \<noteq> []" if "k < length mss" for k
    using some counts that mss(3) by (metis length_0_conv messages_of_simps(1))
  have "client_leaves K hex (\<lambda>k. block_counts (mss ! k)) (\<lambda>k. leaf_of VOUCHER (is ! k)) (\<lambda>k. leaf_of NOTICE (is ! k)) (length mss)"
    using exp mss(3) counts by (intro client_leaves_expected [OF hex]) (simp_all add: block_counts_def)
  moreover have "map (\<lambda>k. leaf_of kind (is ! k)) [0..<length mss] = map (leaf_of kind) is" for kind
    using mss(3) by (intro nth_equalityI) simp_all
  ultimately show ?thesis using assemble_trees [OF mss(2,1) False nonempty _ t] mss(3) by fastforce
qed

lemma expected_response_accepted:
  assumes K: "keccak_256 K" and hex: "decodes_pairs hex" and ok: "epoch_ok K e" and hash: "most_recent_machine_hash e \<noteq> []"
    and expected: "\<forall>k < length (processed_inputs e). \<forall>kind. expected_outputs K hex k (processed_inputs e ! k) kind \<and>
      checkable k (length (hashes_of kind (processed_inputs e ! k)))"
    and some: "\<forall>k < length (processed_inputs e). \<exists>kind. hashes_of kind (processed_inputs e ! k) \<noteq> []"
  shows "\<exists>r. set_proto_finish_epoch_response (fst (finish_epoch e)) = Inr r \<and>
    validate_finish_epoch_response K hex r (epoch_index e) (of_nat (length (processed_inputs e))) skipped = Inr ()"
proof -
  let ?is = "processed_inputs e" and ?e' = "fst (finish_epoch e)"
  have exp: "expected_outputs K hex k (?is ! k) kind" if "k < length ?is" for k kind using expected that by blast
  obtain r where r: "set_proto_finish_epoch_response ?e' = Inr r"
    using finish_response_Inr [OF ok expected_outputs_hashed [OF exp]] by blast
  obtain mss where mss: "fe_proofs r = concat mss" "blocks mss" "length mss = length ?is"
      "?e' = e\<lparr>state := epoch_finished, processed_inputs := processed_inputs ?e'\<rparr>"
      "\<And>k. k < length mss \<Longrightarrow> refreshed K e k (?is ! k) (processed_inputs ?e' ! k)"
      "\<And>k m. k < length mss \<Longrightarrow> m \<in> set (mss ! k) \<Longrightarrow> message_of ?e' (processed_inputs ?e' ! k) m"
      "\<And>k kind. k < length ?is \<Longrightarrow> messages_of kind (mss ! k) = length (hashes_of kind (?is ! k))"
    using response_blocks [OF ok r refl] by auto
  have resp: "response_of e r" using response_of_epoch [OF r] by (subst (asm) mss(4)) (simp add: response_of_def)
  have hash': "fe_machine_hash r \<noteq> []" using hash resp by (simp add: response_of_def)
  have sizes: "\<forall>h \<in> set (map (leaf_of kind) ?is). length h = hash_size" for kind
    using exp length_tree_node [OF K length_hash_nodes [OF K]]
    by (auto simp: expected_outputs_def Let_def region_root_eq in_set_conv_nth)
  have "validate_finish_epoch_response K hex r (epoch_index e) (of_nat (length ?is)) skipped = Inr ()"
  proof (rule validate_accepts [OF K ok resp hash'])
    fix t assume t: "epoch_trees_ok K [] [] t"
    obtain trees where trees: "assemble_output_epoch_trees K hex r (of_nat (length ?is)) skipped t = Inr trees"
        "epoch_trees_ok K (map (leaf_of VOUCHER) ?is) (map (leaf_of NOTICE) ?is) trees"
      using assemble_expected [OF hex mss(1-3) mss(7) exp _ t] some by blast
    have "verify_proof K hex r (epoch_index e) trees m = Inr ()" if mem: "m \<in> set (fe_proofs r)" for m
    proof -
      obtain ms where "ms \<in> set mss" "m \<in> set ms" using mem mss(1) by auto
      then obtain k where k: "k < length mss" "m \<in> set (mss ! k)" by (metis in_set_conv_nth)
      then show ?thesis
        using verify_message [OF K hex ok mss(4) _ refl mss(5) finish_epoch_proofs [OF ok] mss(6) _ _ sizes trees(2) resp hash']
          expected mss(3) by simp
    qed
    with trees show "\<exists>trees. assemble_output_epoch_trees K hex r (of_nat (length ?is)) skipped t = Inr trees \<and>
        epoch_trees_ok K (map (leaf_of VOUCHER) ?is) (map (leaf_of NOTICE) ?is) trees \<and>
        (\<forall>m \<in> set (fe_proofs r). verify_proof K hex r (epoch_index e) trees m = Inr ())" by blast
  qed
  with r show ?thesis by blast
qed

section \<open>What acceptance means\<close>

text \<open>The strings hashed for the root of an epoch tree; a root binds the leaves.\<close>

definition epoch_inputs :: "digest \<Rightarrow> hash_type list \<Rightarrow> bytes set" where
  "epoch_inputs K leaves = tree_inputs K (padded leaves (pristine_leaf K 5 5)) 32 0"

lemma epoch_tree_binding:
  assumes K: "keccak_256 K" and trees: "epoch_tree K vs t" "epoch_tree K ws t'" "cmt_get_root_hash t = cmt_get_root_hash t'"
    and sizes: "\<forall>h \<in> set vs. length h = hash_size" "\<forall>h \<in> set ws. length h = hash_size" "length vs = length ws"
  shows "vs = ws \<or> collides K (epoch_inputs K vs) (epoch_inputs K ws)"
proof -
  let ?p = "pristine_leaf K 5 5"
  have padded: "length (padded hs ?p j) = hash_size" if "\<forall>h \<in> set hs. length h = hash_size" for hs j
    using that K by (auto simp: padded_def pristine_leaf_def zero_word_hash_def keccak_256_def)
  have "tree_node K (padded vs ?p) 32 0 = tree_node K (padded ws ?p) 32 0"
    using epoch_tree_root [OF trees(1)] epoch_tree_root [OF trees(2)] trees(3) by (simp add: spec_root_def LOG2_KECCAK_SIZE_def)
  from tree_node_binding [OF K padded [OF sizes(1)] padded [OF sizes(2)] this]
  consider "\<forall>j < 2 ^ 32. padded vs ?p j = padded ws ?p j" | "collides K (epoch_inputs K vs) (epoch_inputs K ws)" by (auto simp: epoch_inputs_def)
  then show ?thesis
  proof cases
    case 1
    have "vs ! j = ws ! j" if "j < length vs" for j
    proof -
      have "j < 2 ^ 32" using that epoch_tree_capacity [OF trees(1)] by simp
      with 1 have "padded vs ?p j = padded ws ?p j" by blast
      then show ?thesis using that sizes(3) by (simp add: padded_def)
    qed
    then show ?thesis using sizes(3) by (simp add: list_eq_iff_nth_eq)
  qed blast
qed

lemma assert_bool_Inr [result_splits]: "assert_bool v msg = Inr u \<longleftrightarrow> v"
  by (simp add: assert_bool_def)

text \<open>What the client has established when it accepts.\<close>

lemma validate_acceptsD:
  assumes "validate_finish_epoch_response K hex r epoch n skipped = Inr u"
  shows "\<exists>t trees. epoch_trees_ok K [] [] t \<and> assemble_output_epoch_trees K hex r n skipped t = Inr trees \<and>
    cmt_get_root_hash (fst trees) = Inr (fe_vouchers_epoch_root_hash r) \<and>
    cmt_get_root_hash (snd trees) = Inr (fe_notices_epoch_root_hash r) \<and>
    foldR (\<lambda>pr _. verify_proof K hex r epoch trees pr) (fe_proofs r) () = Inr ()"
proof -
  obtain t where t: "new_complete_merkle_tree K LOG2_ROOT_SIZE LOG2_KECCAK_SIZE LOG2_KECCAK_SIZE = Inr t" "epoch_tree K [] t"
    using new_epoch_tree by blast
  then have "\<exists>trees. assemble_output_epoch_trees K hex r n skipped (t, t) = Inr trees \<and>
    cmt_get_root_hash (fst trees) = Inr (fe_vouchers_epoch_root_hash r) \<and>
    cmt_get_root_hash (snd trees) = Inr (fe_notices_epoch_root_hash r) \<and>
    foldR (\<lambda>pr _. verify_proof K hex r epoch trees pr) (fe_proofs r) () = Inr ()"
    using assms unfolding validate_finish_epoch_response_def
    by (auto simp: bindR_eq_Inr assert_bool_Inr get_proto_hash_def split: if_splits)
  moreover have "epoch_trees_ok K [] [] (t, t)" using t(2) by (simp add: epoch_trees_ok_def)
  ultimately show ?thesis by blast
qed

lemma foldR_unitD: "foldR (\<lambda>x _. f x) xs () = Inr () \<Longrightarrow> x \<in> set xs \<Longrightarrow> f x = Inr ()"
  by (induction xs) (auto simp: bindR_eq_Inr)

lemma get_data_hash_size:
  assumes "keccak_256 K" "8 dvd length data" "3 < r" "get_data_hash K r data = Inr h"
  shows "length h = hash_size"
proof -
  obtain t t' where "new_complete_merkle_tree K r 3 3 = Inr t" "foldR (cmt_push_back K) (word_hashes K data) t = Inr t'"
      "cmt_get_root_hash t' = Inr h"
    using assms(4) push_words_eq [OF assms(2)] by (auto simp: get_data_hash_def LOG2_WORD_SIZE_def bindR_eq_Inr)
  then have "h = tree_node K (padded (word_hashes K data) (pristine_leaf K 3 3)) (nat (r - 3)) 0"
    using pushed_config complete.root_spec by (metis spec_root_def sum.inject(2))
  moreover obtain l where "nat (r - 3) = Suc l" using assms(3) by (cases "nat (r - 3)") auto
  ultimately show ?thesis using assms(1) by (simp add: length_concat_hash)
qed

lemma client_leaves_sizes:
  assumes "keccak_256 K" "decodes_pairs hex" "client_leaves K hex counts vh nh n"
  shows "\<forall>h \<in> set (map vh [0..<n]). length h = hash_size" "\<forall>h \<in> set (map nh [0..<n]). length h = hash_size"
proof -
  have size: "length h = hash_size" if "length w = 32" "get_data_hash K 21 (concat (replicate c w)) = Inr h" for c w h
    using get_data_hash_size [OF assms(1) _ _ that(2)] length_repeated [of c w] that(1) by (simp add: repeated_def)
  have "length (vh k) = hash_size" "length (nh k) = hash_size" if "k < n" for k
    using assms(3) that size [OF length_keccaks(1) [OF assms(2)]] size [OF length_keccaks(2) [OF assms(2)]]
    unfolding client_leaves_def get_voucher_root_hash_def get_notice_root_hash_def region_size by blast+
  then show "\<forall>h \<in> set (map vh [0..<n]). length h = hash_size" "\<forall>h \<in> set (map nh [0..<n]). length h = hash_size"
    by auto
qed

lemma accepted_leaves:
  assumes K: "keccak_256 K" and hex: "decodes_pairs hex" and ok: "epoch_ok K e"
    and r: "set_proto_finish_epoch_response (fst (finish_epoch e)) = Inr r" "fe_proofs r \<noteq> []"
    and sizes: "\<And>kind. \<forall>h \<in> set (map (leaf_of kind) (processed_inputs e)). length h = hash_size"
    and accepted: "validate_finish_epoch_response K hex r epoch (of_nat (length (processed_inputs e))) skipped = Inr u"
  shows "\<exists>vh nh. client_leaves K hex (\<lambda>k. (of_nat (length (hashes_of VOUCHER (processed_inputs e ! k))),
        of_nat (length (hashes_of NOTICE (processed_inputs e ! k))))) vh nh (length (processed_inputs e)) \<and>
    (\<forall>kind. let committed = map (leaf_of kind) (processed_inputs e);
                computed = map (case kind of VOUCHER \<Rightarrow> vh | NOTICE \<Rightarrow> nh) [0..<length (processed_inputs e)]
            in committed = computed \<or> collides K (epoch_inputs K committed) (epoch_inputs K computed))"
proof -
  let ?is = "processed_inputs e"
  obtain mss where mss: "fe_proofs r = concat mss" "blocks mss" "length mss = length ?is"
      "\<And>k kind. k < length ?is \<Longrightarrow> messages_of kind (mss ! k) = length (hashes_of kind (?is ! k))"
    using response_blocks [OF ok r(1) refl] by auto
  obtain t trees where trees: "epoch_trees_ok K [] [] t" "assemble_output_epoch_trees K hex r (of_nat (length mss)) skipped t = Inr trees"
      "cmt_get_root_hash (fst trees) = Inr (fe_vouchers_epoch_root_hash r)"
      "cmt_get_root_hash (snd trees) = Inr (fe_notices_epoch_root_hash r)"
    using validate_acceptsD [OF accepted] mss(3) by auto
  have "concat mss \<noteq> []" using r(2) mss(1) by simp
  from assemble_treesD [OF mss(2,1) this trees(1,2)] obtain vh nh where
      leaves: "client_leaves K hex (\<lambda>k. block_counts (mss ! k)) vh nh (length mss)"
      and rebuilt: "epoch_trees_ok K (map vh [0..<length mss]) (map nh [0..<length mss]) trees" by blast
  have roots: "cmt_get_root_hash (vouchers_tree e) = cmt_get_root_hash (fst trees)"
      "cmt_get_root_hash (notices_tree e) = cmt_get_root_hash (snd trees)"
    using finish_epoch_ok [OF ok] response_of_epoch [OF r(1)] trees(3,4) by (auto simp: response_of_def)
  have rebuilt': "epoch_tree K (map vh [0..<length mss]) (fst trees)" "epoch_tree K (map nh [0..<length mss]) (snd trees)"
    using rebuilt by (simp_all add: epoch_trees_ok_def)
  have "map (leaf_of VOUCHER) ?is = map vh [0..<length mss] \<or>
      collides K (epoch_inputs K (map (leaf_of VOUCHER) ?is)) (epoch_inputs K (map vh [0..<length mss]))"
    by (rule epoch_tree_binding [OF K epoch_trees_leaves [OF ok] rebuilt'(1) _ sizes client_leaves_sizes(1) [OF K hex leaves]])
      (simp_all add: roots tree_of_def mss(3))
  moreover have "map (leaf_of NOTICE) ?is = map nh [0..<length mss] \<or>
      collides K (epoch_inputs K (map (leaf_of NOTICE) ?is)) (epoch_inputs K (map nh [0..<length mss]))"
    by (rule epoch_tree_binding [OF K epoch_trees_leaves [OF ok] rebuilt'(2) _ sizes client_leaves_sizes(2) [OF K hex leaves]])
      (simp_all add: roots tree_of_def mss(3))
  moreover have "client_leaves K hex (\<lambda>k. (of_nat (length (hashes_of VOUCHER (?is ! k))), of_nat (length (hashes_of NOTICE (?is ! k)))))
      vh nh (length ?is)"
    using leaves mss(3,4) by (simp add: client_leaves_def block_counts_def)
  ultimately show ?thesis using mss(3) by (intro exI [of _ vh] exI [of _ nh]) (simp add: Let_def split: output_enum.split)
qed

section \<open>Displaced outputs\<close>

text \<open>The node of an all-zero hash.\<close>

definition zero_node :: "digest \<Rightarrow> hash_type" where
  "zero_node K = pristine_node K (zero_word_hash K 3) 2"

lemma hash_nodes_beyond:
  assumes "length w = 32" "c \<le> j"
  shows "hash_nodes K (repeated c w) j = zero_node K"
proof -
  have "word_leaf K (repeated c w) i = zero_word_hash K 3" if "j * 2 ^ 2 \<le> i" for i
    using assms that by (simp add: padded_def length_repeated)
  then show ?thesis unfolding hash_nodes_def zero_node_def by (intro tree_node_pristine) simp
qed

text \<open>The strings hashed for data of the size of a hash.\<close>

definition hash_strings :: "digest \<Rightarrow> bytes \<Rightarrow> bytes set" where
  "hash_strings K w = tree_inputs K (word_leaf K w) 2 0 \<union> (\<lambda>j. take 8 (drop (8 * j) w)) ` {..<4}"

lemma word_leaf_zero: "word_leaf K (replicate 32 0) = (\<lambda>_. zero_word_hash K 3)"
  by (auto simp: fun_eq_iff padded_def word_hashes_def zero_word_hash_def)

lemma hash_nodes_zero: "hash_nodes K (replicate 32 0) i = zero_node K"
  by (simp add: hash_nodes_def word_leaf_zero tree_node_const zero_node_def)

text \<open>Only the zero hash has the node of the zero hash.\<close>

lemma zero_node_unique:
  assumes K: "keccak_256 K" and w: "length w = 32" "hash_nodes K w 0 = zero_node K"
  shows "w = replicate 32 0 \<or> collides K (hash_strings K w) (hash_strings K (replicate 32 0))"
proof (rule disjCI)
  assume none: "\<not> collides K (hash_strings K w) (hash_strings K (replicate 32 0))"
  have leaf: "length (word_leaf K v j) = hash_size" for v j
    using K by (auto simp: padded_def word_hashes_def zero_word_hash_def keccak_256_def)
  have "tree_node K (word_leaf K w) 2 0 = tree_node K (word_leaf K (replicate 32 0)) 2 0"
    using w(2) hash_nodes_zero [of K 0] by (simp add: hash_nodes_def)
  moreover have "\<not> collides K (tree_inputs K (word_leaf K w) 2 0) (tree_inputs K (word_leaf K (replicate 32 0)) 2 0)"
    using none collides_mono [of K "tree_inputs K (word_leaf K w) 2 0"] by (auto simp: hash_strings_def)
  ultimately have "word_leaf K w j = zero_word_hash K 3" if "j < 4" for j
    using tree_node_binding [OF K leaf leaf, where l = 2 and i = 0] that by (fastforce simp: word_leaf_zero)
  then have eq: "K (take 8 (drop (8 * j) w)) = K (replicate 8 0)" if "j < 4" for j
    using that w(1) by (auto simp: padded_def word_hashes_def zero_word_hash_def)
  have in_zero: "replicate 8 0 \<in> hash_strings K (replicate 32 0)"
    by (auto simp: hash_strings_def intro!: image_eqI [of _ _ 0])
  have word: "take 8 (drop (8 * j) w) = replicate 8 0" if j: "j < 4" for j
  proof (rule ccontr)
    assume "take 8 (drop (8 * j) w) \<noteq> replicate 8 0"
    then have "collision K (take 8 (drop (8 * j) w)) (replicate 8 0)" using eq [OF j] by (simp add: collision_def)
    moreover have "take 8 (drop (8 * j) w) \<in> hash_strings K w" using j by (auto simp: hash_strings_def)
    ultimately show False using none in_zero collidesI by blast
  qed
  show "w = replicate 32 0"
  proof (rule nth_equalityI)
    fix i assume i: "i < length w"
    then have "take 8 (drop (8 * (i div 8)) w) = replicate 8 0" using w(1) by (intro word) auto
    from arg_cong [OF this, of "\<lambda>xs. xs ! (i mod 8)"] show "w ! i = replicate 32 0 ! i" using i w(1) by simp
  qed (simp add: w(1))
qed

lemma climb_inputs_add:
  "climb_inputs K right sib l (m + n) h =
     climb_inputs K right sib l m h \<union> climb_inputs K right sib (l + m) n (climb K right sib l m h)"
  by (induction m arbitrary: l h) simp_all

lemma climb_inputs_cong:
  assumes "\<And>k. l \<le> k \<Longrightarrow> k < l + n \<Longrightarrow> right k = right' k \<and> sib k = sib' k"
  shows "climb_inputs K right sib l n h = climb_inputs K right' sib' l n h"
  using assms by (induction n arbitrary: l h) simp_all

lemma tree_inputs_mono: "tree_inputs K f l 0 \<subseteq> tree_inputs K f (l + m) 0"
  by (induction m) auto

text \<open>Walking along the left edge of a tree hashes strings of the tree.\<close>

lemma edge_inputs:
  "climb_inputs K (\<lambda>_. False) (\<lambda>l. tree_node K f l 1) l n (tree_node K f l 0) \<subseteq> tree_inputs K f (l + n) 0"
proof (induction n arbitrary: l)
  case 0
  then show ?case by simp
next
  case (Suc n)
  have "tree_node K f l 0 @ tree_node K f l 1 \<in> tree_inputs K f (Suc l + n) 0"
    using tree_inputs_mono [of K f "Suc l" n] by auto
  moreover have "path_step K False (tree_node K f l 1) (tree_node K f l 0) = tree_node K f (Suc l) 0"
    by (simp add: path_step_def)
  ultimately show ?case using Suc [of "Suc l"] by (simp add: path_input_def del: tree_node.simps)
qed

text \<open>
  A single output is at position 0. Looking for it at another position succeeds only with a
  collision, or when the output hash is zero.
\<close>

lemma displaced_climb:
  fixes u z :: hash_type and k :: nat
  assumes K: "keccak_256 K" and f: "f = (\<lambda>i :: nat. if i = 0 then u else z)" and sizes: "length u = hash_size" "length z = hash_size"
    and k: "0 < k" "k < 2 ^ n"
    and walk: "climb K (\<lambda>l. odd (k div 2 ^ l)) (\<lambda>l. tree_node K f l 1) 0 n u = tree_node K f n 0"
  shows "u = z \<or> collides K (climb_inputs K (\<lambda>l. odd (k div 2 ^ l)) (\<lambda>l. tree_node K f l 1) 0 n u \<union> tree_inputs K f n 0)
    (tree_inputs K f n 0 \<union> tree_inputs K (\<lambda>_. z) n 0)" (is "_ \<or> collides K (?W \<union> ?T) (?T \<union> ?Z)")
proof (rule disjCI)
  assume none: "\<not> collides K (?W \<union> ?T) (?T \<union> ?Z)"
  then have apart: "\<not> collides K A B" if "A \<subseteq> ?W \<union> ?T" "B \<subseteq> ?T \<union> ?Z" for A B
    using collides_mono that by blast
  let ?right = "\<lambda>l. odd (k div 2 ^ l)" and ?sib = "\<lambda>l. tree_node K f l 1"
  let ?c = "\<lambda>l. climb K ?right ?sib 0 l u"
  obtain b where b: "2 ^ b \<le> k" "k < 2 ^ Suc b" using k(1) ex_power_ivl1 [of 2 k] by auto
  have "(2 :: nat) ^ b < 2 ^ n" using b(1) k(2) by linarith
  then have bn: "Suc b \<le> n" using power_less_imp_less_exp [of "2 :: nat" b n] by simp
  have len: "length (f j) = hash_size" for j using f sizes by simp
  have node: "length (tree_node K f l i) = hash_size" for l i using length_tree_node [OF K len] by simp
  have walked: "length (?c l) = hash_size" for l
    using sizes(1) K by (cases l) (simp_all add: climb.simps(1) climb_Suc_last length_path_step del: climb.simps(2))
  have "k div 2 ^ b = 1" using b by (intro div_nat_eqI) simp_all
  then have bit: "odd (k div 2 ^ b)" by simp
  have above: "even (k div 2 ^ l)" if "Suc b \<le> l" for l
  proof -
    have "(2 :: nat) ^ Suc b \<le> 2 ^ l" using that by (rule power_increasing) simp
    then have "k div 2 ^ l = 0" using b(2) by (intro div_less) linarith
    then show ?thesis by simp
  qed
  have W: "?W = climb_inputs K ?right ?sib 0 b u \<union> {path_input True (?sib b) (?c b)} \<union>
      climb_inputs K (\<lambda>_. False) ?sib (Suc b) (n - Suc b) (?c (Suc b))"
    using climb_inputs_add [of K ?right ?sib 0 "Suc b" "n - Suc b" u] climb_inputs_add [of K ?right ?sib 0 b 1 u] bn bit
      climb_inputs_cong [of "Suc b" "n - Suc b" ?right "\<lambda>_. False" ?sib ?sib K] above
    by (simp del: climb_inputs.simps(2) climb.simps) (simp add: climb_inputs.simps)
  have "climb K (\<lambda>_. False) ?sib (Suc b) (n - Suc b) (tree_node K f (Suc b) 0) = tree_node K f n 0"
    using tree.climb_levels [where base = 0 and l = "Suc b" and K = K and f = f and a = 0 and n = "n - Suc b"] bn
    by (simp add: sibling_index_def)
  moreover have "climb K (\<lambda>_. False) ?sib (Suc b) (n - Suc b) (?c (Suc b)) = tree_node K f n 0"
    using climb_cong [of "Suc b" "n - Suc b" "\<lambda>_. False" ?right ?sib ?sib K] above
      climb_add [of K ?right ?sib 0 "Suc b" "n - Suc b" u] walk bn by simp
  ultimately have "?c (Suc b) = tree_node K f (Suc b) 0 \<or>
      collides K (climb_inputs K (\<lambda>_. False) ?sib (Suc b) (n - Suc b) (?c (Suc b)))
        (climb_inputs K (\<lambda>_. False) ?sib (Suc b) (n - Suc b) (tree_node K f (Suc b) 0))"
    using climb_binding [OF K _ walked node, of "\<lambda>_. False" ?sib "Suc b" "n - Suc b" "Suc b" ?sib] node by metis
  moreover have "climb_inputs K (\<lambda>_. False) ?sib (Suc b) (n - Suc b) (tree_node K f (Suc b) 0) \<subseteq> ?T"
    using edge_inputs [of K f "Suc b" "n - Suc b"] bn by simp
  moreover have "climb_inputs K (\<lambda>_. False) ?sib (Suc b) (n - Suc b) (?c (Suc b)) \<subseteq> ?W" unfolding W by blast
  ultimately have "?c (Suc b) = tree_node K f (Suc b) 0" using apart by blast
  then have "concat_hash K (tree_node K f b 1) (?c b) = concat_hash K (tree_node K f b 0) (tree_node K f b 1)"
    using bit by (simp add: climb_Suc_last path_step_def del: climb.simps)
  moreover have "tree_node K f b 1 @ ?c b \<in> ?W" unfolding W by (simp add: path_input_def)
  moreover have "tree_node K f b 0 @ tree_node K f b 1 \<in> ?T" using tree_inputs_mono [of K f "Suc b" "n - Suc b"] bn by auto
  ultimately have "tree_node K f b 0 = tree_node K f b 1"
    using concat_hash_eqD [of K "tree_node K f b 1" "?c b" "tree_node K f b 0" "tree_node K f b 1"] node none
    by (metis UnI1 collidesI)
  also have "\<dots> = tree_node K (\<lambda>_. z) b 0" using tree_node_pristine [of 1 b f z K] f by (simp add: tree_node_const)
  finally have "f 0 = z \<or> collides K (tree_inputs K f b 0) (tree_inputs K (\<lambda>_. z) b 0)"
    using tree_node_binding [OF K len, where g = "\<lambda>_. z" and l = b and i = 0] sizes(2) by fastforce
  moreover have "tree_inputs K f b 0 \<subseteq> ?T" "tree_inputs K (\<lambda>_. z) b 0 \<subseteq> ?Z"
    using tree_inputs_mono [of K f b "n - b"] tree_inputs_mono [of K "\<lambda>_. z" b "n - b"] bn by simp_all
  ultimately have "f 0 = z" using apart by blast
  then show "u = z" using f by simp
qed

lemma verify_outputD:
  assumes "verify_output K tree expected epoch_root root v kind = Inr u"
  shows "\<exists>target p. expected = Inr target \<and> assemble_merkle_proof 21 target root (output_hash_in_output_hashes_siblings v)
    (input_index_within_epoch v) = Inr p \<and> proof_verify K p = Inr True"
  using assms by (auto simp: verify_output_def Let_def bindR_eq_Inr assert_bool_Inr region_size)

lemma get_proto_hash_Inr: "get_proto_hash x = Inr y \<longleftrightarrow> length x = hash_size \<and> y = x"
  by (auto simp: get_proto_hash_def)

lemma verify_proofD:
  assumes "verify_proof K hex r epoch trees m = Inr u" "decodes_pairs hex" "input_index_within_epoch (op_validity m) = of_nat k"
  shows "\<exists>p. assemble_merkle_proof 21 (hash_nodes K (keccak_of hex (op_output_enum m) k) 0) (output_hashes_root_hash (op_validity m))
    (output_hash_in_output_hashes_siblings (op_validity m)) (of_nat k) = Inr p \<and> proof_verify K p = Inr True"
  using assms(1,3) client_keccak_hash [OF assms(2), of K "op_output_enum m" k]
  by (cases "op_output_enum m")
    (auto simp: verify_proof_def Let_def bindR_eq_Inr get_proto_hash_Inr get_voucher_keccak_hash_def get_notice_keccak_hash_def
      keccak_of_def dest!: verify_outputD)

text \<open>What an accepted only output means: its siblings lead from the position of the input to the root.\<close>

lemma accepted_walk:
  assumes K: "keccak_256 K" and hex: "decodes_pairs hex" and ok: "epoch_ok K e"
    and r: "set_proto_finish_epoch_response (fst (finish_epoch e)) = Inr r"
    and k: "k < length (processed_inputs e)" "k < 2 ^ 16"
    and single: "expected_outputs K hex k (processed_inputs e ! k) kind" "length (hashes_of kind (processed_inputs e ! k)) = 1"
    and accepted: "validate_finish_epoch_response K hex r epoch n skipped = Inr u"
  defines "f \<equiv> hash_nodes K (repeated 1 (keccak_of hex kind k))"
  shows "climb K (\<lambda>l. odd (k div 2 ^ l)) (\<lambda>l. tree_node K f l 1) 0 16 (hash_nodes K (keccak_of hex kind k) 0) = tree_node K f 16 0"
proof -
  let ?i = "processed_inputs e ! k" and ?e' = "fst (finish_epoch e)" and ?w = "keccak_of hex kind k"
  let ?i' = "processed_inputs ?e' ! k"
  obtain mss where mss: "fe_proofs r = concat mss" "blocks mss" "length mss = length (processed_inputs e)"
      "refreshed K e k ?i ?i'" "\<And>m. m \<in> set (mss ! k) \<Longrightarrow> message_of ?e' ?i' m"
      "messages_of kind (mss ! k) = length (hashes_of kind ?i)"
    using response_blocks [OF ok r refl] k(1) by auto
  have "filter (\<lambda>m. op_output_enum m = kind) (mss ! k) \<noteq> []"
    using mss(6) single(2) by (auto simp: messages_of_def)
  then obtain m where m: "m \<in> set (mss ! k)" "op_output_enum m = kind" by (auto simp: filter_empty_conv)
  have same: "hashes_of kd ?i' = hashes_of kd ?i" for kd using refreshed_leaf [OF mss(4)] by (simp add: hashes_of_def)
  obtain kd j where msg: "j < length (hashes_of kd ?i)"
      "output_proof_message ?e' ?i' kd (in_epoch_of kd ?i') (of_nat j) (hashes_of kd ?i ! j) = Inr m"
    using mss(5) [OF m(1)] unfolding message_of_def same by blast
  have "kd = kind" using output_proof_message_fields [OF msg(2)] m(2) by auto
  note j = msg [unfolded this]
  have j0: "j = 0" using j(1) single(2) by simp
  obtain kk where kk: "hashes_of kind ?i ! 0 = Some kk" "output_hashes_root_hash (op_validity m) = mtp_root_hash (keccak_in_hashes kk)"
      "proto_siblings (keccak_in_hashes kk) = Inr (output_hash_in_output_hashes_siblings (op_validity m))"
    using output_proof_message_fields [OF j(2)] j0 by auto
  have region: "region_proof K (repeated 1 ?w) 0 (keccak_in_hashes kk)"
    using single(1,2) kk(1) by (auto simp: expected_outputs_def Let_def)
  let ?sibs = "output_hash_in_output_hashes_siblings (op_validity m)" and ?u = "hash_nodes K ?w 0"
  have index: "input_index_within_epoch (op_validity m) = of_nat k" using mss(2,3) m(1) k(1) by (simp add: blocks_def)
  obtain trees where "foldR (\<lambda>pr _. verify_proof K hex r epoch trees pr) (fe_proofs r) () = Inr ()"
    using validate_acceptsD [OF accepted] by blast
  moreover have "m \<in> set (fe_proofs r)" using m(1) mss(1,3) k(1) by (auto intro: nth_mem)
  ultimately have "verify_proof K hex r epoch trees m = Inr ()" using foldR_unitD by metis
  then obtain p where p: "assemble_merkle_proof 21 ?u (mtp_root_hash (keccak_in_hashes kk)) ?sibs (of_nat k) = Inr p"
      "proof_verify K p = Inr True"
    using verify_proofD [OF _ hex index] m(2) kk(2) by metis
  have "\<exists>p. assemble_merkle_proof 21 ?u (mtp_root_hash (keccak_in_hashes kk)) ?sibs (of_nat k) = Inr p \<and>
      proof_verify K p = Inr (walk_up K k ?sibs ?u = mtp_root_hash (keccak_in_hashes kk))"
    using length_region_siblings [OF K region kk(3)] k(2) by (intro assemble_merkle_proof_verify) simp_all
  then have "walk_up K k ?sibs ?u = mtp_root_hash (keccak_in_hashes kk)" using p by simp
  moreover have "climb K (\<lambda>l. odd (k div 2 ^ l)) (\<lambda>l. tree_node K f l 1) 0 16 ?u = climb K (\<lambda>l. odd (k div 2 ^ l)) ((!) ?sibs) 0 16 ?u"
    unfolding region_siblings [OF region kk(3)] f_def by (rule climb_cong) (simp add: sibling_index_def)
  ultimately show ?thesis
    using region length_region_siblings(1) [OF K region kk(3)] by (simp add: walk_up_def region_proof_def region_root_eq f_def)
qed

text \<open>
  The strings hashed for a region that holds one hash, and those hashed on the way from another
  position.
\<close>

definition region_strings :: "digest \<Rightarrow> bytes \<Rightarrow> bytes set" where
  "region_strings K w = tree_inputs K (hash_nodes K (repeated 1 w)) 16 0 \<union> hash_strings K w"

definition displaced_strings :: "digest \<Rightarrow> bytes \<Rightarrow> nat \<Rightarrow> bytes set" where
  "displaced_strings K w k = climb_inputs K (\<lambda>l. odd (k div 2 ^ l)) (\<lambda>l. tree_node K (hash_nodes K (repeated 1 w)) l 1) 0 16
     (hash_nodes K w 0)"

lemma displaced_output:
  assumes K: "keccak_256 K" and hex: "decodes_pairs hex" and ok: "epoch_ok K e"
    and r: "set_proto_finish_epoch_response (fst (finish_epoch e)) = Inr r"
    and k: "k < length (processed_inputs e)" "0 < k" "k < 2 ^ 16"
    and single: "expected_outputs K hex k (processed_inputs e ! k) kind" "length (hashes_of kind (processed_inputs e ! k)) = 1"
    and accepted: "validate_finish_epoch_response K hex r epoch n skipped = Inr u"
    and w: "w = keccak_of hex kind k" "w \<noteq> replicate 32 0"
  shows "collides K (displaced_strings K w k \<union> region_strings K w) (region_strings K w \<union> region_strings K (replicate 32 0))"
    (is "collides K ?A ?B")
proof -
  let ?u = "hash_nodes K w 0" and ?z = "zero_node K"
  have size: "length w = 32" using length_keccak_of [OF hex] w(1) by simp
  have nodes: "hash_nodes K (repeated 1 w) = (\<lambda>i. if i = 0 then ?u else ?z)"
    using hash_nodes_repeated [of w 0 1 K] hash_nodes_beyond [of w 1 _ K] size by auto
  have zero: "hash_nodes K (repeated 1 (replicate 32 0)) = (\<lambda>_. ?z)"
    using hash_nodes_zero [of K] by (simp add: repeated_def fun_eq_iff)
  have lens: "length ?u = hash_size" "length ?z = hash_size"
    using length_hash_nodes [OF K] hash_nodes_zero [of K 0] by metis+
  note walk = accepted_walk [OF K hex ok r k(1,3) single accepted, folded w(1)]
  from displaced_climb [OF K nodes lens k(2,3) walk]
  have "?u = ?z \<or> collides K ?A ?B"
    using collides_mono [of K _ _ ?A ?B] unfolding displaced_strings_def region_strings_def zero by blast
  moreover have "collides K (hash_strings K w) (hash_strings K (replicate 32 0)) \<Longrightarrow> collides K ?A ?B"
    by (erule collides_mono) (auto simp: region_strings_def)
  ultimately show ?thesis using zero_node_unique [OF K size] w(2) by blast
qed

section \<open>Instances\<close>

lemma region_proof_exists:
  assumes "8 dvd length data" "length data \<le> 2 ^ 21" "j < 2 ^ 16"
  shows "\<exists>p. region_proof K data j p"
proof -
  obtain t where t: "new_complete_merkle_tree K 21 3 3 = Inr t"
    using new_pristine_merkle_tree_Inr [of 3 21 K] by (auto simp: new_complete_merkle_tree_def check_log2_sizes_def)
  obtain t' where t': "complete_config K 21 3 3 (word_hashes K data) t'"
    using complete.push_all [OF new_complete_config [OF t], of "word_hashes K data"] div_le_mono [OF assms(2), of 8] by auto
  then have inv: "complete_inv K (word_hashes K data) t'" and sizes: "cmt_log2_root_size t' = 21" "cmt_log2_leaf_size t' = 3"
      and leaf: "cmt_pristine_leaf K t' = zero_word_hash K 3"
    using complete_config_leaf [OF t'] by (simp_all add: complete_config_def pristine_leaf_def)
  let ?a = "leaf_address (of_nat j)"
  have a: "unat ?a = j * 32" using unat_leaf_address [of j] assms(3) by (simp add: KECCAK_SIZE_def LOG2_KECCAK_SIZE_def)
  then have "?a = push_bit (nat 5) (drop_bit (nat 5) ?a)" using aligned_iff [of ?a 5] by simp
  then obtain p where p: "proof_wf p" "mtp_log2_target_size p = 5" "mtp_log2_root_size p = 21"
      "mtp_root_hash p = region_root K data"
      "\<And>k. 5 \<le> k \<Longrightarrow> k < 21 \<Longrightarrow> proof_sibling p k = tree_node K (word_leaf K data) (k - 3) (sibling_index (j * 32 div 2 ^ k))"
    using get_proof_ok [OF inv, of 5 ?a] sizes leaf a assms(3) by (auto simp: spec_root_def)
  have "proof_sibling p (5 + l) = tree_node K (hash_nodes K data) l (sibling_index (j div 2 ^ l))" if "l < 16" for l
  proof -
    have "j * 32 div 2 ^ (5 + l) = j div 2 ^ l" by (simp only: power_add div_mult2_eq) simp
    then show ?thesis using p(5) [of "5 + l"] that tree_node_levels [of K "word_leaf K data" 2 l] by (simp add: hash_nodes_def)
  qed
  then show ?thesis using p(1-4) by (auto simp: region_proof_def)
qed

text \<open>An epoch of a given number of inputs, each of which produced the voucher the client expects.\<close>

lemma expected_epochs:
  assumes hex: "decodes_pairs hex" and n: "n \<le> epoch_capacity"
  shows "\<exists>e. epoch_ok K e \<and> length (processed_inputs e) = n \<and> most_recent_machine_hash e \<noteq> [] \<and>
    (\<forall>k < n. (\<forall>kind. expected_outputs K hex k (processed_inputs e ! k) kind) \<and>
       length (hashes_of VOUCHER (processed_inputs e ! k)) = 1 \<and> hashes_of NOTICE (processed_inputs e ! k) = [])"
proof -
  let ?w = "\<lambda>k. repeated 1 (keccak_of hex VOUCHER k)"
  have "\<exists>p. region_proof K (?w k) 0 p" for k
    using length_keccak_of [OF hex] by (intro region_proof_exists) (simp_all add: length_repeated)
  then obtain P where P: "\<And>k. region_proof K (?w k) 0 (P k)" by metis
  define inp where "inp k = \<lparr>input_index = of_nat k, epoch_input_index = of_nat k, pi_machine_hash = zero_hash,
     voucher_hashes_in_epoch = sample_proof, notice_hashes_in_epoch = sample_proof, pi_status = accepted,
     processed = Accepted_data \<lparr>voucher_hashes_in_machine = sample_proof\<lparr>mtp_target_hash := region_root K (?w k)\<rparr>,
       vouchers = [\<lparr>v_destination = replicate 20 1, v_payload = [1, 2],
                    v_hash = Some \<lparr>keccak = keccak_of hex VOUCHER k, keccak_in_hashes = P k\<rparr>\<rparr>],
       notice_hashes_in_machine = sample_proof\<lparr>mtp_target_hash := region_root K []\<rparr>, notices = []\<rparr>,
     pi_reports = []\<rparr>" for k
  have inp: "expected_outputs K hex k (inp k) kind" "length (hashes_of VOUCHER (inp k)) = 1" "hashes_of NOTICE (inp k) = []"
      "epoch_input_index (inp k) = of_nat k" for k kind
    using P by (cases kind; simp add: inp_def expected_outputs_def hashes_of_def leaf_of_def voucher_leaf_def notice_leaf_def
        Let_def repeated_def)+
  obtain t where t: "epoch_tree K [] t" using new_epoch_tree by blast
  have "\<exists>t'. epoch_tree K leaves t'" if "length leaves = n" for leaves
    using complete.push_all [OF t [unfolded epoch_tree_def], of leaves] that n
    by (auto simp: epoch_tree_def LOG2_ROOT_SIZE_def LOG2_KECCAK_SIZE_def)
  then obtain vt nt where trees: "epoch_tree K (map voucher_leaf (map inp [0..<n])) vt" "epoch_tree K (map notice_leaf (map inp [0..<n])) nt"
    by (metis diff_zero length_map length_upt)
  let ?e = "\<lparr>epoch_index = 4, state = epoch_active, most_recent_machine_hash = zero_hash, vouchers_tree = vt, notices_tree = nt,
     processed_inputs = map inp [0..<n], pending_inputs = [], pending_query = None\<rparr>"
  have "zero_hash \<noteq> []" using length_zero_hash by fastforce
  then show ?thesis using trees inp by (intro exI [of _ ?e]) (simp add: epoch_ok_def)
qed

definition sample_hex :: hex_decoder where
  "sample_hex s = replicate (length s div 2) 1"

lemma sample_hex: "decodes_pairs sample_hex" "keccak_of sample_hex kind k \<noteq> replicate 32 0"
proof -
  show hex: "decodes_pairs sample_hex" by (simp add: decodes_pairs_def sample_hex_def)
  have "hd (keccak_of sample_hex kind k) = 1"
    using length_keccak_of [OF hex, of kind k]
    by (auto simp: keccak_of_def get_voucher_keccak_def get_notice_keccak_def sample_hex_def split: output_enum.splits)
  then show "keccak_of sample_hex kind k \<noteq> replicate 32 0" by auto
qed

section \<open>Properties\<close>

text \<open>
  Claim C4. The client's check and the manager agree on correct epochs: when the machine produced
  the outputs the client expects, at least one for every input, and for every input the number
  of its vouchers and that of its notices is zero or a power of two greater than the index of
  the input, then \<open>FinishEpoch\<close> builds a response and the client accepts all of it, roots and
  proofs.
\<close>

theorem client_accepts_response:
  assumes "keccak_256 K" "decodes_pairs hex" "epoch_ok K e" "most_recent_machine_hash e \<noteq> []"
    and "\<forall>k < length (processed_inputs e). \<forall>kind. expected_outputs K hex k (processed_inputs e ! k) kind \<and>
      checkable k (length (hashes_of kind (processed_inputs e ! k)))"
    and "\<forall>k < length (processed_inputs e). \<exists>kind. hashes_of kind (processed_inputs e ! k) \<noteq> []"
  shows "\<exists>r. set_proto_finish_epoch_response (fst (finish_epoch e)) = Inr r \<and>
    validate_finish_epoch_response K hex r (epoch_index e) (of_nat (length (processed_inputs e))) skipped = Inr ()"
  by (rule expected_response_accepted [OF assms])

text \<open>
  Claim C10. Acceptance binds the manager: if the client accepts the response for an epoch with
  outputs, then for every input the client could compute the roots of the outputs it expects, as
  many as the input produced, and these are the leaves the manager committed to, unless two of
  the strings hashed for the two trees collide.
\<close>

theorem client_acceptance_binds:
  assumes "keccak_256 K" "decodes_pairs hex" "epoch_ok K e"
    and "set_proto_finish_epoch_response (fst (finish_epoch e)) = Inr r" "fe_proofs r \<noteq> []"
    and "\<And>kind. \<forall>h \<in> set (map (leaf_of kind) (processed_inputs e)). length h = hash_size"
    and "validate_finish_epoch_response K hex r epoch (of_nat (length (processed_inputs e))) skipped = Inr u"
  shows "\<exists>vh nh. client_leaves K hex (\<lambda>k. (of_nat (length (hashes_of VOUCHER (processed_inputs e ! k))),
        of_nat (length (hashes_of NOTICE (processed_inputs e ! k))))) vh nh (length (processed_inputs e)) \<and>
    (\<forall>kind. let committed = map (leaf_of kind) (processed_inputs e);
                computed = map (case kind of VOUCHER \<Rightarrow> vh | NOTICE \<Rightarrow> nh) [0..<length (processed_inputs e)]
            in committed = computed \<or> collides K (epoch_inputs K committed) (epoch_inputs K computed))"
  by (rule accepted_leaves [OF assms])

text \<open>
  Claim C21. The client looks for every output at the position of its input instead of its own:
  it refuses the correct proof of an only voucher or notice of any input but the first, unless
  two of the strings hashed for the memory region and on the way to its root collide.
\<close>

theorem client_refuses_displaced_output:
  assumes "keccak_256 K" "decodes_pairs hex" "epoch_ok K e"
    and "set_proto_finish_epoch_response (fst (finish_epoch e)) = Inr r"
    and "k < length (processed_inputs e)" "0 < k" "k < 2 ^ 16"
    and "expected_outputs K hex k (processed_inputs e ! k) kind" "length (hashes_of kind (processed_inputs e ! k)) = 1"
    and "w = keccak_of hex kind k" "w \<noteq> replicate 32 0"
  shows "(\<exists>x. validate_finish_epoch_response K hex r epoch n skipped = Inl x) \<or>
    collides K (displaced_strings K w k \<union> region_strings K w) (region_strings K w \<union> region_strings K (replicate 32 0))"
proof (cases "validate_finish_epoch_response K hex r epoch n skipped")
  case (Inr u)
  then show ?thesis using displaced_output [OF assms(1-9) _ assms(10,11)] by blast
qed simp

section \<open>Witnesses\<close>

lemma checked_epoch:
  "\<exists>e. epoch_ok sample_digest e \<and> length (processed_inputs e) = 1 \<and> most_recent_machine_hash e \<noteq> [] \<and>
     length (hashes_of VOUCHER (processed_inputs e ! 0)) = 1 \<and> hashes_of NOTICE (processed_inputs e ! 0) = [] \<and>
     (\<forall>k < length (processed_inputs e). \<forall>kind. expected_outputs sample_digest sample_hex k (processed_inputs e ! k) kind \<and>
        checkable k (length (hashes_of kind (processed_inputs e ! k)))) \<and>
     (\<forall>k < length (processed_inputs e). \<exists>kind. hashes_of kind (processed_inputs e ! k) \<noteq> [])"
proof -
  obtain e where e: "epoch_ok sample_digest e" "length (processed_inputs e) = 1" "most_recent_machine_hash e \<noteq> []"
      "\<And>kind. expected_outputs sample_digest sample_hex 0 (processed_inputs e ! 0) kind"
      "length (hashes_of VOUCHER (processed_inputs e ! 0)) = 1" "hashes_of NOTICE (processed_inputs e ! 0) = []"
    using expected_epochs [OF sample_hex(1), of 1 sample_digest] by auto
  have "checkable 0 (length (hashes_of kind (processed_inputs e ! 0)))" for kind
    using e(5,6) by (cases kind) (auto simp: checkable_def intro: exI [of _ 0])
  moreover have "hashes_of VOUCHER (processed_inputs e ! 0) \<noteq> []" using e(5) by auto
  ultimately show ?thesis using e by (intro exI [of _ e]) auto
qed

theorem client_accepts_response_witness:
  "\<exists>e r. length (processed_inputs e) = 1 \<and> length (hashes_of VOUCHER (processed_inputs e ! 0)) = 1 \<and>
     set_proto_finish_epoch_response (fst (finish_epoch e)) = Inr r \<and>
     validate_finish_epoch_response sample_digest sample_hex r (epoch_index e) 1 False = Inr ()"
proof -
  obtain e where e: "epoch_ok sample_digest e" "length (processed_inputs e) = 1" "most_recent_machine_hash e \<noteq> []"
      "length (hashes_of VOUCHER (processed_inputs e ! 0)) = 1"
      "\<forall>k < length (processed_inputs e). \<forall>kind. expected_outputs sample_digest sample_hex k (processed_inputs e ! k) kind \<and>
        checkable k (length (hashes_of kind (processed_inputs e ! k)))"
      "\<forall>k < length (processed_inputs e). \<exists>kind. hashes_of kind (processed_inputs e ! k) \<noteq> []"
    using checked_epoch by blast
  from client_accepts_response [OF keccak_256_sample_digest sample_hex(1) e(1,3,5,6), of False] show ?thesis
    using e(2,4) by auto
qed

theorem client_acceptance_binds_witness:
  "\<exists>(e :: epoch_type) vh nh. length (processed_inputs e) = 1 \<and> client_leaves sample_digest sample_hex (\<lambda>_. (1, 0)) vh nh 1 \<and>
     (map (leaf_of VOUCHER) (processed_inputs e) = [vh 0] \<or>
      collides sample_digest (epoch_inputs sample_digest (map (leaf_of VOUCHER) (processed_inputs e)))
        (epoch_inputs sample_digest [vh 0]))"
proof -
  obtain e where e: "epoch_ok sample_digest e" "length (processed_inputs e) = 1" "most_recent_machine_hash e \<noteq> []"
      "length (hashes_of VOUCHER (processed_inputs e ! 0)) = 1" "hashes_of NOTICE (processed_inputs e ! 0) = []"
      "\<forall>k < length (processed_inputs e). \<forall>kind. expected_outputs sample_digest sample_hex k (processed_inputs e ! k) kind \<and>
        checkable k (length (hashes_of kind (processed_inputs e ! k)))"
      "\<forall>k < length (processed_inputs e). \<exists>kind. hashes_of kind (processed_inputs e ! k) \<noteq> []"
    using checked_epoch by blast
  obtain r where r: "set_proto_finish_epoch_response (fst (finish_epoch e)) = Inr r"
      "validate_finish_epoch_response sample_digest sample_hex r (epoch_index e) (of_nat (length (processed_inputs e))) False = Inr ()"
    using expected_response_accepted [OF keccak_256_sample_digest sample_hex(1) e(1,3,6,7)] by blast
  have sizes: "\<forall>h \<in> set (map (leaf_of kind) (processed_inputs e)). length h = hash_size" for kind
    using e(2,6) length_tree_node [OF keccak_256_sample_digest length_hash_nodes [OF keccak_256_sample_digest]]
    by (auto simp: expected_outputs_def Let_def region_root_eq in_set_conv_nth)
  have "hashes_of VOUCHER (processed_inputs e ! 0) \<noteq> []" using e(4) by force
  then have "fe_proofs r \<noteq> []" using response_nonempty [OF e(1) r(1), of 0] e(2) by simp
  from client_acceptance_binds [OF keccak_256_sample_digest sample_hex(1) e(1) r(1) this sizes r(2)] obtain vh nh where
    leaves: "client_leaves sample_digest sample_hex (\<lambda>k. (of_nat (length (hashes_of VOUCHER (processed_inputs e ! k))),
        of_nat (length (hashes_of NOTICE (processed_inputs e ! k))))) vh nh (length (processed_inputs e))"
    and eq: "\<forall>kind. let committed = map (leaf_of kind) (processed_inputs e);
                computed = map (case kind of VOUCHER \<Rightarrow> vh | NOTICE \<Rightarrow> nh) [0..<length (processed_inputs e)]
            in committed = computed \<or> collides sample_digest (epoch_inputs sample_digest committed) (epoch_inputs sample_digest computed)"
    by blast
  have "client_leaves sample_digest sample_hex (\<lambda>_. (1, 0)) vh nh 1" using leaves e(2,4,5) by (simp add: client_leaves_def)
  then show ?thesis using e(2) spec [OF eq, of VOUCHER] by (intro exI [of _ e] exI [of _ vh] exI [of _ nh]) (simp add: Let_def)
qed

theorem client_refuses_displaced_output_witness:
  "\<exists>e r. length (processed_inputs e) = 2 \<and> set_proto_finish_epoch_response (fst (finish_epoch e)) = Inr r \<and>
     ((\<exists>x. validate_finish_epoch_response sample_digest sample_hex r (epoch_index e) 2 False = Inl x) \<or>
      collides sample_digest
        (displaced_strings sample_digest (keccak_of sample_hex VOUCHER 1) 1 \<union> region_strings sample_digest (keccak_of sample_hex VOUCHER 1))
        (region_strings sample_digest (keccak_of sample_hex VOUCHER 1) \<union> region_strings sample_digest (replicate 32 0)))"
proof -
  obtain e where e: "epoch_ok sample_digest e" "length (processed_inputs e) = 2"
      "\<And>k kind. k < 2 \<Longrightarrow> expected_outputs sample_digest sample_hex k (processed_inputs e ! k) kind"
      "length (hashes_of VOUCHER (processed_inputs e ! 1)) = 1"
    using expected_epochs [OF sample_hex(1), of 2 sample_digest] by auto
  obtain r where r: "set_proto_finish_epoch_response (fst (finish_epoch e)) = Inr r"
    using finish_response_Inr [OF e(1) expected_outputs_hashed] e(2,3) by metis
  from client_refuses_displaced_output [OF keccak_256_sample_digest sample_hex(1) e(1) r, of 1 VOUCHER _ "epoch_index e" 2 False]
  show ?thesis using e r sample_hex(2) [of VOUCHER 1] by (intro exI [of _ e] exI [of _ r]) simp
qed



end
