(* ===== verification/Conversation.thy ===== *)
theory Conversation
  imports Client_Driver Client_Agreement
begin

text \<open>
  A client program talking to the server. The client sends its next request when it has the reply
  to the last one; meanwhile the completion queue returns the coroutines of the server in any order. No
  other client is there.
\<close>

section \<open>Conversations\<close>

text \<open>What the client gets from a handler that stops at a yield point.\<close>

fun reply_of :: "yield_point \<Rightarrow> call_result option" where
  "reply_of (Finish response) = Some \<lparr>cr_status = status_ok, cr_response = Some response\<rparr>"
| "reply_of (Finish_with_error status) = Some \<lparr>cr_status = status, cr_response = None\<rparr>"
| "reply_of _ = None"

definition reply_at :: "coroutine \<Rightarrow> server \<Rightarrow> call_result option" where
  "reply_at c srv =
     (case um_find (srv_coroutines srv) c of Some (Some (y, k)) \<Rightarrow> reply_of y | _ \<Rightarrow> None)"

text \<open>
  The server on its own: waiting coroutines return. \<open>world\<close> says what a call outside the server may
  deliver.
\<close>

inductive progresses :: "nat \<Rightarrow> digest \<Rightarrow> (yield_point \<Rightarrow> wake \<Rightarrow> bool) \<Rightarrow> server \<Rightarrow> server \<Rightarrow> bool"
  for fuel K world where
  stays: "progresses fuel K world srv srv"
| returns: "progresses fuel K world srv srv1 \<Longrightarrow> um_find (srv_coroutines srv1) c = Some (Some (y, k)) \<Longrightarrow> world y w \<Longrightarrow>
    (\<forall>y. world y (answers y)) \<Longrightarrow> dispatch fuel K answers (Returned c w) srv1 = Running srv2 \<Longrightarrow>
    progresses fuel K world srv srv2"

text \<open>
  The client sends a request when the server has seen the end of every reply it sent before, so
  that the handlers that sent them have left their scopes.
\<close>

inductive conversation :: "nat \<Rightarrow> digest \<Rightarrow> (yield_point \<Rightarrow> wake \<Rightarrow> bool) \<Rightarrow> string \<Rightarrow> server \<Rightarrow>
    (u64, rpc_request, call_result, unit) proc \<Rightarrow> server \<Rightarrow> unit hres \<Rightarrow> bool"
  for fuel K world peer where
  ends: "conversation fuel K world peer srv (Done n r) srv r"
| calls: "progresses fuel K world srv srv0 \<Longrightarrow> (\<forall>c. reply_at c srv0 = None) \<Longrightarrow> (\<forall>y. world y (answers y)) \<Longrightarrow>
    dispatch fuel K answers (Arrived True peer req) srv0 = Running srv1 \<Longrightarrow>
    progresses fuel K world srv1 srv2 \<Longrightarrow> reply_at (srv_next srv0) srv2 = Some res \<Longrightarrow>
    conversation fuel K world peer srv2 (k res n) srv3 r \<Longrightarrow>
    conversation fuel K world peer srv (Suspend n req k) srv3 r"

inductive_cases conversation_DoneE: "conversation fuel K world peer srv (Done n r) srv' r'"
inductive_cases conversation_SuspendE: "conversation fuel K world peer srv (Suspend n req k) srv' r'"

text \<open>A client program passes when it can be run to its end and never ends in a failed assertion.\<close>

definition passes :: "nat \<Rightarrow> digest \<Rightarrow> (yield_point \<Rightarrow> wake \<Rightarrow> bool) \<Rightarrow> string \<Rightarrow> server \<Rightarrow>
    (u64, rpc_request, call_result, unit) proc \<Rightarrow> bool" where
  "passes fuel K world peer srv p \<longleftrightarrow>
     (\<exists>srv' r. conversation fuel K world peer srv p srv' r) \<and>
     (\<forall>srv' r. conversation fuel K world peer srv p srv' r \<longrightarrow> r = Inr ())"

section \<open>A server with no other handler\<close>

definition idle_server :: "handler_context \<Rightarrow> coroutine \<Rightarrow> server" where
  "idle_server h c = \<lparr>srv_context = h, srv_coroutines = [], srv_next = c\<rparr>"

definition waiting_server :: "handler_context \<Rightarrow> yield_point \<Rightarrow> (wake \<Rightarrow> handler_context \<Rightarrow> running) \<Rightarrow> coroutine \<Rightarrow> server" where
  "waiting_server h y k c = \<lparr>srv_context = h, srv_coroutines = [(c, Some (y, k))], srv_next = c + 1\<rparr>"

lemma um_single [simp]:
  "um_find [(c, v)] c' = (if c' = c then Some v else None)" "um_find [] c' = None"
  "um_assign c v' [(c, v)] = [(c, v')]" "um_assign c v [] = [(c, v)]" "um_erase c [(c, v)] = []"
  by (auto simp: um_find_def um_assign_def um_erase_def)

text \<open>The yield points at which the server waits for the completion queue.\<close>

definition pauses :: "yield_point \<Rightarrow> bool" where
  "pauses y \<longleftrightarrow> \<not> atomic_point y \<and> (\<forall>c. y \<noteq> Resume_coroutine c)"

lemma empty_queue: "completion_queue h = [] \<Longrightarrow> h\<lparr>completion_queue := []\<rparr> = h"
  by (cases h) simp

lemma dispatch_arrival:
  assumes "handler_of fuel K c True peer req h = Suspend h1 y k" "pauses y"
  shows "dispatch fuel K answers (Arrived True peer req) (idle_server h c) = Running (waiting_server h1 y k c)"
  using assms by (cases y) (simp_all add: dispatch_def idle_server_def waiting_server_def settle_def park_def Let_def pauses_def)

lemma dispatch_return_suspends:
  assumes "k w h = Suspend h2 y2 k2" "pauses y2" "completion_queue h = []"
  shows "dispatch fuel K answers (Returned c w) (waiting_server h y k c) = Running (waiting_server h2 y2 k2 c)"
  using assms by (cases y2) (simp_all add: dispatch_def waiting_server_def settle_def park_def Let_def pauses_def empty_queue)

lemma dispatch_return_ends:
  assumes "k w h = Done h2 (Inr ())" "completion_queue h = []"
  shows "dispatch fuel K answers (Returned c w) (waiting_server h y k c) = Running (idle_server h2 (c + 1))"
  using assms by (simp add: dispatch_def waiting_server_def idle_server_def settle_def Let_def empty_queue)

lemma dispatch_return_crashes:
  assumes "k w h = Done h2 (Inl x)" "completion_queue h = []"
  shows "dispatch fuel K answers (Returned c w) (waiting_server h y k c) \<noteq> Running srv"
  using assms by (simp add: dispatch_def waiting_server_def settle_def Let_def empty_queue)

lemma progresses_trans:
  "progresses fuel K world srv1 srv2 \<Longrightarrow> progresses fuel K world srv srv1 \<Longrightarrow> progresses fuel K world srv srv2"
  by (induction rule: progresses.induct) (auto intro: progresses.returns)

lemma progresses_closed:
  assumes "progresses fuel K world srv srv'" "P srv"
    and "\<And>s c y k w answers s'. P s \<Longrightarrow> um_find (srv_coroutines s) c = Some (Some (y, k)) \<Longrightarrow> world y w \<Longrightarrow>
      dispatch fuel K answers (Returned c w) s = Running s' \<Longrightarrow> P s'"
  shows "P srv'"
  using assms(1,2) by (induction rule: progresses.induct) (auto intro: assms(3))

lemma idle_progresses:
  assumes "progresses fuel K world (idle_server h c) srv"
  shows "srv = idle_server h c"
  using progresses_closed [OF assms, of "\<lambda>s. s = idle_server h c"] by (auto simp: idle_server_def)

lemma waiting_progresses:
  assumes "progresses fuel K world (waiting_server h y k c) srv" "completion_queue h = []"
    and "\<And>w. world y w \<Longrightarrow> k w h = Done h2 (Inr ())"
  shows "srv = waiting_server h y k c \<or> srv = idle_server h2 (c + 1)"
proof (rule progresses_closed [OF assms(1), where P = "\<lambda>s. s = waiting_server h y k c \<or> s = idle_server h2 (c + 1)"])
  fix s c' y' k' w answers s'
  assume s: "s = waiting_server h y k c \<or> s = idle_server h2 (c + 1)"
    and f: "um_find (srv_coroutines s) c' = Some (Some (y', k'))" and w: "world y' w"
    and d: "dispatch fuel K answers (Returned c' w) s = Running s'"
  from f s have "s = waiting_server h y k c" "c' = c" "y' = y" by (auto simp: idle_server_def waiting_server_def split: if_splits)
  with d w dispatch_return_ends [where k = k and w = w and h = h, OF assms(3) assms(2)]
  show "s' = waiting_server h y k c \<or> s' = idle_server h2 (c + 1)" by simp
qed simp

section \<open>Calls answered at once\<close>

text \<open>
  The handler of a request replies in its first segment and ends when it is resumed after the
  reply; then \<open>Q\<close> holds of the reply and the state.
\<close>

definition answers_call :: "nat \<Rightarrow> digest \<Rightarrow> string \<Rightarrow> (handler_context \<Rightarrow> bool) \<Rightarrow> rpc_request \<Rightarrow>
    (call_result \<Rightarrow> handler_context \<Rightarrow> bool) \<Rightarrow> bool" where
  "answers_call fuel K peer P req Q \<longleftrightarrow>
     (\<forall>h c. P h \<longrightarrow> (\<exists>h1 y k h2 res. handler_of fuel K c True peer req h = Suspend h1 y k \<and>
        completion_queue h1 = [] \<and> reply_of y = Some res \<and> (\<forall>w. k w h1 = Done h2 (Inr ())) \<and> Q res h2))"

definition passes_from :: "nat \<Rightarrow> digest \<Rightarrow> (yield_point \<Rightarrow> wake \<Rightarrow> bool) \<Rightarrow> string \<Rightarrow> (handler_context \<Rightarrow> bool) \<Rightarrow>
    (u64, rpc_request, call_result, unit) proc \<Rightarrow> bool" where
  "passes_from fuel K world peer P p \<longleftrightarrow> (\<forall>h c. P h \<longrightarrow> passes fuel K world peer (idle_server h c) p)"

lemma reply_pauses: "reply_of y = Some res \<Longrightarrow> pauses y"
  by (cases y) (simp_all add: pauses_def)

lemma reply_at_waiting [simp]: "reply_at c' (waiting_server h y k c) = (if c' = c then reply_of y else None)"
  by (simp add: reply_at_def waiting_server_def)

lemma reply_at_idle [simp]: "reply_at c' (idle_server h c) = None"
  by (simp add: reply_at_def idle_server_def)

lemma srv_next_idle [simp]: "srv_next (idle_server h c) = c"
  by (simp add: idle_server_def)

lemma passes_Done [simp]: "passes fuel K world peer srv (Done n r) \<longleftrightarrow> r = Inr ()"
  by (auto simp: passes_def elim: conversation_DoneE intro: conversation.ends)

lemma conversation_progress:
  assumes "conversation fuel K world peer srv1 (Suspend n req k) srv' r" "progresses fuel K world srv srv1"
  shows "conversation fuel K world peer srv (Suspend n req k) srv' r"
  using assms(1)
  by (rule conversation_SuspendE) (blast intro: conversation.calls progresses_trans [OF _ assms(2)])

text \<open>While a reply is on its way the client's next call can only come after the handler has ended.\<close>

lemma passes_after_reply:
  assumes y: "reply_of y = Some res" and q: "completion_queue h = []" and k: "\<And>w. k w h = Done h2 (Inr ())"
    and w: "\<And>y. \<exists>w. world y w" and p: "passes fuel K world peer (idle_server h2 (c + 1)) p"
  shows "passes fuel K world peer (waiting_server h y k c) p"
proof (cases p)
  case (Done n r)
  then show ?thesis using p by simp
next
  case (Suspend n req f)
  obtain answers where answers: "\<And>y. world y (answers y)" using w by metis
  have "progresses fuel K world (waiting_server h y k c) (idle_server h2 (c + 1))"
    using progresses.returns [OF progresses.stays, of "waiting_server h y k c" c y k world "answers y" answers fuel K]
      answers dispatch_return_ends [of k "answers y" h h2 fuel K answers c y, OF k q] by (simp add: waiting_server_def)
  then have "\<exists>srv' r. conversation fuel K world peer (waiting_server h y k c) p srv' r"
    using p unfolding Suspend passes_def by (blast intro: conversation_progress)
  moreover have "conversation fuel K world peer (idle_server h2 (c + 1)) p srv' r"
    if "conversation fuel K world peer (waiting_server h y k c) p srv' r" for srv' r
    using that unfolding Suspend
  proof (rule conversation_SuspendE)
    fix srv0 answers srv1 srv2 res'
    assume step: "progresses fuel K world (waiting_server h y k c) srv0" "\<forall>c. reply_at c srv0 = None"
        "\<forall>y. world y (answers y)" "dispatch fuel K answers (Arrived True peer req) srv0 = Running srv1"
        "progresses fuel K world srv1 srv2" "reply_at (srv_next srv0) srv2 = Some res'"
        "conversation fuel K world peer srv2 (f res' n) srv' r"
    have srv0: "srv0 = idle_server h2 (c + 1)"
      using spec [OF step(2), of c] y waiting_progresses [OF step(1) q, OF k] by auto
    show "conversation fuel K world peer (idle_server h2 (c + 1)) (Suspend n req f) srv' r"
      using conversation.calls [where k = f and n = n, OF progresses.stays step(2-7) [unfolded srv0]] .
  qed
  ultimately show ?thesis using p by (auto simp: passes_def)
qed

lemma passes_calls:
  assumes h: "handler_of fuel K c True peer req h = Suspend h1 y k" and y: "reply_of y = Some res"
    and q: "completion_queue h1 = []" and k: "\<And>w. k w h1 = Done h2 (Inr ())"
    and w: "\<And>y. \<exists>w. world y w" and p: "passes fuel K world peer (idle_server h2 (c + 1)) (f res n)"
  shows "passes fuel K world peer (idle_server h c) (Suspend n req f)"
proof -
  obtain answers where answers: "\<And>y. world y (answers y)" using w by metis
  note arrival = dispatch_arrival [OF h reply_pauses [OF y]]
  have rest: "passes fuel K world peer (waiting_server h1 y k c) (f res n)" by (rule passes_after_reply [where k = k and h = h1, OF y q k w p])
  then obtain srv' r where "conversation fuel K world peer (waiting_server h1 y k c) (f res n) srv' r"
    by (auto simp: passes_def)
  then have "conversation fuel K world peer (idle_server h c) (Suspend n req f) srv' r"
    using conversation.calls [OF progresses.stays _ _ arrival progresses.stays, of world answers res f n] answers y
    by simp
  moreover have "r = Inr ()" if "conversation fuel K world peer (idle_server h c) (Suspend n req f) srv' r" for srv' r
    using that
  proof (rule conversation_SuspendE)
    fix srv0 answers srv1 srv2 res'
    assume step: "progresses fuel K world (idle_server h c) srv0" "\<forall>y. world y (answers y)"
        "dispatch fuel K answers (Arrived True peer req) srv0 = Running srv1"
        "progresses fuel K world srv1 srv2" "reply_at (srv_next srv0) srv2 = Some res'"
        "conversation fuel K world peer srv2 (f res' n) srv' r"
    have srv0: "srv0 = idle_server h c" using idle_progresses [OF step(1)] .
    have "srv1 = waiting_server h1 y k c" using step(3) arrival by (simp add: srv0)
    then have "srv2 = waiting_server h1 y k c" "res' = res"
      using waiting_progresses [of fuel K world h1 y k c srv2, OF _ q, OF _ k] step(4,5) y by (auto simp: srv0)
    then show "r = Inr ()" using rest step(6) by (auto simp: passes_def)
  qed
  ultimately show ?thesis by (auto simp: passes_def)
qed

text \<open>A call answered after one call to the machine server, whatever becomes of the handler after its reply.\<close>

lemma passes_last_call:
  assumes h: "handler_of fuel K c True peer req h = Suspend h1 y k" and y: "pauses y" "reply_of y = None"
    and q: "completion_queue h1 = []" and w: "\<And>y. \<exists>w. world y w"
    and k: "\<And>w. world y w \<Longrightarrow> \<exists>h2 y2 k2. k w h1 = Suspend h2 y2 k2 \<and> reply_of y2 = Some res \<and> completion_queue h2 = [] \<and>
      (\<forall>w. \<exists>h3 r. k2 w h2 = Done h3 r)"
    and p: "f res n = Done n' (Inr ())"
  shows "passes fuel K world peer (idle_server h c) (Suspend n req f)"
proof -
  obtain answers where answers: "\<And>y. world y (answers y)" using w by metis
  note arrival = dispatch_arrival [OF h y(1)]
  obtain h2 y2 k2 where next_h: "k (answers y) h1 = Suspend h2 y2 k2" "reply_of y2 = Some res"
    using k [OF answers] by blast
  have "progresses fuel K world (waiting_server h1 y k c) (waiting_server h2 y2 k2 c)"
    using progresses.returns [OF progresses.stays, of "waiting_server h1 y k c" c y k world "answers y" answers fuel K]
      answers dispatch_return_suspends [where k = k and h = h1, OF next_h(1) reply_pauses [OF next_h(2)] q, of fuel K answers c y]
    by (simp add: waiting_server_def)
  then have "conversation fuel K world peer (idle_server h c) (Suspend n req f) (waiting_server h2 y2 k2 c) (Inr ())"
    using conversation.calls [OF progresses.stays _ _ arrival, of world answers "waiting_server h2 y2 k2 c" res f n] answers
      next_h(2) p by (auto intro: conversation.ends)
  moreover have "r = Inr ()" if "conversation fuel K world peer (idle_server h c) (Suspend n req f) srv' r" for srv' r
    using that
  proof (rule conversation_SuspendE)
    fix srv0 answers srv1 srv2 res'
    assume step: "progresses fuel K world (idle_server h c) srv0" "\<forall>y. world y (answers y)"
        "dispatch fuel K answers (Arrived True peer req) srv0 = Running srv1"
        "progresses fuel K world srv1 srv2" "reply_at (srv_next srv0) srv2 = Some res'"
        "conversation fuel K world peer srv2 (f res' n) srv' r"
    have srv0: "srv0 = idle_server h c" using idle_progresses [OF step(1)] .
    have srv1: "srv1 = waiting_server h1 y k c" using step(3) arrival by (simp add: srv0)
    define P where "P s \<longleftrightarrow> s = waiting_server h1 y k c \<or> (\<exists>h2 y2 k2. s = waiting_server h2 y2 k2 c \<and> reply_of y2 = Some res \<and>
      completion_queue h2 = [] \<and> (\<forall>w. \<exists>h3 r. k2 w h2 = Done h3 r)) \<or> (\<exists>h3 c'. s = idle_server h3 c')" for s
    have "P srv2"
    proof (rule progresses_closed [OF step(4), where P = P])
      show "P srv1" by (simp add: P_def srv1)
      fix s c' y' k' w answers s'
      assume s: "P s" and f: "um_find (srv_coroutines s) c' = Some (Some (y', k'))" and w: "world y' w"
        and d: "dispatch fuel K answers (Returned c' w) s = Running s'"
      from s consider "s = waiting_server h1 y k c"
        | h2 y2 k2 where "s = waiting_server h2 y2 k2 c" "completion_queue h2 = []" "\<forall>w. \<exists>h3 r. k2 w h2 = Done h3 r"
        | h3 c' where "s = idle_server h3 c'"
        unfolding P_def by blast
      then show "P s'"
      proof cases
        case 1
        with f w have "c' = c" "world y w" by (auto simp: waiting_server_def split: if_splits)
        moreover from this(2) obtain h2 y2 k2 where n: "k w h1 = Suspend h2 y2 k2" "reply_of y2 = Some res"
          "completion_queue h2 = []" "\<forall>w. \<exists>h3 r. k2 w h2 = Done h3 r" using k by blast
        ultimately have "s' = waiting_server h2 y2 k2 c"
          using d 1 dispatch_return_suspends [where k = k and h = h1, OF n(1) reply_pauses [OF n(2)] q] by simp
        then show ?thesis using n unfolding P_def by blast
      next
        case 2
        from f 2(1) have c: "c' = c" by (auto simp: waiting_server_def split: if_splits)
        obtain h3 r where r: "k2 w h2 = Done h3 r" using 2(3) by blast
        show ?thesis
        proof (cases r)
          case (Inl x)
          then show ?thesis using d r dispatch_return_crashes [where k = k2 and h = h2, OF _ 2(2)] 2(1) c by simp
        next
          case (Inr u)
          then show ?thesis using d r dispatch_return_ends [where k = k2 and h = h2, OF _ 2(2)] 2(1) c by (auto simp: P_def)
        qed
      next
        case 3
        then show ?thesis using f by (simp add: idle_server_def)
      qed
    qed
    then have "res' = res" using step(5) y(2) by (auto simp: P_def srv0)
    then show "r = Inr ()" using step(6) p by (auto elim: conversation_DoneE)
  qed
  ultimately show ?thesis unfolding passes_def by blast
qed

section \<open>Rules for client programs\<close>

locale client_world =
  fixes fuel :: nat and K :: digest and world :: "yield_point \<Rightarrow> wake \<Rightarrow> bool" and peer :: string
  assumes responds: "\<exists>w. world y w"
begin

abbreviation runs :: "(handler_context \<Rightarrow> bool) \<Rightarrow> (u64, rpc_request, call_result, unit) proc \<Rightarrow> bool" where
  "runs \<equiv> passes_from fuel K world peer"

lemma runs_ret [simp]: "runs P (ret () n)"
  by (simp add: passes_from_def ret_def)

lemma runs_Suspend:
  assumes "answers_call fuel K peer P req Q" "\<And>res. runs (Q res) (f res n)"
  shows "runs P (Suspend n req f)"
  unfolding passes_from_def
proof (intro allI impI)
  fix h c assume "P h"
  then obtain h1 y k h2 res where *: "handler_of fuel K c True peer req h = Suspend h1 y k"
      "reply_of y = Some res" "completion_queue h1 = []" "\<forall>w. k w h1 = Done h2 (Inr ())" "Q res h2"
    using assms(1) unfolding answers_call_def by blast
  show "passes fuel K world peer (idle_server h c) (Suspend n req f)"
    using passes_calls [where k = k and f = f and n = n, OF *(1-3) spec [OF *(4)] responds] assms(2) [of res] *(5)
    by (simp add: passes_from_def)
qed

lemma runs_call:
  assumes "answers_call fuel K peer P req Q" "\<And>res. runs (Q res) (f res n)"
  shows "runs P (bindP (suspend req) f n)"
  using runs_Suspend [where f = f, OF assms] by (simp add: bindP_def suspend_def)

lemma runs_check:
  assumes "m = Inr a" "runs P (f a n)"
  shows "runs P (bindP (check m) f n)"
  using assms by (simp add: check_def lift_res_def bindP_def liftH_def)

lemma runs_fact: "(A \<Longrightarrow> runs P p) \<Longrightarrow> runs (\<lambda>h. A \<and> P h) p"
  unfolding passes_from_def by blast

end

end
