(* ===== verification/Client_Tests.thy ===== *)
theory Client_Tests
  imports Client_Driver
begin

text \<open>
  Test cases of \<^verbatim>\<open>src/src/test-server-manager.cpp\<close> as client programs: those in which the machine is
  only started and shut down. \<open>hex\<close> is the decoder of Crypto++ and \<open>now\<close> the time, as in
  \<open>Client_Driver\<close>; the digest \<open>K\<close> is that of the client's own hasher.
\<close>

section \<open>Shared steps\<close>

text \<open>A call that has to fail with the given code.\<close>

definition expect_refusal :: "string \<Rightarrow> status_code \<Rightarrow> call_result client \<Rightarrow> unit client" where
  "expect_refusal rpcname code call =
     bindP call (\<lambda>r. thenP (ASSERT_STATUS r rpcname False) (ASSERT_STATUS_CODE r rpcname code))"

text \<open>\<open>StartSession\<close> with a valid request, possibly changed, and the assertion that it succeeded.\<close>

definition with_session ::
  "string \<Rightarrow> (start_session_request \<Rightarrow> start_session_request) \<Rightarrow> (start_session_request \<Rightarrow> unit client) \<Rightarrow> unit client" where
  "with_session name change body =
     bindP (create_valid_start_session_request name) (\<lambda>session_request.
     let session_request = change session_request in
     bindP (client_start_session session_request) (\<lambda>r.
     thenP (ASSERT_STATUS r ''StartSession'' True) (body session_request)))"

abbreviation with_advance_session :: "(start_session_request \<Rightarrow> unit client) \<Rightarrow> unit client" where
  "with_advance_session \<equiv> with_session ''advance-state-machine'' id"

text \<open>\<open>FinishEpoch\<close> for an epoch without inputs.\<close>

definition finish_empty_epoch :: "digest \<Rightarrow> hex_decoder \<Rightarrow> id_type \<Rightarrow> u64 \<Rightarrow> unit client" where
  "finish_empty_epoch K hex sid epoch =
     finish_and_validate K hex (init_valid_finish_epoch_request sid epoch 0 []) epoch 0 False"

definition epoch_state_name :: "epoch_state \<Rightarrow> string" where
  "epoch_state_name st = (case st of epoch_active \<Rightarrow> ''ACTIVE'' | epoch_finished \<Rightarrow> ''FINISHED'')"

definition check_empty_epoch_status :: "epoch_status_response \<Rightarrow> id_type \<Rightarrow> u64 \<Rightarrow> epoch_state \<Rightarrow> u64 \<Rightarrow> unit client" where
  "check_empty_epoch_status m sid epoch st pending =
     thenP (ASSERT (es_session_id m = sid) ''status response session_id should be the same as the one created'')
     (thenP (ASSERT (es_epoch_index m = epoch) ''status response epoch_index should be the same as the one created'')
     (thenP (ASSERT (es_state m = st) (''status response state should be '' @ epoch_state_name st))
     (thenP (ASSERT (es_processed_inputs m = []) ''status response processed_inputs size should be 0'')
     (thenP (ASSERT (es_pending_input_count m = pending)
        (''status response pending_input_count should be '' @ u64_to_string pending))
     (ASSERT (es_taint_status m = None) ''status response should not be tainted'')))))"

definition expect_empty_epoch :: "id_type \<Rightarrow> u64 \<Rightarrow> u64 \<Rightarrow> epoch_state \<Rightarrow> unit client" where
  "expect_empty_epoch sid requested epoch st =
     bindP (client_get_epoch_status \<lparr>esr_session_id = sid, esr_epoch_index = requested\<rparr>) (\<lambda>r.
     thenP (ASSERT_STATUS r ''GetEpochStatus'' True)
     (bindP (epoch_status_of r) (\<lambda>m. check_empty_epoch_status m sid epoch st 0)))"

definition expect_session_status :: "id_type \<Rightarrow> u64 \<Rightarrow> nat \<Rightarrow> unit client" where
  "expect_session_status sid active count =
     bindP (client_get_session_status sid) (\<lambda>r.
     thenP (ASSERT_STATUS r ''GetSessionStatus'' True)
     (bindP (session_status_of r) (\<lambda>m.
      thenP (ASSERT (ss_session_id m = sid) ''status response session_id should be the same as the one created'')
      (thenP (ASSERT (ss_active_epoch_index m = active)
         ''status response active_epoch_index should be the same as the one created'')
      (thenP (ASSERT (length (ss_epoch_index m) = count)
         (''status response epoch_indices size should be '' @ nat_to_string count))
      (ASSERT (ss_taint_status m = None) ''status response should not be tainted''))))))"

section \<open>Version and health\<close>

definition version_test :: "unit client" where
  "version_test =
     bindP client_get_version (\<lambda>r.
     thenP (ASSERT_STATUS r ''GetVersion'' True)
     (bindP (version_of r) (\<lambda>m.
      thenP (ASSERT (ver_major m = 0) ''Version Major should be 0'')
        (ASSERT (ver_minor m = 9) ''Version Minor should be 9''))))"

text \<open>The four tests of a serving service differ in the name of the service.\<close>

definition health_serving_test :: "string \<Rightarrow> unit client" where
  "health_serving_test service =
     bindP (client_health_check service) (\<lambda>r.
     thenP (ASSERT_STATUS r ''HealthCheck'' True)
     (bindP (health_of r) (\<lambda>status. ASSERT (status = SERVING) ''Version Major should be 0'')))"

definition health_unknown_test :: "unit client" where
  "health_unknown_test = expect_refusal ''HealthCheck'' NOT_FOUND (client_health_check ''UnknownService'')"

section \<open>Requests whose reply does not depend on the sessions\<close>

definition refused_start :: "(start_session_request \<Rightarrow> start_session_request) \<Rightarrow> unit client" where
  "refused_start change =
     bindP (create_valid_start_session_request ''advance-state-machine'') (\<lambda>session_request.
     expect_refusal ''StartSession'' INVALID_ARGUMENT (client_start_session (change session_request)))"

abbreviation change_cycles :: "(cycles_config_type \<Rightarrow> cycles_config_type) \<Rightarrow> start_session_request \<Rightarrow> start_session_request" where
  "change_cycles f request \<equiv> request\<lparr>ssr_server_cycles := map_option f (ssr_server_cycles request)\<rparr>"

abbreviation change_deadline :: "(deadline_config_type \<Rightarrow> deadline_config_type) \<Rightarrow> start_session_request \<Rightarrow> start_session_request" where
  "change_deadline f request \<equiv> request\<lparr>ssr_server_deadline := map_option f (ssr_server_deadline request)\<rparr>"

definition start_without_session_id :: "unit client" where
  "start_without_session_id = refused_start (\<lambda>request. request\<lparr>ssr_session_id := []\<rparr>)"

definition start_without_machine :: "unit client" where
  "start_without_machine = refused_start (\<lambda>request. request\<lparr>ssr_machine_directory := []\<rparr>)"

definition start_without_cycles :: "unit client" where
  "start_without_cycles = refused_start (\<lambda>request. request\<lparr>ssr_server_cycles := None\<rparr>)"

definition start_zero_max_advance :: "unit client" where
  "start_zero_max_advance = refused_start (change_cycles (\<lambda>c. c\<lparr>max_advance_state := 0\<rparr>))"

definition start_zero_advance_increment :: "unit client" where
  "start_zero_advance_increment = refused_start (change_cycles (\<lambda>c. c\<lparr>advance_state_increment := 0\<rparr>))"

definition start_small_max_advance :: "unit client" where
  "start_small_max_advance =
     refused_start (change_cycles (\<lambda>c. c\<lparr>max_advance_state := advance_state_increment c - 1\<rparr>))"

definition start_zero_max_inspect :: "unit client" where
  "start_zero_max_inspect = refused_start (change_cycles (\<lambda>c. c\<lparr>max_inspect_state := 0\<rparr>))"

definition start_zero_inspect_increment :: "unit client" where
  "start_zero_inspect_increment = refused_start (change_cycles (\<lambda>c. c\<lparr>inspect_state_increment := 0\<rparr>))"

definition start_small_max_inspect :: "unit client" where
  "start_small_max_inspect =
     refused_start (change_cycles (\<lambda>c. c\<lparr>max_inspect_state := inspect_state_increment c - 1\<rparr>))"

definition start_without_deadline :: "unit client" where
  "start_without_deadline = refused_start (\<lambda>request. request\<lparr>ssr_server_deadline := None\<rparr>)"

definition start_small_advance_deadline :: "unit client" where
  "start_small_advance_deadline =
     refused_start (change_deadline (\<lambda>d. d\<lparr>dl_advance_state := dl_advance_state_increment d - 1\<rparr>))"

definition start_small_inspect_deadline :: "unit client" where
  "start_small_inspect_deadline =
     refused_start (change_deadline (\<lambda>d. d\<lparr>dl_inspect_state := dl_inspect_state_increment d - 1\<rparr>))"

definition session_status_unknown_session :: "unit client" where
  "session_status_unknown_session =
     expect_refusal ''GetSessionStatus'' INVALID_ARGUMENT (client_get_session_status ''NON-EXISTENT'')"

definition epoch_status_unknown_session :: "unit client" where
  "epoch_status_unknown_session =
     expect_refusal ''GetEpochStatus'' INVALID_ARGUMENT
       (client_get_epoch_status \<lparr>esr_session_id = ''NON-EXISTENT'', esr_epoch_index = 0\<rparr>)"

definition delete_unknown_session :: "unit client" where
  "delete_unknown_session =
     expect_refusal ''DeleteEpoch'' INVALID_ARGUMENT
       (client_delete_epoch \<lparr>der_session_id = ''NON-EXISTENT'', der_epoch_index = 0\<rparr>)"

definition stateless_tests :: "string \<Rightarrow> unit client list" where
  "stateless_tests service = [version_test, health_serving_test service, health_unknown_test, start_without_session_id, start_without_machine, start_without_cycles,
     start_zero_max_advance, start_zero_advance_increment, start_small_max_advance, start_zero_max_inspect,
     start_zero_inspect_increment, start_small_max_inspect, start_without_deadline, start_small_advance_deadline,
     start_small_inspect_deadline, session_status_unknown_session, epoch_status_unknown_session,
     delete_unknown_session]"

section \<open>Tests on a session without inputs\<close>

definition start_valid :: "unit client" where
  "start_valid = with_advance_session (\<lambda>session_request. end_session (ssr_session_id session_request))"

definition start_same_id :: "unit client" where
  "start_same_id = with_advance_session (\<lambda>session_request.
     thenP (expect_refusal ''StartSession'' ALREADY_EXISTS (client_start_session session_request))
       (end_session (ssr_session_id session_request)))"

text \<open>A session, one \<open>AdvanceState\<close> that is refused, and the end of the session.\<close>

definition refused_advance :: "hex_decoder \<Rightarrow> u64 \<Rightarrow> (advance_state_request \<Rightarrow> advance_state_request) \<Rightarrow> unit client" where
  "refused_advance hex now change = with_advance_session (\<lambda>session_request.
     thenP (expect_refusal ''AdvanceState'' INVALID_ARGUMENT (client_advance_state
       (change (init_valid_advance_state_request hex now (ssr_session_id session_request)
          (ssr_active_epoch_index session_request) 0))))
       (end_session (ssr_session_id session_request)))"

abbreviation change_metadata ::
  "(proto_input_metadata \<Rightarrow> proto_input_metadata) \<Rightarrow> advance_state_request \<Rightarrow> advance_state_request" where
  "change_metadata f request \<equiv> request\<lparr>asr_input_metadata := map_option f (asr_input_metadata request)\<rparr>"

definition advance_unknown_session :: "hex_decoder \<Rightarrow> u64 \<Rightarrow> unit client" where
  "advance_unknown_session hex now = refused_advance hex now (\<lambda>request. request\<lparr>asr_session_id := ''NON-EXISTENT''\<rparr>)"

definition advance_other_epoch :: "hex_decoder \<Rightarrow> u64 \<Rightarrow> unit client" where
  "advance_other_epoch hex now =
     refused_advance hex now (\<lambda>request. request\<lparr>asr_active_epoch_index := asr_active_epoch_index request + 1\<rparr>)"

definition advance_without_metadata :: "hex_decoder \<Rightarrow> u64 \<Rightarrow> unit client" where
  "advance_without_metadata hex now = refused_advance hex now (\<lambda>request. request\<lparr>asr_input_metadata := None\<rparr>)"

definition advance_without_sender :: "hex_decoder \<Rightarrow> u64 \<Rightarrow> unit client" where
  "advance_without_sender hex now = refused_advance hex now (change_metadata (\<lambda>m. m\<lparr>pim_msg_sender := None\<rparr>))"

text \<open>The six characters appended to the sender are those of \<^verbatim>\<open>fafafa\<close>.\<close>

definition advance_long_sender :: "hex_decoder \<Rightarrow> u64 \<Rightarrow> unit client" where
  "advance_long_sender hex now = refused_advance hex now (change_metadata (\<lambda>m.
     m\<lparr>pim_msg_sender := map_option (\<lambda>a. a @ [0x66, 0x61, 0x66, 0x61, 0x66, 0x61]) (pim_msg_sender m)\<rparr>))"

definition advance_finished_epoch :: "digest \<Rightarrow> hex_decoder \<Rightarrow> u64 \<Rightarrow> unit client" where
  "advance_finished_epoch K hex now = with_advance_session (\<lambda>session_request.
     let sid = ssr_session_id session_request; epoch = ssr_active_epoch_index session_request in
     thenP (finish_empty_epoch K hex sid epoch)
     (thenP (expect_refusal ''AdvanceState'' INVALID_ARGUMENT
        (client_advance_state (init_valid_advance_state_request hex now sid epoch 0)))
     (end_session sid)))"

definition advance_epoch_limit :: "digest \<Rightarrow> hex_decoder \<Rightarrow> u64 \<Rightarrow> unit client" where
  "advance_epoch_limit K hex now =
     with_session ''advance-state-machine'' (\<lambda>request. request\<lparr>ssr_active_epoch_index := - 1 - 1\<rparr>) (\<lambda>session_request.
     let sid = ssr_session_id session_request; epoch = ssr_active_epoch_index session_request in
     thenP (finish_empty_epoch K hex sid epoch)
     (thenP (expect_refusal ''AdvanceState'' OUT_OF_RANGE
        (client_advance_state (init_valid_advance_state_request hex now sid (epoch + 1) 0)))
     (end_session sid)))"

text \<open>
  The two tests of inconsistent metadata: a refusal, the end of the epoch, and another request,
  of which only the failure is asserted.
\<close>

definition advance_metadata_epoch :: "digest \<Rightarrow> hex_decoder \<Rightarrow> u64 \<Rightarrow> unit client" where
  "advance_metadata_epoch K hex now = with_advance_session (\<lambda>session_request.
     let sid = ssr_session_id session_request; epoch = ssr_active_epoch_index session_request;
         request = change_metadata (\<lambda>m. m\<lparr>pim_epoch_index := epoch + 1\<rparr>)
           (init_valid_advance_state_request hex now sid epoch 0) in
     thenP (expect_refusal ''AdvanceState'' INVALID_ARGUMENT (client_advance_state request))
     (thenP (finish_empty_epoch K hex sid epoch)
     (bindP (client_advance_state (change_metadata (\<lambda>m. m\<lparr>pim_epoch_index := epoch\<rparr>) request)) (\<lambda>r.
      thenP (ASSERT_STATUS r ''AdvanceState'' False)
      (end_session sid)))))"

definition advance_metadata_index :: "digest \<Rightarrow> hex_decoder \<Rightarrow> u64 \<Rightarrow> unit client" where
  "advance_metadata_index K hex now = with_advance_session (\<lambda>session_request.
     let sid = ssr_session_id session_request; epoch = ssr_active_epoch_index session_request;
         request = init_valid_advance_state_request hex now sid epoch 1 in
     thenP (expect_refusal ''AdvanceState'' INVALID_ARGUMENT (client_advance_state request))
     (thenP (finish_empty_epoch K hex sid epoch)
     (bindP (client_advance_state (change_metadata (\<lambda>m. m\<lparr>pim_epoch_index := epoch + 1\<rparr>) request)) (\<lambda>r.
      thenP (ASSERT_STATUS r ''AdvanceState'' False)
      (end_session sid)))))"

definition session_status_valid :: "unit client" where
  "session_status_valid = with_advance_session (\<lambda>session_request.
     let sid = ssr_session_id session_request; epoch = ssr_active_epoch_index session_request in
     thenP (expect_session_status sid epoch 1) (end_session sid))"

definition session_status_after_finish :: "digest \<Rightarrow> hex_decoder \<Rightarrow> unit client" where
  "session_status_after_finish K hex = with_advance_session (\<lambda>session_request.
     let sid = ssr_session_id session_request; epoch = ssr_active_epoch_index session_request in
     thenP (expect_session_status sid epoch 1)
     (thenP (finish_empty_epoch K hex sid epoch)
     (thenP (expect_session_status sid (epoch + 1) 2)
     (thenP (finish_empty_epoch K hex sid (epoch + 1))
     (thenP (expect_session_status sid (epoch + 2) 3)
     (end_session sid))))))"

definition epoch_status_valid :: "unit client" where
  "epoch_status_valid = with_advance_session (\<lambda>session_request.
     let sid = ssr_session_id session_request; epoch = ssr_active_epoch_index session_request in
     thenP (expect_empty_epoch sid epoch epoch epoch_active) (end_session sid))"

definition epoch_status_unknown_epoch :: "unit client" where
  "epoch_status_unknown_epoch = with_advance_session (\<lambda>session_request.
     let sid = ssr_session_id session_request; epoch = ssr_active_epoch_index session_request in
     thenP (expect_refusal ''GetEpochStatus'' INVALID_ARGUMENT
       (client_get_epoch_status \<lparr>esr_session_id = sid, esr_epoch_index = epoch + 10\<rparr>))
     (end_session sid))"

definition epoch_status_old_epoch :: "digest \<Rightarrow> hex_decoder \<Rightarrow> unit client" where
  "epoch_status_old_epoch K hex = with_advance_session (\<lambda>session_request.
     let sid = ssr_session_id session_request; epoch = ssr_active_epoch_index session_request in
     thenP (finish_empty_epoch K hex sid epoch)
     (thenP (expect_empty_epoch sid epoch epoch epoch_finished)
     (thenP (expect_empty_epoch sid (epoch + 1) (epoch + 1) epoch_active)
     (end_session sid))))"

definition inspect_unknown_session :: "hex_decoder \<Rightarrow> unit client" where
  "inspect_unknown_session hex = with_session ''inspect-state-machine'' id (\<lambda>session_request.
     let sid = ssr_session_id session_request in
     thenP (expect_refusal ''InspectState'' INVALID_ARGUMENT
       (client_inspect_state ((init_valid_inspect_state_request hex sid 0)\<lparr>isr_session_id := ''NON-EXISTENT''\<rparr>)))
     (end_session sid))"

definition finish_valid :: "digest \<Rightarrow> hex_decoder \<Rightarrow> unit client" where
  "finish_valid K hex = with_advance_session (\<lambda>session_request.
     let sid = ssr_session_id session_request; epoch = ssr_active_epoch_index session_request in
     thenP (finish_empty_epoch K hex sid epoch) (end_session sid))"

text \<open>A session, one \<open>FinishEpoch\<close> that is refused, and the end of the session.\<close>

definition refused_finish :: "u64 \<Rightarrow> (finish_epoch_request \<Rightarrow> finish_epoch_request) \<Rightarrow> unit client" where
  "refused_finish count change = with_advance_session (\<lambda>session_request.
     let sid = ssr_session_id session_request; epoch = ssr_active_epoch_index session_request in
     thenP (expect_refusal ''FinishEpoch'' INVALID_ARGUMENT
       (client_finish_epoch (change (init_valid_finish_epoch_request sid epoch count []))))
     (end_session sid))"

definition finish_unknown_session :: "unit client" where
  "finish_unknown_session = refused_finish 0 (\<lambda>request. request\<lparr>fer_session_id := ''NON-EXISTENT''\<rparr>)"

definition finish_other_epoch :: "unit client" where
  "finish_other_epoch =
     refused_finish 0 (\<lambda>request. request\<lparr>fer_active_epoch_index := fer_active_epoch_index request + 10\<rparr>)"

definition finish_wrong_count :: "unit client" where
  "finish_wrong_count = refused_finish 10 id"

definition finish_finished_epoch :: "digest \<Rightarrow> hex_decoder \<Rightarrow> unit client" where
  "finish_finished_epoch K hex = with_advance_session (\<lambda>session_request.
     let sid = ssr_session_id session_request; epoch = ssr_active_epoch_index session_request in
     thenP (finish_empty_epoch K hex sid epoch)
     (thenP (expect_refusal ''FinishEpoch'' INVALID_ARGUMENT
        (client_finish_epoch (init_valid_finish_epoch_request sid epoch 0 [])))
     (end_session sid)))"

definition expect_active_epoch :: "id_type \<Rightarrow> u64 \<Rightarrow> string \<Rightarrow> unit client" where
  "expect_active_epoch sid active msg =
     bindP (client_get_session_status sid) (\<lambda>r.
     thenP (ASSERT_STATUS r ''GetSessionStatus'' True)
     (bindP (session_status_of r) (\<lambda>m. ASSERT (ss_active_epoch_index m = active) msg)))"

definition finish_epoch_limit :: "digest \<Rightarrow> hex_decoder \<Rightarrow> unit client" where
  "finish_epoch_limit K hex =
     with_session ''advance-state-machine'' (\<lambda>request. request\<lparr>ssr_active_epoch_index := - 1 - 1\<rparr>) (\<lambda>session_request.
     let sid = ssr_session_id session_request; epoch = ssr_active_epoch_index session_request in
     thenP (finish_empty_epoch K hex sid epoch)
     (thenP (expect_active_epoch sid (- 1) ''active epoch index should be UINT64_MAX'')
     (thenP (expect_refusal ''FinishEpoch'' OUT_OF_RANGE
        (client_finish_epoch (init_valid_finish_epoch_request sid epoch 0 [])))
     (thenP (expect_active_epoch sid (- 1) ''active epoch index should stop at UINT64_MAX'')
     (end_session sid)))))"

text \<open>The opening of two tests: an epoch is finished, looked at, deleted and looked for. They write its index as 0.\<close>

definition finish_and_delete :: "digest \<Rightarrow> hex_decoder \<Rightarrow> id_type \<Rightarrow> u64 \<Rightarrow> unit client" where
  "finish_and_delete K hex sid epoch =
     thenP (finish_empty_epoch K hex sid epoch)
     (thenP (expect_empty_epoch sid 0 epoch epoch_finished)
     (bindP (client_delete_epoch \<lparr>der_session_id = sid, der_epoch_index = 0\<rparr>) (\<lambda>r.
      thenP (ASSERT_STATUS r ''DeleteEpoch'' True)
      (bindP (client_get_epoch_status \<lparr>esr_session_id = sid, esr_epoch_index = 0\<rparr>) (\<lambda>r.
       ASSERT_STATUS r ''GetEpochStatus'' False)))))"

definition delete_valid :: "digest \<Rightarrow> hex_decoder \<Rightarrow> unit client" where
  "delete_valid K hex = with_advance_session (\<lambda>session_request.
     let sid = ssr_session_id session_request in
     thenP (finish_and_delete K hex sid (ssr_active_epoch_index session_request)) (end_session sid))"

definition refused_delete :: "u64 \<Rightarrow> unit client" where
  "refused_delete offset = with_advance_session (\<lambda>session_request.
     let sid = ssr_session_id session_request; epoch = ssr_active_epoch_index session_request in
     thenP (expect_refusal ''DeleteEpoch'' INVALID_ARGUMENT
       (client_delete_epoch \<lparr>der_session_id = sid, der_epoch_index = epoch + offset\<rparr>))
     (end_session sid))"

definition delete_unknown_epoch :: "unit client" where
  "delete_unknown_epoch = refused_delete 10"

definition delete_active_epoch :: "unit client" where
  "delete_active_epoch = refused_delete 0"

definition delete_erased_epoch :: "digest \<Rightarrow> hex_decoder \<Rightarrow> unit client" where
  "delete_erased_epoch K hex = with_advance_session (\<lambda>session_request.
     let sid = ssr_session_id session_request in
     thenP (finish_and_delete K hex sid (ssr_active_epoch_index session_request))
     (thenP (expect_refusal ''DeleteEpoch'' INVALID_ARGUMENT
        (client_delete_epoch \<lparr>der_session_id = sid, der_epoch_index = 0\<rparr>))
     (end_session sid)))"

definition end_valid :: "unit client" where
  "end_valid = with_advance_session (\<lambda>session_request. end_session (ssr_session_id session_request))"

definition end_unknown_session :: "unit client" where
  "end_unknown_session = with_advance_session (\<lambda>session_request.
     thenP (expect_refusal ''EndSession'' INVALID_ARGUMENT (client_end_session ''NON-EXISTENT''))
       (end_session (ssr_session_id session_request)))"

definition session_tests :: "digest \<Rightarrow> hex_decoder \<Rightarrow> u64 \<Rightarrow> unit client list" where
  "session_tests K hex now = [start_valid, start_same_id, advance_unknown_session hex now, advance_other_epoch hex now,
     advance_without_metadata hex now, advance_without_sender hex now, advance_long_sender hex now,
     advance_finished_epoch K hex now, advance_epoch_limit K hex now, advance_metadata_epoch K hex now,
     advance_metadata_index K hex now, session_status_valid, session_status_after_finish K hex, epoch_status_valid,
     epoch_status_unknown_epoch, epoch_status_old_epoch K hex, inspect_unknown_session hex, finish_valid K hex,
     finish_unknown_session, finish_other_epoch, finish_wrong_count, finish_finished_epoch K hex,
     finish_epoch_limit K hex, delete_valid K hex, delete_unknown_epoch, delete_active_epoch,
     delete_erased_epoch K hex, end_valid, end_unknown_session]"

end
