(* ===== verification/Client_Runs.thy ===== *)
theory Client_Runs
  imports Conversation Client_Tests
begin

text \<open>
  The calls of a client on a session that has taken no input: what each handler replies and how
  it leaves the session, and the corresponding steps of client programs.
\<close>

section \<open>Sessions without inputs\<close>

text \<open>
  The session \<open>sid\<close> has taken no input: its active epoch is \<open>i\<close>, its finished epochs are \<open>F\<close>, all of
  them are empty, and no handler works on it.
\<close>

definition unused :: "digest \<Rightarrow> id_type \<Rightarrow> u64 \<Rightarrow> u64 set \<Rightarrow> handler_context \<Rightarrow> bool" where
  "unused K sid i F h \<longleftrightarrow> completion_queue h = [] \<and> um_find (sessions h) ''NON-EXISTENT'' = None \<and>
     (\<exists>s. um_find (sessions h) sid = Some s \<and> \<not> session_lock s \<and> \<not> processing_lock s \<and> \<not> tainted s \<and>
        server_stub s \<noteq> None \<and> session_ok s \<and> active_epoch_index s = i \<and> processed_input_count s = 0 \<and>
        (\<forall>j. sm_find (epochs s) j \<noteq> None \<longleftrightarrow> j \<in> insert i F) \<and>
        (\<forall>j e. sm_find (epochs s) j = Some e \<longrightarrow> processed_inputs e = [] \<and> pending_inputs e = []) \<and>
        (\<exists>e. sm_find (epochs s) i = Some e \<and> epoch_ok K e \<and> most_recent_machine_hash e \<noteq> []))"

lemma unusedE:
  assumes "unused K sid i F h"
  obtains s e r where "um_find (sessions h) sid = Some s" "\<not> session_lock s" "\<not> processing_lock s" "\<not> tainted s"
    "server_stub s \<noteq> None" "session_ok s" "active_epoch_index s = i" "processed_input_count s = 0"
    "\<And>j. sm_find (epochs s) j \<noteq> None \<longleftrightarrow> j \<in> insert i F"
    "\<And>j e. sm_find (epochs s) j = Some e \<Longrightarrow> processed_inputs e = [] \<and> pending_inputs e = []"
    "sm_find (epochs s) i = Some e" "epoch_ok K e" "most_recent_machine_hash e \<noteq> []" "completion_queue h = []"
    "r = \<lparr>ref_id = sid, ref_object = session_object s\<rparr>" "deref r h = Inr s"
proof -
  obtain s e where *: "um_find (sessions h) sid = Some s" "\<not> session_lock s" "\<not> processing_lock s" "\<not> tainted s"
    "server_stub s \<noteq> None" "session_ok s" "active_epoch_index s = i" "processed_input_count s = 0"
    "\<And>j. sm_find (epochs s) j \<noteq> None \<longleftrightarrow> j \<in> insert i F"
    "\<And>j e. sm_find (epochs s) j = Some e \<Longrightarrow> processed_inputs e = [] \<and> pending_inputs e = []"
    "sm_find (epochs s) i = Some e" "epoch_ok K e" "most_recent_machine_hash e \<noteq> []" "completion_queue h = []"
    using assms unfolding unused_def by blast
  then show thesis using that [of s e "\<lparr>ref_id = sid, ref_object = session_object s\<rparr>"] by (simp add: deref_Inr_iff)
qed

lemma unusedI:
  assumes "unused K sid i F h" "sid \<noteq> ''NON-EXISTENT''" "r = \<lparr>ref_id = sid, ref_object = n\<rparr>"
    and "\<not> session_lock s" "\<not> processing_lock s" "\<not> tainted s" "server_stub s \<noteq> None" "session_ok s"
    "active_epoch_index s = j" "processed_input_count s = 0"
    and "\<And>k. sm_find (epochs s) k \<noteq> None \<longleftrightarrow> k \<in> insert j G"
    "\<And>k e. sm_find (epochs s) k = Some e \<Longrightarrow> processed_inputs e = [] \<and> pending_inputs e = []"
    and "sm_find (epochs s) j = Some e" "epoch_ok K e" "most_recent_machine_hash e \<noteq> []"
  shows "unused K sid j G (assign_session r s h)"
  using assms unfolding unused_def by (simp add: assign_session_def)

lemma unused_relock:
  assumes "unused K sid i F h" "sid \<noteq> ''NON-EXISTENT''" "um_find (sessions h) sid = Some s" "r = \<lparr>ref_id = sid, ref_object = n\<rparr>"
  shows "unused K sid i F (assign_session r (s\<lparr>session_lock_reason := x\<rparr>) h)"
  using assms(1)
proof (rule unusedE)
  fix s' e r'
  assume *: "um_find (sessions h) sid = Some s'" "\<not> session_lock s'" "\<not> processing_lock s'" "\<not> tainted s'"
    "server_stub s' \<noteq> None" "session_ok s'" "active_epoch_index s' = i" "processed_input_count s' = 0"
    "\<And>j. sm_find (epochs s') j \<noteq> None \<longleftrightarrow> j \<in> insert i F"
    "\<And>j e. sm_find (epochs s') j = Some e \<Longrightarrow> processed_inputs e = [] \<and> pending_inputs e = []"
    "sm_find (epochs s') i = Some e" "epoch_ok K e" "most_recent_machine_hash e \<noteq> []"
  have "s' = s" using *(1) assms(3) by simp
  then show ?thesis
    using * by (intro unusedI [OF assms(1,2,4), of _ i F e]) (auto simp: session_ok_def)
qed

text \<open>A session that can be ended: no handler works on it and its active epoch is empty.\<close>

definition closable :: "id_type \<Rightarrow> handler_context \<Rightarrow> bool" where
  "closable sid h \<longleftrightarrow> completion_queue h = [] \<and>
     (\<exists>s e. um_find (sessions h) sid = Some s \<and> \<not> session_lock s \<and> \<not> processing_lock s \<and> \<not> tainted s \<and>
        server_stub s \<noteq> None \<and> sm_find (epochs s) (active_epoch_index s) = Some e \<and>
        pending_inputs e = [] \<and> processed_inputs e = [])"

lemma unused_closable: "unused K sid i F h \<Longrightarrow> closable sid h"
  unfolding unused_def closable_def by blast

section \<open>Refused calls\<close>

text \<open>A refusal leaves the session as it is, up to the reason of its last lock.\<close>

definition refuses_call :: "nat \<Rightarrow> digest \<Rightarrow> string \<Rightarrow> id_type \<Rightarrow> rpc_request \<Rightarrow> status_code \<Rightarrow> handler_context \<Rightarrow> bool" where
  "refuses_call fuel K peer sid req code h \<longleftrightarrow>
     (\<forall>c. \<exists>st h'. handler_of fuel K c True peer req h = Suspend h' (Finish_with_error st) (\<lambda>_ h'. Done h' (Inr ())) \<and>
        error_code st = code \<and> (h' = h \<or> (\<exists>s n x. um_find (sessions h) sid = Some s \<and>
          h' = assign_session \<lparr>ref_id = sid, ref_object = n\<rparr> (s\<lparr>session_lock_reason := x\<rparr>) h)))"

lemma refuses_call_at_once:
  assumes "\<And>c. \<exists>st. handler_of fuel K c True peer req h = Suspend h (Finish_with_error st) (\<lambda>_ h'. Done h' (Inr ())) \<and> error_code st = code"
  shows "refuses_call fuel K peer sid req code h"
  unfolding refuses_call_def using assms by blast

lemma refuses_callI:
  assumes "um_find (sessions h) sid = Some s"
    and "\<And>c. \<exists>st n x. handler_of fuel K c True peer req h = Suspend (assign_session \<lparr>ref_id = sid, ref_object = n\<rparr> (s\<lparr>session_lock_reason := x\<rparr>) h)
      (Finish_with_error st) (\<lambda>_ h'. Done h' (Inr ())) \<and> error_code st = code"
  shows "refuses_call fuel K peer sid req code h"
  unfolding refuses_call_def
proof
  fix c
  obtain st n x where "handler_of fuel K c True peer req h = Suspend (assign_session \<lparr>ref_id = sid, ref_object = n\<rparr> (s\<lparr>session_lock_reason := x\<rparr>) h)
      (Finish_with_error st) (\<lambda>_ h'. Done h' (Inr ()))" "error_code st = code" using assms(2) by blast
  then show "\<exists>st h'. handler_of fuel K c True peer req h = Suspend h' (Finish_with_error st) (\<lambda>_ h'. Done h' (Inr ())) \<and>
        error_code st = code \<and> (h' = h \<or> (\<exists>s n x. um_find (sessions h) sid = Some s \<and>
          h' = assign_session \<lparr>ref_id = sid, ref_object = n\<rparr> (s\<lparr>session_lock_reason := x\<rparr>) h))"
    using assms(1) by blast
qed

lemma refused_unknown_session:
  assumes "rpc_session req = Some i" "um_find (sessions h) i = None"
  shows "refuses_call fuel K peer sid req INVALID_ARGUMENT h"
proof (rule refuses_call_at_once)
  fix c
  have "refuses (handler_of fuel K c True peer req) h {INVALID_ARGUMENT}"
    by (rule handlers_refuse [OF assms(1)]) (rule opening_refuses(1) [OF _ assms(2)])
  then show "\<exists>st. handler_of fuel K c True peer req h = Suspend h (Finish_with_error st) (\<lambda>_ h'. Done h' (Inr ())) \<and>
      error_code st = INVALID_ARGUMENT"
    by (auto simp: refuses_def)
qed

lemma refused_same_id:
  assumes "unused K sid i F h" "sid \<noteq> []" "ssr_session_id req = sid"
  shows "refuses_call fuel K peer sid (StartSession req) ALREADY_EXISTS h"
  using assms(1)
  by (rule unusedE) (use assms(2,3) start_session_refused [of K _ peer req h] in \<open>auto intro!: refuses_call_at_once\<close>)

lemma refused_advance_call:
  assumes u: "unused K sid i F h" and "asr_session_id req = sid" "i \<noteq> - 1"
    and "asr_active_epoch_index req \<noteq> i \<or> asr_current_input_index req \<noteq> 0 \<or>
      (\<exists>st. error_code st = INVALID_ARGUMENT \<and> (\<forall>h. check_input_metadata req 0 h = Done h (Inl (Finish_error_yield_none st))))"
  shows "refuses_call fuel K peer sid (AdvanceState req) INVALID_ARGUMENT h"
  using u
proof (rule unusedE)
  fix s e r
  assume s: "um_find (sessions h) sid = Some s" "\<not> session_lock s" "\<not> processing_lock s" "\<not> tainted s" "session_ok s"
    "active_epoch_index s = i" "processed_input_count s = 0"
    "\<And>j e. sm_find (epochs s) j = Some e \<Longrightarrow> processed_inputs e = [] \<and> pending_inputs e = []"
    "sm_find (epochs s) i = Some e" and r: "r = \<lparr>ref_id = sid, ref_object = session_object s\<rparr>" "deref r h = Inr s"
  let ?h = "entered ''AdvanceState'' peer r s h"
  have d: "deref r ?h = Inr (s\<lparr>session_lock := True, session_lock_reason := get_session_lock_reason ''AdvanceState'' peer\<rparr>)"
    using deref_entered [OF s(1) r(1)] .
  have e: "state e = epoch_active" "pending_inputs e = []" using s(5-9) by (auto simp: session_ok_def)
  have "\<exists>st. error_code st = INVALID_ARGUMENT \<and> enqueue_input req r ?h = Done ?h (Inl (Finish_error_yield_none st))"
    using assms(4) d s(4,6,7,9) e by (auto simp: enqueue_input_def check_not_tainted_def exec Let_def)
  then obtain st where st: "error_code st = INVALID_ARGUMENT" "enqueue_input req r ?h = Done ?h (Inl (Finish_error_yield_none st))" by blast
  have enter: "enter_session ''AdvanceState'' peer sid msg check_epoch_overflow (AdvanceState_body fuel K c req) h =
      Done (assign_session r (s\<lparr>session_lock_reason := get_session_lock_reason ''AdvanceState'' peer\<rparr>) h)
        (Inl (Finish_error_yield_none st))" for c msg
    using st(2) assms(3) s(6)
    by (intro enter_refusal [OF s(1,2) r(1)] check_epoch_overflow_passes [OF r(2)])
      (simp_all add: AdvanceState_body_def bindP_def)
  show ?thesis
    using enter st(1) assms(2) r(1)
    by (intro refuses_callI [OF s(1)]) (auto simp: AdvanceState_handler_def try_catch_def AdvanceState_catch_def
        finish_with_error_def exec suspend_def)
qed

lemma refused_overflow:
  assumes u: "unused K sid (- 1) F h"
  shows "asr_session_id req = sid \<Longrightarrow> refuses_call fuel K peer sid (AdvanceState req) OUT_OF_RANGE h"
    "fer_session_id req' = sid \<Longrightarrow> refuses_call fuel K peer sid (FinishEpoch req') OUT_OF_RANGE h"
proof -
  obtain s where s: "um_find (sessions h) sid = Some s" "active_epoch_index s = - 1" using u by (auto simp: unused_def)
  define r where "r = \<lparr>ref_id = sid, ref_object = session_object s\<rparr>"
  have pre: "check_epoch_overflow r h = Done h (Inl (Finish_error_yield_none (grpc_error OUT_OF_RANGE ''active epoch index will overflow'')))"
    using check_epoch_overflow_cases [of r h s] s by (simp add: r_def deref_Inr_iff)
  note enter = enter_failed_check [where pre = check_epoch_overflow, OF s(1) pre [unfolded r_def]]
  show "asr_session_id req = sid \<Longrightarrow> refuses_call fuel K peer sid (AdvanceState req) OUT_OF_RANGE h"
    using enter by (intro refuses_call_at_once) (simp add: AdvanceState_handler_def try_catch_def AdvanceState_catch_def
        finish_with_error_def exec suspend_def)
  show "fer_session_id req' = sid \<Longrightarrow> refuses_call fuel K peer sid (FinishEpoch req') OUT_OF_RANGE h"
    using enter by (intro refuses_call_at_once) (simp add: FinishEpoch_handler_def report_finish_error)
qed

lemma refused_finish_call:
  assumes u: "unused K sid i F h" and req: "fer_session_id req = sid" "i \<noteq> - 1"
    and "fer_active_epoch_index req \<noteq> i \<or> fer_processed_input_count_within_epoch req \<noteq> 0"
  shows "refuses_call fuel K peer sid (FinishEpoch req) INVALID_ARGUMENT h"
  using u
proof (rule unusedE)
  fix s e r
  assume s: "um_find (sessions h) sid = Some s" "\<not> session_lock s" "\<not> tainted s" "session_ok s"
    "active_epoch_index s = i"
    "\<And>j e. sm_find (epochs s) j = Some e \<Longrightarrow> processed_inputs e = [] \<and> pending_inputs e = []"
    and r: "r = \<lparr>ref_id = sid, ref_object = session_object s\<rparr>" "deref r h = Inr s"
  let ?h = "entered ''FinishEpoch'' peer r s h"
  have d: "deref r ?h = Inr (s\<lparr>session_lock := True, session_lock_reason := get_session_lock_reason ''FinishEpoch'' peer\<rparr>)"
    using deref_entered [OF s(1) r(1)] .
  have "\<exists>st. error_code st = INVALID_ARGUMENT \<and> check_epoch_can_finish req r ?h = Done ?h (Inl (Finish_error_yield_none st))"
    using assms(4) d s(4-6) by (auto simp: check_epoch_can_finish_def exec session_ok_def split: option.splits)
  then obtain st where st: "error_code st = INVALID_ARGUMENT" "check_epoch_can_finish req r ?h = Done ?h (Inl (Finish_error_yield_none st))" by blast
  have "FinishEpoch_handler K c True peer req h =
      Suspend (assign_session r (s\<lparr>session_lock_reason := get_session_lock_reason ''FinishEpoch'' peer\<rparr>) h)
        (Finish_with_error st) (\<lambda>_ h'. Done h' (Inr ()))" for c
    unfolding FinishEpoch_handler_def req(1)
    using st(2) d s(3,5) req(2)
    by (simp, intro report_refusal [OF s(1,2) r(1)] check_epoch_overflow_passes [OF r(2)])
      (simp_all add: check_not_tainted_def exec)
  then show ?thesis using st(1) r(1) by (intro refuses_callI [OF s(1)]) auto
qed

lemma refused_delete_call:
  assumes u: "unused K sid i F h" and "j \<notin> F"
  shows "refuses_call fuel K peer sid (DeleteEpoch \<lparr>der_session_id = sid, der_epoch_index = j\<rparr>) INVALID_ARGUMENT h"
  using u
proof (rule unusedE)
  fix s e r
  assume s: "um_find (sessions h) sid = Some s" "\<not> session_lock s" "active_epoch_index s = i"
    "\<And>j. sm_find (epochs s) j \<noteq> None \<longleftrightarrow> j \<in> insert i F"
    and r: "r = \<lparr>ref_id = sid, ref_object = session_object s\<rparr>"
  show ?thesis
    using delete_epoch_runs [OF s(1,2) r refl refl, of peer j] s(3) s(4) [of j] assms(2) r
    by (intro refuses_callI [OF s(1)]) (auto split: option.splits)
qed

lemma refused_status_call:
  assumes u: "unused K sid i F h" and "j \<notin> insert i F"
  shows "refuses_call fuel K peer sid (GetEpochStatus \<lparr>esr_session_id = sid, esr_epoch_index = j\<rparr>) INVALID_ARGUMENT h"
  using u
proof (rule unusedE)
  fix s e r
  assume s: "um_find (sessions h) sid = Some s" "\<not> session_lock s" "\<And>j. sm_find (epochs s) j \<noteq> None \<longleftrightarrow> j \<in> insert i F"
    and r: "r = \<lparr>ref_id = sid, ref_object = session_object s\<rparr>"
  have "GetEpochStatus_handler True peer \<lparr>esr_session_id = sid, esr_epoch_index = j\<rparr> h =
      Suspend (assign_session r (s\<lparr>session_lock_reason := get_session_lock_reason ''GetEpochStatus'' peer\<rparr>) h)
        (Finish_with_error (grpc_error INVALID_ARGUMENT ''unknown epoch index'')) (\<lambda>_ h'. Done h' (Inr ()))"
    unfolding GetEpochStatus_handler_def
    using s(3) [of j] assms(2) deref_entered [OF s(1) r]
    by (simp, intro report_refusal [OF s(1,2) r]) (simp_all add: exec)
  then show ?thesis using r by (intro refuses_callI [OF s(1)]) auto
qed

section \<open>Calls that succeed\<close>

lemma refuses_answers:
  assumes "\<And>h. unused K sid i F h \<Longrightarrow> refuses_call fuel K peer sid req code h" "sid \<noteq> ''NON-EXISTENT''"
  shows "answers_call fuel K peer (unused K sid i F) req (\<lambda>res h. error_code (cr_status res) = code \<and> unused K sid i F h)"
  unfolding answers_call_def
proof (intro allI impI)
  fix h c assume u: "unused K sid i F h"
  then obtain st h' where h': "handler_of fuel K c True peer req h = Suspend h' (Finish_with_error st) (\<lambda>_ h'. Done h' (Inr ()))"
      "error_code st = code" "h' = h \<or> (\<exists>s n x. um_find (sessions h) sid = Some s \<and>
          h' = assign_session \<lparr>ref_id = sid, ref_object = n\<rparr> (s\<lparr>session_lock_reason := x\<rparr>) h)"
    using assms(1) unfolding refuses_call_def by blast
  have "unused K sid i F h'" using h'(3) u unused_relock [OF u assms(2)] by auto
  moreover from this have "completion_queue h' = []" by (simp add: unused_def)
  ultimately show "\<exists>h1 y k h2 res. handler_of fuel K c True peer req h = Suspend h1 y k \<and> completion_queue h1 = [] \<and>
      reply_of y = Some res \<and> (\<forall>w. k w h1 = Done h2 (Inr ())) \<and> error_code (cr_status res) = code \<and> unused K sid i F h2"
    using h'(1,2) by (intro exI [of _ h'] exI [of _ "Finish_with_error st"] exI [of _ "\<lambda>_ h'. Done h' (Inr ())"]) simp
qed

lemma left_assigned:
  assumes "session_object s = ref_object r"
  shows "left r (assign_session r s h) = Done (assign_session r (s\<lparr>session_lock := False\<rparr>) h) (Inr ())"
  using assms by (simp add: left_cases)

lemma left_entered:
  assumes "\<not> session_lock s" "r = \<lparr>ref_id = sid, ref_object = session_object s\<rparr>"
  shows "left r (entered rpc peer r s h) =
    Done (assign_session r (s\<lparr>session_lock_reason := get_session_lock_reason rpc peer\<rparr>) h) (Inr ())"
proof -
  have "s\<lparr>session_lock := True, session_lock_reason := x\<rparr>\<lparr>session_lock := False\<rparr> = s\<lparr>session_lock_reason := x\<rparr>" for x
    using assms(1) by (cases s) simp
  then show ?thesis using assms(2) by (simp add: entered_def left_assigned)
qed

lemma completion_queue_assign [simp]: "completion_queue (assign_session r s h) = completion_queue h"
  by (simp add: assign_session_def)

lemma answers_locked:
  assumes "\<And>h c. P h \<Longrightarrow> \<exists>r s response. handler_of fuel K c True peer req h =
        Suspend (assign_session r s h) (Finish response) (\<lambda>_ h'. left r h') \<and>
      session_object s = ref_object r \<and> completion_queue h = [] \<and>
      Q response (assign_session r (s\<lparr>session_lock := False\<rparr>) h)"
  shows "answers_call fuel K peer P req
    (\<lambda>res h. \<exists>response. res = \<lparr>cr_status = status_ok, cr_response = Some response\<rparr> \<and> Q response h)"
  unfolding answers_call_def
proof (intro allI impI)
  fix h c assume "P h"
  then obtain r s response where *: "handler_of fuel K c True peer req h =
        Suspend (assign_session r s h) (Finish response) (\<lambda>_ h'. left r h')"
      "session_object s = ref_object r" "completion_queue h = []" "Q response (assign_session r (s\<lparr>session_lock := False\<rparr>) h)"
    using assms by blast
  then show "\<exists>h1 y k h2 res. handler_of fuel K c True peer req h = Suspend h1 y k \<and> completion_queue h1 = [] \<and>
      reply_of y = Some res \<and> (\<forall>w. k w h1 = Done h2 (Inr ())) \<and>
      (\<exists>response. res = \<lparr>cr_status = status_ok, cr_response = Some response\<rparr> \<and> Q response h2)"
    by (intro exI [of _ "assign_session r s h"] exI [of _ "Finish response"] exI [of _ "\<lambda>_ h'. left r h'"]
        exI [of _ "assign_session r (s\<lparr>session_lock := False\<rparr>) h"]) (simp add: left_assigned)
qed

lemma unlocked_reason: "\<not> session_lock s \<Longrightarrow>
  s\<lparr>session_lock := True, session_lock_reason := x\<rparr>\<lparr>session_lock := False\<rparr> = s\<lparr>session_lock_reason := x\<rparr>"
  by (cases s) simp

lemma answers_epoch_status:
  assumes sid: "sid \<noteq> ''NON-EXISTENT''" and j: "j \<in> insert i F"
  shows "answers_call fuel K peer (unused K sid i F) (GetEpochStatus \<lparr>esr_session_id = sid, esr_epoch_index = j\<rparr>)
    (\<lambda>res h. \<exists>response. res = \<lparr>cr_status = status_ok, cr_response = Some response\<rparr> \<and>
       response = Epoch_status \<lparr>es_session_id = sid, es_epoch_index = j,
         es_state = (if j = i then epoch_active else epoch_finished), es_processed_inputs = [],
         es_pending_input_count = 0, es_taint_status = None\<rparr> \<and> unused K sid i F h)"
proof (rule answers_locked)
  fix h c assume u: "unused K sid i F h"
  then show "\<exists>r s response. handler_of fuel K c True peer (GetEpochStatus \<lparr>esr_session_id = sid, esr_epoch_index = j\<rparr>) h =
        Suspend (assign_session r s h) (Finish response) (\<lambda>_ h'. left r h') \<and>
      session_object s = ref_object r \<and> completion_queue h = [] \<and>
      response = Epoch_status \<lparr>es_session_id = sid, es_epoch_index = j,
         es_state = (if j = i then epoch_active else epoch_finished), es_processed_inputs = [],
         es_pending_input_count = 0, es_taint_status = None\<rparr> \<and>
      unused K sid i F (assign_session r (s\<lparr>session_lock := False\<rparr>) h)"
  proof (rule unusedE)
    fix s e r
    assume s: "um_find (sessions h) sid = Some s" "\<not> session_lock s" "\<not> tainted s" "session_ok s" "active_epoch_index s = i"
      "\<And>j. sm_find (epochs s) j \<noteq> None \<longleftrightarrow> j \<in> insert i F"
      "\<And>j e. sm_find (epochs s) j = Some e \<Longrightarrow> processed_inputs e = [] \<and> pending_inputs e = []"
      and r: "r = \<lparr>ref_id = sid, ref_object = session_object s\<rparr>" and q: "completion_queue h = []"
    obtain ej where ej: "sm_find (epochs s) j = Some ej" using s(6) [of j] j by auto
    have st: "state ej = (if j = i then epoch_active else epoch_finished)"
    proof -
      have "state ej = epoch_active \<longleftrightarrow> j = i" using s(4,5) ej unfolding session_ok_def by blast
      then show ?thesis by (cases "state ej") auto
    qed
    show ?thesis
      using epoch_status_runs [OF s(1,2) r ej, of peer] s(3) s(7) [OF ej] st q r unused_relock [OF u sid s(1) r] unlocked_reason [OF s(2)]
      by (intro exI [of _ r] exI [of _ "s\<lparr>session_lock := True, session_lock_reason := get_session_lock_reason ''GetEpochStatus'' peer\<rparr>"])
        (simp add: entered_def taint_report_def)
  qed
qed

lemma answers_session_status:
  assumes sid: "sid \<noteq> ''NON-EXISTENT''"
  shows "answers_call fuel K peer (unused K sid i F) (GetSessionStatus sid)
    (\<lambda>res h. \<exists>response. res = \<lparr>cr_status = status_ok, cr_response = Some response\<rparr> \<and>
       (\<exists>ids. response = Session_status \<lparr>ss_session_id = sid, ss_active_epoch_index = i, ss_epoch_index = ids,
         ss_taint_status = None\<rparr> \<and> length ids = card (insert i F)) \<and> unused K sid i F h)"
proof (rule answers_locked)
  fix h c assume u: "unused K sid i F h"
  then show "\<exists>r s response. handler_of fuel K c True peer (GetSessionStatus sid) h =
        Suspend (assign_session r s h) (Finish response) (\<lambda>_ h'. left r h') \<and>
      session_object s = ref_object r \<and> completion_queue h = [] \<and>
      (\<exists>ids. response = Session_status \<lparr>ss_session_id = sid, ss_active_epoch_index = i, ss_epoch_index = ids,
         ss_taint_status = None\<rparr> \<and> length ids = card (insert i F)) \<and>
      unused K sid i F (assign_session r (s\<lparr>session_lock := False\<rparr>) h)"
  proof (rule unusedE)
    fix s e r
    assume s: "um_find (sessions h) sid = Some s" "\<not> session_lock s" "\<not> tainted s" "session_ok s" "active_epoch_index s = i"
      "\<And>j. sm_find (epochs s) j \<noteq> None \<longleftrightarrow> j \<in> insert i F"
      and r: "r = \<lparr>ref_id = sid, ref_object = session_object s\<rparr>" and q: "completion_queue h = []"
    have valid: "sm_valid (epochs s)" using s(4) by (simp add: session_ok_def)
    note run = session_status_report [OF s(1,2) r valid, of peer]
    have "set (sm_keys (epochs s)) = insert i F" using run s(6) by auto
    moreover have "distinct (sm_keys (epochs s))" using sm.distinct_keys [OF valid] .
    ultimately have "length (sm_keys (epochs s)) = card (insert i F)" using distinct_card by metis
    then show ?thesis
      using run s(3,5) q r unused_relock [OF u sid s(1) r] unlocked_reason [OF s(2)]
      by (intro exI [of _ r] exI [of _ "s\<lparr>session_lock := True, session_lock_reason := get_session_lock_reason ''GetSessionStatus'' peer\<rparr>"])
        (simp add: entered_def taint_report_def)
  qed
qed

lemma answers_delete:
  assumes sid: "sid \<noteq> ''NON-EXISTENT''" and j: "j \<in> F" "j \<noteq> i"
  shows "answers_call fuel K peer (unused K sid i F) (DeleteEpoch \<lparr>der_session_id = sid, der_epoch_index = j\<rparr>)
    (\<lambda>res h. \<exists>response. res = \<lparr>cr_status = status_ok, cr_response = Some response\<rparr> \<and> unused K sid i (F - {j}) h)"
proof (rule answers_locked)
  fix h c assume u: "unused K sid i F h"
  then show "\<exists>r s response. handler_of fuel K c True peer (DeleteEpoch \<lparr>der_session_id = sid, der_epoch_index = j\<rparr>) h =
        Suspend (assign_session r s h) (Finish response) (\<lambda>_ h'. left r h') \<and>
      session_object s = ref_object r \<and> completion_queue h = [] \<and>
      unused K sid i (F - {j}) (assign_session r (s\<lparr>session_lock := False\<rparr>) h)"
  proof (rule unusedE)
    fix s e r
    assume s: "um_find (sessions h) sid = Some s" "\<not> session_lock s" "\<not> processing_lock s" "\<not> tainted s"
      "server_stub s \<noteq> None" "session_ok s" "active_epoch_index s = i" "processed_input_count s = 0"
      "\<And>j. sm_find (epochs s) j \<noteq> None \<longleftrightarrow> j \<in> insert i F"
      "\<And>j e. sm_find (epochs s) j = Some e \<Longrightarrow> processed_inputs e = [] \<and> pending_inputs e = []"
      "sm_find (epochs s) i = Some e" "epoch_ok K e" "most_recent_machine_hash e \<noteq> []"
      and r: "r = \<lparr>ref_id = sid, ref_object = session_object s\<rparr>" and q: "completion_queue h = []"
    obtain ej where ej: "sm_find (epochs s) j = Some ej" using s(9) [of j] j by auto
    have st: "state ej \<noteq> epoch_active" using s(6,7) ej j(2) by (auto simp: session_ok_def)
    have valid: "sm_valid (epochs s)" using s(6) by (simp add: session_ok_def)
    let ?s = "s\<lparr>session_lock := True, session_lock_reason := get_session_lock_reason ''DeleteEpoch'' peer,
      epochs := sm_erase j (epochs s)\<rparr>"
    note find = sm.find_erase [OF valid]
    have "unused K sid i (F - {j}) (assign_session r (?s\<lparr>session_lock := False\<rparr>) h)"
      using s j by (intro unusedI [OF u sid r, of _ i "F - {j}" e])
        (auto simp: find session_ok_def sm.valid_erase [OF valid] split: if_splits)
    then show ?thesis
      using delete_epoch_runs [OF s(1,2) r refl refl, of peer j] ej st s(7) j(2) q r
      by (intro exI [of _ r] exI [of _ ?s]) simp
  qed
qed

lemma answers_finish:
  assumes sid: "sid \<noteq> ''NON-EXISTENT''" and i: "i \<noteq> - 1" and K: "keccak_256 K" and hex: "decodes_pairs hex"
  shows "answers_call fuel K peer (unused K sid i F) (FinishEpoch (init_valid_finish_epoch_request sid i 0 []))
    (\<lambda>res h. \<exists>response. res = \<lparr>cr_status = status_ok, cr_response = Some response\<rparr> \<and>
       (\<exists>m. response = Finish_epoch m \<and> validate_finish_epoch_response K hex m i 0 False = Inr ()) \<and>
       unused K sid (i + 1) (insert i F) h)"
proof (rule answers_locked)
  fix h c assume u: "unused K sid i F h"
  then show "\<exists>r s response. handler_of fuel K c True peer (FinishEpoch (init_valid_finish_epoch_request sid i 0 [])) h =
        Suspend (assign_session r s h) (Finish response) (\<lambda>_ h'. left r h') \<and>
      session_object s = ref_object r \<and> completion_queue h = [] \<and>
      (\<exists>m. response = Finish_epoch m \<and> validate_finish_epoch_response K hex m i 0 False = Inr ()) \<and>
      unused K sid (i + 1) (insert i F) (assign_session r (s\<lparr>session_lock := False\<rparr>) h)"
  proof (rule unusedE)
    fix s e r
    assume s: "um_find (sessions h) sid = Some s" "\<not> session_lock s" "\<not> processing_lock s" "\<not> tainted s"
      "server_stub s \<noteq> None" "session_ok s" "active_epoch_index s = i" "processed_input_count s = 0"
      "\<And>j. sm_find (epochs s) j \<noteq> None \<longleftrightarrow> j \<in> insert i F"
      "\<And>j e. sm_find (epochs s) j = Some e \<Longrightarrow> processed_inputs e = [] \<and> pending_inputs e = []"
      "sm_find (epochs s) i = Some e" "epoch_ok K e" "most_recent_machine_hash e \<noteq> []"
      and r: "r = \<lparr>ref_id = sid, ref_object = session_object s\<rparr>" and q: "completion_queue h = []"
    have e: "processed_inputs e = []" "pending_inputs e = []" using s(10) [OF s(11)] by auto
    have act: "active_epoch_index s \<noteq> - 1" "sm_find (epochs s) (active_epoch_index s) = Some e" using i s(7,11) by simp_all
    have out: "outputs_hashed e" using e(1) by (simp add: outputs_hashed_def)
    have index: "epoch_index e = i" using s(6,11) by (auto simp: session_ok_def)
    obtain s' m where run: "FinishEpoch_handler K c True peer (init_valid_finish_epoch_request sid i 0 []) h =
        Suspend (assign_session r s' h) (Finish (Finish_epoch m)) (\<lambda>_ h'. left r h')"
      and s': "session_ok s'" "active_epoch_index s' = i + 1"
        "s' = s\<lparr>session_lock := True, session_lock_reason := get_session_lock_reason ''FinishEpoch'' peer,
          active_epoch_index := active_epoch_index s', epochs := epochs s'\<rparr>"
        "\<forall>j. j \<noteq> i \<longrightarrow> j \<noteq> i + 1 \<longrightarrow> sm_find (epochs s') j = sm_find (epochs s) j"
        "sm_find (epochs s') i = Some (fst (finish_epoch e))"
      and m: "set_proto_finish_epoch_response (fst (finish_epoch e)) = Inr m"
      and e2: "\<exists>e2. sm_find (epochs s') (i + 1) = Some e2 \<and> epoch_ok K e2 \<and> processed_inputs e2 = [] \<and>
        pending_inputs e2 = [] \<and> most_recent_machine_hash e2 = most_recent_machine_hash e"
      using finish_epoch_runs [OF s(1,2,4) r s(6) act e(2) s(12) out refl, of c peer] e(1) s(7)
      by (auto simp: init_valid_finish_epoch_request_def)
    have "\<exists>m. set_proto_finish_epoch_response (fst (finish_epoch e)) = Inr m \<and>
        validate_finish_epoch_response K hex m (epoch_index e) (of_nat (length (processed_inputs e))) False = Inr ()"
      by (rule expected_response_accepted [OF K hex s(12,13)]) (simp_all add: e(1))
    then have valid: "validate_finish_epoch_response K hex m i 0 False = Inr ()" using m index e(1) by simp
    obtain is' where fin: "finish_epoch e = (e\<lparr>state := epoch_finished, processed_inputs := is'\<rparr>, Inr ())" "is' = []"
      using finish_epoch_ok [OF s(12)] e(1) by auto
    obtain e2 where e2': "sm_find (epochs s') (i + 1) = Some e2" "epoch_ok K e2" "processed_inputs e2 = []"
        "pending_inputs e2 = []" "most_recent_machine_hash e2 \<noteq> []" using e2 s(13) by auto
    have find: "sm_find (epochs s') j = (if j = i + 1 then Some e2 else if j = i then Some (fst (finish_epoch e))
        else sm_find (epochs s) j)" for j using s'(4,5) e2'(1) by simp
    have keys: "sm_find (epochs s') j \<noteq> None \<longleftrightarrow> j \<in> insert (i + 1) (insert i F)" for j
      using s(9) [of j] by (simp add: find)
    have empty: "processed_inputs x = [] \<and> pending_inputs x = []" if "sm_find (epochs s') j = Some x" for j x
      using that s(10) e2'(3,4) fin e(2) by (auto simp: find split: if_splits)
    have flags: "\<not> processing_lock s'" "\<not> tainted s'" "server_stub s' \<noteq> None" "processed_input_count s' = 0"
        "session_object s' = session_object s"
      using s(3,4,5,8) by (subst s'(3), simp)+
    have "unused K sid (i + 1) (insert i F) (assign_session r (s'\<lparr>session_lock := False\<rparr>) h)"
      using flags s'(1,2) keys empty e2' by (intro unusedI [OF u sid r, of _ "i + 1" "insert i F" e2]) (auto simp: session_ok_def)
    then show ?thesis
      using run valid q r flags(5) by (intro exI [of _ r] exI [of _ s'] exI [of _ "Finish_epoch m"]) simp
  qed
qed

section \<open>Steps of client programs\<close>

context client_world
begin

lemma runs_refused:
  assumes "\<And>h. unused K sid i F h \<Longrightarrow> refuses_call fuel K peer sid req code h" "sid \<noteq> ''NON-EXISTENT''" "code \<noteq> OK"
    and "runs (unused K sid i F) (m n)"
  shows "runs (unused K sid i F) (bindP (suspend req) (\<lambda>r. thenP (ASSERT_STATUS r rpc False) m) n)"
    "runs (unused K sid i F) (thenP (expect_refusal rpc code (suspend req)) m n)"
proof -
  have fact: "runs (\<lambda>h. error_code (cr_status res) = code \<and> unused K sid i F h) (f n)"
    if "error_code (cr_status res) = code \<Longrightarrow> runs (unused K sid i F) (f n)" for res f
    by (rule runs_fact) (use that in auto)
  note call = runs_call [OF refuses_answers [OF assms(1,2)]]
  show "runs (unused K sid i F) (bindP (suspend req) (\<lambda>r. thenP (ASSERT_STATUS r rpc False) m) n)"
    using assms(3,4) by (intro call fact) (auto simp: thenP_def assert_status_def is_ok_def intro!: runs_check)
  show "runs (unused K sid i F) (thenP (expect_refusal rpc code (suspend req)) m n)"
    using assms(3,4) unfolding expect_refusal_def thenP_def bindP_assoc
    by (intro call fact) (auto simp: assert_status_def assert_status_code_def is_ok_def intro!: runs_check)
qed

lemma runs_replied:
  assumes "answers_call fuel K peer P req
      (\<lambda>res h. \<exists>response. res = \<lparr>cr_status = status_ok, cr_response = Some response\<rparr> \<and> Q response h)"
    and "\<And>response. runs (Q response) (f \<lparr>cr_status = status_ok, cr_response = Some response\<rparr> n)"
  shows "runs P (bindP (suspend req) (\<lambda>r. bindP (ASSERT_STATUS r rpc True) (\<lambda>_. f r)) n)"
proof (rule runs_call [OF assms(1)])
  fix res
  show "runs (\<lambda>h. \<exists>response. res = \<lparr>cr_status = status_ok, cr_response = Some response\<rparr> \<and> Q response h)
      (bindP (ASSERT_STATUS res rpc True) (\<lambda>_. f res) n)"
  proof (cases "\<exists>response. res = \<lparr>cr_status = status_ok, cr_response = Some response\<rparr>")
    case True
    then obtain response where res: "res = \<lparr>cr_status = status_ok, cr_response = Some response\<rparr>" by blast
    have "runs (Q response) (bindP (ASSERT_STATUS res rpc True) (\<lambda>_. f res) n)"
      using assms(2) res by (intro runs_check) (auto simp: assert_status_def is_ok_def status_ok_def)
    then show ?thesis by (simp add: res)
  next
    case False
    then show ?thesis by (auto simp: passes_from_def)
  qed
qed

lemma runs_finish_empty:
  assumes "sid \<noteq> ''NON-EXISTENT''" "i \<noteq> - 1" "keccak_256 K" "decodes_pairs hex"
    and "runs (unused K sid (i + 1) (insert i F)) (m n)"
  shows "runs (unused K sid i F) (thenP (finish_empty_epoch K hex sid i) m n)"
  unfolding finish_empty_epoch_def finish_and_validate_def client_finish_epoch_def thenP_def bindP_assoc
proof (rule runs_replied [OF answers_finish [OF assms(1-4)]])
  fix response
  show "runs (\<lambda>h. (\<exists>m. response = Finish_epoch m \<and> validate_finish_epoch_response K hex m i 0 False = Inr ()) \<and>
       unused K sid (i + 1) (insert i F) h)
    (bindP (finish_epoch_of \<lparr>cr_status = status_ok, cr_response = Some response\<rparr>)
       (\<lambda>a. bindP (check (validate_finish_epoch_response K hex a i 0 False)) (\<lambda>_. m)) n)"
    by (rule runs_fact)
      (use assms(5) in \<open>auto simp: finish_epoch_of_def intro: runs_check\<close>)
qed

lemma runs_session_status:
  assumes "sid \<noteq> ''NON-EXISTENT''" "card (insert i F) = count" "runs (unused K sid i F) (m n)"
  shows "runs (unused K sid i F) (thenP (expect_session_status sid i count) m n)"
    "runs (unused K sid i F) (thenP (expect_active_epoch sid i msg) m n)"
proof -
  have fact: "runs (\<lambda>h. (\<exists>ids. response = Session_status \<lparr>ss_session_id = sid, ss_active_epoch_index = i,
        ss_epoch_index = ids, ss_taint_status = None\<rparr> \<and> length ids = card (insert i F)) \<and> unused K sid i F h) p"
    if "\<And>ids. response = Session_status \<lparr>ss_session_id = sid, ss_active_epoch_index = i,
        ss_epoch_index = ids, ss_taint_status = None\<rparr> \<Longrightarrow> length ids = count \<Longrightarrow> runs (unused K sid i F) p" for response p
    by (rule runs_fact) (use that assms(2) in auto)
  show "runs (unused K sid i F) (thenP (expect_session_status sid i count) m n)"
    unfolding expect_session_status_def client_get_session_status_def thenP_def bindP_assoc
    by (rule runs_replied [OF answers_session_status [OF assms(1)]], rule fact)
      (use assms(3) in \<open>auto simp: session_status_of_def assert_bool_def intro!: runs_check\<close>)
  show "runs (unused K sid i F) (thenP (expect_active_epoch sid i msg) m n)"
    unfolding expect_active_epoch_def client_get_session_status_def thenP_def bindP_assoc
    by (rule runs_replied [OF answers_session_status [OF assms(1)]], rule fact)
      (use assms(3) in \<open>auto simp: session_status_of_def assert_bool_def intro!: runs_check\<close>)
qed

lemma runs_empty_epoch:
  assumes "sid \<noteq> ''NON-EXISTENT''" "j \<in> insert i F" "st = (if j = i then epoch_active else epoch_finished)"
    and "runs (unused K sid i F) (m n)"
  shows "runs (unused K sid i F) (thenP (expect_empty_epoch sid j j st) m n)"
  unfolding expect_empty_epoch_def client_get_epoch_status_def thenP_def bindP_assoc check_empty_epoch_status_def
proof (rule runs_replied [OF answers_epoch_status [OF assms(1,2)]])
  fix response
  let ?m = "\<lparr>es_session_id = sid, es_epoch_index = j, es_state = (if j = i then epoch_active else epoch_finished),
    es_processed_inputs = [], es_pending_input_count = 0, es_taint_status = None\<rparr>"
  show "runs (\<lambda>h. response = Epoch_status ?m \<and> unused K sid i F h)
    (bindP (epoch_status_of \<lparr>cr_status = status_ok, cr_response = Some response\<rparr>) (\<lambda>a.
       bindP (ASSERT (es_session_id a = sid) ''status response session_id should be the same as the one created'') (\<lambda>_.
       bindP (ASSERT (es_epoch_index a = j) ''status response epoch_index should be the same as the one created'') (\<lambda>_.
       bindP (ASSERT (es_state a = st) (''status response state should be '' @ epoch_state_name st)) (\<lambda>_.
       bindP (ASSERT (es_processed_inputs a = []) ''status response processed_inputs size should be 0'') (\<lambda>_.
       bindP (ASSERT (es_pending_input_count a = 0) (''status response pending_input_count should be '' @ u64_to_string 0)) (\<lambda>_.
       bindP (ASSERT (es_taint_status a = None) ''status response should not be tainted'') (\<lambda>_. m))))))) n)"
    by (rule runs_fact)
      (use assms(3,4) in \<open>auto simp: epoch_status_of_def assert_bool_def intro!: runs_check\<close>)
qed

end

text \<open>The machine server acknowledges a shutdown.\<close>

locale manager_world = client_world +
  assumes shutdown_ok: "world (Machine_call a M_Shutdown d) w \<Longrightarrow> is_ok (call_status w)"
begin

lemma runs_closable: "runs (closable sid) (end_session sid n)"
  unfolding passes_from_def
proof (intro allI impI)
  fix h c assume "closable sid h"
  then obtain s e where s: "um_find (sessions h) sid = Some s" "\<not> session_lock s" "\<not> processing_lock s" "\<not> tainted s"
      "server_stub s \<noteq> None" and q: "completion_queue h = []"
      and e: "sm_find (epochs s) (active_epoch_index s) = Some e" "pending_inputs e = []" "processed_inputs e = []"
    by (auto simp: closable_def)
  define r where "r = \<lparr>ref_id = sid, ref_object = session_object s\<rparr>"
  obtain a where a: "server_stub s = Some a" using s(5) by blast
  let ?h = "entered ''EndSession'' peer r s h" and ?y = "Machine_call a M_Shutdown (dl_fast (server_deadline s))"
  obtain k where k: "EndSession_handler K c True peer sid h = Suspend ?h ?y k"
    "\<forall>w. is_ok (call_status w) \<longrightarrow> (\<exists>k' h2. k w ?h = Suspend h2 (Finish Void_response) k' \<and>
       um_find (sessions h2) sid = None \<and> completion_queue h2 = completion_queue h \<and>
       (\<forall>v h3. um_find (sessions h3) sid = None \<longrightarrow> k' v h3 = Done h3 (Inl dangling)))"
    using end_session_runs [OF s(1,2,4,3) r_def e a, of K c peer] by blast
  let ?res = "\<lparr>cr_status = status_ok, cr_response = Some Void_response\<rparr>"
  have next_h: "\<exists>h2 y2 k2. k w ?h = Suspend h2 y2 k2 \<and> reply_of y2 = Some ?res \<and> completion_queue h2 = [] \<and>
      (\<forall>w. \<exists>h3 r. k2 w h2 = Done h3 r)" if "world ?y w" for w
  proof -
    from k(2) shutdown_ok [OF that] obtain k' h2 where "k w ?h = Suspend h2 (Finish Void_response) k'"
      "um_find (sessions h2) sid = None" "completion_queue h2 = []" "\<forall>v. k' v h2 = Done h2 (Inl dangling)"
      using q by metis
    then show ?thesis by auto
  qed
  have "passes fuel K world peer (idle_server h c) (Suspend n (EndSession sid) (\<lambda>r. ASSERT_STATUS r ''EndSession'' True))"
    using k(1) q
    by (intro passes_last_call [where k = k and y = ?y and res = ?res and n' = n, OF _ _ _ _ responds next_h])
      (auto simp: pauses_def entered_def check_def lift_res_def liftH_def assert_status_def is_ok_def status_ok_def)
  then show "passes fuel K world peer (idle_server h c) (end_session sid n)"
    by (simp add: end_session_def client_end_session_def bindP_def suspend_def)
qed

lemma runs_end: "runs (unused K sid i F) (end_session sid n)"
  using runs_closable unused_closable unfolding passes_from_def by blast

text \<open>A test on a session runs from the moment its \<open>StartSession\<close> was answered with success.\<close>

definition runs_test :: "unit client \<Rightarrow> bool" where
  "runs_test test \<longleftrightarrow> (\<forall>n n' request f response. test n = Suspend n' (StartSession request) f \<longrightarrow>
     runs (unused K (ssr_session_id request) (ssr_active_epoch_index request) {})
       (f \<lparr>cr_status = status_ok, cr_response = Some response\<rparr> n'))"

lemma runs_testI:
  assumes "\<And>n req. req = change (valid_start_session_request n name) \<Longrightarrow>
      runs (unused K (ssr_session_id req) (ssr_active_epoch_index req) {}) (body req (n + 1))"
  shows "runs_test (with_session name change body)"
  unfolding runs_test_def
proof (intro allI impI)
  fix n n' request f response
  assume start: "with_session name change body n = Suspend n' (StartSession request) f"
  have "with_session name change body n = Suspend (n + 1) (StartSession (change (valid_start_session_request n name)))
      (\<lambda>r. thenP (ASSERT_STATUS r ''StartSession'' True) (body (change (valid_start_session_request n name))))"
    by (simp add: with_session_def create_valid_start_session_request_def new_session_id_def client_start_session_def
        Let_def bindP_def suspend_def ret_def)
  with start have eq: "n' = n + 1" "request = change (valid_start_session_request n name)"
    "f = (\<lambda>r. thenP (ASSERT_STATUS r ''StartSession'' True) (body request))" by auto
  show "runs (unused K (ssr_session_id request) (ssr_active_epoch_index request) {})
       (f \<lparr>cr_status = status_ok, cr_response = Some response\<rparr> n')"
    unfolding eq(1,3) thenP_def
    by (rule runs_check [of _ "()"]) (use assms [OF eq(2)] in \<open>simp_all add: assert_status_def is_ok_def status_ok_def\<close>)
qed

end

end
