(* ===== verification/Client_Session_Tests.thy ===== *)
theory Client_Session_Tests
  imports Client_Runs
begin

text \<open>
  The test cases of \<open>Client_Tests\<close> against the server.
\<close>

section \<open>Tests on a session without inputs\<close>

lemma started_unused:
  assumes "started K request s" "ssr_processed_input_count request = 0"
    and "um_find (sessions h) (ssr_session_id request) = Some (s\<lparr>session_lock := False\<rparr>)"
    and "um_find (sessions h) ''NON-EXISTENT'' = None" "completion_queue h = []"
  shows "unused K (ssr_session_id request) (ssr_active_epoch_index request) {} h"
proof -
  obtain e where e: "epochs s = [(active_epoch_index s, e)]" "epoch_ok K e" "processed_inputs e = []" "pending_inputs e = []"
      "length (most_recent_machine_hash e) = hash_size" using assms(1) by (auto simp: started_def)
  have "sm_find (epochs s) j = (if j = active_epoch_index s then Some e else None)" for j
    by (simp add: e(1) sm_find_def)
  then show ?thesis
    using assms e unfolding unused_def started_def
    by (intro conjI exI [of _ "s\<lparr>session_lock := False\<rparr>"] exI [of _ e])
      (auto simp: session_ok_def hash_size_def split: if_splits)
qed

lemma valid_request [simp]:
  "ssr_session_id (valid_start_session_request n name) \<noteq> ''NON-EXISTENT''"
  "ssr_session_id (valid_start_session_request n name) \<noteq> []"
  "ssr_active_epoch_index (valid_start_session_request n name) = 0"
  "ssr_processed_input_count (valid_start_session_request n name) = 0"
  by (simp_all add: valid_start_session_request_def)

lemma valid_advance_request [simp]:
  "asr_session_id (init_valid_advance_state_request hex now sid epoch index) = sid"
  "asr_active_epoch_index (init_valid_advance_state_request hex now sid epoch index) = epoch"
  "asr_current_input_index (init_valid_advance_state_request hex now sid epoch index) = index"
  by (simp_all add: init_valid_advance_state_request_def)

lemma valid_finish_request [simp]:
  "fer_session_id (init_valid_finish_epoch_request sid epoch count dir) = sid"
  "fer_active_epoch_index (init_valid_finish_epoch_request sid epoch count dir) = epoch"
  "fer_processed_input_count_within_epoch (init_valid_finish_epoch_request sid epoch count dir) = count"
  by (simp_all add: init_valid_finish_epoch_request_def)

lemma length_voucher_address:
  assumes "decodes_pairs hex"
  shows "length (get_voucher_address hex index) = 20"
proof -
  have "length s = 40 \<and> set s \<subseteq> set ''0123456789abcdef''" if "s \<in> {INPUT_ADDRESS_1, INPUT_ADDRESS_2}" for s
    using that by (auto simp: INPUT_ADDRESS_1_def INPUT_ADDRESS_2_def)
  then show ?thesis using assms by (simp add: get_voucher_address_def decodes_pairs_def)
qed

lemma refused_metadata_epoch:
  assumes "decodes_pairs hex" "epoch' \<noteq> 0"
  shows "\<exists>st. error_code st = INVALID_ARGUMENT \<and> (\<forall>h. check_input_metadata
    (change_metadata (\<lambda>m. m\<lparr>pim_epoch_index := epoch'\<rparr>) (init_valid_advance_state_request hex now sid epoch index)) 0 h =
      Done h (Inl (Finish_error_yield_none st)))"
  using length_voucher_address [OF assms(1), of index] assms(2)
  by (auto simp: init_valid_advance_state_request_def check_input_metadata_def exec EVM_ADDRESS_LENGTH_def
      get_proto_input_metadata_def get_proto_evm_address_def lift_res_def)

lemmas client_calls =
  client_start_session_def client_advance_state_def client_get_session_status_def client_get_epoch_status_def
  client_inspect_state_def client_finish_epoch_def client_delete_epoch_def client_end_session_def

context manager_world
begin

lemma runs_unknown_session:
  assumes "rpc_session req = Some ''NON-EXISTENT''" "sid \<noteq> ''NON-EXISTENT''" "runs (unused K sid i F) (m n)"
  shows "runs (unused K sid i F) (thenP (expect_refusal rpc INVALID_ARGUMENT (suspend req)) m n)"
proof (rule runs_refused(2))
  fix h assume "unused K sid i F h"
  then show "refuses_call fuel K peer sid req INVALID_ARGUMENT h"
    using assms(1) by (intro refused_unknown_session) (auto simp: unused_def)
qed (use assms in simp_all)

lemma runs_refused_advance:
  assumes "sid \<noteq> ''NON-EXISTENT''" "asr_session_id req = sid" "i \<noteq> - 1"
    and "asr_active_epoch_index req \<noteq> i \<or> asr_current_input_index req \<noteq> 0 \<or>
      (\<exists>st. error_code st = INVALID_ARGUMENT \<and> (\<forall>h. check_input_metadata req 0 h = Done h (Inl (Finish_error_yield_none st))))"
    and "runs (unused K sid i F) (m n)"
  shows "runs (unused K sid i F) (thenP (expect_refusal rpc INVALID_ARGUMENT (suspend (AdvanceState req))) m n)"
    "runs (unused K sid i F) (bindP (suspend (AdvanceState req)) (\<lambda>r. thenP (ASSERT_STATUS r rpc False) m) n)"
  by (rule runs_refused [where code = INVALID_ARGUMENT], rule refused_advance_call [OF _ assms(2-4)],
      use assms(1,5) in simp_all)+

lemma start_tests: "runs_test start_valid" "runs_test end_valid" "runs_test start_same_id" "runs_test end_unknown_session"
  "runs_test (inspect_unknown_session hex)"
  unfolding start_valid_def end_valid_def start_same_id_def end_unknown_session_def inspect_unknown_session_def client_calls Let_def
  by (rule runs_testI, auto intro!: runs_end runs_refused(2) refused_same_id runs_unknown_session)+

lemma refused_advance_test:
  assumes "\<And>sid. asr_session_id (change (init_valid_advance_state_request hex now sid 0 0)) = sid"
    and "\<And>sid. let req = change (init_valid_advance_state_request hex now sid 0 0) in asr_active_epoch_index req \<noteq> 0 \<or>
      (\<exists>st. error_code st = INVALID_ARGUMENT \<and> (\<forall>h. check_input_metadata req 0 h = Done h (Inl (Finish_error_yield_none st))))"
  shows "runs_test (refused_advance hex now change)"
  unfolding refused_advance_def client_calls
  by (rule runs_testI) (use assms in \<open>auto simp: Let_def intro!: runs_refused_advance runs_end\<close>)

lemma refused_advance_tests:
  assumes "decodes_pairs hex"
  shows "runs_test (advance_other_epoch hex now)" "runs_test (advance_without_metadata hex now)"
    "runs_test (advance_without_sender hex now)" "runs_test (advance_long_sender hex now)"
  unfolding advance_other_epoch_def advance_without_metadata_def advance_without_sender_def advance_long_sender_def
  using length_voucher_address [OF assms]
  by (auto intro!: refused_advance_test
      simp: init_valid_advance_state_request_def check_input_metadata_def exec EVM_ADDRESS_LENGTH_def)

lemma advance_unknown_test: "runs_test (advance_unknown_session hex now)"
  unfolding advance_unknown_session_def refused_advance_def client_calls
  by (rule runs_testI) (auto intro!: runs_unknown_session runs_end)

lemma advance_epoch_tests:
  assumes "keccak_256 K" "decodes_pairs hex"
  shows "runs_test (advance_finished_epoch K hex now)" "runs_test (advance_epoch_limit K hex now)"
    "runs_test (advance_metadata_epoch K hex now)" "runs_test (advance_metadata_index K hex now)"
proof -
  show "runs_test (advance_finished_epoch K hex now)"
    unfolding advance_finished_epoch_def client_calls Let_def
    by (rule runs_testI) (auto intro!: runs_finish_empty assms runs_refused_advance runs_end)
  show "runs_test (advance_epoch_limit K hex now)"
    unfolding advance_epoch_limit_def client_calls Let_def
    by (rule runs_testI) (auto intro!: runs_finish_empty assms runs_refused(2) refused_overflow runs_end)
  show "runs_test (advance_metadata_epoch K hex now)"
    unfolding advance_metadata_epoch_def client_calls Let_def
    by (rule runs_testI) (auto intro!: runs_finish_empty assms runs_refused_advance runs_end refused_metadata_epoch)
  show "runs_test (advance_metadata_index K hex now)"
    unfolding advance_metadata_index_def client_calls Let_def
    by (rule runs_testI) (auto intro!: runs_finish_empty assms runs_refused_advance runs_end)
qed

lemma status_tests:
  assumes "keccak_256 K" "decodes_pairs hex"
  shows "runs_test session_status_valid" "runs_test (session_status_after_finish K hex)" "runs_test epoch_status_valid"
    "runs_test epoch_status_unknown_epoch" "runs_test (epoch_status_old_epoch K hex)"
proof -
  show "runs_test session_status_valid"
    unfolding session_status_valid_def Let_def by (rule runs_testI) (auto intro!: runs_session_status(1) runs_end)
  show "runs_test (session_status_after_finish K hex)"
    unfolding session_status_after_finish_def Let_def
    by (rule runs_testI) (auto intro!: runs_session_status(1) runs_finish_empty assms runs_end)
  show "runs_test epoch_status_valid"
    unfolding epoch_status_valid_def Let_def by (rule runs_testI) (auto intro!: runs_empty_epoch runs_end)
  show "runs_test epoch_status_unknown_epoch"
    unfolding epoch_status_unknown_epoch_def client_calls Let_def
    by (rule runs_testI) (auto intro!: runs_refused(2) refused_status_call runs_end)
  show "runs_test (epoch_status_old_epoch K hex)"
    unfolding epoch_status_old_epoch_def Let_def
    by (rule runs_testI) (auto intro!: runs_empty_epoch runs_finish_empty assms runs_end)
qed

lemma finish_tests:
  assumes "keccak_256 K" "decodes_pairs hex"
  shows "runs_test (finish_valid K hex)" "runs_test finish_unknown_session" "runs_test finish_other_epoch"
    "runs_test finish_wrong_count" "runs_test (finish_finished_epoch K hex)" "runs_test (finish_epoch_limit K hex)"
proof -
  show "runs_test (finish_valid K hex)"
    unfolding finish_valid_def client_calls Let_def by (rule runs_testI) (auto intro!: runs_finish_empty assms runs_end)
  show "runs_test finish_unknown_session"
    unfolding finish_unknown_session_def refused_finish_def client_calls Let_def
    by (rule runs_testI) (auto intro!: runs_unknown_session runs_end)
  show "runs_test finish_other_epoch" "runs_test finish_wrong_count"
    unfolding finish_other_epoch_def finish_wrong_count_def refused_finish_def client_calls Let_def
    by (rule runs_testI, auto intro!: runs_refused(2) refused_finish_call runs_end)+
  show "runs_test (finish_finished_epoch K hex)"
    unfolding finish_finished_epoch_def client_calls Let_def
    by (rule runs_testI) (auto intro!: runs_finish_empty assms runs_refused(2) refused_finish_call runs_end)
  show "runs_test (finish_epoch_limit K hex)"
    unfolding finish_epoch_limit_def client_calls Let_def
    by (rule runs_testI) (auto intro!: runs_finish_empty assms runs_session_status(2) runs_refused(2) refused_overflow runs_end)
qed

lemma runs_finish_and_delete:
  assumes "sid \<noteq> ''NON-EXISTENT''" "keccak_256 K" "decodes_pairs hex" "runs (unused K sid 1 {}) (m n)"
  shows "runs (unused K sid 0 {}) (thenP (finish_and_delete K hex sid 0) m n)"
proof -
  have looked: "runs (unused K sid 1 {}) (bindP (suspend (GetEpochStatus \<lparr>esr_session_id = sid, esr_epoch_index = 0\<rparr>))
      (\<lambda>r. thenP (ASSERT_STATUS r ''GetEpochStatus'' False) m) n)"
    by (rule runs_refused(1) [where code = INVALID_ARGUMENT], erule refused_status_call) (use assms(1,4) in auto)
  have deleted: "runs (unused K sid 1 {0}) (bindP (suspend (DeleteEpoch \<lparr>der_session_id = sid, der_epoch_index = 0\<rparr>))
      (\<lambda>r. bindP (ASSERT_STATUS r ''DeleteEpoch'' True) (\<lambda>_. bindP (suspend (GetEpochStatus \<lparr>esr_session_id = sid, esr_epoch_index = 0\<rparr>))
      (\<lambda>r. thenP (ASSERT_STATUS r ''GetEpochStatus'' False) m))) n)"
    by (rule runs_replied [OF answers_delete [OF assms(1)]]) (use looked in simp_all)
  show ?thesis
    using runs_finish_empty [OF assms(1) _ assms(2,3), where i = 0 and F = "{}"]
      runs_empty_epoch [OF assms(1), where j = 0 and i = 1 and F = "{0}" and st = epoch_finished] deleted
    by (simp add: finish_and_delete_def client_calls thenP_def bindP_assoc)
qed

lemma delete_tests:
  assumes "keccak_256 K" "decodes_pairs hex"
  shows "runs_test (delete_valid K hex)" "runs_test delete_unknown_epoch" "runs_test delete_active_epoch"
    "runs_test (delete_erased_epoch K hex)"
proof -
  show "runs_test (delete_valid K hex)"
    unfolding delete_valid_def Let_def by (rule runs_testI) (auto intro!: runs_finish_and_delete assms runs_end)
  show "runs_test delete_unknown_epoch" "runs_test delete_active_epoch"
    unfolding delete_unknown_epoch_def delete_active_epoch_def refused_delete_def client_calls Let_def
    by (rule runs_testI, auto intro!: runs_refused(2) refused_delete_call runs_end)+
  show "runs_test (delete_erased_epoch K hex)"
    unfolding delete_erased_epoch_def client_calls Let_def
    by (rule runs_testI) (auto intro!: runs_finish_and_delete assms runs_refused(2) refused_delete_call runs_end)
qed

end

end
