(* ===== verification/Client_Properties.thy ===== *)
theory Client_Properties
  imports Client_Session_Tests
begin

text \<open>
  What the client programs do with the server: the refusal tests pass in any state, the tests on
  a session pass once it is started, waiting for inputs ends, and an epoch with outputs is finished,
  checked and its session ended.
\<close>

section \<open>The outside world\<close>

text \<open>Any machine server that acknowledges a shutdown.\<close>

definition shuts_down :: "yield_point \<Rightarrow> wake \<Rightarrow> bool" where
  "shuts_down y w = (case y of Machine_call a M_Shutdown d \<Rightarrow> is_ok (call_status w) | _ \<Rightarrow> True)"

lemma is_ok_ok_wake: "is_ok (call_status ok_wake)"
  by (simp add: ok_wake_def is_ok_def status_ok_def)

interpretation run: manager_world fuel K shuts_down peer for fuel K peer
proof
  show "\<exists>w. shuts_down y w" for y
    using is_ok_ok_wake
    by (intro exI [of _ ok_wake]) (simp add: shuts_down_def split: yield_point.split machine_request.split)
  show "is_ok (call_status w)" if "shuts_down (Machine_call a M_Shutdown d) w" for a d w
    using that by (simp add: shuts_down_def)
qed

interpretation any: client_world fuel K "\<lambda>_ _. True" peer for fuel K peer
  by unfold_locales simp

section \<open>Refusal tests\<close>

lemma start_check_refused:
  assumes "ssr_session_id req \<noteq> []" "um_find (sessions h) (ssr_session_id req) = None"
    and "check_start_request req (get_proto_session (next_object h) req) = Inl (Finish_error_yield_none st)"
  shows "\<exists>h'. StartSession_handler K c True peer req h = Suspend h' (Finish_with_error st) (\<lambda>_ h'. Done h' (Inr ())) \<and>
    completion_queue h' = completion_queue h"
proof -
  let ?s = "get_proto_session (next_object h) req"
  define r where "r = \<lparr>ref_id = ssr_session_id req, ref_object = next_object h\<rparr>"
  define h1 where "h1 = h\<lparr>sessions := um_assign (ssr_session_id req) ?s (sessions h), next_object := Suc (next_object h)\<rparr>"
  define S where "S = ?s\<lparr>session_lock := True, session_lock_reason := get_session_lock_reason ''StartSession'' peer\<rparr>"
  have "check_start_request req S = check_start_request req ?s" by (simp add: check_start_request_def S_def)
  then have check: "check_start_request req S = Inl (Finish_error_yield_none st)" using assms(3) by (rule trans)
  have d2: "deref r (assign_session r S h1) = Inr S" by (simp add: S_def r_def get_proto_session_def)
  have "StartSession_body K c peer req h =
      Done (assign_session r (S\<lparr>session_lock := False\<rparr>) h1) (Inl (Finish_error_yield_none st))"
  proof -
    have "bindP (get_session r) (\<lambda>s. thenP (liftH (check_start_request req s)) m) (assign_session r S h1) =
        Done (assign_session r S h1) (Inl (Finish_error_yield_none st))" for m :: "unit handler"
      unfolding bindP_def thenP_def liftH_def get_session_def gets_def d2 by (simp add: check)
    then show ?thesis
      using scope_throw [OF d2, of st]
      unfolding start_session_enters [OF assms(1,2) r_def h1_def S_def, of K c] by (simp del: scope_proc.simps)
  qed
  then show ?thesis
    by (simp add: StartSession_handler_def try_catch_def finish_with_error_def exec suspend_def h1_def assign_session_def)
qed

definition start_refused :: "(start_session_request \<Rightarrow> start_session_request) \<Rightarrow> bool" where
  "start_refused change \<longleftrightarrow> (\<forall>n name k. \<exists>msg. let req = change (valid_start_session_request n name) in
     ssr_session_id req = ssr_session_id (valid_start_session_request n name) \<and>
     check_start_request req (get_proto_session k req) = Inl (Finish_error_yield_none (grpc_error INVALID_ARGUMENT msg)))"

lemma quarter: "mask 62 = (0x3FFFFFFFFFFFFFFF :: u64)"
  by (simp add: mask_eq_exp_minus_1)

lemma start_changes_refused:
  "start_refused (\<lambda>request. request\<lparr>ssr_machine_directory := []\<rparr>)"
  "start_refused (\<lambda>request. request\<lparr>ssr_server_cycles := None\<rparr>)"
  "start_refused (\<lambda>request. request\<lparr>ssr_server_deadline := None\<rparr>)"
  "start_refused (change_cycles (\<lambda>c. c\<lparr>max_advance_state := 0\<rparr>))"
  "start_refused (change_cycles (\<lambda>c. c\<lparr>advance_state_increment := 0\<rparr>))"
  "start_refused (change_cycles (\<lambda>c. c\<lparr>max_advance_state := advance_state_increment c - 1\<rparr>))"
  "start_refused (change_cycles (\<lambda>c. c\<lparr>max_inspect_state := 0\<rparr>))"
  "start_refused (change_cycles (\<lambda>c. c\<lparr>inspect_state_increment := 0\<rparr>))"
  "start_refused (change_cycles (\<lambda>c. c\<lparr>max_inspect_state := inspect_state_increment c - 1\<rparr>))"
  "start_refused (change_deadline (\<lambda>d. d\<lparr>dl_advance_state := dl_advance_state_increment d - 1\<rparr>))"
  "start_refused (change_deadline (\<lambda>d. d\<lparr>dl_inspect_state := dl_inspect_state_increment d - 1\<rparr>))"
  by (simp_all add: start_refused_def Let_def valid_start_session_request_def check_start_request_def get_proto_session_def
      get_proto_cycles_config_def get_proto_deadline_config_def get_machine_directory_def quarter)

text \<open>
  What these tests need of the server: the identifiers of sessions they use are free, and the services are
  registered as \<open>start_server\<close> does.
\<close>

definition unknown_ids :: "u64 \<Rightarrow> string \<Rightarrow> handler_context \<Rightarrow> bool" where
  "unknown_ids n service h \<longleftrightarrow> completion_queue h = [] \<and> um_find (sessions h) ''NON-EXISTENT'' = None \<and>
     um_find (sessions h) (''test_session_request_id:'' @ u64_to_string n) = None \<and>
     um_find (service_health h) service = Some SERVING \<and> um_find (service_health h) ''UnknownService'' = None"

lemma answers_refusal:
  assumes "\<And>h c. P h \<Longrightarrow> \<exists>st h'. handler_of fuel K c True peer req h = Suspend h' (Finish_with_error st) (\<lambda>_ h'. Done h' (Inr ())) \<and>
      completion_queue h' = [] \<and> error_code st = code"
  shows "answers_call fuel K peer P req (\<lambda>res _. error_code (cr_status res) = code \<and> True)"
  unfolding answers_call_def
proof (intro allI impI)
  fix h c assume "P h"
  then obtain st h' where "handler_of fuel K c True peer req h = Suspend h' (Finish_with_error st) (\<lambda>_ h'. Done h' (Inr ()))"
      "completion_queue h' = []" "error_code st = code" using assms by blast
  then show "\<exists>h1 y k h2 res. handler_of fuel K c True peer req h = Suspend h1 y k \<and> completion_queue h1 = [] \<and>
      reply_of y = Some res \<and> (\<forall>w. k w h1 = Done h2 (Inr ())) \<and> error_code (cr_status res) = code \<and> True"
    by (intro exI [of _ h'] exI [of _ "Finish_with_error st"] exI [of _ "\<lambda>_ h'. Done h' (Inr ())"]) simp
qed

context client_world
begin

lemma runs_expect_refusal:
  assumes "answers_call fuel K peer P req (\<lambda>res _. error_code (cr_status res) = code \<and> True)" "code \<noteq> OK"
  shows "runs P (expect_refusal rpc code (suspend req) n)"
  unfolding expect_refusal_def thenP_def
proof (rule runs_call [OF assms(1)], rule runs_fact)
  fix res :: call_result assume "error_code (cr_status res) = code"
  then show "runs (\<lambda>h. True) (bindP (ASSERT_STATUS res rpc False) (\<lambda>_. ASSERT_STATUS_CODE res rpc code) n)"
    using assms(2)
    by (simp add: passes_from_def check_def lift_res_def liftH_def bindP_def assert_status_def assert_status_code_def is_ok_def)
qed

lemma runs_refused_start:
  assumes "start_refused change"
  shows "runs (unknown_ids n service) (refused_start change n)"
proof -
  let ?req = "change (valid_start_session_request n ''advance-state-machine'')"
  have "answers_call fuel K peer (unknown_ids n service) (StartSession ?req) (\<lambda>res _. error_code (cr_status res) = INVALID_ARGUMENT \<and> True)"
  proof (rule answers_refusal)
    fix h c assume h: "unknown_ids n service h"
    obtain msg where m: "ssr_session_id ?req = ssr_session_id (valid_start_session_request n ''advance-state-machine'')"
      "check_start_request ?req (get_proto_session (next_object h) ?req) =
         Inl (Finish_error_yield_none (grpc_error INVALID_ARGUMENT msg))"
      using assms unfolding start_refused_def Let_def by blast
    have "ssr_session_id ?req \<noteq> []" "um_find (sessions h) (ssr_session_id ?req) = None"
      using h m(1) by (simp_all add: unknown_ids_def) (simp add: valid_start_session_request_def)
    then show "\<exists>st h'. handler_of fuel K c True peer (StartSession ?req) h =
        Suspend h' (Finish_with_error st) (\<lambda>_ h'. Done h' (Inr ())) \<and> completion_queue h' = [] \<and> error_code st = INVALID_ARGUMENT"
      using start_check_refused [OF _ _ m(2), of K c peer] h by (auto simp: unknown_ids_def)
  qed
  from runs_expect_refusal [OF this, of "''StartSession''" "n + 1"] show ?thesis
    by (simp add: refused_start_def create_valid_start_session_request_def new_session_id_def bindP_def [of _ _ n]
        ret_def client_start_session_def bindP_def [of _ ret])
qed

lemma runs_unknown:
  assumes "rpc_session req = Some ''NON-EXISTENT''"
  shows "runs (unknown_ids n service) (expect_refusal rpc INVALID_ARGUMENT (suspend req) n)"
proof (rule runs_expect_refusal [OF answers_refusal])
  fix h c assume h: "unknown_ids n service h"
  then show "\<exists>st h'. handler_of fuel K c True peer req h = Suspend h' (Finish_with_error st) (\<lambda>_ h'. Done h' (Inr ())) \<and>
      completion_queue h' = [] \<and> error_code st = INVALID_ARGUMENT"
    using refused_unknown_session [OF assms, of h fuel K peer "''NON-EXISTENT''"] unfolding refuses_call_def unknown_ids_def
    by fastforce
qed simp

lemma runs_version: "runs (unknown_ids n service) (version_test n)"
proof -
  have "answers_call fuel K peer (unknown_ids n service) GetVersion (\<lambda>res _. res =
      \<lparr>cr_status = status_ok, cr_response = Some (Version_response manager_version)\<rparr> \<and> True)"
    by (auto simp: answers_call_def GetVersion_handler_def finish_def bindP_def suspend_def ret_def unknown_ids_def)
  then show ?thesis
    unfolding version_test_def client_get_version_def thenP_def
    by (rule runs_call) (auto intro!: runs_fact simp: passes_from_def check_def lift_res_def liftH_def bindP_def
        assert_status_def is_ok_def status_ok_def version_of_def ret_def manager_version_def assert_bool_def)
qed

lemma runs_start_without_id: "runs (unknown_ids n service) (start_without_session_id n)"
proof -
  let ?req = "(valid_start_session_request n ''advance-state-machine'')\<lparr>ssr_session_id := []\<rparr>"
  have "answers_call fuel K peer (unknown_ids n service) (StartSession ?req) (\<lambda>res _. error_code (cr_status res) = INVALID_ARGUMENT \<and> True)"
    by (rule answers_refusal) (auto simp: start_session_refused unknown_ids_def)
  from runs_expect_refusal [OF this, of "''StartSession''" "n + 1"] show ?thesis
    by (simp add: start_without_session_id_def refused_start_def create_valid_start_session_request_def
        new_session_id_def bindP_def [of _ _ n] ret_def client_start_session_def bindP_def [of _ ret])
qed

lemma runs_health:
  "runs (unknown_ids n service) (health_serving_test service n)" "runs (unknown_ids n service) (health_unknown_test n)"
proof -
  have "answers_call fuel K peer (unknown_ids n service) (Health_Check service) (\<lambda>res _. res =
      \<lparr>cr_status = status_ok, cr_response = Some (Health_check SERVING)\<rparr> \<and> True)"
    by (auto simp: answers_call_def Health_Check_handler_def finish_def exec suspend_def unknown_ids_def)
  then show "runs (unknown_ids n service) (health_serving_test service n)"
    unfolding health_serving_test_def client_health_check_def thenP_def
    by (rule runs_call) (auto intro!: runs_fact simp: passes_from_def check_def lift_res_def liftH_def bindP_def
        assert_status_def is_ok_def status_ok_def health_of_def ret_def assert_bool_def)
  have "answers_call fuel K peer (unknown_ids n service) (Health_Check ''UnknownService'')
      (\<lambda>res _. error_code (cr_status res) = NOT_FOUND \<and> True)"
    by (rule answers_refusal) (auto simp: Health_Check_handler_def finish_with_error_def exec suspend_def unknown_ids_def)
  then show "runs (unknown_ids n service) (health_unknown_test n)"
    unfolding health_unknown_test_def client_health_check_def by (rule runs_expect_refusal) simp
qed

lemma stateless_tests_run:
  assumes "test \<in> set (stateless_tests service)"
  shows "runs (unknown_ids n service) (test n)"
proof -
  note starts = start_changes_refused [THEN runs_refused_start [where n = n and service = service]]
  show ?thesis
    using assms unfolding stateless_tests_def
    by (auto simp: start_without_machine_def start_without_cycles_def start_zero_max_advance_def
        start_zero_advance_increment_def start_small_max_advance_def start_zero_max_inspect_def
        start_zero_inspect_increment_def start_small_max_inspect_def start_without_deadline_def
        start_small_advance_deadline_def start_small_inspect_deadline_def session_status_unknown_session_def
        epoch_status_unknown_session_def delete_unknown_session_def client_calls runs_health
        runs_version runs_start_without_id starts runs_unknown)
qed

end

section \<open>Waiting\<close>

text \<open>At most so many calls, whatever the replies.\<close>

primrec calls_within :: "(u64, rpc_request, call_result, 'a) proc \<Rightarrow> nat \<Rightarrow> bool" where
  "calls_within (Done n r) m = True"
| "calls_within (Suspend n req f) m = (0 < m \<and> (\<forall>res n'. calls_within (f res n') (m - 1)))"

text \<open>What the client has when it stops waiting.\<close>

definition waited :: "bool \<Rightarrow> epoch_status_response \<Rightarrow> bool" where
  "waited accept_tainted m \<longleftrightarrow> (if es_taint_status m = None then es_pending_input_count m = 0 else accept_tainted)"

lemma wait_step:
  "wait_pending_inputs_to_be_processed request accept_tainted retries n =
     Suspend n (GetEpochStatus request) (\<lambda>r n'.
       case assert_status (cr_status r) ''GetEpochStatus'' True of
         Inl x \<Rightarrow> Done n' (Inl (Std_exception x))
       | Inr _ \<Rightarrow>
         (case epoch_status_of r n' of
            Done n' (Inr m) \<Rightarrow>
              if accept_tainted \<and> es_taint_status m \<noteq> None \<or> es_taint_status m = None \<and> es_pending_input_count m = 0
              then Done n' (Inr m)
              else if es_taint_status m = None \<and> 0 < retries
              then wait_pending_inputs_to_be_processed request accept_tainted (retries - 1) n'
              else Done n' (Inl (Std_exception (Runtime_error
                (if es_taint_status m = None then ''wait_pending_inputs_to_be_processed max retries reached''
                 else ''tainted session was not expected: '' @ error_message (the (es_taint_status m))))))
          | p \<Rightarrow> p))"
  by (subst wait_pending_inputs_to_be_processed.simps)
    (auto simp: client_get_epoch_status_def bindP_def thenP_def suspend_def check_def lift_res_def liftH_def fun_eq_iff
      epoch_status_of_def ret_def throw_def assert_bool_def wrong_message_def
      split: sum.split option.split rpc_response.split)

lemma wait_ends:
  "calls_within (wait_pending_inputs_to_be_processed request accept_tainted retries n) (nat retries + 1) \<and>
   wp (\<lambda>_ y _. y = GetEpochStatus request) (\<lambda>_ _ _ _. True) (\<lambda>_ r _. case r of Inr m \<Rightarrow> waited accept_tainted m | Inl x \<Rightarrow> True)
     (wait_pending_inputs_to_be_processed request accept_tainted retries n) n0"
proof (induction "nat retries" arbitrary: retries n n0 rule: less_induct)
  case less
  have again: "calls_within (wait_pending_inputs_to_be_processed request accept_tainted (retries - 1) n') (nat retries) \<and>
     wp (\<lambda>_ y _. y = GetEpochStatus request) (\<lambda>_ _ _ _. True) (\<lambda>_ r _. case r of Inr m \<Rightarrow> waited accept_tainted m | Inl x \<Rightarrow> True)
       (wait_pending_inputs_to_be_processed request accept_tainted (retries - 1) n') n1" if "0 < retries" for n' n1
  proof -
    have "nat (retries - 1) < nat retries" "nat (retries - 1) + 1 = nat retries" using that by simp_all
    then show ?thesis using less [of "retries - 1" n' n1] by simp
  qed
  show ?case
    by (subst (1 2) wait_step) (auto simp: epoch_status_of_def ret_def throw_def waited_def again
        split: sum.split option.split rpc_response.split)
qed

section \<open>Finishing an epoch and ending the session\<close>

text \<open>The active epoch \<open>e\<close> of session \<open>sid\<close> has its inputs processed, with the outputs the client expects.\<close>

definition epoch_settled :: "digest \<Rightarrow> hex_decoder \<Rightarrow> id_type \<Rightarrow> epoch_type \<Rightarrow> handler_context \<Rightarrow> bool" where
  "epoch_settled K hex sid e h \<longleftrightarrow> completion_queue h = [] \<and> epoch_ok K e \<and> pending_inputs e = [] \<and> most_recent_machine_hash e \<noteq> [] \<and>
     (\<forall>k < length (processed_inputs e). \<forall>kind. expected_outputs K hex k (processed_inputs e ! k) kind \<and>
        checkable k (length (hashes_of kind (processed_inputs e ! k)))) \<and>
     (\<forall>k < length (processed_inputs e). \<exists>kind. hashes_of kind (processed_inputs e ! k) \<noteq> []) \<and>
     (\<exists>s. um_find (sessions h) sid = Some s \<and> \<not> session_lock s \<and> \<not> processing_lock s \<and> \<not> tainted s \<and>
        server_stub s \<noteq> None \<and> session_ok s \<and> active_epoch_index s \<noteq> - 1 \<and>
        sm_find (epochs s) (active_epoch_index s) = Some e)"

lemma settledE:
  assumes "epoch_settled K hex sid e h"
  obtains s r where "um_find (sessions h) sid = Some s" "\<not> session_lock s" "\<not> processing_lock s" "\<not> tainted s"
    "server_stub s \<noteq> None" "session_ok s" "active_epoch_index s \<noteq> - 1" "sm_find (epochs s) (active_epoch_index s) = Some e"
    "r = \<lparr>ref_id = sid, ref_object = session_object s\<rparr>" "epoch_index e = active_epoch_index s" "state e = epoch_active"
proof -
  obtain s where *: "um_find (sessions h) sid = Some s" "\<not> session_lock s" "\<not> processing_lock s" "\<not> tainted s"
    "server_stub s \<noteq> None" "session_ok s" "active_epoch_index s \<noteq> - 1" "sm_find (epochs s) (active_epoch_index s) = Some e"
    using assms unfolding epoch_settled_def by blast
  have "epoch_index e = active_epoch_index s" "state e = epoch_active" using *(6,8) by (auto simp: session_ok_def)
  with * show thesis using that by blast
qed

lemma answers_settled_status:
  "answers_call fuel K peer (epoch_settled K hex sid e) (GetEpochStatus \<lparr>esr_session_id = sid, esr_epoch_index = epoch_index e\<rparr>)
    (\<lambda>res h. \<exists>response. res = \<lparr>cr_status = status_ok, cr_response = Some response\<rparr> \<and>
       response = Epoch_status \<lparr>es_session_id = sid, es_epoch_index = epoch_index e, es_state = epoch_active,
         es_processed_inputs = map set_proto_processed_input (processed_inputs e),
         es_pending_input_count = 0, es_taint_status = None\<rparr> \<and> epoch_settled K hex sid e h)"
proof (rule answers_locked)
  fix h c assume u: "epoch_settled K hex sid e h"
  then show "\<exists>r s response. handler_of fuel K c True peer (GetEpochStatus \<lparr>esr_session_id = sid, esr_epoch_index = epoch_index e\<rparr>) h =
        Suspend (assign_session r s h) (Finish response) (\<lambda>_ h'. left r h') \<and>
      session_object s = ref_object r \<and> completion_queue h = [] \<and>
      response = Epoch_status \<lparr>es_session_id = sid, es_epoch_index = epoch_index e, es_state = epoch_active,
         es_processed_inputs = map set_proto_processed_input (processed_inputs e),
         es_pending_input_count = 0, es_taint_status = None\<rparr> \<and>
      epoch_settled K hex sid e (assign_session r (s\<lparr>session_lock := False\<rparr>) h)"
  proof (rule settledE)
    fix s r
    assume s: "um_find (sessions h) sid = Some s" "\<not> session_lock s" "\<not> processing_lock s" "\<not> tainted s"
      "server_stub s \<noteq> None" "session_ok s" "active_epoch_index s \<noteq> - 1" "sm_find (epochs s) (active_epoch_index s) = Some e"
      and r: "r = \<lparr>ref_id = sid, ref_object = session_object s\<rparr>" and e: "epoch_index e = active_epoch_index s" "state e = epoch_active"
    let ?s = "s\<lparr>session_lock := True, session_lock_reason := get_session_lock_reason ''GetEpochStatus'' peer\<rparr>"
    have "epoch_settled K hex sid e (assign_session r (?s\<lparr>session_lock := False\<rparr>) h)"
      using u s r unfolding epoch_settled_def by (simp add: session_ok_def)
    then show ?thesis
      using epoch_status_runs [OF s(1,2) r, of "epoch_index e" e peer] s(4,8) e u r
      by (intro exI [of _ r] exI [of _ ?s]) (simp add: entered_def taint_report_def epoch_settled_def)
  qed
qed

lemma answers_settled_finish:
  assumes K: "keccak_256 K" and hex: "decodes_pairs hex"
  shows "answers_call fuel K peer (epoch_settled K hex sid e)
    (FinishEpoch (init_valid_finish_epoch_request sid (epoch_index e) (of_nat (length (processed_inputs e))) []))
    (\<lambda>res h. \<exists>response. res = \<lparr>cr_status = status_ok, cr_response = Some response\<rparr> \<and>
       (\<exists>m. response = Finish_epoch m \<and> validate_finish_epoch_response K hex m (epoch_index e)
          (of_nat (length (processed_inputs e))) skipped = Inr ()) \<and> closable sid h)"
proof (rule answers_locked)
  fix h c assume u: "epoch_settled K hex sid e h"
  then show "\<exists>r s response. handler_of fuel K c True peer
        (FinishEpoch (init_valid_finish_epoch_request sid (epoch_index e) (of_nat (length (processed_inputs e))) [])) h =
        Suspend (assign_session r s h) (Finish response) (\<lambda>_ h'. left r h') \<and>
      session_object s = ref_object r \<and> completion_queue h = [] \<and>
      (\<exists>m. response = Finish_epoch m \<and> validate_finish_epoch_response K hex m (epoch_index e)
          (of_nat (length (processed_inputs e))) skipped = Inr ()) \<and>
      closable sid (assign_session r (s\<lparr>session_lock := False\<rparr>) h)"
  proof (rule settledE)
    fix s r
    assume s: "um_find (sessions h) sid = Some s" "\<not> session_lock s" "\<not> processing_lock s" "\<not> tainted s"
      "server_stub s \<noteq> None" "session_ok s" "active_epoch_index s \<noteq> - 1" "sm_find (epochs s) (active_epoch_index s) = Some e"
      and r: "r = \<lparr>ref_id = sid, ref_object = session_object s\<rparr>" and index: "epoch_index e = active_epoch_index s"
    have e: "completion_queue h = []" "epoch_ok K e" "pending_inputs e = []" "most_recent_machine_hash e \<noteq> []"
      "\<forall>k < length (processed_inputs e). \<forall>kind. expected_outputs K hex k (processed_inputs e ! k) kind \<and>
        checkable k (length (hashes_of kind (processed_inputs e ! k)))"
      "\<forall>k < length (processed_inputs e). \<exists>kind. hashes_of kind (processed_inputs e ! k) \<noteq> []"
      using u unfolding epoch_settled_def by blast+
    have out: "outputs_hashed e" by (rule expected_outputs_hashed) (use e(5) in blast)
    obtain s' m where run: "FinishEpoch_handler K c True peer (init_valid_finish_epoch_request sid (epoch_index e)
          (of_nat (length (processed_inputs e))) []) h =
        Suspend (assign_session r s' h) (Finish (Finish_epoch m)) (\<lambda>_ h'. left r h')"
      and s': "s' = s\<lparr>session_lock := True, session_lock_reason := get_session_lock_reason ''FinishEpoch'' peer,
          active_epoch_index := active_epoch_index s', epochs := epochs s'\<rparr>"
      and m: "set_proto_finish_epoch_response (fst (finish_epoch e)) = Inr m"
      and e2: "\<exists>e2. sm_find (epochs s') (active_epoch_index s') = Some e2 \<and> processed_inputs e2 = [] \<and> pending_inputs e2 = []"
      using finish_epoch_runs [OF s(1,2,4) r s(6-8) e(3,2) out refl, of c peer] index
      by (auto simp: init_valid_finish_epoch_request_def)
    have flags: "\<not> processing_lock s'" "\<not> tainted s'" "server_stub s' \<noteq> None" "session_object s' = session_object s"
      using s(3-5) by (subst s', simp)+
    have "closable sid (assign_session r (s'\<lparr>session_lock := False\<rparr>) h)"
      using flags e2 e(1) r by (auto simp: closable_def)
    moreover have "validate_finish_epoch_response K hex m (epoch_index e) (of_nat (length (processed_inputs e))) skipped = Inr ()"
      using expected_response_accepted [OF K hex e(2,4-6), of skipped] m by auto
    ultimately show ?thesis
      using run e(1) r flags(4) by (intro exI [of _ r] exI [of _ s'] exI [of _ "Finish_epoch m"]) simp
  qed
qed

context manager_world
begin

lemma settled_closable: "epoch_settled K hex sid e h \<Longrightarrow> processed_inputs e = [] \<Longrightarrow> closable sid h"
  unfolding epoch_settled_def closable_def by blast

lemma runs_driver:
  assumes K: "keccak_256 K" and hex: "decodes_pairs hex"
  shows "runs (epoch_settled K hex sid e) (end_session_after_processing_pending_inputs K hex sid (epoch_index e) False skipped n)"
proof -
  let ?m = "\<lparr>es_session_id = sid, es_epoch_index = epoch_index e, es_state = epoch_active,
    es_processed_inputs = map set_proto_processed_input (processed_inputs e),
    es_pending_input_count = 0, es_taint_status = None\<rparr>"
  define g where "g m = thenP (if (\<not> False \<and> es_taint_status m = None) \<and> es_state m \<noteq> epoch_finished \<and> es_processed_inputs m \<noteq> []
      then finish_and_validate K hex (init_valid_finish_epoch_request sid (epoch_index e)
        (of_nat (length (es_processed_inputs m))) []) (es_epoch_index m) (of_nat (length (es_processed_inputs m))) skipped
      else ret ()) (end_session sid)" for m :: epoch_status_response
  have rest: "runs (epoch_settled K hex sid e) (g ?m n)"
  proof (cases "processed_inputs e = []")
    case True
    then have "runs (epoch_settled K hex sid e) (end_session sid n)"
      using runs_closable [of sid n] settled_closable unfolding passes_from_def by blast
    then show ?thesis using True by (simp add: g_def thenP_def)
  next
    case False
    then show ?thesis
      unfolding g_def finish_and_validate_def client_finish_epoch_def thenP_def
      by (simp add: bindP_assoc, intro runs_replied [OF answers_settled_finish [OF K hex, where skipped = skipped]])
        (auto intro!: runs_fact runs_check simp: finish_epoch_of_def runs_closable)
  qed
  have "runs (epoch_settled K hex sid e) (Suspend n (GetEpochStatus \<lparr>esr_session_id = sid, esr_epoch_index = epoch_index e\<rparr>)
      (\<lambda>r n'. bind_proc (f r n') g))" if "\<And>n'. f \<lparr>cr_status = status_ok, cr_response = Some (Epoch_status ?m)\<rparr> n' = Done n' (Inr ?m)" for f
  proof (rule runs_Suspend [OF answers_settled_status])
    fix res
    show "runs (\<lambda>h. \<exists>response. res = \<lparr>cr_status = status_ok, cr_response = Some response\<rparr> \<and> response = Epoch_status ?m \<and>
        epoch_settled K hex sid e h) (bind_proc (f res n) g)"
      using rest that unfolding passes_from_def by auto
  qed
  then show ?thesis
    unfolding end_session_after_processing_pending_inputs_def bindP_def g_def [symmetric]
    by (subst wait_step) (simp add: assert_status_def is_ok_def status_ok_def epoch_status_of_def ret_def)
qed

end

section \<open>Properties\<close>

text \<open>
  Claim C20. The tests of requests whose reply does not depend on the sessions of the server (the
  version, the health of the services, every refused form of \<open>StartSession\<close>, requests for an unknown session) pass in
  every state of an idle server in which the identifiers they use are free and the services are
  registered, whatever is delivered from outside.
\<close>

theorem stateless_tests_pass:
  assumes "test \<in> set (stateless_tests service)" "unknown_ids n service h"
  shows "passes fuel K (\<lambda>_ _. True) peer (idle_server h c) (test n)"
  using any.stateless_tests_run [OF assms(1), of fuel K peer n] assms(2) by (simp add: passes_from_def)

text \<open>
  Claim C18. The tests on a session without inputs pass. Once \<open>StartSession\<close> was answered with
  success, with the session as it then is, the rest of each of these tests runs to its end without a failed
  assertion: requests for the wrong epoch, input or session are refused with the code the test
  expects, an empty epoch is finished with a response the client accepts, reported and deleted,
  indices at the limit are refused, and the session is ended.
\<close>

theorem session_tests_pass:
  assumes "keccak_256 K" "decodes_pairs hex" "test \<in> set (session_tests K hex now)"
    and "test n = Suspend n' (StartSession request) f"
    and "started K request s" "ssr_processed_input_count request = 0"
    and "um_find (sessions h) (ssr_session_id request) = Some (s\<lparr>session_lock := False\<rparr>)"
    and "um_find (sessions h) ''NON-EXISTENT'' = None" "completion_queue h = []"
  shows "passes fuel K shuts_down peer (idle_server h c) (f \<lparr>cr_status = status_ok, cr_response = Some (Start_session config)\<rparr> n')"
proof -
  have "run.runs_test fuel K peer test"
    using assms(3) unfolding session_tests_def
    by (auto intro: run.start_tests run.refused_advance_tests [OF assms(2)] run.advance_unknown_test
        run.advance_epoch_tests [OF assms(1,2)] run.status_tests [OF assms(1,2)] run.finish_tests [OF assms(1,2)]
        run.delete_tests [OF assms(1,2)])
  then show ?thesis
    using assms(4) started_unused [OF assms(5-9)] unfolding run.runs_test_def passes_from_def by blast
qed

text \<open>
  Claim C19. Waiting for inputs to be processed ends: whatever the server replies, the client makes at
  most one call more than the retries it was given, all of them \<open>GetEpochStatus\<close> for the requested
  epoch, and when it returns a status, no input of the epoch is pending, or the session is
  tainted and the caller accepts that.
\<close>

theorem client_stops_waiting:
  "calls_within (wait_pending_inputs_to_be_processed request accept_tainted retries n) (nat retries + 1) \<and>
   wp (\<lambda>_ y _. y = GetEpochStatus request) (\<lambda>_ _ _ _. True)
     (\<lambda>_ r _. case r of Inr m \<Rightarrow> waited accept_tainted m | Inl x \<Rightarrow> True)
     (wait_pending_inputs_to_be_processed request accept_tainted retries n) n0"
  by (rule wait_ends)

text \<open>
  Claim C5. The client and the manager complete an epoch together: when all inputs of the active epoch
  are processed with the outputs the client expects, it is told so, \<open>FinishEpoch\<close> succeeds, the client
  accepts the roots and all proofs of the response, and \<open>EndSession\<close> succeeds.
\<close>

theorem client_ends_session:
  assumes "keccak_256 K" "decodes_pairs hex" "epoch_settled K hex sid e h"
  shows "passes fuel K shuts_down peer (idle_server h c)
    (end_session_after_processing_pending_inputs K hex sid (epoch_index e) False skipped n)"
  using run.runs_driver [OF assms(1,2), of fuel peer sid e skipped n] assms(3) by (simp add: passes_from_def)

section \<open>Instances\<close>

lemma sample_unknown_ids: "unknown_ids 1 [] sample_context"
  by (simp add: unknown_ids_def sample_context_def um_find_def)

theorem stateless_tests_pass_witness:
  "passes 5 sample_digest (\<lambda>_ _. True) ''peer'' (idle_server sample_context 0) (start_zero_max_advance 1)"
  using stateless_tests_pass [where test = start_zero_max_advance, OF _ sample_unknown_ids] by (simp add: stateless_tests_def)

lemma started_session_exists:
  "\<exists>s. started sample_digest (valid_start_session_request 1 name) s"
proof -
  define d :: memory_range_description_type where "d = \<lparr>desc_index = 0, desc_start = 0, desc_length = 1, desc_log2_size = 0,
    desc_config = \<lparr>cfg_start = 0, cfg_length = 1, cfg_image_filename = [], cfg_shared = False\<rparr>\<rparr>"
  define m where "m = empty_ranges\<lparr>tx_buffer := d, rx_buffer := d, input_metadata := d, voucher_hashes := d, notice_hashes := d\<rparr>"
  have "described d" by (auto simp: described_def d_def valid_range_def intro: exI [of _ 0])
  then have m: "ranges_ok m" by (simp add: ranges_ok_def m_def)
  obtain e where e: "default_epoch sample_digest = Inr e" using default_epoch_Inr [of sample_digest] by blast
  have check: "check_start_request (valid_start_session_request 1 name)
      (get_proto_session 0 (valid_start_session_request 1 name)) = Inr ()"
    by (simp add: valid_start_session_request_def check_start_request_def get_proto_session_def
        get_proto_cycles_config_def get_proto_deadline_config_def get_machine_directory_def quarter)
  show ?thesis
    by (rule exI, rule started_with_first_epoch [OF check m e _ refl refl, of "replicate hash_size 0"]) simp
qed

theorem session_tests_pass_witness:
  "\<exists>h n' request f. finish_valid sample_digest sample_hex 1 = Suspend n' (StartSession request) f \<and>
     um_find (sessions h) (ssr_session_id request) \<noteq> None \<and>
     passes 5 sample_digest shuts_down ''peer'' (idle_server h 0)
       (f \<lparr>cr_status = status_ok, cr_response = Some (Start_session (reply_config ok_wake))\<rparr> n')"
proof -
  let ?req = "valid_start_session_request 1 ''advance-state-machine''"
  obtain s where s: "started sample_digest ?req s" using started_session_exists by blast
  define h where "h = sample_context\<lparr>sessions := [(ssr_session_id ?req, s\<lparr>session_lock := False\<rparr>)]\<rparr>"
  have h: "um_find (sessions h) (ssr_session_id ?req) = Some (s\<lparr>session_lock := False\<rparr>)"
    "um_find (sessions h) ''NON-EXISTENT'' = None" "completion_queue h = []"
    by (simp_all add: h_def um_find_def sample_context_def) (simp add: valid_start_session_request_def)
  obtain n' f where f: "finish_valid sample_digest sample_hex 1 = Suspend n' (StartSession ?req) f"
    by (simp add: finish_valid_def with_session_def create_valid_start_session_request_def new_session_id_def
        client_start_session_def Let_def bindP_def suspend_def ret_def)
  have "finish_valid sample_digest sample_hex \<in> set (session_tests sample_digest sample_hex 0)" by (simp add: session_tests_def)
  from session_tests_pass [OF keccak_256_sample_digest sample_hex(1) this f s _ h, of 5 "''peer''" 0] f h(1)
  show ?thesis by (intro exI [of _ h] exI [of _ n'] exI [of _ ?req] exI [of _ f]) simp
qed

theorem client_ends_session_witness:
  "\<exists>(e :: epoch_type) h. length (processed_inputs e) = 1 \<and> passes 5 sample_digest shuts_down ''peer'' (idle_server h 0)
     (end_session_after_processing_pending_inputs sample_digest sample_hex ''s'' (epoch_index e) False False 1)"
proof -
  obtain e where e: "epoch_ok sample_digest e" "length (processed_inputs e) = 1" "most_recent_machine_hash e \<noteq> []"
      "\<forall>k < length (processed_inputs e). \<forall>kind. expected_outputs sample_digest sample_hex k (processed_inputs e ! k) kind \<and>
        checkable k (length (hashes_of kind (processed_inputs e ! k)))"
      "\<forall>k < length (processed_inputs e). \<exists>kind. hashes_of kind (processed_inputs e ! k) \<noteq> []"
    using checked_epoch by blast
  define e' where "e' = e\<lparr>epoch_index := 4, state := epoch_active, pending_inputs := []\<rparr>"
  define h where "h = sample_context\<lparr>sessions := [(''s'', sample_session\<lparr>epochs := [(4, e')]\<rparr>)]\<rparr>"
  have "session_ok (sample_session\<lparr>epochs := [(4, e')]\<rparr>)"
    by (simp add: session_ok_def sample_session_def sm_valid_def sm_find_def e'_def)
  then have "epoch_settled sample_digest sample_hex ''s'' e' h"
    using e by (simp add: epoch_settled_def h_def sample_context_def um_find_def sample_session_def sm_find_def e'_def epoch_ok_def)
  from client_ends_session [OF keccak_256_sample_digest sample_hex(1) this, of 5 "''peer''" 0 False 1]
  show ?thesis using e(2) by (intro exI [of _ e'] exI [of _ h]) (simp add: e'_def)
qed

end
