(* ===== verification/Spec2Isabelle.thy ===== *)
theory Spec2Isabelle
  imports Back_Tree Input_Liveness Query_Failure Store_Window System_Safety Client_Properties
begin

text \<open>
  Verification of the Cartesi server manager (\<^verbatim>\<open>src/src/\<close>).

  \<^bold>\<open>The program.\<close> The server manager is a gRPC server that keeps \<^emph>\<open>sessions\<close>, each with a remote
  Cartesi machine. Clients start a session, send inputs (\<open>AdvanceState\<close>) and queries
  (\<open>InspectState\<close>), ask for status, finish and delete epochs and end the session. The outputs of
  the inputs of an epoch are committed to in two Merkle trees, from which \<open>FinishEpoch\<close> builds
  validity proofs. Every RPC is handled by a coroutine that runs without interruption until it
  yields for a call to the machine server, for a reply or for another coroutine; the dispatch
  loop of \<open>main\<close> resumes the coroutine the completion queue returns.

  \<^bold>\<open>Theories and sources.\<close>
  \<^item> \<open>Prelude\<close>: the error type of the C++ exceptions the tree code throws, the error monad, bounded
    loops, facts on words and lists.
  \<^item> \<open>Hasher\<close> (\<^verbatim>\<open>i-hasher.h\<close>, \<^verbatim>\<open>cryptopp-keccak-256-hasher.h\<close>): the hasher interface. The hash function
    itself comes from Crypto++ and is the parameter \<open>K\<close>, with the length of a digest as hypothesis.
  \<^item> \<open>Merkle_Spec\<close>: the Merkle tree of a list of leaves, the specification the trees refine.
  \<^item> \<open>Pristine_Tree\<close>, \<open>Merkle_Proof\<close>, \<open>Complete_Tree\<close>, \<open>Back_Tree\<close> (the files of these names): the trees
    and proofs; nodes, roots and proofs agree with the specification, a slice of a proof verifies,
    is refused or runs into an undefined shift, a proof that verifies against a root binds its leaf unless two of the strings hashed
    for the verification and for the tree collide, both trees have the same root.
  \<^item> \<open>Containers\<close>: \<^verbatim>\<open>std::map\<close> and \<^verbatim>\<open>std::unordered_map\<close>, with their laws as a locale.
  \<^item> \<open>Status\<close>, \<open>Coroutine\<close>: statuses and exceptions of the handlers; handlers as trees of
    uninterrupted segments, and a calculus for total correctness under interference: \<open>wp G R Q\<close>
    says that a handler keeps \<open>G\<close> at each yield and establishes \<open>Q\<close> at its end, provided that what
    happens between a yield and the resumption respects \<open>R\<close>.
  \<^item> \<open>Evm_Abi\<close>, \<open>Htif\<close> (\<^verbatim>\<open>htif-defines.h\<close>), \<open>Protobuf_Util\<close> (\<^verbatim>\<open>protobuf-util.cpp\<close>): encodings, register
    fields, memory range checks, conversions of hashes and proofs.
  \<^item> \<open>Session_State\<close>: the structures of \<^verbatim>\<open>server-manager.cpp\<close>, with references into the containers
    that dangle when an element is erased.
  \<^item> \<open>Machine_Client\<close>: the calls to the machine server, \<open>run_machine\<close>, the check-in.
  \<^item> \<open>Epochs\<close>: \<open>finish_epoch\<close>, \<open>start_new_epoch\<close> and the messages built from an epoch; every output has
    its message, with siblings that lead to the hashes of its input and on to the epoch root.
  \<^item> \<open>Rpc\<close>: \<open>auto_lock\<close>, finding and locking a session, reporting exceptions.
  \<^item> \<open>Query_Handlers\<close>, \<open>Epoch_Handlers\<close>, \<open>Start_Session\<close>, \<open>Advance_Inspect\<close>: the handlers.
  \<^item> \<open>Input_Processing\<close>: \<open>process_pending_query\<close> and \<open>process_pending_inputs\<close>.
  \<^item> \<open>Interference\<close>, \<open>Session_Logic\<close>: two logics for handlers that share their session, one for a
    handler that keeps it locked and one, with a rely on how the session evolves, for a handler
    that does not. Both are locales; \<open>Start_Session\<close> interprets the first, \<open>Input_Correctness\<close> and
    \<open>Inspect_Correctness\<close> interpret the second.
  \<^item> \<open>Input_Correctness\<close>, \<open>Input_Liveness\<close>, \<open>Run_Correctness\<close>, \<open>Advance_Correctness\<close>,
    \<open>Inspect_Correctness\<close>, \<open>Query_Failure\<close>: what the result of an input is and how reading outputs
    behaves, that processing returns when the machine server cooperates, that running the machine
    ends, what \<open>AdvanceState\<close> accepts, what \<open>InspectState\<close> reports and leaves unchanged, and what it
    leaves behind when it fails.
  \<^item> \<open>Server\<close>: the RPCs, the dispatch loop with inline resumption, start and shutdown (\<open>main\<close>); requests
    for a locked or unknown session are refused without effect, also in any number.
  \<^item> \<open>Server_Runs\<close>: the states the server reaches with events of a given kind, up to the event that
    ends the process; in all of them, whatever is requested, exceptions stay inside the handlers.
  \<^item> \<open>Ownership\<close>, \<open>Quiet\<close>, \<open>Shared_State\<close>, \<open>Handler_Logic\<close>, \<open>Handler_Steps\<close>, \<open>Start_Steps\<close>,
    \<open>Advance_Steps\<close>, \<open>System_Safety\<close>: all handlers together. A session is owned by the coroutine
    that starts it and by the one that processes its inputs; each handler, a \<open>FinishEpoch\<close> that
    stores the machine apart, is shown to keep the invariant of the shared state (\<open>server_inv\<close>) and
    to leave alone what others own. \<open>Advance_Steps\<close> states what processing inputs adds to an epoch
    while others run. \<open>System_Safety\<close> composes these into theorems over the states reached without
    storing requests, for every order in which the queue returns events: sessions and epochs are
    consistent, \<open>FinishEpoch\<close> answers from there with proofs that verify or refuses, a finished epoch
    changes in its pending query only.
  \<^item> \<open>Store_Window\<close>: the interleaving in which a \<open>FinishEpoch\<close> that stores the machine finishes an
    epoch with an input waiting, and the invariant is lost.
  \<^item> \<open>Client_Verifier\<close>, \<open>Client_Hashes\<close>, \<open>Client_Trees\<close>, \<open>Client_Agreement\<close>
    (\<^verbatim>\<open>test-server-manager.cpp\<close>): the client's own computation of the hashes of an epoch and its
    check of a \<open>FinishEpoch\<close> response. It accepts what the manager builds, acceptance binds the
    outputs, and a response with a displaced output is refused. The hexadecimal decoder of Crypto++
    is the parameter \<open>hex\<close>, with the hypothesis \<open>decodes_pairs\<close>.
  \<^item> \<open>Client_Driver\<close>, \<open>Client_Tests\<close>, \<open>Conversation\<close>, \<open>Client_Runs\<close>, \<open>Client_Session_Tests\<close>,
    \<open>Client_Properties\<close> (\<^verbatim>\<open>test-server-manager.cpp\<close>): the client's requests, waiting loops and test
    cases as programs that talk to the dispatch loop. The locales \<open>client_world\<close> and
    \<open>manager_world\<close> state what such programs need of the server; \<open>Client_Properties\<close> interprets them
    on \<open>Server\<close> and shows that tests pass, that waiting ends and that a session is brought to its end.
    A client sends its next request once the server has seen the end of every earlier reply. The
    message of a failed assertion is kept, its position in the source is not.

  \<^bold>\<open>State and effects.\<close> \<open>handler_context\<close>, \<open>session_type\<close>, \<open>epoch_type\<close> and the smaller structures are
  records with the members of the source; the member \<open>session_object\<close> and the counter
  \<open>next_object\<close> give objects an identity, so that a reference to an erased session is noticed.
  A value of type \<open>handler\<close> takes the context to a process: finished with a result or an
  exception, or suspended at a \<open>yield_point\<close>. Undefined behaviour of C++ (a dangling reference, a
  null stub or coroutine, a shift by 64 or more) is an outcome of its own that no \<open>catch\<close> clause stops. Destructors run
  on return and on every exception (\<open>on_scope_exit\<close>).

  \<^bold>\<open>Bounds.\<close> Integers have the width of the source (\<open>u64\<close>); sums wrap around, and theorems say where
  that matters. Structural recursion follows the loops over containers. The loops of \<open>run_machine\<close>,
  of the two processing functions and of the queue have no bound in the source; in the model
  they take \<open>fuel\<close> and end with \<open>Out_of_fuel\<close> when it is used up. For \<open>run_machine\<close> one round per
  increment is enough (\<open>run_machine_returns\<close>) when the machine runs as far as it is asked. A
  machine that yields outputs forever, or clients that keep sending inputs, keep the other two
  loops running in the source too; their safety theorems hold for every amount of fuel, and one
  more unit of fuel than there are inputs is enough for a queue of rejected inputs
  (\<open>rejected_inputs_return\<close>).

  \<^bold>\<open>What the theorems rely on.\<close> The theorems about a handler that keeps its session locked
  (\<open>start_session_outcome\<close>, \<open>inspect_state_correct\<close>) assume that other handlers leave a locked session
  alone; \<open>session_requests_refused\<close> shows that requests do. The theorems over reachable states and the
  one on processing inputs make no such assumption: the guarantees of all handlers discharge what each
  relies on. They leave out runs in which a \<open>FinishEpoch\<close> request names a storage directory
  (\<open>without_store\<close>): the handler yields while the machine is stored and does not look at the epoch
  again, and \<open>finish_epoch_store_window\<close> shows that the invariant does not survive that. They speak of
  the states up to the event that ends the process, and undefined behaviour may be that event: an
  epoch deleted, a session erased or a stub dropped while \<open>AdvanceState\<close> waits. \<open>advance_state_window\<close>
  and \<open>inspect_state_leaves_query\<close> show two more places where the code does not maintain what its
  handlers rely on. Replies of the machine server are arbitrary unless a theorem says otherwise.

  \<^bold>\<open>Not modelled.\<close> Logging, help and version output and signal handling, which do not touch the
  state; the gRPC runtime, protobuf serialization, Boost and the machine server, which are not
  in the repository; \<^verbatim>\<open>machine-merkle-tree.h\<close>, a declaration without implementation here;
  \<^verbatim>\<open>meta.h\<close>, compile-time predicates; of the test client, the test runner, the test cases whose
  outcome depends on what a particular machine computes or on files, and the scripts that build
  machines. Test cases that go on after a successful \<open>EndSession\<close> are not among those shown to
  pass: the completion of that call writes to an erased session, which is undefined behaviour
  (\<open>end_session_writes_dangling_lock\<close>).

  \<^bold>\<open>Plan.\<close> What is left: that the processing of accepted inputs returns, with their outputs and
  proofs; reachable states with \<open>FinishEpoch\<close> requests that store the machine; the test cases
  that need a machine.
\<close>

end
